(* ===== verification/Prelude.thy ===== *)
theory Prelude
  imports Main "HOL-Library.Word"
begin

unbundle bit_operations_syntax

text \<open>
  Shared vocabulary of the development: machine integers and byte buffers as the C and
  C++ sources use them, the buffer operations \<open>slice\<close> (a sub-range of a buffer) and \<open>blit\<close>
  (what \<^verbatim>\<open>memcpy\<close> into the middle of a buffer leaves behind), the reading of a byte
  sequence as a little- or big-endian word, and the bit-level facts the components share.
  The collection \<open>buffer_simps\<close> holds the rewrite rules about buffers, \<open>byte_word\<close> the rules
  that move between words and their bytes.
\<close>

named_theorems buffer_simps
named_theorems byte_word

type_synonym byte = "8 word"
type_synonym u16 = "16 word"
type_synonym u32 = "32 word"
type_synonym u64 = "64 word"
type_synonym bytes = "byte list"

subsection \<open>Buffers\<close>

definition slice :: "nat \<Rightarrow> nat \<Rightarrow> 'a list \<Rightarrow> 'a list" where
  "slice start n xs = take n (drop start xs)"

definition blit :: "'a list \<Rightarrow> nat \<Rightarrow> 'a list \<Rightarrow> 'a list" where
  "blit dst off src = take off dst @ src @ drop (off + length src) dst"

lemma length_slice [buffer_simps]: "length (slice a n xs) = min n (length xs - a)"
  by (simp add: slice_def)

lemma slice_0 [simp]: "slice a 0 xs = []"
  by (simp add: slice_def)

lemma slice_zero_start [buffer_simps]: "slice 0 n xs = take n xs"
  by (simp add: slice_def)

lemma slice_full [buffer_simps]: "length xs \<le> a + n \<Longrightarrow> slice a n xs = drop a xs"
  by (simp add: slice_def)

lemma slice_append_adjacent: "slice a m xs @ slice (a + m) n xs = slice a (m + n) xs"
  by (simp add: slice_def take_add add.commute)

lemma nth_slice [buffer_simps]: "i < n \<Longrightarrow> a + i < length xs \<Longrightarrow> slice a n xs ! i = xs ! (a + i)"
  by (simp add: slice_def)

lemma slice_slice [buffer_simps]: "b + m \<le> n \<Longrightarrow> slice b m (slice a n xs) = slice (a + b) m xs"
  by (simp add: slice_def drop_take min_def add.commute)

lemma take_slice [buffer_simps]: "take m (slice a n xs) = slice a (min m n) xs"
  by (simp add: slice_def)

lemma drop_slice [buffer_simps]: "drop m (slice a n xs) = slice (a + m) (n - m) xs"
  by (simp add: slice_def drop_take add.commute)

lemma length_blit [buffer_simps]:
  "off + length src \<le> length dst \<Longrightarrow> length (blit dst off src) = length dst"
  by (simp add: blit_def)

lemma slice_blit_same [buffer_simps]:
  "off \<le> length dst \<Longrightarrow> slice off (length src) (blit dst off src) = src"
  by (simp add: blit_def slice_def)

lemma slice_blit_before [buffer_simps]:
  "a + n \<le> off \<Longrightarrow> off \<le> length dst \<Longrightarrow> slice a n (blit dst off src) = slice a n dst"
  by (simp add: blit_def slice_def drop_take min_absorb2)

lemma slice_blit_after [buffer_simps]:
  assumes "off + length src \<le> a" and "off \<le> length dst"
  shows "slice a n (blit dst off src) = slice a n dst"
proof -
  have "drop a (blit dst off src) = drop (a - off - length src) (drop (off + length src) dst)"
    using assms by (simp add: blit_def)
  also have "\<dots> = drop a dst"
    using assms(1) by simp
  finally show ?thesis by (simp add: slice_def)
qed

lemma take_blit [buffer_simps]: "off \<le> length dst \<Longrightarrow> take off (blit dst off src) = take off dst"
  by (simp add: blit_def)

lemma blit_start [buffer_simps]: "blit dst 0 src = src @ drop (length src) dst"
  by (simp add: blit_def)

lemma blit_nil [simp]: "blit dst off [] = dst"
  by (simp add: blit_def)

subsection \<open>Bits of words\<close>

lemma bit_beyond_length [simp]: "LENGTH('a) \<le> n \<Longrightarrow> \<not> bit (w :: 'a::len word) n"
  using bit_imp_le_length by fastforce

lemma all_less_numeral:
  "(\<forall>n<numeral k. P n) \<longleftrightarrow> P (pred_numeral k) \<and> (\<forall>n<pred_numeral k. P n)"
  by (auto simp: numeral_eq_Suc less_Suc_eq)

subsection \<open>Words and their bytes\<close>

fun le_word :: "bytes \<Rightarrow> 'a::len word" where
  "le_word [] = 0"
| "le_word (b # bs) = ucast b OR push_bit 8 (le_word bs)"

definition be_word :: "bytes \<Rightarrow> 'a::len word" where
  "be_word bs = le_word (rev bs)"

definition le_bytes :: "nat \<Rightarrow> 'a::len word \<Rightarrow> bytes" where
  "le_bytes k w = map (\<lambda>i. ucast (drop_bit (8 * i) w)) [0..<k]"

definition be_bytes :: "nat \<Rightarrow> 'a::len word \<Rightarrow> bytes" where
  "be_bytes k w = rev (le_bytes k w)"

lemma length_le_bytes [simp]: "length (le_bytes k w) = k"
  by (simp add: le_bytes_def)

lemma length_be_bytes [simp]: "length (be_bytes k w) = k"
  by (simp add: be_bytes_def)

lemma bit_le_word [byte_word]:
  "bit (le_word bs :: 'a::len word) n \<longleftrightarrow>
     n < LENGTH('a) \<and> n div 8 < length bs \<and> bit (bs ! (n div 8)) (n mod 8)"
proof (induction bs arbitrary: n)
  case Nil
  then show ?case by simp
next
  case (Cons b bs)
  show ?case
  proof (cases "n < 8")
    case True
    then show ?thesis by (auto simp: bit_simps)
  next
    case False
    then obtain m where m: "n = m + 8"
      by (metis add.commute le_add_diff_inverse not_less)
    then have d: "n div 8 = Suc (m div 8)" and r: "n mod 8 = m mod 8"
      by simp_all
    have "\<not> bit b n" using False by simp
    then show ?thesis
      unfolding d r using Cons.IH[of m] m by (auto simp: bit_simps d)
  qed
qed

lemma bit_be_word [byte_word]:
  "bit (be_word bs :: 'a::len word) n \<longleftrightarrow>
     n < LENGTH('a) \<and> n div 8 < length bs \<and> bit (bs ! (length bs - Suc (n div 8))) (n mod 8)"
  by (auto simp: be_word_def bit_le_word rev_nth)

lemma nth_le_bytes [simp]: "i < k \<Longrightarrow> le_bytes k w ! i = ucast (drop_bit (8 * i) w)"
  by (simp add: le_bytes_def)

lemma le_word_le_bytes [byte_word]:
  assumes "LENGTH('a) = 8 * k"
  shows "le_word (le_bytes k w) = (w :: 'a::len word)"
proof (rule bit_word_eqI)
  fix n assume n: "n < LENGTH('a)"
  then have "n div 8 < k" using assms by (simp add: less_mult_imp_div_less mult.commute)
  then show "bit (le_word (le_bytes k w) :: 'a word) n = bit w n"
    using n by (simp add: bit_le_word bit_simps)
qed

lemma be_word_be_bytes [byte_word]:
  "LENGTH('a) = 8 * k \<Longrightarrow> be_word (be_bytes k w) = (w :: 'a::len word)"
  by (simp add: be_word_def be_bytes_def le_word_le_bytes)

lemma le_bytes_le_word [byte_word]:
  assumes "LENGTH('a) = 8 * k" and "length bs = k"
  shows "le_bytes k (le_word bs :: 'a::len word) = bs"
proof (rule nth_equalityI)
  show "length (le_bytes k (le_word bs :: 'a word)) = length bs" using assms by simp
  fix i assume "i < length (le_bytes k (le_word bs :: 'a word))"
  then have i: "i < k" by simp
  have "bit (ucast (drop_bit (8 * i) (le_word bs :: 'a word)) :: byte) n = bit (bs ! i) n"
    if "n < 8" for n
  proof -
    have "(8 * i + n) div 8 = i" and "(8 * i + n) mod 8 = n" using that by simp_all
    moreover have "8 * i + n < LENGTH('a)" using i that assms(1) by simp
    ultimately show ?thesis using i that assms(2) by (simp add: bit_simps bit_le_word)
  qed
  then have "ucast (drop_bit (8 * i) (le_word bs :: 'a word)) = bs ! i"
    by (intro bit_word_eqI) simp
  then show "le_bytes k (le_word bs :: 'a word) ! i = bs ! i" using i by simp
qed

lemma be_bytes_be_word [byte_word]:
  "LENGTH('a) = 8 * k \<Longrightarrow> length bs = k \<Longrightarrow> be_bytes k (be_word bs :: 'a::len word) = bs"
  by (simp add: be_bytes_def be_word_def le_bytes_le_word)

end
