(* ===== verification/Endian.thy ===== *)
theory Endian
  imports Prelude
begin

text \<open>
  \<^verbatim>\<open>arlib/endian.h\<close>: reading and writing fixed-size integers in a chosen byte order on a
  machine of either byte order. The compile-time macro \<^verbatim>\<open>END_BIG\<close> is the argument \<open>end_big\<close>
  of every definition; \<open>native_load\<close> and \<open>native_store\<close> are \<^verbatim>\<open>memcpy\<close> between a byte buffer
  and an integer variable on that machine. The swaps are the portable fallbacks of the header
  (the compilers' intrinsics compute the same function).
\<close>

definition end_swap16 :: "u16 \<Rightarrow> u16" where
  "end_swap16 n = drop_bit 8 n OR push_bit 8 n"

definition end_swap32 :: "u32 \<Rightarrow> u32" where
  "end_swap32 n =
     (let n1 = drop_bit 16 n OR push_bit 16 n
      in push_bit 8 (n1 AND 0x00FF00FF) OR drop_bit 8 (n1 AND 0xFF00FF00))"

definition end_swap64 :: "u64 \<Rightarrow> u64" where
  "end_swap64 n =
     (let n1 = drop_bit 32 n OR push_bit 32 n;
          n2 = push_bit 16 (n1 AND 0x0000FFFF0000FFFF) OR drop_bit 16 (n1 AND 0xFFFF0000FFFF0000)
      in push_bit 8 (n2 AND 0x00FF00FF00FF00FF) OR drop_bit 8 (n2 AND 0xFF00FF00FF00FF00))"

definition native_load :: "bool \<Rightarrow> bytes \<Rightarrow> 'a::len word" where
  "native_load end_big bs = (if end_big then be_word bs else le_word bs)"

definition native_store :: "bool \<Rightarrow> nat \<Rightarrow> 'a::len word \<Rightarrow> bytes" where
  "native_store end_big k n = (if end_big then be_bytes k n else le_bytes k n)"

subsection \<open>Readers\<close>

definition readu_le8 :: "bytes \<Rightarrow> byte" where "readu_le8 inp = inp ! 0"
definition readu_be8 :: "bytes \<Rightarrow> byte" where "readu_be8 inp = inp ! 0"

definition readu_le16 :: "bool \<Rightarrow> bytes \<Rightarrow> u16" where
  "readu_le16 end_big inp =
     (let ret = native_load end_big (take 2 inp) in if end_big then end_swap16 ret else ret)"
definition readu_be16 :: "bool \<Rightarrow> bytes \<Rightarrow> u16" where
  "readu_be16 end_big inp =
     (let ret = native_load end_big (take 2 inp) in if end_big then ret else end_swap16 ret)"
definition readu_le32 :: "bool \<Rightarrow> bytes \<Rightarrow> u32" where
  "readu_le32 end_big inp =
     (let ret = native_load end_big (take 4 inp) in if end_big then end_swap32 ret else ret)"
definition readu_be32 :: "bool \<Rightarrow> bytes \<Rightarrow> u32" where
  "readu_be32 end_big inp =
     (let ret = native_load end_big (take 4 inp) in if end_big then ret else end_swap32 ret)"
definition readu_le64 :: "bool \<Rightarrow> bytes \<Rightarrow> u64" where
  "readu_le64 end_big inp =
     (let ret = native_load end_big (take 8 inp) in if end_big then end_swap64 ret else ret)"
definition readu_be64 :: "bool \<Rightarrow> bytes \<Rightarrow> u64" where
  "readu_be64 end_big inp =
     (let ret = native_load end_big (take 8 inp) in if end_big then ret else end_swap64 ret)"

subsection \<open>Writers\<close>

definition writeu_le8 :: "bytes \<Rightarrow> byte \<Rightarrow> bytes" where "writeu_le8 target n = blit target 0 [n]"
definition writeu_be8 :: "bytes \<Rightarrow> byte \<Rightarrow> bytes" where "writeu_be8 target n = blit target 0 [n]"

definition writeu_le16 :: "bool \<Rightarrow> bytes \<Rightarrow> u16 \<Rightarrow> bytes" where
  "writeu_le16 end_big target n =
     (let n1 = if end_big then end_swap16 n else n in blit target 0 (native_store end_big 2 n1))"
definition writeu_be16 :: "bool \<Rightarrow> bytes \<Rightarrow> u16 \<Rightarrow> bytes" where
  "writeu_be16 end_big target n =
     (let n1 = if end_big then n else end_swap16 n in blit target 0 (native_store end_big 2 n1))"
definition writeu_le32 :: "bool \<Rightarrow> bytes \<Rightarrow> u32 \<Rightarrow> bytes" where
  "writeu_le32 end_big target n =
     (let n1 = if end_big then end_swap32 n else n in blit target 0 (native_store end_big 4 n1))"
definition writeu_be32 :: "bool \<Rightarrow> bytes \<Rightarrow> u32 \<Rightarrow> bytes" where
  "writeu_be32 end_big target n =
     (let n1 = if end_big then n else end_swap32 n in blit target 0 (native_store end_big 4 n1))"
definition writeu_le64 :: "bool \<Rightarrow> bytes \<Rightarrow> u64 \<Rightarrow> bytes" where
  "writeu_le64 end_big target n =
     (let n1 = if end_big then end_swap64 n else n in blit target 0 (native_store end_big 8 n1))"
definition writeu_be64 :: "bool \<Rightarrow> bytes \<Rightarrow> u64 \<Rightarrow> bytes" where
  "writeu_be64 end_big target n =
     (let n1 = if end_big then n else end_swap64 n in blit target 0 (native_store end_big 8 n1))"

text \<open>
  The packers return a fresh \<^verbatim>\<open>sarray\<close>; its storage is uninitialised before the write, which
  fills all of it.
\<close>

definition pack_le8 :: "byte \<Rightarrow> bytes" where "pack_le8 n = writeu_le8 (replicate 1 0) n"
definition pack_be8 :: "byte \<Rightarrow> bytes" where "pack_be8 n = writeu_be8 (replicate 1 0) n"
definition pack_le16 :: "bool \<Rightarrow> u16 \<Rightarrow> bytes" where
  "pack_le16 end_big n = writeu_le16 end_big (replicate 2 0) n"
definition pack_be16 :: "bool \<Rightarrow> u16 \<Rightarrow> bytes" where
  "pack_be16 end_big n = writeu_be16 end_big (replicate 2 0) n"
definition pack_le32 :: "bool \<Rightarrow> u32 \<Rightarrow> bytes" where
  "pack_le32 end_big n = writeu_le32 end_big (replicate 4 0) n"
definition pack_be32 :: "bool \<Rightarrow> u32 \<Rightarrow> bytes" where
  "pack_be32 end_big n = writeu_be32 end_big (replicate 4 0) n"
definition pack_le64 :: "bool \<Rightarrow> u64 \<Rightarrow> bytes" where
  "pack_le64 end_big n = writeu_le64 end_big (replicate 8 0) n"
definition pack_be64 :: "bool \<Rightarrow> u64 \<Rightarrow> bytes" where
  "pack_be64 end_big n = writeu_be64 end_big (replicate 8 0) n"

subsection \<open>The swaps reverse the bytes\<close>

lemma bit_end_swap16 [byte_word]:
  assumes "n < 16"
  shows "bit (end_swap16 w) n \<longleftrightarrow> bit w (8 * (1 - n div 8) + n mod 8)"
proof -
  have "\<forall>n<16. bit (end_swap16 w) n \<longleftrightarrow> bit w (8 * (1 - n div 8) + n mod 8)"
    by (simp add: all_less_numeral end_swap16_def bit_simps flip: numeral_2_eq_2)
  then show ?thesis using assms by blast
qed

lemma bit_end_swap32 [byte_word]:
  assumes "n < 32"
  shows "bit (end_swap32 w) n \<longleftrightarrow> bit w (8 * (3 - n div 8) + n mod 8)"
proof -
  have "\<forall>n<32. bit (end_swap32 w) n \<longleftrightarrow> bit w (8 * (3 - n div 8) + n mod 8)"
    by (simp add: all_less_numeral end_swap32_def bit_simps Let_def flip: numeral_2_eq_2)
  then show ?thesis using assms by blast
qed

lemma bit_end_swap64 [byte_word]:
  assumes "n < 64"
  shows "bit (end_swap64 w) n \<longleftrightarrow> bit w (8 * (7 - n div 8) + n mod 8)"
proof -
  have "\<forall>n<64. bit (end_swap64 w) n \<longleftrightarrow> bit w (8 * (7 - n div 8) + n mod 8)"
    by (simp add: all_less_numeral end_swap64_def bit_simps Let_def flip: numeral_2_eq_2)
  then show ?thesis using assms by blast
qed

lemma be_word_swapped:
  assumes swap: "\<And>n. n < LENGTH('a) \<Longrightarrow> bit (f (le_word bs)) n =
      bit (le_word bs :: 'a::len word) (8 * (k - 1 - n div 8) + n mod 8)"
    and len: "length bs = k" "LENGTH('a) = 8 * k"
  shows "f (le_word bs) = (be_word bs :: 'a word)"
proof (rule bit_word_eqI)
  fix n assume n: "n < LENGTH('a)"
  define q where "q = k - 1 - n div 8"
  have dk: "n div 8 < k" using n len by (simp add: less_mult_imp_div_less mult.commute)
  then have q: "q < k" by (simp add: q_def)
  have "n mod 8 < 8" by simp
  then have lt: "8 * q + n mod 8 < 8 * k" using q by linarith
  have "bit (f (le_word bs)) n \<longleftrightarrow> bit (bs ! q) (n mod 8)"
    using swap[OF n] lt len q by (simp add: bit_le_word q_def)
  then show "bit (f (le_word bs)) n = bit (be_word bs :: 'a word) n"
    using n len dk by (simp add: bit_be_word q_def)
qed

lemma end_swap16_le_word: "length bs = 2 \<Longrightarrow> end_swap16 (le_word bs) = be_word bs"
  by (rule be_word_swapped [where k = 2]) (simp_all add: bit_end_swap16)

lemma end_swap32_le_word: "length bs = 4 \<Longrightarrow> end_swap32 (le_word bs) = be_word bs"
  by (rule be_word_swapped [where k = 4]) (simp_all add: bit_end_swap32)

lemma end_swap64_le_word: "length bs = 8 \<Longrightarrow> end_swap64 (le_word bs) = be_word bs"
  by (rule be_word_swapped [where k = 8]) (simp_all add: bit_end_swap64)

lemma end_swap16_be_word: "length bs = 2 \<Longrightarrow> end_swap16 (be_word bs) = le_word bs"
  using end_swap16_le_word [of "rev bs"] by (simp add: be_word_def)

lemma end_swap32_be_word: "length bs = 4 \<Longrightarrow> end_swap32 (be_word bs) = le_word bs"
  using end_swap32_le_word [of "rev bs"] by (simp add: be_word_def)

lemma end_swap64_be_word: "length bs = 8 \<Longrightarrow> end_swap64 (be_word bs) = le_word bs"
  using end_swap64_le_word [of "rev bs"] by (simp add: be_word_def)

lemmas end_swap_word =
  end_swap16_le_word end_swap32_le_word end_swap64_le_word
  end_swap16_be_word end_swap32_be_word end_swap64_be_word

lemma le_bytes_end_swap16: "le_bytes 2 (end_swap16 n) = be_bytes 2 n"
  using end_swap16_le_word [of "le_bytes 2 n"] le_bytes_le_word [of 2 "be_bytes 2 n", where 'a = 16]
  by (simp add: be_word_def be_bytes_def le_word_le_bytes)

lemma le_bytes_end_swap32: "le_bytes 4 (end_swap32 n) = be_bytes 4 n"
  using end_swap32_le_word [of "le_bytes 4 n"] le_bytes_le_word [of 4 "be_bytes 4 n", where 'a = 32]
  by (simp add: be_word_def be_bytes_def le_word_le_bytes)

lemma le_bytes_end_swap64: "le_bytes 8 (end_swap64 n) = be_bytes 8 n"
  using end_swap64_le_word [of "le_bytes 8 n"] le_bytes_le_word [of 8 "be_bytes 8 n", where 'a = 64]
  by (simp add: be_word_def be_bytes_def le_word_le_bytes)

lemmas le_bytes_end_swap = le_bytes_end_swap16 le_bytes_end_swap32 le_bytes_end_swap64

lemma be_bytes_end_swap:
  "be_bytes 2 (end_swap16 a) = le_bytes 2 a"
  "be_bytes 4 (end_swap32 b) = le_bytes 4 b"
  "be_bytes 8 (end_swap64 c) = le_bytes 8 c"
  by (simp_all add: be_bytes_def le_bytes_end_swap)

subsection \<open>Reading and writing do not depend on the machine\<close>

lemma readu_words:
  "2 \<le> length inp \<Longrightarrow> readu_le16 e inp = le_word (take 2 inp)"
  "2 \<le> length inp \<Longrightarrow> readu_be16 e inp = be_word (take 2 inp)"
  "4 \<le> length inp \<Longrightarrow> readu_le32 e inp = le_word (take 4 inp)"
  "4 \<le> length inp \<Longrightarrow> readu_be32 e inp = be_word (take 4 inp)"
  "8 \<le> length inp \<Longrightarrow> readu_le64 e inp = le_word (take 8 inp)"
  "8 \<le> length inp \<Longrightarrow> readu_be64 e inp = be_word (take 8 inp)"
  by (simp_all add: readu_le16_def readu_be16_def readu_le32_def readu_be32_def readu_le64_def
      readu_be64_def native_load_def Let_def end_swap_word)

lemma writeu_bytes:
  "writeu_le16 e t n2 = blit t 0 (le_bytes 2 n2)" "writeu_be16 e t n2 = blit t 0 (be_bytes 2 n2)"
  "writeu_le32 e t n4 = blit t 0 (le_bytes 4 n4)" "writeu_be32 e t n4 = blit t 0 (be_bytes 4 n4)"
  "writeu_le64 e t n8 = blit t 0 (le_bytes 8 n8)" "writeu_be64 e t n8 = blit t 0 (be_bytes 8 n8)"
  by (simp_all add: writeu_le16_def writeu_be16_def writeu_le32_def writeu_be32_def
      writeu_le64_def writeu_be64_def native_store_def le_bytes_end_swap be_bytes_end_swap)

lemma pack_bytes [simp]:
  "pack_le16 e n2 = le_bytes 2 n2" "pack_be16 e n2 = be_bytes 2 n2"
  "pack_le32 e n4 = le_bytes 4 n4" "pack_be32 e n4 = be_bytes 4 n4"
  "pack_le64 e n8 = le_bytes 8 n8" "pack_be64 e n8 = be_bytes 8 n8"
  "pack_le8 n1 = [n1]" "pack_be8 n1 = [n1]"
  by (simp_all add: pack_le16_def pack_be16_def pack_le32_def pack_be32_def pack_le64_def
      pack_be64_def pack_le8_def pack_be8_def writeu_bytes writeu_le8_def writeu_be8_def
      buffer_simps)

end
