(* ===== verification/Bytestream.thy ===== *)
theory Bytestream
  imports Endian
begin

text \<open>
  \<^verbatim>\<open>arlib/bytestream.h\<close>: the byte reader \<^verbatim>\<open>bytestream\<close> (and \<^verbatim>\<open>bytestreame\<close>, which carries a byte
  order) and the two writers, \<^verbatim>\<open>bytestreamw_dyn\<close> on a growing buffer and \<^verbatim>\<open>bytestreamw\<close> on a
  caller's fixed buffer. The three pointers \<^verbatim>\<open>start\<close>, \<^verbatim>\<open>at\<close>, \<^verbatim>\<open>end\<close> are a buffer and an offset.
  Most operations do not check bounds; an access outside the buffer, undefined in C++, is
  \<open>None\<close>. The floating-point operations are not modelled.
\<close>

subsection \<open>The reader\<close>

record bytestream =
  bs_buf :: bytes
  bs_at :: nat

definition bs_init :: "bytes \<Rightarrow> bytestream" where
  "bs_init buf = \<lparr>bs_buf = buf, bs_at = 0\<rparr>"

definition bs_tell :: "bytestream \<Rightarrow> nat" where "bs_tell s = bs_at s"
definition bs_size :: "bytestream \<Rightarrow> nat" where "bs_size s = length (bs_buf s)"
definition bs_remaining :: "bytestream \<Rightarrow> nat" where
  "bs_remaining s = length (bs_buf s) - bs_at s"

definition bs_peekbytes :: "nat \<Rightarrow> bytestream \<Rightarrow> bytes option" where
  "bs_peekbytes n s =
     (if bs_at s + n \<le> length (bs_buf s) then Some (slice (bs_at s) n (bs_buf s)) else None)"

definition bs_bytes :: "nat \<Rightarrow> bytestream \<Rightarrow> (bytes \<times> bytestream) option" where
  "bs_bytes n s =
     (case bs_peekbytes n s of
        None \<Rightarrow> None
      | Some ret \<Rightarrow> Some (ret, s\<lparr>bs_at := bs_at s + n\<rparr>))"

definition bs_signature :: "bytes \<Rightarrow> bytestream \<Rightarrow> (bool \<times> bytestream) option" where
  "bs_signature expected s =
     (if length expected > bs_remaining s then Some (False, s)
      else case bs_peekbytes (length expected) s of
        None \<Rightarrow> None
      | Some actual \<Rightarrow>
          if actual = expected
          then (case bs_bytes (length expected) s of
                  None \<Rightarrow> None | Some (_, s') \<Rightarrow> Some (True, s'))
          else Some (False, s))"

definition bs_u8 :: "bytestream \<Rightarrow> (byte \<times> bytestream) option" where
  "bs_u8 s =
     (if bs_at s < length (bs_buf s)
      then Some (bs_buf s ! bs_at s, s\<lparr>bs_at := bs_at s + 1\<rparr>) else None)"

definition bs_u8_or :: "int \<Rightarrow> bytestream \<Rightarrow> (int \<times> bytestream) option" where
  "bs_u8_or otherwise s =
     (if bs_at s = length (bs_buf s) then Some (otherwise, s)
      else map_option (\<lambda>(b, s'). (uint b, s')) (bs_u8 s))"

definition bs_word :: "nat \<Rightarrow> (bytes \<Rightarrow> 'a::len word) \<Rightarrow> bytestream \<Rightarrow> ('a word \<times> bytestream) option" where
  "bs_word n rd s = map_option (\<lambda>(bs, s'). (rd bs, s')) (bs_bytes n s)"

definition bs_u16l where "bs_u16l e = bs_word 2 (readu_le16 e)"
definition bs_u16b where "bs_u16b e = bs_word 2 (readu_be16 e)"
definition bs_u32l where "bs_u32l e = bs_word 4 (readu_le32 e)"
definition bs_u32b where "bs_u32b e = bs_word 4 (readu_be32 e)"
definition bs_u64l where "bs_u64l e = bs_word 8 (readu_le64 e)"
definition bs_u64b where "bs_u64b e = bs_word 8 (readu_be64 e)"

text \<open>
  \<^verbatim>\<open>strnul\<close> advances to the terminator and past it; the loop leaves the buffer when there is
  no terminator.
\<close>

fun nul_scan :: "bytes \<Rightarrow> nat option" where
  "nul_scan [] = None"
| "nul_scan (b # bs) = (if b = 0 then Some 0 else map_option Suc (nul_scan bs))"

definition bs_strnul :: "bytestream \<Rightarrow> (bytes \<times> bytestream) option" where
  "bs_strnul s =
     (case nul_scan (drop (bs_at s) (bs_buf s)) of
        None \<Rightarrow> None
      | Some n \<Rightarrow> Some (slice (bs_at s) n (bs_buf s), s\<lparr>bs_at := bs_at s + n + 1\<rparr>))"

definition bs_seek :: "nat \<Rightarrow> bytestream \<Rightarrow> bytestream option" where
  "bs_seek pos s = (if pos \<le> length (bs_buf s) then Some (s\<lparr>bs_at := pos\<rparr>) else None)"

definition bs_skip :: "int \<Rightarrow> bytestream \<Rightarrow> bytestream option" where
  "bs_skip off s =
     (let pos = int (bs_at s) + off
      in if 0 \<le> pos \<and> pos \<le> int (length (bs_buf s)) then Some (s\<lparr>bs_at := nat pos\<rparr>) else None)"

definition bs_peek_at :: "nat \<Rightarrow> nat \<Rightarrow> bytestream \<Rightarrow> bytes option" where
  "bs_peek_at pos len s =
     (if pos + len \<le> length (bs_buf s) then Some (slice pos len (bs_buf s)) else None)"

record bytestreame = bytestream +
  bse_big_endian :: bool

definition bse_init :: "bytes \<Rightarrow> bool \<Rightarrow> bytestreame" where
  "bse_init buf big = \<lparr>bs_buf = buf, bs_at = 0, bse_big_endian = big\<rparr>"

definition bse_set_big_endian :: "bool \<Rightarrow> bytestreame \<Rightarrow> bytestreame" where
  "bse_set_big_endian big s = s\<lparr>bse_big_endian := big\<rparr>"

definition bse_lift ::
  "(bytestream \<Rightarrow> ('a \<times> bytestream) option) \<Rightarrow> bytestreame \<Rightarrow> ('a \<times> bytestreame) option" where
  "bse_lift f s =
     map_option (\<lambda>(v, t). (v, s\<lparr>bs_at := bs_at t\<rparr>)) (f (bytestream.truncate s))"

definition bse_u16 where
  "bse_u16 e s = (if bse_big_endian s then bse_lift (bs_u16b e) s else bse_lift (bs_u16l e) s)"
definition bse_u32 where
  "bse_u32 e s = (if bse_big_endian s then bse_lift (bs_u32b e) s else bse_lift (bs_u32l e) s)"
definition bse_u64 where
  "bse_u64 e s = (if bse_big_endian s then bse_lift (bs_u64b e) s else bse_lift (bs_u64l e) s)"

subsection \<open>The growing writer\<close>

record bytestreamw_dyn =
  bwd_buf :: bytes

definition bwd_empty :: bytestreamw_dyn where "bwd_empty = \<lparr>bwd_buf = []\<rparr>"

definition bwd_bytes :: "bytes \<Rightarrow> bytestreamw_dyn \<Rightarrow> bytestreamw_dyn" where
  "bwd_bytes data w = w\<lparr>bwd_buf := bwd_buf w @ data\<rparr>"
definition bwd_text :: "bytes \<Rightarrow> bytestreamw_dyn \<Rightarrow> bytestreamw_dyn" where
  "bwd_text str w = w\<lparr>bwd_buf := bwd_buf w @ str\<rparr>"
definition bwd_u8 :: "byte \<Rightarrow> bytestreamw_dyn \<Rightarrow> bytestreamw_dyn" where
  "bwd_u8 val w = w\<lparr>bwd_buf := bwd_buf w @ [val]\<rparr>"
definition bwd_strnul :: "bytes \<Rightarrow> bytestreamw_dyn \<Rightarrow> bytestreamw_dyn" where
  "bwd_strnul str w = bwd_u8 0 (w\<lparr>bwd_buf := bwd_buf w @ str\<rparr>)"
definition bwd_u16l where "bwd_u16l e val w = bwd_bytes (pack_le16 e val) w"
definition bwd_u16b where "bwd_u16b e val w = bwd_bytes (pack_be16 e val) w"
definition bwd_u32l where "bwd_u32l e val w = bwd_bytes (pack_le32 e val) w"
definition bwd_u32b where "bwd_u32b e val w = bwd_bytes (pack_be32 e val) w"
definition bwd_u64l where "bwd_u64l e val w = bwd_bytes (pack_le64 e val) w"
definition bwd_u64b where "bwd_u64b e val w = bwd_bytes (pack_be64 e val) w"

text \<open>The four patch operations; all of them take a 32-bit value, the 64-bit ones too.\<close>

definition bwd_patch :: "nat \<Rightarrow> bytes \<Rightarrow> bytestreamw_dyn \<Rightarrow> bytestreamw_dyn option" where
  "bwd_patch pos data w =
     (if pos + length data \<le> length (bwd_buf w)
      then Some (w\<lparr>bwd_buf := blit (bwd_buf w) pos data\<rparr>) else None)"

definition bwd_u32l_at :: "bool \<Rightarrow> nat \<Rightarrow> u32 \<Rightarrow> bytestreamw_dyn \<Rightarrow> bytestreamw_dyn option" where
  "bwd_u32l_at e pos val = bwd_patch pos (pack_le32 e val)"
definition bwd_u32b_at :: "bool \<Rightarrow> nat \<Rightarrow> u32 \<Rightarrow> bytestreamw_dyn \<Rightarrow> bytestreamw_dyn option" where
  "bwd_u32b_at e pos val = bwd_patch pos (pack_be32 e val)"
definition bwd_u64l_at :: "bool \<Rightarrow> nat \<Rightarrow> u32 \<Rightarrow> bytestreamw_dyn \<Rightarrow> bytestreamw_dyn option" where
  "bwd_u64l_at e pos val = bwd_patch pos (pack_le64 e (ucast val))"
definition bwd_u64b_at :: "bool \<Rightarrow> nat \<Rightarrow> u32 \<Rightarrow> bytestreamw_dyn \<Rightarrow> bytestreamw_dyn option" where
  "bwd_u64b_at e pos val = bwd_patch pos (pack_be64 e (ucast val))"

definition bwd_resize :: "nat \<Rightarrow> bytestreamw_dyn \<Rightarrow> bytestreamw_dyn" where
  "bwd_resize n w =
     w\<lparr>bwd_buf := take n (bwd_buf w) @ replicate (n - length (bwd_buf w)) 0\<rparr>"

definition bwd_align16 where "bwd_align16 w = bwd_resize ((length (bwd_buf w) + 1) div 2 * 2) w"
definition bwd_align32 where "bwd_align32 w = bwd_resize ((length (bwd_buf w) + 3) div 4 * 4) w"
definition bwd_align64 where "bwd_align64 w = bwd_resize ((length (bwd_buf w) + 7) div 8 * 8) w"

definition bwd_finish :: "bytestreamw_dyn \<Rightarrow> bytes \<times> bytestreamw_dyn" where
  "bwd_finish w = (bwd_buf w, w\<lparr>bwd_buf := []\<rparr>)"

subsection \<open>The fixed writer\<close>

record bytestreamw =
  bw_buf :: bytes
  bw_at :: nat

definition bw_init :: "bytes \<Rightarrow> bytestreamw" where
  "bw_init by = \<lparr>bw_buf = by, bw_at = 0\<rparr>"

definition bw_bytes :: "bytes \<Rightarrow> bytestreamw \<Rightarrow> bytestreamw option" where
  "bw_bytes data w =
     (if bw_at w + length data \<le> length (bw_buf w)
      then Some (w\<lparr>bw_buf := blit (bw_buf w) (bw_at w) data, bw_at := bw_at w + length data\<rparr>)
      else None)"
definition bw_text :: "bytes \<Rightarrow> bytestreamw \<Rightarrow> bytestreamw option" where
  "bw_text str w = bw_bytes str w"
definition bw_u8 :: "byte \<Rightarrow> bytestreamw \<Rightarrow> bytestreamw option" where
  "bw_u8 val w =
     (if bw_at w < length (bw_buf w)
      then Some (w\<lparr>bw_buf := (bw_buf w)[bw_at w := val], bw_at := bw_at w + 1\<rparr>) else None)"
definition bw_strnul :: "bytes \<Rightarrow> bytestreamw \<Rightarrow> bytestreamw option" where
  "bw_strnul str w = Option.bind (bw_bytes str w) (bw_u8 0)"
definition bw_u16l where "bw_u16l e val = bw_bytes (pack_le16 e val)"
definition bw_u16b where "bw_u16b e val = bw_bytes (pack_be16 e val)"
definition bw_u32l where "bw_u32l e val = bw_bytes (pack_le32 e val)"
definition bw_u32b where "bw_u32b e val = bw_bytes (pack_be32 e val)"
definition bw_u64l where "bw_u64l e val = bw_bytes (pack_le64 e val)"
definition bw_u64b where "bw_u64b e val = bw_bytes (pack_be64 e val)"

definition bw_tell :: "bytestreamw \<Rightarrow> nat" where "bw_tell w = bw_at w"
definition bw_capacity :: "bytestreamw \<Rightarrow> nat" where "bw_capacity w = length (bw_buf w)"
definition bw_remaining :: "bytestreamw \<Rightarrow> nat" where
  "bw_remaining w = length (bw_buf w) - bw_at w"
definition bw_finish :: "bytestreamw \<Rightarrow> bytes" where
  "bw_finish w = slice 0 (bw_at w) (bw_buf w)"

subsection \<open>Sequences of typed fields\<close>

text \<open>
  A record format is a sequence of fields. \<open>field_bytes\<close> says what each field looks like on
  the wire; \<open>bwd_field\<close>, \<open>bw_field\<close> and \<open>bs_field\<close> dispatch to the operations above.
\<close>

datatype field =
    FU8 byte | FU16L u16 | FU16B u16 | FU32L u32 | FU32B u32 | FU64L u64 | FU64B u64
  | FBytes bytes | FStrnul bytes

fun field_bytes :: "field \<Rightarrow> bytes" where
  "field_bytes (FU8 v) = [v]"
| "field_bytes (FU16L v) = le_bytes 2 v"
| "field_bytes (FU16B v) = be_bytes 2 v"
| "field_bytes (FU32L v) = le_bytes 4 v"
| "field_bytes (FU32B v) = be_bytes 4 v"
| "field_bytes (FU64L v) = le_bytes 8 v"
| "field_bytes (FU64B v) = be_bytes 8 v"
| "field_bytes (FBytes v) = v"
| "field_bytes (FStrnul v) = v @ [0]"

fun field_ok :: "field \<Rightarrow> bool" where
  "field_ok (FStrnul v) = (0 \<notin> set v)"
| "field_ok _ = True"

fun bwd_field :: "bool \<Rightarrow> field \<Rightarrow> bytestreamw_dyn \<Rightarrow> bytestreamw_dyn" where
  "bwd_field e (FU8 v) = bwd_u8 v"
| "bwd_field e (FU16L v) = bwd_u16l e v"
| "bwd_field e (FU16B v) = bwd_u16b e v"
| "bwd_field e (FU32L v) = bwd_u32l e v"
| "bwd_field e (FU32B v) = bwd_u32b e v"
| "bwd_field e (FU64L v) = bwd_u64l e v"
| "bwd_field e (FU64B v) = bwd_u64b e v"
| "bwd_field e (FBytes v) = bwd_bytes v"
| "bwd_field e (FStrnul v) = bwd_strnul v"

fun bw_field :: "bool \<Rightarrow> field \<Rightarrow> bytestreamw \<Rightarrow> bytestreamw option" where
  "bw_field e (FU8 v) = bw_u8 v"
| "bw_field e (FU16L v) = bw_u16l e v"
| "bw_field e (FU16B v) = bw_u16b e v"
| "bw_field e (FU32L v) = bw_u32l e v"
| "bw_field e (FU32B v) = bw_u32b e v"
| "bw_field e (FU64L v) = bw_u64l e v"
| "bw_field e (FU64B v) = bw_u64b e v"
| "bw_field e (FBytes v) = bw_bytes v"
| "bw_field e (FStrnul v) = bw_strnul v"

text \<open>The reader is told the shape of the next field only: its kind, and the length of raw bytes.\<close>

fun bs_field :: "bool \<Rightarrow> field \<Rightarrow> bytestream \<Rightarrow> (field \<times> bytestream) option" where
  "bs_field e (FU8 _) s = map_option (apfst FU8) (bs_u8 s)"
| "bs_field e (FU16L _) s = map_option (apfst FU16L) (bs_u16l e s)"
| "bs_field e (FU16B _) s = map_option (apfst FU16B) (bs_u16b e s)"
| "bs_field e (FU32L _) s = map_option (apfst FU32L) (bs_u32l e s)"
| "bs_field e (FU32B _) s = map_option (apfst FU32B) (bs_u32b e s)"
| "bs_field e (FU64L _) s = map_option (apfst FU64L) (bs_u64l e s)"
| "bs_field e (FU64B _) s = map_option (apfst FU64B) (bs_u64b e s)"
| "bs_field e (FBytes v) s = map_option (apfst FBytes) (bs_bytes (length v) s)"
| "bs_field e (FStrnul _) s = map_option (apfst FStrnul) (bs_strnul s)"

fun field_shape :: "field \<Rightarrow> field" where
  "field_shape (FU8 _) = FU8 0"
| "field_shape (FU16L _) = FU16L 0"
| "field_shape (FU16B _) = FU16B 0"
| "field_shape (FU32L _) = FU32L 0"
| "field_shape (FU32B _) = FU32B 0"
| "field_shape (FU64L _) = FU64L 0"
| "field_shape (FU64B _) = FU64B 0"
| "field_shape (FBytes v) = FBytes (replicate (length v) 0)"
| "field_shape (FStrnul _) = FStrnul []"

fun bwd_fields :: "bool \<Rightarrow> field list \<Rightarrow> bytestreamw_dyn \<Rightarrow> bytestreamw_dyn" where
  "bwd_fields e [] w = w"
| "bwd_fields e (f # fs) w = bwd_fields e fs (bwd_field e f w)"

fun bw_fields :: "bool \<Rightarrow> field list \<Rightarrow> bytestreamw \<Rightarrow> bytestreamw option" where
  "bw_fields e [] w = Some w"
| "bw_fields e (f # fs) w = Option.bind (bw_field e f w) (bw_fields e fs)"

fun bs_fields :: "bool \<Rightarrow> field list \<Rightarrow> bytestream \<Rightarrow> (field list \<times> bytestream) option" where
  "bs_fields e [] s = Some ([], s)"
| "bs_fields e (f # fs) s =
     (case bs_field e f s of
        None \<Rightarrow> None
      | Some (v, s1) \<Rightarrow> map_option (apfst (Cons v)) (bs_fields e fs s1))"

subsection \<open>What the operations do\<close>

lemmas bwd_defs = bwd_bytes_def bwd_text_def bwd_u8_def bwd_strnul_def bwd_u16l_def bwd_u16b_def
  bwd_u32l_def bwd_u32b_def bwd_u64l_def bwd_u64b_def

lemmas bw_word_defs = bw_text_def bw_u16l_def bw_u16b_def bw_u32l_def bw_u32b_def bw_u64l_def bw_u64b_def

lemmas bs_word_defs = bs_u16l_def bs_u16b_def bs_u32l_def bs_u32b_def bs_u64l_def bs_u64b_def
  bs_word_def

lemma bwd_field_buf: "bwd_buf (bwd_field e f w) = bwd_buf w @ field_bytes f"
  by (cases f) (simp_all add: bwd_defs)

lemma bwd_fields_buf: "bwd_buf (bwd_fields e fs w) = bwd_buf w @ concat (map field_bytes fs)"
  by (induction fs arbitrary: w) (simp_all add: bwd_field_buf)

definition bw_put :: "bytes \<Rightarrow> bytestreamw \<Rightarrow> bytestreamw" where
  "bw_put data w = w\<lparr>bw_buf := blit (bw_buf w) (bw_at w) data, bw_at := bw_at w + length data\<rparr>"

lemma bw_u8_bytes: "bw_u8 v w = bw_bytes [v] w"
  by (simp add: bw_u8_def bw_bytes_def blit_def upd_conv_take_nth_drop Suc_le_eq)

lemma blit_blit_adjacent:
  "off + length a \<le> length dst \<Longrightarrow>
     blit (blit dst off a) (off + length a) b = blit dst off (a @ b)"
  by (simp add: blit_def min_absorb2 add.commute add.left_commute)

lemma bw_bytes_append: "Option.bind (bw_bytes a w) (bw_bytes b) = bw_bytes (a @ b) w"
  by (auto simp: bw_bytes_def buffer_simps blit_blit_adjacent bind_eq_None_conv)

lemma bw_strnul_bytes: "bw_strnul str w = bw_bytes (str @ [0]) w"
proof -
  have "bw_u8 0 = bw_bytes [0]" by (rule ext) (rule bw_u8_bytes)
  then show ?thesis by (simp add: bw_strnul_def bw_bytes_append)
qed

lemma bw_field_bytes: "bw_field e f w = bw_bytes (field_bytes f) w"
  by (cases f) (simp_all add: bw_word_defs bw_u8_bytes bw_strnul_bytes)

lemma bw_bytes_at_le: "bw_bytes data w = Some w' \<Longrightarrow> bw_at w' \<le> length (bw_buf w')"
  by (auto simp: bw_bytes_def buffer_simps split: if_splits)

lemma bw_fields_bytes:
  "bw_at w \<le> length (bw_buf w) \<Longrightarrow> bw_fields e fs w = bw_bytes (concat (map field_bytes fs)) w"
proof (induction fs arbitrary: w)
  case Nil
  then show ?case by (simp add: bw_bytes_def)
next
  case (Cons f fs)
  have "bw_fields e (f # fs) w = Option.bind (bw_bytes (field_bytes f) w) (bw_fields e fs)"
    by (simp add: bw_field_bytes)
  also have "\<dots> = Option.bind (bw_bytes (field_bytes f) w) (bw_bytes (concat (map field_bytes fs)))"
    by (cases "bw_bytes (field_bytes f) w") (simp_all add: Cons.IH [OF bw_bytes_at_le])
  finally show ?case by (simp add: bw_bytes_append)
qed

lemma nul_scan_append: "0 \<notin> set v \<Longrightarrow> nul_scan (v @ 0 # rest) = Some (length v)"
  by (induction v) auto

lemma bs_bytes_at:
  assumes "drop (bs_at s) (bs_buf s) = v @ rest" and "bs_at s \<le> length (bs_buf s)"
  shows "bs_bytes (length v) s = Some (v, s\<lparr>bs_at := bs_at s + length v\<rparr>)"
proof -
  have "length (bs_buf s) - bs_at s = length v + length rest"
    using arg_cong [OF assms(1), of length] by simp
  then show ?thesis using assms by (simp add: bs_bytes_def bs_peekbytes_def slice_def)
qed

lemma bs_field_shape: "bs_field e (field_shape f) s = bs_field e f s"
  by (cases f) simp_all

lemma bs_field_reads:
  assumes ok: "field_ok f" and at: "bs_at s \<le> length (bs_buf s)"
    and next_field: "drop (bs_at s) (bs_buf s) = field_bytes f @ rest"
  shows "bs_field e f s = Some (f, s\<lparr>bs_at := bs_at s + length (field_bytes f)\<rparr>)"
proof (cases f)
  case (FU8 v)
  have "bs_at s < length (bs_buf s)"
    using next_field FU8 by (cases "bs_at s < length (bs_buf s)") auto
  moreover have "bs_buf s ! bs_at s = v"
    using next_field FU8 \<open>bs_at s < length (bs_buf s)\<close> by (metis append_Cons field_bytes.simps(1)
        hd_drop_conv_nth list.sel(1))
  ultimately show ?thesis using FU8 by (simp add: bs_u8_def)
next
  case (FStrnul v)
  then show ?thesis
    using next_field ok by (simp add: bs_strnul_def nul_scan_append slice_def)
qed (use bs_bytes_at [OF next_field at] in
  \<open>simp_all add: bs_word_defs readu_words byte_word\<close>)

lemma bs_fields_reads:
  "\<lbrakk>list_all field_ok fs; bs_at s \<le> length (bs_buf s);
    drop (bs_at s) (bs_buf s) = concat (map field_bytes fs) @ rest\<rbrakk> \<Longrightarrow>
   bs_fields e fs s = Some (fs, s\<lparr>bs_at := bs_at s + length (concat (map field_bytes fs))\<rparr>)"
proof (induction fs arbitrary: s)
  case Nil
  then show ?case by simp
next
  case (Cons f fs)
  let ?s1 = "s\<lparr>bs_at := bs_at s + length (field_bytes f)\<rparr>"
  have step: "bs_field e f s = Some (f, ?s1)"
    using Cons.prems by (intro bs_field_reads) auto
  have "length (drop (bs_at s) (bs_buf s)) = length (field_bytes f) + length (concat (map field_bytes fs) @ rest)"
    using Cons.prems(3) by simp
  then have "bs_at ?s1 \<le> length (bs_buf ?s1)"
    using Cons.prems(2) by simp
  moreover have "drop (bs_at ?s1) (bs_buf ?s1) = concat (map field_bytes fs) @ rest"
    using arg_cong [OF Cons.prems(3), of "drop (length (field_bytes f))"]
    by (simp add: add.commute)
  ultimately show ?case
    using Cons.IH [of ?s1] Cons.prems(1) step by simp
qed

subsection \<open>The contract of a writer\<close>

text \<open>
  Both writers are used through one contract: a successful \<open>put\<close> appends the wire form of
  the field to what has been written. Whatever keeps the contract can be read back field by
  field, on a machine of either byte order.
\<close>

fun put_all :: "('f \<Rightarrow> 'w \<Rightarrow> 'w option) \<Rightarrow> 'f list \<Rightarrow> 'w \<Rightarrow> 'w option" where
  "put_all put [] w = Some w"
| "put_all put (f # fs) w = Option.bind (put f w) (put_all put fs)"

locale field_sink =
  fixes put :: "field \<Rightarrow> 'w \<Rightarrow> 'w option"
    and written :: "'w \<Rightarrow> bytes"
    and inv :: "'w \<Rightarrow> bool"
  assumes put_written: "inv w \<Longrightarrow> put f w = Some w' \<Longrightarrow> written w' = written w @ field_bytes f"
    and put_inv: "inv w \<Longrightarrow> put f w = Some w' \<Longrightarrow> inv w'"
begin

lemma put_all_written:
  "inv w \<Longrightarrow> put_all put fs w = Some w' \<Longrightarrow>
     written w' = written w @ concat (map field_bytes fs)"
proof (induction fs arbitrary: w)
  case (Cons f fs)
  then obtain w1 where "put f w = Some w1" and "put_all put fs w1 = Some w'"
    by (auto simp: bind_eq_Some_conv)
  then show ?case using Cons.IH [of w1] Cons.prems put_written put_inv by auto
qed simp

lemma read_back:
  assumes "inv w" and "put_all put fs w = Some w'" and "list_all field_ok fs"
    and "bs_buf s = pre @ written w'" and "bs_at s = length pre + length (written w)"
  shows "bs_fields e (map field_shape fs) s = Some (fs, s\<lparr>bs_at := length (bs_buf s)\<rparr>)"
proof -
  have shape: "bs_fields e (map field_shape gs) t = bs_fields e gs t" for gs t
    by (induction gs arbitrary: t) (simp_all add: bs_field_shape split: option.splits)
  have "written w' = written w @ concat (map field_bytes fs)"
    using assms(1,2) by (rule put_all_written)
  then show ?thesis
    using bs_fields_reads [OF assms(3), of s "[]" e] assms(4,5) by (simp add: shape)
qed

end

interpretation dyn_sink: field_sink "\<lambda>f w. Some (bwd_field e f w)" bwd_buf "\<lambda>_. True"
  by unfold_locales (auto simp: bwd_field_buf)

interpretation fixed_sink: field_sink "bw_field e" bw_finish "\<lambda>w. bw_at w \<le> length (bw_buf w)"
  by unfold_locales
    (auto simp: bw_field_bytes bw_bytes_def bw_finish_def buffer_simps blit_def split: if_splits)

lemma put_all_bwd: "put_all (\<lambda>f w. Some (bwd_field e f w)) fs w = Some (bwd_fields e fs w)"
  by (induction fs arbitrary: w) simp_all

lemma put_all_bw: "put_all (bw_field e) fs w = bw_fields e fs w"
proof (induction fs arbitrary: w)
  case (Cons f fs)
  then show ?case by (cases "bw_field e f w") simp_all
qed simp

subsection \<open>Properties\<close>

text \<open>
  C30. Whatever sequence of typed fields the growing writer produced on a machine of byte
  order \<open>ew\<close>, the reader on a machine of byte order \<open>er\<close>, told only the kinds of the fields
  and the lengths of the raw ones, returns exactly those fields and ends at the end of the
  buffer. Strings written with a terminator must not contain one.
\<close>

theorem bytestream_roundtrip:
  assumes "list_all field_ok fs"
  shows "bs_fields er (map field_shape fs) (bs_init (fst (bwd_finish (bwd_fields ew fs bwd_empty))))
    = Some (fs, \<lparr>bs_buf = concat (map field_bytes fs), bs_at = length (concat (map field_bytes fs))\<rparr>)"
proof -
  let ?data = "concat (map field_bytes fs)"
  have data: "fst (bwd_finish (bwd_fields ew fs bwd_empty)) = ?data"
    by (simp add: bwd_finish_def bwd_fields_buf bwd_empty_def)
  have "bs_fields er (map field_shape fs) (bs_init ?data) =
      Some (fs, (bs_init ?data)\<lparr>bs_at := length (bs_buf (bs_init ?data))\<rparr>)"
    by (rule dyn_sink.read_back [OF TrueI put_all_bwd assms, where w = bwd_empty and pre = "[]"])
      (simp_all add: bs_init_def bwd_fields_buf bwd_empty_def)
  then show ?thesis unfolding data by (simp add: bs_init_def)
qed

theorem bytestream_roundtrip_witness:
  "bs_fields False (map field_shape [FU16B 0x0102, FStrnul [65, 66], FU32L 7])
     (bs_init (fst (bwd_finish (bwd_fields True [FU16B 0x0102, FStrnul [65, 66], FU32L 7] bwd_empty))))
   = Some ([FU16B 0x0102, FStrnul [65, 66], FU32L 7],
       \<lparr>bs_buf = concat (map field_bytes [FU16B 0x0102, FStrnul [65, 66], FU32L 7]),
        bs_at = length (concat (map field_bytes [FU16B 0x0102, FStrnul [65, 66], FU32L 7]))\<rparr>)"
  by (rule bytestream_roundtrip) simp

text \<open>
  C31. The fixed writer never writes outside the caller's buffer and loses nothing: writing a
  sequence of fields succeeds exactly when their wire form fits in the remaining room, and
  then \<open>finish\<close> returns what was there followed by the same bytes the growing writer would
  produce; the capacity is unchanged.
\<close>

theorem fixed_writer_refines_dyn:
  assumes "bw_at w \<le> length (bw_buf w)"
  shows "(case bw_fields e fs w of
       None \<Rightarrow> bw_remaining w < length (bwd_buf (bwd_fields e' fs bwd_empty))
     | Some w' \<Rightarrow> length (bwd_buf (bwd_fields e' fs bwd_empty)) \<le> bw_remaining w \<and>
         bw_finish w' = bw_finish w @ bwd_buf (bwd_fields e' fs bwd_empty) \<and>
         bw_capacity w' = bw_capacity w)"
proof -
  define data where "data = concat (map field_bytes fs)"
  have dyn: "bwd_buf (bwd_fields e' fs bwd_empty) = data"
    by (simp add: bwd_fields_buf bwd_empty_def data_def)
  have fin: "bw_finish w' = bw_finish w @ data" if "bw_fields e fs w = Some w'" for w'
    using fixed_sink.put_all_written [OF assms] that by (simp add: put_all_bw data_def)
  have "bw_fields e fs w = bw_bytes data w"
    using bw_fields_bytes [OF assms] by (simp add: data_def)
  then show ?thesis
    using assms fin
    by (auto simp: dyn bw_bytes_def bw_remaining_def bw_capacity_def buffer_simps)
qed

theorem fixed_writer_refines_dyn_witness:
  "case bw_fields True [FU16L 5] (bw_init [0, 0, 0]) of
       None \<Rightarrow> bw_remaining (bw_init [0, 0, 0]) < length (bwd_buf (bwd_fields False [FU16L 5] bwd_empty))
     | Some w' \<Rightarrow> length (bwd_buf (bwd_fields False [FU16L 5] bwd_empty)) \<le> bw_remaining (bw_init [0, 0, 0]) \<and>
         bw_finish w' = bw_finish (bw_init [0, 0, 0]) @ bwd_buf (bwd_fields False [FU16L 5] bwd_empty) \<and>
         bw_capacity w' = bw_capacity (bw_init [0, 0, 0])"
  by (rule fixed_writer_refines_dyn) (simp add: bw_init_def)

text \<open>The 64-bit patch operations lose the upper half of a 64-bit length.\<close>

lemma u64l_at_truncates:
  "bwd_u64l_at e 0 (ucast (x :: u64)) \<lparr>bwd_buf = replicate 8 0\<rparr> =
     Some \<lparr>bwd_buf = le_bytes 8 (take_bit 32 x)\<rparr>"
proof -
  have "(ucast (ucast x :: u32) :: u64) = take_bit 32 x"
    by (rule bit_word_eqI) (simp add: bit_simps)
  then show ?thesis by (simp add: bwd_u64l_at_def bwd_patch_def blit_start)
qed

end
