(* ===== verification/Global.thy ===== *)
theory Global
  imports Prelude
begin

text \<open>
  \<^verbatim>\<open>arlib/global.h\<close>: the small numeric and memory helpers everything else is built on.
  \<open>bitround\<close> and \<open>ilog2\<close> are the definitions by the compiler's bit scan; \<open>bitround64\<close>,
  \<open>ilog2_32\<close> and \<open>ilog2_64\<close> are the portable fallbacks, on machine words; \<open>ilog10\<close> is the
  table-driven decimal logarithm; \<open>memeq\<close> is the size-specialised memory comparison.
\<close>

subsection \<open>Bit scan\<close>

text \<open>\<open>nbits n\<close> is the number of significant bits of \<open>n\<close>; \<^verbatim>\<open>__builtin_clzll(n)^63\<close> is one less.\<close>

fun nbits :: "nat \<Rightarrow> nat" where
  "nbits n = (if n = 0 then 0 else Suc (nbits (n div 2)))"

declare nbits.simps [simp del]

definition ilog2 :: "nat \<Rightarrow> nat" where
  "ilog2 n = nbits n - 1"

definition bitround :: "nat \<Rightarrow> nat" where
  "bitround n = (if n \<le> 1 then 1 else 2 * 2 ^ ilog2 (n - 1))"

lemma nbits_0 [simp]: "nbits 0 = 0"
  by (simp add: nbits.simps)

lemma nbits_pos: "0 < n \<Longrightarrow> nbits n = Suc (nbits (n div 2))"
  by (subst nbits.simps) simp

lemma nbits_eq_0_iff [simp]: "nbits n = 0 \<longleftrightarrow> n = 0"
  by (cases "n = 0") (simp_all add: nbits_pos)

lemma less_pow_nbits: "n < 2 ^ nbits n"
proof (induction n rule: nbits.induct)
  case (1 n)
  show ?case
  proof (cases "n = 0")
    case False
    with 1 have "n div 2 < 2 ^ nbits (n div 2)" by simp
    then show ?thesis using False by (simp add: nbits_pos)
  qed simp
qed

lemma pow_nbits_le: "0 < n \<Longrightarrow> 2 ^ (nbits n - 1) \<le> n"
proof (induction n rule: nbits.induct)
  case (1 n)
  show ?case
  proof (cases "n div 2 = 0")
    case True
    then show ?thesis using "1.prems" by (simp add: nbits_pos)
  next
    case False
    with 1 have IH: "2 ^ (nbits (n div 2) - 1) \<le> n div 2" by simp
    obtain k where k: "nbits (n div 2) = Suc k"
      using False by (metis nbits_eq_0_iff not0_implies_Suc)
    then have "2 * 2 ^ k \<le> n" using IH by simp
    then show ?thesis using "1.prems" k by (simp add: nbits_pos)
  qed
qed

lemma nbits_unique: "0 < n \<Longrightarrow> 2 ^ k \<le> n \<Longrightarrow> n < 2 ^ Suc k \<Longrightarrow> nbits n = Suc k"
proof (rule antisym)
  assume n: "0 < n" "2 ^ k \<le> n" "n < 2 ^ Suc k"
  have "(2::nat) ^ (nbits n - 1) < 2 ^ Suc k"
    using pow_nbits_le [OF n(1)] n(3) by linarith
  then have "nbits n - 1 < Suc k" by (rule power_less_imp_less_exp [rotated]) simp
  then show "nbits n \<le> Suc k" by linarith
  have "(2::nat) ^ k < 2 ^ nbits n" using n(2) less_pow_nbits [of n] by linarith
  then show "Suc k \<le> nbits n" by simp
qed

subsection \<open>\<open>bitround\<close>\<close>

lemma bitround_ge: "n \<le> bitround n"
proof (cases "n \<le> 1")
  case False
  then have "n - 1 < 2 ^ nbits (n - 1)" by (intro less_pow_nbits)
  moreover obtain k where "nbits (n - 1) = Suc k"
    using False by (metis One_nat_def diff_is_0_eq nbits_eq_0_iff not0_implies_Suc)
  ultimately show ?thesis using False by (simp add: bitround_def ilog2_def)
qed (simp add: bitround_def)

lemma bitround_less: "1 < n \<Longrightarrow> bitround n < 2 * n"
  using pow_nbits_le [of "n - 1"] by (simp add: bitround_def ilog2_def)

lemma bitround_pos [simp]: "0 < bitround n"
  by (simp add: bitround_def)

lemma bitround_power: "\<exists>k. bitround n = 2 ^ k"
proof (cases "n \<le> 1")
  case True
  then have "bitround n = 2 ^ 0" by (simp add: bitround_def)
  then show ?thesis ..
next
  case False
  then have "bitround n = 2 ^ Suc (ilog2 (n - 1))" by (simp add: bitround_def)
  then show ?thesis ..
qed

lemma bitround_least: "n \<le> 2 ^ k \<Longrightarrow> bitround n \<le> 2 ^ k"
proof (cases "n \<le> 1")
  case False
  assume le: "n \<le> 2 ^ k"
  then have "0 < k" using False by (cases k) auto
  have "(2::nat) ^ (nbits (n - 1) - 1) \<le> n - 1" using False by (intro pow_nbits_le) simp
  also have "n - 1 < 2 ^ k" using le False by linarith
  finally have "nbits (n - 1) - 1 < k" by simp
  then have "2 ^ Suc (nbits (n - 1) - 1) \<le> (2::nat) ^ k" by (intro power_increasing) simp_all
  then show ?thesis using False by (simp add: bitround_def ilog2_def)
qed (simp add: bitround_def)

subsection \<open>The portable fallbacks\<close>

definition smear64 :: "u64 \<Rightarrow> u64" where
  "smear64 x0 =
     (let x1 = x0 OR drop_bit 1 x0; x2 = x1 OR drop_bit 2 x1; x3 = x2 OR drop_bit 4 x2;
          x4 = x3 OR drop_bit 8 x3; x5 = x4 OR drop_bit 16 x4
      in x5 OR drop_bit 32 x5)"

definition smear32 :: "u32 \<Rightarrow> u32" where
  "smear32 x0 =
     (let x1 = x0 OR drop_bit 1 x0; x2 = x1 OR drop_bit 2 x1; x3 = x2 OR drop_bit 4 x2;
          x4 = x3 OR drop_bit 8 x3
      in x4 OR drop_bit 16 x4)"

definition bitround64 :: "u64 \<Rightarrow> u64" where
  "bitround64 n = smear64 (n - (if n \<noteq> 0 then 1 else 0)) + 1"

definition MultiplyDeBruijnBitPosition32 :: "nat list" where
  "MultiplyDeBruijnBitPosition32 =
    [0, 9, 1, 10, 13, 21, 2, 29, 11, 14, 16, 18, 22, 25, 3, 30,
     8, 12, 20, 28, 15, 17, 24, 7, 19, 27, 23, 6, 26, 5, 4, 31]"

definition MultiplyDeBruijnBitPosition64 :: "nat list" where
  "MultiplyDeBruijnBitPosition64 =
    [0, 11, 1, 12, 16, 29, 2, 13, 22, 17, 41, 25, 30, 48, 3, 61,
     14, 20, 23, 18, 34, 36, 42, 26, 38, 31, 53, 44, 49, 56, 4, 62,
     10, 15, 28, 21, 40, 24, 47, 60, 19, 33, 35, 37, 52, 43, 55, 9,
     27, 39, 46, 59, 32, 51, 54, 8, 45, 58, 50, 7, 57, 6, 5, 63]"

definition ilog2_32 :: "u32 \<Rightarrow> nat" where
  "ilog2_32 n = MultiplyDeBruijnBitPosition32 ! unat (drop_bit 27 (smear32 n * 0x07C4ACDD))"

definition ilog2_64 :: "u64 \<Rightarrow> nat" where
  "ilog2_64 n = MultiplyDeBruijnBitPosition64 ! unat (drop_bit 58 (smear64 n * 0x03F08A4C6ACB9DBD))"

text \<open>Each round of the smear doubles the distance over which a set bit spreads downwards.\<close>

definition smeared :: "nat \<Rightarrow> 'a::len word \<Rightarrow> 'a word \<Rightarrow> bool" where
  "smeared d x y \<longleftrightarrow> (\<forall>n. bit y n \<longleftrightarrow> (\<exists>i<d. bit x (n + i)))"

lemma smeared_1: "smeared 1 x x"
  by (simp add: smeared_def)

lemma smeared_double:
  assumes "smeared d x y" and "e = 2 * d"
  shows "smeared e x (y OR drop_bit d y)"
  unfolding smeared_def
proof (intro allI)
  fix n
  have "(\<exists>i<e. bit x (n + i)) \<longleftrightarrow> (\<exists>i<d. bit x (n + i)) \<or> (\<exists>i<d. bit x (n + (d + i)))"
  proof
    assume "\<exists>i<e. bit x (n + i)"
    then obtain i where i: "i < e" "bit x (n + i)" by blast
    show "(\<exists>i<d. bit x (n + i)) \<or> (\<exists>i<d. bit x (n + (d + i)))"
    proof (cases "i < d")
      case False
      then have "i - d < d" "bit x (n + (d + (i - d)))" using i assms(2) by simp_all
      then show ?thesis by blast
    qed (use i in blast)
  next
    assume "(\<exists>i<d. bit x (n + i)) \<or> (\<exists>i<d. bit x (n + (d + i)))"
    then show "\<exists>i<e. bit x (n + i)"
    proof
      assume "\<exists>i<d. bit x (n + (d + i))"
      then obtain i where "i < d" "bit x (n + (d + i))" by blast
      then show ?thesis using assms(2) by (intro exI [of _ "d + i"]) simp
    next
      assume "\<exists>i<d. bit x (n + i)"
      then obtain i where "i < d" "bit x (n + i)" by blast
      then show ?thesis using assms(2) by (intro exI [of _ i]) simp
    qed
  qed
  then show "bit (y OR drop_bit d y) n \<longleftrightarrow> (\<exists>i<e. bit x (n + i))"
    using assms(1) by (simp add: smeared_def bit_simps ac_simps)
qed

lemma smeared_mask:
  fixes x :: "'a::len word"
  assumes "smeared d x y" and "LENGTH('a) \<le> d"
  shows "y = mask (nbits (unat x))"
proof (rule bit_word_eqI)
  fix n assume n: "n < LENGTH('a)"
  have bit_unat: "bit x k \<longleftrightarrow> odd (unat x div 2 ^ k)" for k
    using bit_unsigned_iff [of x k, where 'a = nat] by (auto simp: bit_iff_odd)
  have "(\<exists>i<d. bit x (n + i)) \<longleftrightarrow> (\<exists>k\<ge>n. bit x k)"
  proof
    assume "\<exists>k\<ge>n. bit x k"
    then obtain k where k: "n \<le> k" "bit x k" by blast
    then have "k < d" using assms(2) bit_imp_le_length [of x k] by linarith
    then show "\<exists>i<d. bit x (n + i)" using k by (intro exI [of _ "k - n"]) auto
  qed (use le_add1 in blast)
  also have "\<dots> \<longleftrightarrow> n < nbits (unat x)"
  proof
    assume "\<exists>k\<ge>n. bit x k"
    then obtain k where k: "n \<le> k" "bit x k" by blast
    then have "unat x div 2 ^ k \<noteq> 0" using bit_unat by (metis even_zero)
    then have "2 ^ k \<le> unat x" by (simp add: div_eq_0_iff)
    then have "(2::nat) ^ k < 2 ^ nbits (unat x)" using less_pow_nbits [of "unat x"] by linarith
    then show "n < nbits (unat x)" using k(1) by simp
  next
    assume lt: "n < nbits (unat x)"
    then have pos: "0 < unat x" by (cases "unat x = 0") auto
    let ?k = "nbits (unat x) - 1"
    have "unat x div 2 ^ ?k = 1"
    proof -
      have "unat x < 2 ^ Suc ?k" using less_pow_nbits [of "unat x"] lt by simp
      then have "unat x div 2 ^ ?k < 2" by (simp add: less_mult_imp_div_less)
      moreover have "0 < unat x div 2 ^ ?k" using pow_nbits_le [OF pos] by (simp add: div_greater_zero_iff)
      ultimately show ?thesis by linarith
    qed
    then have "bit x ?k" using bit_unat by simp
    then show "\<exists>k\<ge>n. bit x k" using lt by (intro exI [of _ ?k]) auto
  qed
  finally show "bit y n = bit (mask (nbits (unat x)) :: 'a word) n"
    using assms(1) n by (simp add: smeared_def bit_simps)
qed

lemma smear64_mask: "smear64 x = mask (nbits (unat x))"
  unfolding smear64_def Let_def
  by (rule smeared_mask [where d = 64], rule smeared_double [where d = 32],
      rule smeared_double [where d = 16], rule smeared_double [where d = 8],
      rule smeared_double [where d = 4], rule smeared_double [where d = 2],
      rule smeared_double [where d = 1]) (simp_all add: smeared_1 del: One_nat_def)

lemma smear32_mask: "smear32 x = mask (nbits (unat x))"
  unfolding smear32_def Let_def
  by (rule smeared_mask [where d = 32], rule smeared_double [where d = 16],
      rule smeared_double [where d = 8], rule smeared_double [where d = 4],
      rule smeared_double [where d = 2], rule smeared_double [where d = 1])
    (simp_all add: smeared_1 del: One_nat_def)

lemma ilog2_table_64:
  "list_all (\<lambda>k. MultiplyDeBruijnBitPosition64 !
       unat (drop_bit 58 ((mask (Suc k) :: u64) * 0x03F08A4C6ACB9DBD)) = k) [0..<64]"
  by code_simp

lemma ilog2_table_32:
  "list_all (\<lambda>k. MultiplyDeBruijnBitPosition32 !
       unat (drop_bit 27 ((mask (Suc k) :: u32) * 0x07C4ACDD)) = k) [0..<32]"
  by code_simp

lemma nbits_unat_le: "nbits (unat (x :: 'a::len word)) \<le> LENGTH('a)"
proof (cases "unat x = 0")
  case False
  then have "(2::nat) ^ (nbits (unat x) - 1) \<le> unat x" by (intro pow_nbits_le) simp
  also have "\<dots> < 2 ^ LENGTH('a)" by (rule unsigned_less)
  finally have "nbits (unat x) - 1 < LENGTH('a)" by (rule power_less_imp_less_exp [rotated]) simp
  then show ?thesis by linarith
qed simp

lemma ilog2_64_eq:
  assumes "n \<noteq> 0"
  shows "ilog2_64 n = ilog2 (unat n)"
proof -
  obtain k where k: "nbits (unat n) = Suc k"
    using assms by (metis nbits_eq_0_iff not0_implies_Suc unat_eq_zero)
  then have "k < 64" using nbits_unat_le [of n] by simp
  then have "MultiplyDeBruijnBitPosition64 !
       unat (drop_bit 58 ((mask (Suc k) :: u64) * 0x03F08A4C6ACB9DBD)) = k"
    using ilog2_table_64 by (simp only: list_all_iff set_upt) simp
  then show ?thesis by (simp add: ilog2_64_def ilog2_def smear64_mask k)
qed

lemma ilog2_32_eq:
  assumes "n \<noteq> 0"
  shows "ilog2_32 n = ilog2 (unat n)"
proof -
  obtain k where k: "nbits (unat n) = Suc k"
    using assms by (metis nbits_eq_0_iff not0_implies_Suc unat_eq_zero)
  then have "k < 32" using nbits_unat_le [of n] by simp
  then have "MultiplyDeBruijnBitPosition32 !
       unat (drop_bit 27 ((mask (Suc k) :: u32) * 0x07C4ACDD)) = k"
    using ilog2_table_32 by (simp only: list_all_iff set_upt) simp
  then show ?thesis by (simp add: ilog2_32_def ilog2_def smear32_mask k)
qed

lemma unat_pow2: "k < LENGTH('a) \<Longrightarrow> unat (2 ^ k :: 'a::len word) = 2 ^ k"
  by transfer (simp add: take_bit_eq_mod nat_power_eq)

lemma bitround64_eq:
  assumes "unat n \<le> 2 ^ 63"
  shows "unat (bitround64 n) = bitround (unat n)"
proof (cases "unat n \<le> 1")
  case True
  then have "n = 0 \<or> n = 1" by (metis le_SucE le_zero_eq One_nat_def unat_1 unat_eq_zero unsigned_word_eqI)
  then show ?thesis by (auto simp: bitround64_def bitround_def smear64_mask nbits_pos)
next
  case False
  then have n: "n \<noteq> 0" by auto
  let ?k = "nbits (unat n - 1)"
  have u: "unat (n - 1) = unat n - 1" using n by (simp add: unat_minus_one)
  have "(2::nat) ^ (?k - 1) \<le> unat n - 1" using False by (intro pow_nbits_le) simp
  also have "\<dots> < 2 ^ 63" using assms False by linarith
  finally have "?k - 1 < 63" by (rule power_less_imp_less_exp [rotated]) simp
  moreover have k: "?k = Suc (?k - 1)" using False nbits_eq_0_iff [of "unat n - 1"] by linarith
  ultimately have "?k < 64" by linarith
  have "bitround64 n = mask ?k + 1" using n by (simp add: bitround64_def smear64_mask u)
  also have "\<dots> = 2 ^ ?k" by (simp add: mask_eq_exp_minus_1)
  finally have "unat (bitround64 n) = 2 ^ ?k" using \<open>?k < 64\<close> by (simp add: unat_pow2)
  also have "\<dots> = 2 * 2 ^ (?k - 1)" by (subst k) simp
  finally show ?thesis using False by (simp add: bitround_def ilog2_def)
qed

subsection \<open>Decimal logarithm\<close>

definition ilog10_thresholds :: "u64 list" where
  "ilog10_thresholds = [
    push_bit 56 1 - drop_bit 0 10,
    push_bit 56 2 - drop_bit 1 100,
    push_bit 56 3 - drop_bit 2 1000,
    push_bit 56 4 - drop_bit 3 10000,
    push_bit 56 5 - drop_bit 4 100000,
    push_bit 56 6 - drop_bit 5 1000000,
    push_bit 56 7 - drop_bit 6 10000000,
    push_bit 56 8 - drop_bit 7 100000000,
    push_bit 56 9 - drop_bit 8 1000000000,
    push_bit 56 10 - drop_bit 9 10000000000,
    push_bit 56 11 - drop_bit 10 100000000000,
    push_bit 56 12 - drop_bit 11 1000000000000,
    push_bit 56 13 - drop_bit 12 10000000000000,
    push_bit 56 14 - drop_bit 13 100000000000000,
    push_bit 56 15 - drop_bit 14 1000000000000000,
    push_bit 56 16 - drop_bit 15 10000000000000000,
    push_bit 56 17 - drop_bit 16 100000000000000000,
    push_bit 56 18 - drop_bit 17 1000000000000000000,
    push_bit 56 19 - drop_bit 18 10000000000000000000]"

definition ilog10 :: "u64 \<Rightarrow> nat" where
  "ilog10 n =
     (let digits = ilog2 (unat n) * 19 div 64
      in unat (drop_bit 56 (ilog10_thresholds ! digits + drop_bit digits n)))"

text \<open>
  The table in numbers: entry \<open>k\<close> is \<open>(k+1) * 2^56 - 10^(k+1) / 2^k\<close>, and the estimate \<open>k\<close>
  made from the binary logarithm \<open>e\<close> is right or one too small.
\<close>

lemma ilog10_entries:
  "\<forall>k<19. unat (ilog10_thresholds ! k) = (k + 1) * 2 ^ 56 - 10 ^ (k + 1) div 2 ^ k \<and>
      2 ^ k dvd (10::nat) ^ (k + 1) \<and> (10::nat) ^ (k + 1) div 2 ^ k \<le> 2 ^ 56"
  by (simp add: all_less_numeral ilog10_thresholds_def)

lemma ilog10_estimate:
  "\<forall>e<64. (10::nat) ^ (e * 19 div 64) \<le> 2 ^ e \<and> (2::nat) ^ (e + 1) \<le> 10 ^ (e * 19 div 64 + 2) \<and>
      (2::nat) ^ (e + 1) div 2 ^ (e * 19 div 64) \<le> 2 ^ 56"
  by (simp add: all_less_numeral)

lemma ilog10_correct_aux:
  fixes n t k :: nat
  assumes "2 ^ k dvd t" and "t div 2 ^ k \<le> 2 ^ 56" and "n div 2 ^ k < 2 ^ 56"
  shows "((k + 1) * 2 ^ 56 - t div 2 ^ k + n div 2 ^ k) div 2 ^ 56 = (if t \<le> n then k + 1 else k)"
proof -
  have ge: "t div 2 ^ k \<le> n div 2 ^ k \<longleftrightarrow> t \<le> n"
    using assms(1) by (metis div_le_mono dvd_div_mult_self mult_le_mono1 div_times_less_eq_dividend le_trans)
  show ?thesis
  proof (cases "t \<le> n")
    case True
    then have "t div 2 ^ k \<le> n div 2 ^ k" using ge by simp
    then have "(k + 1) * 2 ^ 56 - t div 2 ^ k + n div 2 ^ k =
        (n div 2 ^ k - t div 2 ^ k) + (k + 1) * 2 ^ 56" using assms(2) by simp
    moreover have "n div 2 ^ k - t div 2 ^ k < 2 ^ 56" using assms(3) by linarith
    ultimately show ?thesis using True by simp
  next
    case False
    then have "n div 2 ^ k < t div 2 ^ k" using ge by simp
    then have "(k + 1) * 2 ^ 56 - t div 2 ^ k + n div 2 ^ k =
        (2 ^ 56 - (t div 2 ^ k - n div 2 ^ k)) + k * 2 ^ 56" using assms(2) by simp
    moreover have "2 ^ 56 - (t div 2 ^ k - n div 2 ^ k) < 2 ^ 56"
      using \<open>n div 2 ^ k < t div 2 ^ k\<close> by simp
    ultimately show ?thesis using False by simp
  qed
qed

lemma ilog2_bounds:
  assumes "n \<noteq> 0"
  shows "2 ^ ilog2 (unat (n :: u64)) \<le> unat n" and "unat n < 2 ^ (ilog2 (unat n) + 1)"
    and "ilog2 (unat n) < 64"
proof -
  have pos: "0 < unat n" using assms by (simp add: unat_gt_0)
  have k: "nbits (unat n) = ilog2 (unat n) + 1"
    using pos nbits_eq_0_iff [of "unat n"] unfolding ilog2_def by linarith
  show "2 ^ ilog2 (unat n) \<le> unat n" using pow_nbits_le [OF pos] by (simp add: ilog2_def)
  show "unat n < 2 ^ (ilog2 (unat n) + 1)" using less_pow_nbits [of "unat n"] by (simp only: k)
  show "ilog2 (unat n) < 64" using nbits_unat_le [of n] k by simp
qed

lemma unat_drop_bit_div: "unat (drop_bit m (x :: 'a::len word)) = unat x div 2 ^ m"
  using unat_drop_bit_eq [of m x] drop_bit_eq_div [of m "unat x"] by simp

lemma ilog10_value:
  assumes "n \<noteq> 0"
  defines "k \<equiv> ilog2 (unat n) * 19 div 64"
  shows "ilog10 n = (if 10 ^ (k + 1) \<le> unat n then k + 1 else k)"
proof -
  let ?e = "ilog2 (unat n)" and ?t = "(10::nat) ^ (k + 1)"
  note e = ilog2_bounds [OF assms(1)]
  have k: "k < 19" using e(3) by (simp add: k_def)
  have thr: "unat (ilog10_thresholds ! k) = (k + 1) * 2 ^ 56 - ?t div 2 ^ k"
    "2 ^ k dvd ?t" "?t div 2 ^ k \<le> 2 ^ 56"
    using ilog10_entries k by blast+
  have t0: "0 < ?t div 2 ^ k"
    using thr(2) by (metis dvd_imp_le div_greater_zero_iff zero_less_numeral zero_less_power)
  have small: "unat n div 2 ^ k < 2 ^ 56"
  proof -
    have "unat n div 2 ^ k \<le> (2 ^ (?e + 1) - 1) div 2 ^ k" using e(2) by (intro div_le_mono) linarith
    also have "\<dots> < 2 ^ 56"
    proof -
      have "(2::nat) ^ (?e + 1) div 2 ^ k \<le> 2 ^ 56" using ilog10_estimate e(3) by (auto simp: k_def)
      moreover have "(2::nat) ^ k dvd 2 ^ (?e + 1)" by (intro le_imp_power_dvd) (simp add: k_def)
      then have "(2 ^ (?e + 1) - 1) div 2 ^ k < (2::nat) ^ (?e + 1) div 2 ^ k"
        by (simp add: less_mult_imp_div_less)
      ultimately show ?thesis by linarith
    qed
    finally show ?thesis .
  qed
  have "unat (drop_bit k n) = unat n div 2 ^ k" by (rule unat_drop_bit_div)
  then have "unat (ilog10_thresholds ! k + drop_bit k n) = (k + 1) * 2 ^ 56 - ?t div 2 ^ k + unat n div 2 ^ k"
    using small k t0 by (simp add: unat_word_ariths thr(1))
  then have "ilog10 n = ((k + 1) * 2 ^ 56 - ?t div 2 ^ k + unat n div 2 ^ k) div 2 ^ 56"
    by (simp add: ilog10_def Let_def k_def unat_drop_bit_div)
  then show ?thesis using ilog10_correct_aux [OF thr(2,3) small] by simp
qed

subsection \<open>Comparing memory\<close>

text \<open>
  \<^verbatim>\<open>memxor_t<T>\<close> loads the same number of bytes from both buffers and XORs them; the
  results of different sizes are OR-ed after the usual promotion to the larger type.
\<close>

definition memxor :: "nat \<Rightarrow> nat \<Rightarrow> bytes \<Rightarrow> bytes \<Rightarrow> u64" where
  "memxor sz off a b = le_word (slice off sz a) XOR le_word (slice off sz b)"

definition memeq :: "bytes \<Rightarrow> bytes \<Rightarrow> nat \<Rightarrow> bool" where
  "memeq a b len =
     (if len = 0 then True
      else if len = 1 then a ! 0 = b ! 0
      else if len = 2 then memxor 2 0 a b = 0
      else if len = 3 then (memxor 2 0 a b OR memxor 1 2 a b) = 0
      else if len = 4 then memxor 4 0 a b = 0
      else if len = 5 then (memxor 4 0 a b OR memxor 1 4 a b) = 0
      else if len = 6 then (memxor 4 0 a b OR memxor 2 4 a b) = 0
      else if len < 8 then (memxor 4 0 a b OR memxor 4 (len - 4) a b) = 0
      else if len = 8 then memxor 8 0 a b = 0
      else if len = 9 then (memxor 8 0 a b OR memxor 1 8 a b) = 0
      else if len = 10 then (memxor 8 0 a b OR memxor 2 8 a b) = 0
      else if len \<le> 12 then (memxor 8 0 a b OR memxor 4 (len - 4) a b) = 0
      else if len \<le> 16 then (memxor 8 0 a b OR memxor 8 (len - 8) a b) = 0
      else take len a = take len b)"

lemma xor_0_iff: "a XOR b = (0 :: 'a::len word) \<longleftrightarrow> a = b"
  by (auto simp: bit_eq_iff bit_simps)

lemma memxor_0_iff:
  assumes "sz \<le> 8" and "off + sz \<le> length a" and "off + sz \<le> length b"
  shows "memxor sz off a b = 0 \<longleftrightarrow> slice off sz a = slice off sz b"
proof
  let ?x = "slice off sz a" and ?y = "slice off sz b"
  have len: "length ?x = sz" "length ?y = sz" using assms by (simp_all add: slice_def)
  assume "memxor sz off a b = 0"
  then have eq: "(le_word ?x :: u64) = le_word ?y" by (simp add: memxor_def xor_0_iff)
  show "?x = ?y"
  proof (rule nth_equalityI)
    fix i assume "i < length ?x"
    then have i: "i < sz" using len by simp
    have "bit (?x ! i) n = bit (?y ! i) n" if "n < 8" for n
    proof -
      have "8 * i + n < 64" using i that assms(1) by simp
      moreover have "(8 * i + n) div 8 = i" "(8 * i + n) mod 8 = n" using that by simp_all
      moreover have "bit (le_word ?x :: u64) (8 * i + n) = bit (le_word ?y :: u64) (8 * i + n)"
        by (simp only: eq)
      ultimately show ?thesis using i len by (simp add: bit_le_word)
    qed
    then show "?x ! i = ?y ! i" by (intro bit_word_eqI) simp
  qed (simp add: len)
qed (simp add: memxor_def)

lemma or_eq_0_iff [simp]: "(a OR b) = (0 :: 'a::len word) \<longleftrightarrow> a = 0 \<and> b = 0"
  by (auto simp: bit_eq_iff bit_simps)

lemma take_split_eq:
  assumes "m + n \<ge> len" and "n \<le> len" and "m \<le> len" and "len \<le> length a" and "len \<le> length b"
  shows "take len a = take len b \<longleftrightarrow> slice 0 m a = slice 0 m b \<and> slice (len - n) n a = slice (len - n) n b"
proof
  assume eq: "take len a = take len b"
  have "slice i k a = slice i k (take len a)" "slice i k b = slice i k (take len b)"
    if "i + k \<le> len" for i k
    using that by (simp_all add: slice_def drop_take min_absorb1)
  then show "slice 0 m a = slice 0 m b \<and> slice (len - n) n a = slice (len - n) n b"
    using assms eq by simp
next
  assume eq: "slice 0 m a = slice 0 m b \<and> slice (len - n) n a = slice (len - n) n b"
  show "take len a = take len b"
  proof (rule nth_equalityI)
    fix i assume "i < length (take len a)"
    then have i: "i < len" by simp
    show "take len a ! i = take len b ! i"
    proof (cases "i < m")
      case True
      then have "slice 0 m a ! i = slice 0 m b ! i" using eq by simp
      then show ?thesis using True i assms by (simp add: slice_def)
    next
      case False
      then have "slice (len - n) n a ! (i - (len - n)) = slice (len - n) n b ! (i - (len - n))"
        using eq by simp
      then show ?thesis using False i assms by (simp add: nth_slice)
    qed
  qed (use assms in simp)
qed

lemma memeq_iff:
  assumes "len \<le> length a" and "len \<le> length b"
  shows "memeq a b len \<longleftrightarrow> take len a = take len b"
proof -
  have one: "a ! 0 = b ! 0 \<longleftrightarrow> take 1 a = take 1 b" if "len = 1"
    using that assms by (cases a; cases b) auto
  have whole: "memxor len 0 a b = 0 \<longleftrightarrow> take len a = take len b" if "len \<le> 8"
    using that assms by (simp add: memxor_0_iff slice_def)
  have two: "(memxor m 0 a b OR memxor n (len - n) a b) = 0 \<longleftrightarrow> take len a = take len b"
    if "m \<le> 8" "n \<le> 8" "m \<le> len" "n \<le> len" "len \<le> m + n" for m n
    using that assms by (simp add: memxor_0_iff take_split_eq [where m = m and n = n])
  consider "len = 0" | "len = 1" | "len = 2" | "len = 3" | "len = 4" | "len = 5" | "len = 6" | "len = 7"
    | "len = 8" | "len = 9" | "len = 10" | "len = 11 \<or> len = 12" | "12 < len" "len \<le> 16" | "16 < len"
    by atomize_elim presburger
  then show ?thesis
  proof cases
    case 2 then show ?thesis using one by (simp add: memeq_def)
  next
    case 4 then show ?thesis using two [of 2 1] by (simp add: memeq_def)
  next
    case 6 then show ?thesis using two [of 4 1] by (simp add: memeq_def)
  next
    case 7 then show ?thesis using two [of 4 2] by (simp add: memeq_def)
  next
    case 8 then show ?thesis using two [of 4 4] by (simp add: memeq_def)
  next
    case 10 then show ?thesis using two [of 8 1] by (simp add: memeq_def)
  next
    case 11 then show ?thesis using two [of 8 2] by (simp add: memeq_def)
  next
    case 12 then show ?thesis using two [of 8 4] by (auto simp: memeq_def)
  next
    case 13 then show ?thesis using two [of 8 8] by (simp add: memeq_def)
  qed (use whole in \<open>simp_all add: memeq_def\<close>)
qed

subsection \<open>Properties\<close>

text \<open>
  C34. The portable fallback of \<open>bitround\<close> returns, for every input up to 2 to the 63rd, the
  least power of two that is not below it (1 for 0), which is what the version on the
  compiler's bit scan computes.
\<close>

theorem bitround64_least_power:
  assumes "unat n \<le> 2 ^ 63"
  shows "unat (bitround64 n) = bitround (unat n) \<and> (\<exists>k. unat (bitround64 n) = 2 ^ k) \<and>
    unat n \<le> unat (bitround64 n) \<and> (unat n \<le> 2 ^ j \<longrightarrow> unat (bitround64 n) \<le> 2 ^ j)"
  using bitround64_eq [OF assms] bitround_power bitround_ge bitround_least by simp_all

theorem bitround64_least_power_witness:
  "unat (bitround64 5) = bitround 5 \<and> unat (bitround64 5) \<le> 2 ^ 3"
  using bitround64_least_power [of 5 3] by simp

lemma ilog10_bounds:
  assumes "n \<noteq> 0"
  shows "10 ^ ilog10 n \<le> unat n" and "unat n < 10 ^ (ilog10 n + 1)"
proof -
  note e = ilog2_bounds [OF assms]
  define k where "k = ilog2 (unat n) * 19 div 64"
  have est: "(10::nat) ^ k \<le> 2 ^ ilog2 (unat n)" "(2::nat) ^ (ilog2 (unat n) + 1) \<le> 10 ^ (k + 2)"
    using ilog10_estimate e(3) by (auto simp: k_def)
  have v: "ilog10 n = (if 10 ^ (k + 1) \<le> unat n then k + 1 else k)"
    using ilog10_value [OF assms] by (simp add: k_def)
  show "10 ^ ilog10 n \<le> unat n" using est(1) e(1) by (auto simp: v intro: le_trans)
  show "unat n < 10 ^ (ilog10 n + 1)" using est(2) e(2) by (auto simp: v)
qed

text \<open>
  The table-driven logarithms are exact on every nonzero 64-bit input: the De Bruijn
  multiplication finds the index of the highest set bit, and \<open>ilog10\<close> returns the number of
  decimal digits minus one.
\<close>

theorem ilog_exact:
  assumes "n \<noteq> 0"
  shows "2 ^ ilog2_64 n \<le> unat n \<and> unat n < 2 ^ (ilog2_64 n + 1) \<and>
    10 ^ ilog10 n \<le> unat n \<and> unat n < 10 ^ (ilog10 n + 1)"
  using ilog2_bounds [OF assms] ilog10_bounds [OF assms] ilog2_64_eq [OF assms] by simp

theorem ilog_exact_witness:
  "2 ^ ilog2_64 999 \<le> (999 :: nat) \<and> (999 :: nat) < 2 ^ (ilog2_64 999 + 1) \<and>
    10 ^ ilog10 999 \<le> (999 :: nat) \<and> (999 :: nat) < 10 ^ (ilog10 999 + 1)"
  using ilog_exact [of 999] by simp

text \<open>
  The size-specialised \<open>memeq\<close>, with its overlapping loads, decides equality of the first
  \<open>len\<close> bytes of the two buffers for every length.
\<close>

theorem memeq_correct:
  assumes "len \<le> length a" and "len \<le> length b"
  shows "memeq a b len \<longleftrightarrow> take len a = take len b"
  by (rule memeq_iff [OF assms])

theorem memeq_correct_witness:
  "memeq [1, 2, 3, 4, 5, 6, 7] [1, 2, 3, 4, 5, 6, 7] 7 \<longleftrightarrow>
     take 7 [1, 2, 3, 4, 5, 6, 7 :: byte] = take 7 [1, 2, 3, 4, 5, 6, 7]"
  by (rule memeq_correct) simp_all

end
