(* ===== verification/Bytepipe.thy ===== *)
theory Bytepipe
  imports Global
begin

text \<open>
  \<^verbatim>\<open>arlib/bytepipe.h\<close> and \<^verbatim>\<open>arlib/bytepipe.cpp\<close>: the byte queue under every socket. It keeps
  two buffers, reads from the first and writes to the second, and swaps or merges them as
  needed. The record has the six fields of the class; the buffers are byte lists of their
  allocated size. A borrowed region is its offset, length and contents; the caller's writes into
  the region of \<open>push_begin\<close> are a \<open>blit\<close> at \<open>buf2end\<close>.
\<close>

record bytepipe =
  buf1 :: bytes
  buf1st :: nat
  buf1end :: nat
  buf2 :: bytes
  buf2st :: nat
  buf2end :: nat

subsection \<open>Operations\<close>

text \<open>\<^verbatim>\<open>array<uint8_t>::resize\<close>: new elements are zero.\<close>

definition resize_bytes :: "nat \<Rightarrow> bytes \<Rightarrow> bytes" where
  "resize_bytes n b = take n b @ replicate (n - length b) 0"

definition bp_size :: "bytepipe \<Rightarrow> nat" where
  "bp_size p = buf1end p - buf1st p + buf2end p - buf2st p"

definition try_swap :: "bytepipe \<Rightarrow> bytepipe" where
  "try_swap p =
     (if buf1st p = buf1end p \<and> buf2end p \<noteq> 0
      then p\<lparr>buf1 := buf2 p, buf2 := buf1 p, buf1st := buf2st p, buf1end := buf2end p,
             buf2st := 0, buf2end := 0\<rparr>
      else p)"

text \<open>
  The loop that doubles the second buffer until the request fits. A buffer of size 0 stays 0
  forever: the loop does not return (\<open>None\<close>).
\<close>

function grow_size :: "nat \<Rightarrow> nat \<Rightarrow> nat \<Rightarrow> nat option" where
  "grow_size b2s b2end nbytes =
     (if nbytes \<le> b2s - b2end then Some b2s
      else if b2s = 0 then None
      else grow_size (b2s * 2) b2end nbytes)"
  by pat_completeness auto
termination
  by (relation "measure (\<lambda>(b2s, b2end, nbytes). nbytes + b2end - b2s)") auto

declare grow_size.simps [simp del]

definition push_begin :: "nat \<Rightarrow> bytepipe \<Rightarrow> (nat \<times> bytepipe) option" where
  "push_begin nbytes p0 =
     (let p = (if length (buf2 p0) - buf2end p0 < nbytes then try_swap p0 else p0)
      in if length (buf2 p) - buf2end p < nbytes
         then (case grow_size (length (buf2 p)) (buf2end p) nbytes of
                 None \<Rightarrow> None
               | Some b2s \<Rightarrow> Some (b2s - buf2end p, p\<lparr>buf2 := resize_bytes b2s (buf2 p)\<rparr>))
         else Some (length (buf2 p) - buf2end p, p))"

definition push_finish :: "nat \<Rightarrow> bytepipe \<Rightarrow> bytepipe" where
  "push_finish nbytes p = p\<lparr>buf2end := buf2end p + nbytes\<rparr>"

definition push :: "bytes \<Rightarrow> bytepipe \<Rightarrow> bytepipe option" where
  "push bs p =
     (case push_begin (length bs) p of
        None \<Rightarrow> None
      | Some (_, p1) \<Rightarrow>
          Some (push_finish (length bs) (p1\<lparr>buf2 := blit (buf2 p1) (buf2end p1) bs\<rparr>)))"

text \<open>\<^verbatim>\<open>push_text\<close>: one reservation for all arguments, then one copy per argument.\<close>

fun push_text_copies :: "nat \<Rightarrow> bytes list \<Rightarrow> bytes \<Rightarrow> bytes" where
  "push_text_copies at [] buf = buf"
| "push_text_copies at (a # args) buf = push_text_copies (at + length a) args (blit buf at a)"

definition push_text :: "bytes list \<Rightarrow> bytepipe \<Rightarrow> bytepipe option" where
  "push_text args p =
     (let nbytes = sum_list (map length args)
      in case push_begin nbytes p of
           None \<Rightarrow> None
         | Some (_, p1) \<Rightarrow>
             Some (push_finish nbytes
               (p1\<lparr>buf2 := push_text_copies (buf2end p1) args (buf2 p1)\<rparr>)))"

definition pull_begin :: "nat \<Rightarrow> bytepipe \<Rightarrow> bytes \<times> bytepipe" where
  "pull_begin nbytes p0 =
     (if bp_size p0 < nbytes then ([], p0)
      else
        let p = try_swap p0; size1 = buf1end p - buf1st p
        in if nbytes \<le> size1 then (slice (buf1st p) size1 (buf1 p), p)
           else if nbytes \<le> length (buf1 p) then
             let size2 = nbytes - size1;
                 moved = (if buf1st p \<noteq> 0
                          then blit (buf1 p) 0 (slice (buf1st p) size1 (buf1 p)) else buf1 p);
                 merged = blit moved size1 (slice (buf2st p) size2 (buf2 p))
             in (slice 0 nbytes merged,
                 p\<lparr>buf1 := merged, buf1st := 0, buf1end := nbytes, buf2st := buf2st p + size2\<rparr>)
           else
             let size2 = buf2end p - buf2st p;
                 newbuf = resize_bytes (bitround (bp_size p)) [];
                 newbuf1 = blit newbuf 0 (slice (buf1st p) size1 (buf1 p));
                 newbuf2 = blit newbuf1 size1 (slice (buf2st p) size2 (buf2 p))
             in (slice 0 (size1 + size2) newbuf2,
                 p\<lparr>buf1 := newbuf2, buf1st := 0, buf1end := size1 + size2,
                   buf2st := 0, buf2end := 0\<rparr>))"

definition pull_finish :: "nat \<Rightarrow> bytepipe \<Rightarrow> bytepipe" where
  "pull_finish nbytes p = p\<lparr>buf1st := buf1st p + nbytes\<rparr>"

definition pull :: "nat \<Rightarrow> bytepipe \<Rightarrow> bytes \<times> bytepipe" where
  "pull nbytes p =
     (let (ret, p1) = pull_begin nbytes p
      in if ret = [] then (ret, p1) else (slice 0 nbytes ret, pull_finish nbytes p1))"

definition pull_any :: "bytepipe \<Rightarrow> bytes \<times> bytepipe" where
  "pull_any p = (let (ret, p1) = pull_begin 1 p in (ret, pull_finish (length ret) p1))"

definition pull_all :: "bytepipe \<Rightarrow> bytes \<times> bytepipe" where
  "pull_all p = pull (bp_size p) p"

text \<open>\<^verbatim>\<open>memchr\<close>: the offset of the first occurrence.\<close>

fun memchr :: "byte \<Rightarrow> bytes \<Rightarrow> nat option" where
  "memchr c [] = None"
| "memchr c (b # bs) = (if b = c then Some 0 else map_option Suc (memchr c bs))"

definition newline :: byte where "newline = 10"
definition carriage_return :: byte where "carriage_return = 13"

definition pull_line :: "nat \<Rightarrow> bytepipe \<Rightarrow> bytes \<times> bytepipe" where
  "pull_line skip p =
     (let chunk1 = slice (buf1st p) (buf1end p - buf1st p) (buf1 p);
          rest = (\<lambda>chunk1 skipped skip.
            let chunk2 = drop skip (slice (buf2st p) (buf2end p - buf2st p) (buf2 p));
                skipped = skipped + skip
            in case memchr newline chunk2 of
                 Some nl2 \<Rightarrow> pull (skipped + nl2 + 1 + length chunk1) p
               | None \<Rightarrow> ([], p))
      in if skip \<le> length chunk1 then
           let chunk1 = drop skip chunk1
           in case memchr newline chunk1 of
                Some nl1 \<Rightarrow> pull (skip + nl1 + 1) p
              | None \<Rightarrow> rest chunk1 skip 0
         else rest chunk1 0 (skip - length chunk1))"

definition trim_line :: "bytes \<Rightarrow> bytes" where
  "trim_line line =
     (if length line \<le> 1 then []
      else if line ! (length line - 2) = carriage_return then take (length line - 2) line
      else take (length line - 1) line)"

definition bufsize :: "nat \<Rightarrow> bytepipe \<Rightarrow> bytepipe" where
  "bufsize newsize p0 =
     (let p = (if buf1end p0 < newsize then p0\<lparr>buf1 := resize_bytes newsize (buf1 p0)\<rparr> else p0)
      in if buf2end p < newsize then p\<lparr>buf2 := resize_bytes newsize (buf2 p)\<rparr> else p)"

definition reset :: "nat \<Rightarrow> bytepipe \<Rightarrow> bytepipe" where
  "reset n p =
     p\<lparr>buf1 := resize_bytes n (buf1 p), buf1st := 0, buf1end := 0,
       buf2 := resize_bytes n (buf2 p), buf2st := 0, buf2end := 0\<rparr>"

definition bytepipe_new :: bytepipe where
  "bytepipe_new =
     reset 256 \<lparr>buf1 = [], buf1st = 0, buf1end = 0, buf2 = [], buf2st = 0, buf2end = 0\<rparr>"

subsection \<open>Invariant and abstraction\<close>

text \<open>
  The unread bytes are those of the first buffer followed by those of the second. The
  buffers are never empty allocations, which is what makes the doubling loop return. While
  the first buffer is exhausted the second may still be partly read (\<open>buf2st\<close> is moved when
  bytes are copied from its front).
\<close>

definition bp_inv :: "bytepipe \<Rightarrow> bool" where
  "bp_inv p \<longleftrightarrow> buf1st p \<le> buf1end p \<and> buf1end p \<le> length (buf1 p) \<and>
     buf2st p \<le> buf2end p \<and> buf2end p \<le> length (buf2 p) \<and>
     0 < length (buf1 p) \<and> 0 < length (buf2 p)"

definition bp_list :: "bytepipe \<Rightarrow> bytes" where
  "bp_list p = slice (buf1st p) (buf1end p - buf1st p) (buf1 p) @
     slice (buf2st p) (buf2end p - buf2st p) (buf2 p)"

lemma length_resize_bytes [simp]: "length (resize_bytes n b) = n"
  by (simp add: resize_bytes_def min_def)

lemma resize_bytes_eq_Nil [simp]: "resize_bytes n b = [] \<longleftrightarrow> n = 0"
  by (simp flip: length_0_conv)

lemma take_resize_bytes: "k \<le> n \<Longrightarrow> k \<le> length b \<Longrightarrow> take k (resize_bytes n b) = take k b"
  by (simp add: resize_bytes_def min_def)

lemma slice_resize_bytes:
  "a + k \<le> n \<Longrightarrow> a + k \<le> length b \<Longrightarrow> slice a k (resize_bytes n b) = slice a k b"
proof -
  assume le: "a + k \<le> n" "a + k \<le> length b"
  have "slice a k xs = drop a (take (a + k) xs)" for xs :: bytes
    by (simp add: slice_def take_drop add.commute)
  then show ?thesis using le by (simp add: take_resize_bytes)
qed

lemma length_bp_list: "bp_inv p \<Longrightarrow> length (bp_list p) = bp_size p"
  by (auto simp: bp_inv_def bp_list_def bp_size_def buffer_simps)

lemma try_swap_inv: "bp_inv p \<Longrightarrow> bp_inv (try_swap p)"
  by (auto simp: bp_inv_def try_swap_def)

lemma try_swap_list: "bp_inv p \<Longrightarrow> bp_list (try_swap p) = bp_list p"
  by (auto simp: bp_inv_def try_swap_def bp_list_def)

lemma try_swap_size: "bp_inv p \<Longrightarrow> bp_size (try_swap p) = bp_size p"
  by (metis length_bp_list try_swap_inv try_swap_list)

lemma grow_size_enough:
  "0 < b2s \<Longrightarrow> \<exists>r. grow_size b2s b2end n = Some r \<and> b2s \<le> r \<and> n \<le> r - b2end"
proof (induction b2s b2end n rule: grow_size.induct)
  case (1 b2s b2end n)
  show ?case
  proof (cases "n \<le> b2s - b2end")
    case False
    with 1 obtain r where "grow_size (b2s * 2) b2end n = Some r" "b2s * 2 \<le> r" "n \<le> r - b2end"
      by auto
    then show ?thesis using False "1.prems" by (auto simp: grow_size.simps [of b2s])
  qed (simp add: grow_size.simps)
qed

lemma push_begin_spec:
  assumes "bp_inv p"
  obtains room p1 where "push_begin n p = Some (room, p1)" and "bp_inv p1"
    and "bp_list p1 = bp_list p" and "room = length (buf2 p1) - buf2end p1" and "n \<le> room"
proof -
  define q where "q = (if length (buf2 p) - buf2end p < n then try_swap p else p)"
  have q: "bp_inv q" "bp_list q = bp_list p"
    using assms by (simp_all add: q_def try_swap_inv try_swap_list)
  show ?thesis
  proof (cases "length (buf2 q) - buf2end q < n")
    case False
    then show ?thesis using q by (intro that [of "length (buf2 q) - buf2end q" q])
        (simp_all add: push_begin_def q_def [symmetric] Let_def)
  next
    case True
    obtain r where r: "grow_size (length (buf2 q)) (buf2end q) n = Some r"
        "length (buf2 q) \<le> r" "n \<le> r - buf2end q"
      using grow_size_enough [of "length (buf2 q)"] q(1) by (auto simp: bp_inv_def)
    let ?p1 = "q\<lparr>buf2 := resize_bytes r (buf2 q)\<rparr>"
    have "push_begin n p = Some (r - buf2end q, ?p1)"
      using True r(1) by (simp add: push_begin_def q_def [symmetric] Let_def)
    moreover have "bp_inv ?p1"
      using q(1) r(2) less_le_trans [OF _ r(2), of 0] by (auto simp: bp_inv_def)
    moreover have "bp_list ?p1 = bp_list q"
      using q(1) r(2) by (simp add: bp_list_def bp_inv_def slice_resize_bytes)
    ultimately show ?thesis using q(2) r(3) by (intro that [of _ ?p1]) auto
  qed
qed

text \<open>Writing into the reserved region and finishing appends the bytes.\<close>

lemma push_finish_spec:
  assumes "bp_inv p" and "length bs \<le> length (buf2 p) - buf2end p"
  defines "p' \<equiv> push_finish (length bs) (p\<lparr>buf2 := blit (buf2 p) (buf2end p) bs\<rparr>)"
  shows "bp_inv p'" and "bp_list p' = bp_list p @ bs"
proof -
  have le: "buf2end p + length bs \<le> length (buf2 p)" "buf2st p \<le> buf2end p"
    using assms(1,2) by (auto simp: bp_inv_def)
  show "bp_inv p'" using assms(1) le by (auto simp: bp_inv_def p'_def push_finish_def buffer_simps)
  have "slice (buf2st p) (buf2end p + length bs - buf2st p) (blit (buf2 p) (buf2end p) bs)
      = slice (buf2st p) (buf2end p - buf2st p) (blit (buf2 p) (buf2end p) bs) @
        slice (buf2end p) (length bs) (blit (buf2 p) (buf2end p) bs)"
    using slice_append_adjacent [of "buf2st p" "buf2end p - buf2st p" "blit (buf2 p) (buf2end p) bs"
        "length bs", symmetric] le by simp
  then show "bp_list p' = bp_list p @ bs"
    using le by (simp add: p'_def push_finish_def bp_list_def buffer_simps)
qed

lemma push_spec:
  assumes "bp_inv p"
  obtains p' where "push bs p = Some p'" and "bp_inv p'" and "bp_list p' = bp_list p @ bs"
proof -
  obtain room p1 where b: "push_begin (length bs) p = Some (room, p1)" "bp_inv p1"
      "bp_list p1 = bp_list p" "room = length (buf2 p1) - buf2end p1" "length bs \<le> room"
    using push_begin_spec [OF assms] by metis
  then have le: "length bs \<le> length (buf2 p1) - buf2end p1" by simp
  show ?thesis
    using b(1,3) push_finish_spec [OF b(2) le] by (intro that) (simp_all add: push_def)
qed

lemma push_text_copies_concat:
  "at + length (concat args) \<le> length buf \<Longrightarrow> push_text_copies at args buf = blit buf at (concat args)"
proof (induction args arbitrary: at buf)
  case (Cons a args)
  then have "push_text_copies (at + length a) args (blit buf at a)
      = blit (blit buf at a) (at + length a) (concat args)"
    by (intro Cons.IH) (simp add: buffer_simps)
  then show ?case using Cons.prems by (simp add: blit_def min_absorb2 add.commute add.left_commute)
qed simp

lemma push_text_spec:
  assumes "bp_inv p"
  shows "push_text args p = push (concat args) p"
proof -
  obtain room p1 where b: "push_begin (length (concat args)) p = Some (room, p1)" "bp_inv p1"
      "room = length (buf2 p1) - buf2end p1" "length (concat args) \<le> room"
    using push_begin_spec [OF assms] by metis
  then have "buf2end p1 + length (concat args) \<le> length (buf2 p1)" by (auto simp: bp_inv_def)
  then show ?thesis using b(1) by (simp add: push_text_def push_def length_concat [symmetric] push_text_copies_concat
    Let_def del: length_concat)
qed

subsection \<open>Pulling\<close>

text \<open>
  When the first buffer cannot hold the request, the bytes of both are merged; either way
  the region returned is a prefix of the unread bytes and starts at the read position.
\<close>

lemma slice_blit_two:
  assumes "length xs + length ys \<le> length buf"
  shows "slice 0 (length xs + length ys) (blit (blit buf 0 xs) (length xs) ys) = xs @ ys"
  using assms by (simp add: blit_def slice_def)

definition region_ok :: "bytes \<Rightarrow> bytepipe \<Rightarrow> bool" where
  "region_ok r p \<longleftrightarrow> length r \<le> buf1end p - buf1st p \<and> r = slice (buf1st p) (length r) (buf1 p)"

lemma pull_merge_in_place:
  assumes "bp_inv p" and "n \<le> length (buf1 p)" and "size1 < n" and "n \<le> bp_size p"
    and "size1 = buf1end p - buf1st p"
    and "moved = (if buf1st p \<noteq> 0 then blit (buf1 p) 0 (slice (buf1st p) size1 (buf1 p)) else buf1 p)"
    and "merged = blit moved size1 (slice (buf2st p) (n - size1) (buf2 p))"
    and "p' = p\<lparr>buf1 := merged, buf1st := 0, buf1end := n, buf2st := buf2st p + (n - size1)\<rparr>"
  shows "bp_inv p' \<and> bp_list p' = bp_list p \<and> region_ok (slice 0 n merged) p' \<and> length (slice 0 n merged) = n"
proof -
  let ?a = "slice (buf1st p) size1 (buf1 p)" and ?b = "slice (buf2st p) (n - size1) (buf2 p)"
  have inv: "buf1st p \<le> buf1end p" "buf1end p \<le> length (buf1 p)" "buf2st p \<le> buf2end p"
    "buf2end p \<le> length (buf2 p)" "0 < length (buf1 p)" "0 < length (buf2 p)"
    using assms(1) by (simp_all add: bp_inv_def)
  have size2: "n - size1 \<le> buf2end p - buf2st p" using assms(3-5) inv by (simp add: bp_size_def)
  have la: "length ?a = size1" and lb: "length ?b = n - size1"
    using inv assms(5) size2 by (simp_all add: slice_def)
  have moved: "length moved = length (buf1 p)" "take size1 moved = ?a"
    using assms(2,3,6) la by (auto simp: buffer_simps slice_def blit_def)
  have m: "merged = (?a @ ?b) @ drop n moved"
    using moved(2) lb assms(3,7) by (simp add: blit_def)
  have n: "length (?a @ ?b) = n" using la lb assms(3) by simp
  have ab: "slice 0 n merged = ?a @ ?b"
    unfolding m slice_zero_start using n by (metis append_eq_conv_conj)
  have lm: "length merged = length (buf1 p)"
    using n moved(1) assms(2) by (simp add: m del: length_append) (simp add: la lb)
  have rest: "(n - size1) + (buf2end p - (buf2st p + (n - size1))) = buf2end p - buf2st p"
    using size2 by arith
  have "slice (buf2st p) (n - size1) (buf2 p) @
      slice (buf2st p + (n - size1)) (buf2end p - (buf2st p + (n - size1))) (buf2 p) =
      slice (buf2st p) (buf2end p - buf2st p) (buf2 p)"
    by (simp only: slice_append_adjacent rest)
  then have "bp_list p' = bp_list p" by (simp add: bp_list_def assms(8) ab assms(5))
  moreover have "bp_inv p'" using inv size2 lm assms(2,8) by (simp add: bp_inv_def)
  moreover have "length (slice 0 n merged) = n" using ab la lb assms(3) by simp
  ultimately show ?thesis by (simp add: region_ok_def assms(8) buffer_simps)
qed

lemma pull_merge_fresh:
  assumes "bp_inv p" and "length (buf1 p) < bp_size p"
    and "size1 = buf1end p - buf1st p" and "size2 = buf2end p - buf2st p"
    and "newbuf = resize_bytes (bitround (bp_size p)) []"
    and "newbuf2 = blit (blit newbuf 0 (slice (buf1st p) size1 (buf1 p))) size1
           (slice (buf2st p) size2 (buf2 p))"
    and "p' = p\<lparr>buf1 := newbuf2, buf1st := 0, buf1end := size1 + size2, buf2st := 0, buf2end := 0\<rparr>"
  shows "bp_inv p' \<and> bp_list p' = bp_list p \<and> region_ok (slice 0 (size1 + size2) newbuf2) p' \<and>
    length (slice 0 (size1 + size2) newbuf2) = bp_size p"
proof -
  let ?a = "slice (buf1st p) size1 (buf1 p)" and ?b = "slice (buf2st p) size2 (buf2 p)"
  have inv: "buf1st p \<le> buf1end p" "buf1end p \<le> length (buf1 p)" "buf2st p \<le> buf2end p"
    "buf2end p \<le> length (buf2 p)" "0 < length (buf2 p)"
    using assms(1) by (simp_all add: bp_inv_def)
  have la: "length ?a = size1" and lb: "length ?b = size2"
    using inv assms(3,4) by (simp_all add: slice_def)
  have size: "bp_size p = size1 + size2" using inv assms(3,4) by (simp add: bp_size_def)
  have room: "size1 + size2 \<le> length newbuf"
    using bitround_ge [of "bp_size p"] by (simp add: assms(5) size)
  have ab: "slice 0 (size1 + size2) newbuf2 = ?a @ ?b"
    using slice_blit_two [of ?a ?b newbuf] room by (simp add: la lb assms(6))
  have lm: "length newbuf2 = length newbuf"
    using room by (simp add: assms(6) length_blit la lb)
  have "bp_list p' = bp_list p" by (simp add: bp_list_def assms(7) ab flip: assms(3,4))
  moreover have "bp_inv p'"
    using inv room by (auto simp: bp_inv_def assms(5,7) lm la lb)
  ultimately show ?thesis
    using la lb room by (simp add: region_ok_def assms(7) buffer_simps size lm min_absorb2)
qed

lemma pull_begin_spec:
  assumes "bp_inv p" and "pull_begin n p = (r, p')" and "n \<le> bp_size p"
  shows "bp_inv p' \<and> bp_list p' = bp_list p \<and> region_ok r p' \<and> n \<le> length r"
proof -
  define q where "q = try_swap p"
  have q: "bp_inv q" "bp_list q = bp_list p" "bp_size q = bp_size p"
    using assms(1) by (simp_all add: q_def try_swap_inv try_swap_list try_swap_size)
  define size1 where "size1 = buf1end q - buf1st q"
  have s1: "length (slice (buf1st q) size1 (buf1 q)) = size1"
    using q(1) by (auto simp: size1_def bp_inv_def slice_def)
  note unfold = assms(2)[symmetric, unfolded pull_begin_def Let_def, folded q_def, folded size1_def]
  consider "n \<le> size1" | "size1 < n" "n \<le> length (buf1 q)" | "size1 < n" "length (buf1 q) < n"
    by linarith
  then show ?thesis
  proof cases
    case 1
    then have "r = slice (buf1st q) size1 (buf1 q)" "p' = q" using unfold assms(3) by auto
    then show ?thesis using 1 q s1 by (simp add: region_ok_def size1_def)
  next
    case 2
    show ?thesis
      using pull_merge_in_place [OF q(1) 2(2) 2(1) _ size1_def refl refl refl] unfold assms(3) q 2
      by (simp split: prod.splits)
  next
    case 3
    have "length (buf1 q) < bp_size q" using 3 assms(3) q(3) by linarith
    from pull_merge_fresh [OF q(1) this size1_def refl refl refl refl] show ?thesis
      using unfold assms(3) q 3 by (simp split: prod.splits)
  qed
qed

lemma region_prefix:
  assumes "bp_inv p" and "region_ok r p" and "k \<le> length r"
  shows "take k r = take k (bp_list p)" and "bp_inv (pull_finish k p)"
    and "bp_list (pull_finish k p) = drop k (bp_list p)"
proof -
  have le: "buf1st p + k \<le> buf1end p" "buf1end p \<le> length (buf1 p)"
    using assms by (auto simp: region_ok_def bp_inv_def)
  have "take k r = take k (slice (buf1st p) (length r) (buf1 p))"
    using assms(2) by (simp add: region_ok_def)
  also have "\<dots> = slice (buf1st p) k (buf1 p)" using assms(3) by (simp add: take_slice min_absorb1)
  also have "\<dots> = take k (bp_list p)"
    using le by (simp add: bp_list_def take_slice min_absorb1 length_slice)
  finally show "take k r = take k (bp_list p)" .
  show "bp_inv (pull_finish k p)" using assms(1) le by (auto simp: bp_inv_def pull_finish_def)
  show "bp_list (pull_finish k p) = drop k (bp_list p)"
    using le by (simp add: bp_list_def pull_finish_def buffer_simps)
qed

lemma pull_spec:
  assumes "bp_inv p" and "pull n p = (r, p')"
  shows "bp_inv p' \<and> (if n \<le> bp_size p then r = take n (bp_list p) \<and> bp_list p' = drop n (bp_list p)
    else r = [] \<and> p' = p)"
proof (cases "n \<le> bp_size p")
  case True
  obtain r1 p1 where b: "pull_begin n p = (r1, p1)" by (cases "pull_begin n p")
  note spec = pull_begin_spec [OF assms(1) b True]
  have rp: "(r, p') = (if r1 = [] then ([], p1) else (slice 0 n r1, pull_finish n p1))"
    using assms(2) by (simp add: pull_def b split: if_splits)
  show ?thesis
  proof (cases "r1 = []")
    case empty: True
    then have "n = 0" "r = []" "p' = p1" using spec rp by auto
    then show ?thesis using spec by simp
  next
    case False
    then have "r = slice 0 n r1" "p' = pull_finish n p1" using rp by auto
    then show ?thesis using spec region_prefix [of p1 r1 n] True by (simp add: slice_def)
  qed
next
  case False
  then show ?thesis using assms by (auto simp: pull_def pull_begin_def)
qed

lemma pull_any_spec:
  assumes "bp_inv p" and "pull_any p = (r, p')"
  shows "bp_inv p' \<and> bp_list p = r @ bp_list p' \<and> (bp_list p \<noteq> [] \<longrightarrow> r \<noteq> [])"
proof (cases "1 \<le> bp_size p")
  case True
  obtain r1 p1 where b: "pull_begin 1 p = (r1, p1)" by (cases "pull_begin 1 p")
  note spec = pull_begin_spec [OF assms(1) b True]
  have "r = r1" "p' = pull_finish (length r1) p1"
    using assms(2) by (auto simp add: pull_any_def b simp del: One_nat_def)
  moreover have "r1 = take (length r1) (bp_list p1)"
    using region_prefix(1) [of p1 r1 "length r1"] spec by simp
  ultimately show ?thesis
    using spec region_prefix(2,3) [of p1 r1 "length r1"] by (metis append_take_drop_id list.size(3) not_one_le_zero order_refl)
next
  case False
  then have "r = []" "p' = p" using assms by (auto simp: pull_any_def pull_begin_def pull_finish_def)
  moreover have "bp_list p = []" using False length_bp_list [OF assms(1)] by (cases "bp_list p") auto
  ultimately show ?thesis using assms(1) by simp
qed

subsection \<open>Lines\<close>

lemma memchr_Some_iff:
  "memchr c xs = Some n \<longleftrightarrow> n < length xs \<and> xs ! n = c \<and> c \<notin> set (take n xs)"
proof (induction xs arbitrary: n)
  case (Cons b bs)
  then show ?case by (cases n) auto
qed simp

lemma memchr_None_iff: "memchr c xs = None \<longleftrightarrow> c \<notin> set xs"
  by (induction xs) auto

lemma memchr_append:
  "memchr c (xs @ ys) = (case memchr c xs of Some n \<Rightarrow> Some n | None \<Rightarrow> map_option ((+) (length xs)) (memchr c ys))"
  by (induction xs; cases "memchr c ys") (auto split: option.splits)

lemma memchr_drop:
  "c \<notin> set (take k xs) \<Longrightarrow> k \<le> length xs \<Longrightarrow> memchr c xs = map_option ((+) k) (memchr c (drop k xs))"
  using memchr_append [of c "take k xs" "drop k xs"] memchr_None_iff [of c "take k xs"]
  by simp

text \<open>What a reader of lines sees: the unread bytes up to and including the first newline.\<close>

definition line_of :: "bytes \<Rightarrow> bytes \<times> bytes" where
  "line_of q = (case memchr newline q of None \<Rightarrow> ([], q) | Some n \<Rightarrow> (take (n + 1) q, drop (n + 1) q))"

lemma pull_line_spec:
  assumes inv: "bp_inv p" and skip: "newline \<notin> set (take skip (bp_list p))" "skip \<le> bp_size p"
    and res: "pull_line skip p = (r, p')"
  shows "bp_inv p' \<and> (r, bp_list p') = line_of (bp_list p)"
proof -
  define c1 where "c1 = slice (buf1st p) (buf1end p - buf1st p) (buf1 p)"
  define c2 where "c2 = slice (buf2st p) (buf2end p - buf2st p) (buf2 p)"
  have q: "bp_list p = c1 @ c2" by (simp add: bp_list_def c1_def c2_def)
  have size: "bp_size p = length c1 + length c2" using length_bp_list [OF inv] q by simp
  have found: "bp_inv p' \<and> (r, bp_list p') = line_of (bp_list p)"
    if "memchr newline (c1 @ c2) = Some n" "pull (n + 1) p = (r, p')" for n
  proof -
    have "n + 1 \<le> bp_size p" using that(1) size by (auto simp: memchr_Some_iff)
    then show ?thesis using pull_spec [OF inv that(2)] that(1) by (simp add: line_of_def q)
  qed
  have missing: ?thesis if "memchr newline (c1 @ c2) = None" "r = []" "p' = p"
    using that inv by (simp add: line_of_def q)
  have whole: "memchr newline (c1 @ c2) = map_option ((+) skip) (memchr newline (drop skip (c1 @ c2)))"
    using skip by (intro memchr_drop) (simp_all add: q size)
  show ?thesis
  proof (cases "skip \<le> length c1")
    case True
    then have d: "memchr newline (c1 @ c2) = map_option ((+) skip)
        (case memchr newline (drop skip c1) of Some n \<Rightarrow> Some n
         | None \<Rightarrow> map_option ((+) (length (drop skip c1))) (memchr newline c2))"
      unfolding whole by (simp add: memchr_append)
    show ?thesis
      using res True d found missing
      by (auto simp: pull_line_def Let_def c1_def [symmetric] c2_def [symmetric] add.assoc add.commute
          split: option.splits)
  next
    case False
    then have d: "memchr newline (c1 @ c2) =
        map_option ((+) skip) (memchr newline (drop (skip - length c1) c2))"
      using whole by simp
    show ?thesis
      using res False d found missing
      by (auto simp: pull_line_def Let_def c1_def [symmetric] c2_def [symmetric] add.assoc add.commute
          split: option.splits)
  qed
qed

lemma bufsize_spec: "bp_inv p \<Longrightarrow> bp_inv (bufsize n p) \<and> bp_list (bufsize n p) = bp_list p"
  by (auto simp: bp_inv_def bufsize_def Let_def bp_list_def slice_resize_bytes)

lemma reset_spec: "0 < n \<Longrightarrow> bp_inv (reset n p) \<and> bp_list (reset n p) = []"
  by (simp add: bp_inv_def reset_def bp_list_def flip: length_greater_0_conv)

lemma bytepipe_new_spec: "bp_inv bytepipe_new \<and> bp_list bytepipe_new = []"
  by (simp add: bytepipe_new_def reset_spec)

subsection \<open>The interface\<close>

text \<open>
  What the socket layer relies on: bytes come out in the order they went in, nothing is lost
  or invented, and no operation fails. A client that pushes chunks and pulls lines can be
  reasoned about on the abstract queue alone.
\<close>

locale byte_queue =
  fixes enq :: "bytes \<Rightarrow> 'q \<Rightarrow> 'q option"
    and deq :: "nat \<Rightarrow> 'q \<Rightarrow> bytes \<times> 'q"
    and deq_line :: "'q \<Rightarrow> bytes \<times> 'q"
    and contents :: "'q \<Rightarrow> bytes"
    and inv :: "'q \<Rightarrow> bool"
  assumes enq_ok: "inv q \<Longrightarrow> \<exists>q'. enq bs q = Some q' \<and> inv q' \<and> contents q' = contents q @ bs"
    and deq_inv: "inv q \<Longrightarrow> inv (snd (deq n q))"
    and deq_ok: "inv q \<Longrightarrow> n \<le> length (contents q) \<Longrightarrow>
      fst (deq n q) = take n (contents q) \<and> contents (snd (deq n q)) = drop n (contents q)"
    and deq_short: "inv q \<Longrightarrow> length (contents q) < n \<Longrightarrow> deq n q = ([], q)"
    and line_ok: "inv q \<Longrightarrow> inv (snd (deq_line q)) \<and>
      (fst (deq_line q), contents (snd (deq_line q))) = line_of (contents q)"
begin

lemma deq_conserves: "inv q \<Longrightarrow> fst (deq n q) @ contents (snd (deq n q)) = contents q"
  by (cases "n \<le> length (contents q)") (simp_all add: deq_ok deq_short)

lemma line_conserves: "inv q \<Longrightarrow> fst (deq_line q) @ contents (snd (deq_line q)) = contents q"
  using line_ok [of q] by (auto simp: line_of_def split: option.splits)

lemma line_shape:
  assumes "inv q"
  shows "fst (deq_line q) = [] \<and> newline \<notin> set (contents q) \<or>
    (\<exists>l. fst (deq_line q) = l @ [newline] \<and> newline \<notin> set l)"
proof (cases "memchr newline (contents q)")
  case None
  then have "line_of (contents q) = ([], contents q)" by (simp add: line_of_def)
  then show ?thesis using line_ok [OF assms] None by (simp add: memchr_None_iff)
next
  case (Some n)
  then have n: "n < length (contents q)" "contents q ! n = newline"
      "newline \<notin> set (take n (contents q))"
    by (simp_all add: memchr_Some_iff)
  have "fst (deq_line q) = take n (contents q) @ [newline]"
    using line_ok [OF assms] Some n(1,2) by (simp add: line_of_def take_Suc_conv_app_nth)
  then show ?thesis using n(3) by blast
qed

end

interpretation pipe: byte_queue push pull "pull_line 0" bp_list bp_inv
proof
  fix p :: bytepipe and bs n assume inv: "bp_inv p"
  show "\<exists>q'. push bs p = Some q' \<and> bp_inv q' \<and> bp_list q' = bp_list p @ bs"
    using push_spec [OF inv, of bs] by metis
  have "bp_inv (snd (pull n p)) \<and> (if n \<le> bp_size p then fst (pull n p) = take n (bp_list p) \<and>
      bp_list (snd (pull n p)) = drop n (bp_list p) else fst (pull n p) = [] \<and> snd (pull n p) = p)"
    by (rule pull_spec [OF inv]) simp
  note spec = this [folded length_bp_list [OF inv]]
  then show "bp_inv (snd (pull n p))" by simp
  show "fst (pull n p) = take n (bp_list p) \<and> bp_list (snd (pull n p)) = drop n (bp_list p)"
    if "n \<le> length (bp_list p)" using spec that by simp
  show "pull n p = ([], p)" if "length (bp_list p) < n"
    using spec that by (cases "pull n p") simp
  show "bp_inv (snd (pull_line 0 p)) \<and>
      (fst (pull_line 0 p), bp_list (snd (pull_line 0 p))) = line_of (bp_list p)"
    by (rule pull_line_spec [OF inv]) simp_all
qed

subsection \<open>Running a sequence of operations\<close>

datatype pipe_op = Push bytes | PushText "bytes list" | Pull nat | PullAll | PullLine | Bufsize nat

fun pipe_step :: "pipe_op \<Rightarrow> bytepipe \<Rightarrow> (bytes \<times> bytepipe) option" where
  "pipe_step (Push bs) p = map_option (Pair []) (push bs p)"
| "pipe_step (PushText args) p = map_option (Pair []) (push_text args p)"
| "pipe_step (Pull n) p = Some (pull n p)"
| "pipe_step PullAll p = Some (pull_all p)"
| "pipe_step PullLine p = Some (pull_line 0 p)"
| "pipe_step (Bufsize n) p = Some ([], bufsize n p)"

fun pipe_run :: "pipe_op list \<Rightarrow> bytepipe \<Rightarrow> (bytes list \<times> bytepipe) option" where
  "pipe_run [] p = Some ([], p)"
| "pipe_run (x # xs) p =
     (case pipe_step x p of
        None \<Rightarrow> None
      | Some (out, p1) \<Rightarrow> map_option (apfst (Cons out)) (pipe_run xs p1))"

text \<open>The abstract queue: a list of bytes.\<close>

fun queue_step :: "pipe_op \<Rightarrow> bytes \<Rightarrow> bytes \<times> bytes" where
  "queue_step (Push bs) q = ([], q @ bs)"
| "queue_step (PushText args) q = ([], q @ concat args)"
| "queue_step (Pull n) q = (if n \<le> length q then (take n q, drop n q) else ([], q))"
| "queue_step PullAll q = (q, [])"
| "queue_step PullLine q = line_of q"
| "queue_step (Bufsize n) q = ([], q)"

fun queue_run :: "pipe_op list \<Rightarrow> bytes \<Rightarrow> bytes list \<times> bytes" where
  "queue_run [] q = ([], q)"
| "queue_run (x # xs) q = (let (out, q1) = queue_step x q in apfst (Cons out) (queue_run xs q1))"

lemma pipe_step_refines:
  assumes "bp_inv p"
  shows "\<exists>out p1. pipe_step x p = Some (out, p1) \<and> bp_inv p1 \<and> queue_step x (bp_list p) = (out, bp_list p1)"
proof (cases x)
  case (Push bs)
  then show ?thesis using pipe.enq_ok [OF assms, of bs] by auto
next
  case (PushText args)
  then show ?thesis using pipe.enq_ok [OF assms, of "concat args"] push_text_spec [OF assms, of args] by auto
next
  case (Pull n)
  then show ?thesis
    using pipe.deq_inv [OF assms, of n] pipe.deq_ok [OF assms, of n] pipe.deq_short [OF assms, of n]
    by (cases "pull n p") auto
next
  case PullAll
  then show ?thesis
    using pipe.deq_inv [OF assms, of "bp_size p"] pipe.deq_ok [OF assms, of "bp_size p"] length_bp_list [OF assms]
    by (cases "pull (bp_size p) p") (auto simp: pull_all_def)
next
  case PullLine
  then show ?thesis using pipe.line_ok [OF assms] by (cases "pull_line 0 p") auto
next
  case (Bufsize n)
  then show ?thesis using bufsize_spec [OF assms, of n] by simp
qed

lemma pipe_run_refines:
  "bp_inv p \<Longrightarrow> \<exists>outs p'. pipe_run xs p = Some (outs, p') \<and> bp_inv p' \<and> queue_run xs (bp_list p) = (outs, bp_list p')"
proof (induction xs arbitrary: p)
  case (Cons x xs)
  from pipe_step_refines [OF Cons.prems, of x] obtain out p1 where
    "pipe_step x p = Some (out, p1)" "bp_inv p1" "queue_step x (bp_list p) = (out, bp_list p1)" by blast
  then show ?case using Cons.IH [of p1] by auto
qed simp

subsection \<open>Properties\<close>

text \<open>
  C4. A byte pipe is a first-in first-out queue: starting from a new pipe, every sequence of
  pushes, pulls, line reads and buffer resizes succeeds and returns exactly what the same
  sequence returns on a plain list of bytes, and the unread bytes agree at the end. No byte
  is lost, duplicated or reordered by the swapping and merging of the two buffers.
\<close>

theorem bytepipe_refines_queue:
  "\<exists>outs p. pipe_run xs bytepipe_new = Some (outs, p) \<and> bp_inv p \<and> queue_run xs [] = (outs, bp_list p)"
  using pipe_run_refines [of bytepipe_new xs] bytepipe_new_spec by simp

text \<open>
  \<open>pull_line\<close> with a skip hint that is valid (the first \<open>skip\<close> unread bytes hold no newline)
  returns the same as without the hint: the unread bytes up to and including the first
  newline, or nothing when there is no newline yet.
\<close>

theorem pull_line_skip_hint:
  assumes "bp_inv p" and "skip \<le> bp_size p" and "newline \<notin> set (take skip (bp_list p))"
  shows "fst (pull_line skip p) = fst (line_of (bp_list p)) \<and>
    bp_list (snd (pull_line skip p)) = snd (line_of (bp_list p)) \<and> bp_inv (snd (pull_line skip p))"
  using pull_line_spec [OF assms(1,3,2), of "fst (pull_line skip p)" "snd (pull_line skip p)"]
  by (auto simp: prod_eq_iff)

theorem pull_line_skip_hint_witness:
  "fst (pull_line 1 \<lparr>buf1 = [65], buf1st = 0, buf1end = 1, buf2 = [66, 10], buf2st = 0, buf2end = 2\<rparr>) =
    fst (line_of (bp_list \<lparr>buf1 = [65], buf1st = 0, buf1end = 1, buf2 = [66, 10], buf2st = 0, buf2end = 2\<rparr>))"
  by (rule pull_line_skip_hint [THEN conjunct1])
    (simp_all add: bp_inv_def bp_size_def bp_list_def slice_def newline_def)

end
