(* ===== verification/Hash.thy ===== *)
theory Hash
  imports Endian
begin

text \<open>
  \<^verbatim>\<open>arlib/hash.h\<close> and the byte-string hash of \<^verbatim>\<open>arlib/misc.cpp\<close>: the hash functions under the
  hash tables, on a machine with a 64-bit \<^verbatim>\<open>size_t\<close>. Memory is a function from addresses to
  bytes where the code reads past the buffer it was given; the byte order of the machine is an
  argument.
\<close>

subsection \<open>Loading a few bytes\<close>

text \<open>
  \<^verbatim>\<open>load_small<T>\<close> always reads \<^verbatim>\<open>sizeof(T)\<close> bytes, reaching downwards or upwards past the
  requested ones depending on the alignment of the pointer, and then drops what it did not want.
\<close>

definition mem_read :: "(nat \<Rightarrow> byte) \<Rightarrow> nat \<Rightarrow> nat \<Rightarrow> bytes" where
  "mem_read mem a n = map (\<lambda>i. mem (a + i)) [0..<n]"

definition word_size :: "'a::len itself \<Rightarrow> nat" where
  "word_size t = LENGTH('a) div 8"

definition load_small_base :: "nat \<Rightarrow> nat \<Rightarrow> nat \<Rightarrow> nat" where
  "load_small_base sz ptr len = (if ptr AND sz \<noteq> 0 then ptr - sz + len else ptr)"

definition load_small :: "bool \<Rightarrow> (nat \<Rightarrow> byte) \<Rightarrow> nat \<Rightarrow> nat \<Rightarrow> 'a::len word" where
  "load_small e mem ptr len =
     (if len = 0 then 0
      else
        let sz = word_size TYPE('a);
            ret = (native_load e (mem_read mem (load_small_base sz ptr len) sz) :: 'a word)
        in if ptr AND sz \<noteq> 0
           then (if e then ret AND NOT (push_bit (len * 8 - 1) (- 2)) else drop_bit ((sz - len) * 8) ret)
           else (if e then drop_bit ((sz - len) * 8) ret else ret AND NOT (push_bit (len * 8 - 1) (- 2))))"

subsection \<open>Hashing a byte string\<close>

fun hash_rounds :: "bool \<Rightarrow> u64 \<Rightarrow> bytes \<Rightarrow> nat \<Rightarrow> nat \<Rightarrow> u64 \<times> nat \<times> nat" where
  "hash_rounds e h val at n =
     (if 8 < n
      then hash_rounds e ((h XOR drop_bit 45 h XOR native_load e (slice at 8 val)) * 2546270801)
             val (at + 8) (n - 8)
      else (h, at, n))"

declare hash_rounds.simps [simp del]

definition hash_bytes :: "bool \<Rightarrow> bytes \<Rightarrow> u64" where
  "hash_bytes e val =
     (let n = length val
      in if n < 8 then load_small e (\<lambda>a. if a < n then val ! a else 0) 0 n
         else let (h, at, n) = hash_rounds e 5381 val 0 n
              in h + native_load e (slice (at - (8 - n)) 8 val))"

fun hashall :: "u64 list \<Rightarrow> u64" where
  "hashall [] = 2166136261"
| "hashall (first # next) = (hashall next XOR first) * 16777619"

subsection \<open>Shuffling a hash value\<close>

definition hash_shuffle32 :: "u32 \<Rightarrow> u32" where
  "hash_shuffle32 val = end_swap32 (val * 1086221891)"

definition hash_shuffle64 :: "u64 \<Rightarrow> u64" where
  "hash_shuffle64 val = end_swap64 (val * 8040991081842494123)"

definition hash_shuffle_strong32 :: "u32 \<Rightarrow> u32" where
  "hash_shuffle_strong32 val0 =
     (let val = val0 XOR drop_bit 16 val0;
          val = val * 0x85ebca6b;
          val = val XOR drop_bit 13 val;
          val = val * 0xc2b2ae35;
          val = val XOR drop_bit 16 val
      in val)"

definition hash_shuffle_strong64 :: "u64 \<Rightarrow> u64" where
  "hash_shuffle_strong64 val0 =
     (let val = val0 XOR drop_bit 30 val0;
          val = val * 0xbf58476d1ce4e5b9;
          val = val XOR drop_bit 27 val;
          val = val * 0x94d049bb133111eb;
          val = val XOR drop_bit 31 val
      in val)"

subsection \<open>The shuffles are reversible\<close>

text \<open>The reversers that the header's comment says exist but were not needed.\<close>

definition unshift2 :: "nat \<Rightarrow> 'a::len word \<Rightarrow> 'a word" where
  "unshift2 k w = w XOR drop_bit k w XOR drop_bit (2 * k) w"

lemma drop_bit_all:
  fixes w :: "'a::len word"
  shows "LENGTH('a) \<le> n \<Longrightarrow> drop_bit n w = 0"
  by (rule bit_word_eqI) (simp add: bit_simps bit_beyond_length)

lemma xor_cancel: "a XOR (a XOR b) = (b :: 'a::len word)"
  by (simp flip: xor.assoc)

lemma unshift2_xor_shift:
  fixes w :: "'a::len word"
  assumes "LENGTH('a) \<le> 3 * k"
  shows "unshift2 k (w XOR drop_bit k w) = w"
    and "unshift2 k w XOR drop_bit k (unshift2 k w) = w"
proof -
  have "drop_bit (k + 2 * k) w = 0" using assms by (simp add: drop_bit_all)
  then show "unshift2 k (w XOR drop_bit k w) = w"
    and "unshift2 k w XOR drop_bit k (unshift2 k w) = w"
    by (simp_all add: unshift2_def drop_bit_xor xor.assoc xor.left_commute mult_2 xor_cancel add.assoc)
qed

definition hash_unshuffle32 :: "u32 \<Rightarrow> u32" where
  "hash_unshuffle32 val = end_swap32 val * 498781803"

definition hash_unshuffle64 :: "u64 \<Rightarrow> u64" where
  "hash_unshuffle64 val = end_swap64 val * 4738224585390907395"

definition hash_unshuffle_strong32 :: "u32 \<Rightarrow> u32" where
  "hash_unshuffle_strong32 val =
     unshift2 16 (unshift2 13 (unshift2 16 val * 2127672349) * 2781581891)"

definition hash_unshuffle_strong64 :: "u64 \<Rightarrow> u64" where
  "hash_unshuffle_strong64 val =
     unshift2 30 (unshift2 27 (unshift2 31 val * 3573116690164977347) * 10871156337175269513)"

lemma mult_inverse_word:
  fixes c d x :: "'a::len word"
  assumes "c * d = 1"
  shows "x * c * d = x" and "x * d * c = x"
  using assms by (simp_all add: mult.assoc mult.commute [of d c])

lemma odd_inverses32:
  "(1086221891 :: u32) * 498781803 = 1" "(0x85ebca6b :: u32) * 2781581891 = 1"
  "(0xc2b2ae35 :: u32) * 2127672349 = 1"
  by simp_all

lemma odd_inverses64:
  "(8040991081842494123 :: u64) * 4738224585390907395 = 1"
  "(0xbf58476d1ce4e5b9 :: u64) * 10871156337175269513 = 1"
  "(0x94d049bb133111eb :: u64) * 3573116690164977347 = 1"
  by simp_all

lemma end_swap32_twice: "end_swap32 (end_swap32 w) = w"
  using end_swap32_le_word [of "le_bytes 4 w"] end_swap32_be_word [of "le_bytes 4 w"]
  by (simp add: le_word_le_bytes)

lemma end_swap64_twice: "end_swap64 (end_swap64 w) = w"
  using end_swap64_le_word [of "le_bytes 8 w"] end_swap64_be_word [of "le_bytes 8 w"]
  by (simp add: le_word_le_bytes)

subsection \<open>What a short load reads\<close>

lemma length_mem_read [simp]: "length (mem_read mem a n) = n"
  by (simp add: mem_read_def)

lemma nth_mem_read [simp]: "i < n \<Longrightarrow> mem_read mem a n ! i = mem (a + i)"
  by (simp add: mem_read_def)

lemma bit_low_mask:
  "0 < m \<Longrightarrow> bit (NOT (push_bit (m - 1) (- 2 :: 'a::len word))) n \<longleftrightarrow> n < LENGTH('a) \<and> n < m"
proof -
  assume "0 < m"
  have "bit (- 2 :: 'a word) i \<longleftrightarrow> i < LENGTH('a) \<and> 0 < i" for i by (simp add: not_le)
  then show ?thesis using \<open>0 < m\<close> by (auto simp: bit_simps)
qed

lemma load_small_mask_le:
  assumes "0 < len" and "len \<le> sz" and "LENGTH('a) = 8 * sz"
  shows "le_word (mem_read mem p sz) AND NOT (push_bit (len * 8 - 1) (- 2)) =
    (le_word (mem_read mem p len) :: 'a::len word)"
proof (rule bit_word_eqI)
  fix n assume n: "n < LENGTH('a)"
  have "n div 8 < len \<longleftrightarrow> n < len * 8" by (simp add: div_less_iff_less_mult)
  moreover have "n div 8 < sz" using n assms by (simp add: div_less_iff_less_mult mult.commute)
  ultimately show "bit (le_word (mem_read mem p sz) AND NOT (push_bit (len * 8 - 1) (- 2)) :: 'a word) n =
      bit (le_word (mem_read mem p len) :: 'a word) n"
    using n assms by (auto simp: bit_and_iff bit_low_mask bit_le_word simp del: One_nat_def)
qed


lemma load_small_shift_le:
  assumes "0 < len" and "len \<le> sz" and "LENGTH('a) = 8 * sz" and "sz \<le> p + len"
  shows "drop_bit ((sz - len) * 8) (le_word (mem_read mem (p + len - sz) sz)) =
    (le_word (mem_read mem p len) :: 'a::len word)"
proof (rule bit_word_eqI)
  fix n assume n: "n < LENGTH('a)"
  define d where "d = (sz - len) * 8 + n"
  have dd: "d div 8 = sz - len + n div 8" "d mod 8 = n mod 8" by (simp_all add: d_def)
  have "n div 8 < len \<longleftrightarrow> d div 8 < sz" using assms(2) by (auto simp: dd)
  moreover have "d div 8 < sz \<longleftrightarrow> d < LENGTH('a)"
    using assms(3) by (simp add: div_less_iff_less_mult mult.commute)
  moreover have "p + len - sz + d div 8 = p + n div 8" using assms(2,4) by (simp add: dd)
  moreover have L: "bit (drop_bit ((sz - len) * 8) w) n \<longleftrightarrow> bit w d" for w :: "'a word"
    by (simp add: bit_drop_bit_eq d_def)
  ultimately show "bit (drop_bit ((sz - len) * 8) (le_word (mem_read mem (p + len - sz) sz)) :: 'a word) n =
      bit (le_word (mem_read mem p len) :: 'a word) n"
    unfolding L using n by (auto simp: bit_le_word dd(2))
qed

lemma rev_mem_read: "rev (mem_read mem p n) = mem_read (\<lambda>a. mem (2 * p + n - Suc a)) p n"
  by (rule nth_equalityI) (auto simp: rev_nth mult_2 intro!: arg_cong [where f = mem])

lemma load_small_mask_be:
  assumes "0 < len" and "len \<le> sz" and "LENGTH('a) = 8 * sz" and "sz \<le> p + len"
  shows "be_word (mem_read mem (p + len - sz) sz) AND NOT (push_bit (len * 8 - 1) (- 2)) =
    (be_word (mem_read mem p len) :: 'a::len word)"
proof (rule bit_word_eqI)
  fix n assume n: "n < LENGTH('a)"
  have "n div 8 < len \<longleftrightarrow> n < len * 8" by (simp add: div_less_iff_less_mult)
  moreover have "n div 8 < sz" using n assms by (simp add: div_less_iff_less_mult mult.commute)
  ultimately show "bit (be_word (mem_read mem (p + len - sz) sz) AND NOT (push_bit (len * 8 - 1) (- 2)) :: 'a word) n =
      bit (be_word (mem_read mem p len) :: 'a word) n"
    using n assms by (auto simp: bit_and_iff bit_low_mask bit_be_word simp del: One_nat_def)
qed

lemma load_small_shift_be:
  assumes "0 < len" and "len \<le> sz" and "LENGTH('a) = 8 * sz"
  shows "drop_bit ((sz - len) * 8) (be_word (mem_read mem p sz)) =
    (be_word (mem_read mem p len) :: 'a::len word)"
proof (rule bit_word_eqI)
  fix n assume n: "n < LENGTH('a)"
  define d where "d = (sz - len) * 8 + n"
  have dd: "d div 8 = sz - len + n div 8" "d mod 8 = n mod 8" by (simp_all add: d_def)
  have "n div 8 < len \<longleftrightarrow> d div 8 < sz" using assms(2) by (auto simp: dd)
  moreover have "d div 8 < sz \<longleftrightarrow> d < LENGTH('a)"
    using assms(3) by (simp add: div_less_iff_less_mult mult.commute)
  moreover have "sz - Suc (d div 8) = len - Suc (n div 8)" using assms(2) by (simp add: dd)
  moreover have L: "bit (drop_bit ((sz - len) * 8) w) n \<longleftrightarrow> bit w d" for w :: "'a word"
    by (simp add: bit_drop_bit_eq d_def)
  ultimately show "bit (drop_bit ((sz - len) * 8) (be_word (mem_read mem p sz)) :: 'a word) n =
      bit (be_word (mem_read mem p len) :: 'a word) n"
    unfolding L using n by (auto simp: bit_be_word dd(2))
qed

lemma and_power_nonzero:
  assumes "ptr AND (2 ^ k) \<noteq> (0::nat)"
  shows "2 ^ k \<le> ptr mod (2 * 2 ^ k)"
proof -
  have "odd (ptr div 2 ^ k)" using assms by (simp add: and_exp_eq_0_iff_not_bit bit_iff_odd)
  then show ?thesis by (simp add: mod_mult2_eq odd_iff_mod_2_eq_one mult.commute [of 2])
qed

lemma and_power_zero:
  assumes "ptr AND (2 ^ k) = (0::nat)"
  shows "ptr mod (2 * 2 ^ k) < 2 ^ k"
proof -
  have "even (ptr div 2 ^ k)" using assms by (simp add: and_exp_eq_0_iff_not_bit bit_iff_odd)
  then show ?thesis by (simp add: mod_mult2_eq even_iff_mod_2_eq_zero mult.commute [of 2])
qed

lemma same_block_below:
  fixes ptr z x :: nat
  assumes "0 < M" and "z \<le> ptr mod M" and "ptr - z \<le> x" and "x \<le> ptr"
  shows "x div M = ptr div M"
proof (rule div_nat_eqI)
  have p: "ptr = M * (ptr div M) + ptr mod M" by simp
  show "M * (ptr div M) \<le> x" using assms(2,3) p by linarith
  show "x < M * Suc (ptr div M)"
    using assms(4) p mod_less_divisor [OF assms(1), of ptr] unfolding mult_Suc_right by linarith
qed

lemma same_block_above:
  fixes ptr z x :: nat
  assumes "ptr mod (2 * z) < z" and "i < z"
  shows "(ptr + i) div (2 * z) = ptr div (2 * z)"
proof (rule div_nat_eqI)
  have p: "ptr = 2 * z * (ptr div (2 * z)) + ptr mod (2 * z)" by simp
  show "2 * z * (ptr div (2 * z)) \<le> ptr + i" using p by linarith
  have "2 * z * Suc (ptr div (2 * z)) = 2 * z * (ptr div (2 * z)) + 2 * z" by simp
  then show "ptr + i < 2 * z * Suc (ptr div (2 * z))" using p assms by linarith
qed

lemma load_small_base_bounds:
  assumes "0 < len" and "len \<le> sz" and "sz = 2 ^ k"
  shows "if ptr AND sz \<noteq> 0 then sz \<le> ptr \<and> load_small_base sz ptr len = ptr + len - sz
    else load_small_base sz ptr len = ptr"
proof (cases "ptr AND sz = 0")
  case False
  then have "sz \<le> ptr mod (2 * sz)" using and_power_nonzero assms(3) by simp
  also have "\<dots> \<le> ptr" by simp
  finally show ?thesis using False by (simp add: load_small_base_def)
qed (simp add: load_small_base_def)

subsection \<open>Properties\<close>

text \<open>
  C35. \<open>load_small\<close> returns exactly the requested bytes as a number in the machine's byte order
  with a zero high part, whatever lies around them in memory and whatever the alignment of the
  pointer.
\<close>

theorem load_small_correct:
  fixes mem :: "nat \<Rightarrow> byte"
  assumes "LENGTH('a::len) = 8 * 2 ^ k" and "len \<le> 2 ^ k"
  shows "(load_small e mem ptr len :: 'a word) =
    (if e then be_word (mem_read mem ptr len) else le_word (mem_read mem ptr len))"
proof (cases "len = 0")
  case True
  then show ?thesis by (simp add: load_small_def mem_read_def be_word_def)
next
  case False
  have sz: "word_size TYPE('a) = 2 ^ k" using assms(1) by (simp add: word_size_def)
  note shared = False assms(2,1)
  show ?thesis
    using load_small_base_bounds [of len "2 ^ k" k ptr] shared
      load_small_mask_le [of len "2 ^ k", where p = ptr and mem = mem and 'a = 'a]
      load_small_shift_le [of len "2 ^ k" ptr, where mem = mem and 'a = 'a]
      load_small_mask_be [of len "2 ^ k" ptr, where mem = mem and 'a = 'a]
      load_small_shift_be [of len "2 ^ k", where p = ptr and mem = mem and 'a = 'a]
    by (simp add: load_small_def sz Let_def native_load_def split: if_splits)
qed

theorem load_small_correct_witness:
  "(load_small False (\<lambda>a. if a = 8 then 0x11 else if a = 9 then 0x22 else 0xFF) 8 2 :: u64) =
    (if False then be_word (mem_read (\<lambda>a. if a = 8 then 0x11 else if a = 9 then 0x22 else 0xFF) 8 2)
     else le_word (mem_read (\<lambda>a. if a = 8 then 0x11 else if a = 9 then 0x22 else 0xFF) 8 2))"
  by (rule load_small_correct [where k = 3]) simp_all

text \<open>
  C36. The over-read of \<open>load_small\<close> is harmless: every byte it touches lies in the same page as
  a byte the caller asked for, for every page size that is a multiple of twice the word size.
  So it cannot fault where reading only the requested bytes would not.
\<close>

theorem load_small_page_safe:
  assumes "0 < len" and "len \<le> 2 ^ k" and "2 * 2 ^ k dvd page" and "i < 2 ^ k"
  shows "\<exists>j<len. (load_small_base (2 ^ k) ptr len + i) div page = (ptr + j) div page"
proof -
  let ?b = "load_small_base (2 ^ k) ptr len" and ?z = "2 ^ k :: nat"
  obtain c where page: "page = 2 * ?z * c" using assms(3) by (auto simp: dvd_def)
  have same: "x div page = y div page" if "x div (2 * ?z) = y div (2 * ?z)" for x y
    using that by (simp add: page div_mult2_eq)
  note b = load_small_base_bounds [OF assms(1,2) refl, of ptr]
  consider (in_range) "ptr \<le> ?b + i \<and> ?b + i < ptr + len"
    | (below) "ptr AND ?z \<noteq> 0" "?b + i < ptr" | (above) "ptr AND ?z = 0" "ptr + len \<le> ?b + i"
  proof (cases "ptr AND ?z = 0")
    case True
    then have "?b = ptr" using b by simp
    then have "ptr \<le> ?b + i" by simp
    then show ?thesis using True that by (meson not_le)
  next
    case False
    then have "?b + i < ptr + len" using b assms(4) by auto
    then show ?thesis using False that by (meson not_le)
  qed
  then show ?thesis
  proof cases
    case in_range
    then have "?b + i = ptr + (?b + i - ptr)" and "?b + i - ptr < len" by auto
    then show ?thesis by metis
  next
    case below
    have "(?b + i) div (2 * ?z) = ptr div (2 * ?z)"
      using and_power_nonzero [OF below(1)] by (rule same_block_below [rotated]) (use b below in simp_all)
    then show ?thesis using assms(1) same by (metis add_0_right)
  next
    case above
    then have "?b = ptr" using b by simp
    then have "(?b + i) div (2 * ?z) = ptr div (2 * ?z)"
      using same_block_above [OF and_power_zero [OF above(1)] assms(4)] by metis
    then show ?thesis using assms(1) same by (metis add_0_right)
  qed
qed

theorem load_small_page_safe_witness:
  "\<exists>j<3. (load_small_base (2 ^ 3) 4093 3 + 7) div 4096 = (4093 + j) div 4096"
  by (rule load_small_page_safe) simp_all

text \<open>
  C37. The shuffles that spread hash values over a table are reversible, as their comment
  claims: each has a two-sided inverse, so no two hash values collide in the shuffle.
\<close>

theorem hash_shuffles_reversible:
  "hash_unshuffle32 (hash_shuffle32 a) = a \<and> hash_shuffle32 (hash_unshuffle32 a) = a \<and>
   hash_unshuffle64 (hash_shuffle64 b) = b \<and> hash_shuffle64 (hash_unshuffle64 b) = b \<and>
   hash_unshuffle_strong32 (hash_shuffle_strong32 a) = a \<and>
   hash_shuffle_strong32 (hash_unshuffle_strong32 a) = a \<and>
   hash_unshuffle_strong64 (hash_shuffle_strong64 b) = b \<and>
   hash_shuffle_strong64 (hash_unshuffle_strong64 b) = b"
proof (intro conjI)
  have un32: "unshift2 k (w XOR drop_bit k w) = w" "unshift2 k w XOR drop_bit k (unshift2 k w) = w"
    if "k \<in> {13, 16}" for k and w :: u32 using that by (auto simp: unshift2_xor_shift)
  have un64: "unshift2 k (w XOR drop_bit k w) = w" "unshift2 k w XOR drop_bit k (unshift2 k w) = w"
    if "k \<in> {27, 30, 31}" for k and w :: u64 using that by (auto simp: unshift2_xor_shift)
  note inv32 = mult_inverse_word [OF odd_inverses32(1)] mult_inverse_word [OF odd_inverses32(2)]
    mult_inverse_word [OF odd_inverses32(3)]
  note inv64 = mult_inverse_word [OF odd_inverses64(1)] mult_inverse_word [OF odd_inverses64(2)]
    mult_inverse_word [OF odd_inverses64(3)]
  show "hash_unshuffle32 (hash_shuffle32 a) = a" "hash_shuffle32 (hash_unshuffle32 a) = a"
    by (simp_all only: hash_unshuffle32_def hash_shuffle32_def end_swap32_twice inv32)
  show "hash_unshuffle64 (hash_shuffle64 b) = b" "hash_shuffle64 (hash_unshuffle64 b) = b"
    by (simp_all only: hash_unshuffle64_def hash_shuffle64_def end_swap64_twice inv64)
  show "hash_unshuffle_strong32 (hash_shuffle_strong32 a) = a"
    "hash_shuffle_strong32 (hash_unshuffle_strong32 a) = a"
    unfolding hash_unshuffle_strong32_def hash_shuffle_strong32_def Let_def
    by (simp_all only: un32 inv32 insert_iff simp_thms)
  show "hash_unshuffle_strong64 (hash_shuffle_strong64 b) = b"
    "hash_shuffle_strong64 (hash_unshuffle_strong64 b) = b"
    unfolding hash_unshuffle_strong64_def hash_shuffle_strong64_def Let_def
    by (simp_all only: un64 inv64 insert_iff simp_thms)
qed

end
