(* ===== verification/Hash_Set.thy ===== *)
theory Hash_Set
  imports Hash "HOL-Library.Multiset"
begin

text \<open>
  \<^verbatim>\<open>arlib/set.h\<close>, class \<^verbatim>\<open>set\<close>: a hash table with open addressing and linear probing. The slots
  of \<^verbatim>\<open>m_data\<close> hold an object or, when \<^verbatim>\<open>m_valid\<close> says they do not, a tag byte (never used, or
  used and deleted). The table is generic over the element type: \<open>h\<close> is the shuffled hash of a
  key (\<^verbatim>\<open>hash_shuffle(local_hash(item))\<close>) and \<open>kf\<close> the part of an element that \<^verbatim>\<open>operator==\<close>
  compares, so that the same definitions serve \<^verbatim>\<open>set<T>\<close> (\<open>kf\<close> is the identity) and the nodes of
  \<^verbatim>\<open>map<K,V>\<close> (\<open>kf\<close> is the key). \<open>None\<close> as the outer result is a probe that never ends or that
  leaves the table.
\<close>

subsection \<open>State\<close>

datatype 'e cell = I_empty | I_deleted | Obj 'e

fun tag_is_empty :: "'e cell \<Rightarrow> bool" where
  "tag_is_empty I_empty = True"
| "tag_is_empty _ = False"

fun cell_is :: "('e \<Rightarrow> bool) \<Rightarrow> 'e cell \<Rightarrow> bool" where
  "cell_is hit (Obj e) = hit e"
| "cell_is hit _ = False"

record 'e hset =
  m_data :: "'e cell list option"
  m_valid :: "bool list"
  m_used_slots :: nat
  m_count :: nat

subsection \<open>Operations\<close>

definition probe :: "nat \<Rightarrow> u64 \<Rightarrow> nat \<Rightarrow> nat" where
  "probe n hashv i = unat ((hashv + of_nat i) AND (of_nat n - 1))"

partial_function (option) find_pos_loop ::
  "bool \<Rightarrow> bool \<Rightarrow> ('e \<Rightarrow> bool) \<Rightarrow> u64 \<Rightarrow> 'e cell list \<Rightarrow> bool list \<Rightarrow> nat \<Rightarrow> nat option \<Rightarrow> nat option option"
where
  "find_pos_loop want_empty want_used hit hashv d v i emptyslot =
     (let pos = probe (length v) hashv i
      in if \<not> (pos < length v \<and> pos < length d) then None
         else if want_used \<and> v ! pos \<and> cell_is hit (d ! pos) then Some (Some pos)
         else if \<not> v ! pos then
           (let emptyslot' = (case emptyslot of None \<Rightarrow> Some pos | Some q \<Rightarrow> Some q)
            in if tag_is_empty (d ! pos) then Some (if want_empty then emptyslot' else None)
               else find_pos_loop want_empty want_used hit hashv d v (i + 1) emptyslot')
         else find_pos_loop want_empty want_used hit hashv d v (i + 1) emptyslot)"

definition find_pos_full ::
  "bool \<Rightarrow> bool \<Rightarrow> ('k \<Rightarrow> u64) \<Rightarrow> ('e \<Rightarrow> 'k) \<Rightarrow> 'k \<Rightarrow> 'e hset \<Rightarrow> nat option option"
where
  "find_pos_full want_empty want_used h kf k s =
     (case m_data s of
        None \<Rightarrow> Some None
      | Some d \<Rightarrow> find_pos_loop want_empty want_used (\<lambda>e. kf e = k) (h k) d (m_valid s) 0 None)"

definition find_pos_const :: "('k \<Rightarrow> u64) \<Rightarrow> ('e \<Rightarrow> 'k) \<Rightarrow> 'k \<Rightarrow> 'e hset \<Rightarrow> nat option option" where
  "find_pos_const = find_pos_full False True"

definition find_pos_insert :: "('k \<Rightarrow> u64) \<Rightarrow> ('e \<Rightarrow> 'k) \<Rightarrow> 'k \<Rightarrow> 'e hset \<Rightarrow> nat option option" where
  "find_pos_insert = find_pos_full True True"

fun rehash_into ::
  "('k \<Rightarrow> u64) \<Rightarrow> ('e \<Rightarrow> 'k) \<Rightarrow> (bool \<times> 'e cell) list \<Rightarrow> 'e cell list \<Rightarrow> bool list \<Rightarrow>
    ('e cell list \<times> bool list) option"
where
  "rehash_into h kf [] d v = Some (d, v)"
| "rehash_into h kf ((prev_valid, c) # prev) d v =
     (if \<not> prev_valid then rehash_into h kf prev d v
      else case c of
        Obj e \<Rightarrow>
          (case find_pos_loop True False (\<lambda>e'. kf e' = kf e) (h (kf e)) d v 0 None of
             Some (Some pos) \<Rightarrow> rehash_into h kf prev (d[pos := Obj e]) (v[pos := True])
           | _ \<Rightarrow> None)
      | _ \<Rightarrow> None)"

definition set_cells :: "'e hset \<Rightarrow> 'e cell list" where
  "set_cells s = (case m_data s of None \<Rightarrow> replicate (length (m_valid s)) I_empty | Some d \<Rightarrow> d)"

definition rehash :: "('k \<Rightarrow> u64) \<Rightarrow> ('e \<Rightarrow> 'k) \<Rightarrow> nat \<Rightarrow> 'e hset \<Rightarrow> 'e hset option" where
  "rehash h kf newsize s =
     (case rehash_into h kf (zip (m_valid s) (set_cells s))
             (replicate newsize I_empty) (replicate newsize False) of
        None \<Rightarrow> None
      | Some (d, v) \<Rightarrow> Some (s\<lparr>m_data := Some d, m_valid := v, m_used_slots := m_count s\<rparr>))"

definition grow :: "('k \<Rightarrow> u64) \<Rightarrow> ('e \<Rightarrow> 'k) \<Rightarrow> 'e hset \<Rightarrow> 'e hset option" where
  "grow h kf s =
     (if length (m_valid s) div 2 \<le> m_count s then rehash h kf (length (m_valid s) * 2) s
      else if length (m_valid s) div 4 * 3 \<le> m_used_slots s then rehash h kf (length (m_valid s)) s
      else Some s)"

definition get_or_null :: "('k \<Rightarrow> u64) \<Rightarrow> ('e \<Rightarrow> 'k) \<Rightarrow> 'k \<Rightarrow> 'e hset \<Rightarrow> nat option option" where
  "get_or_null h kf k s = find_pos_const h kf k s"

text \<open>The reference that \<open>get_create\<close> returns is the index of the slot.\<close>

definition set_new_at :: "nat \<Rightarrow> 'e \<Rightarrow> 'e hset \<Rightarrow> (nat \<times> 'e hset) option" where
  "set_new_at pos e s =
     (case m_data s of
        None \<Rightarrow> None
      | Some d \<Rightarrow>
          let s = (if tag_is_empty (d ! pos) then s\<lparr>m_used_slots := m_used_slots s + 1\<rparr> else s)
          in Some (pos, s\<lparr>m_data := Some (d[pos := Obj e]), m_valid := (m_valid s)[pos := True],
                         m_count := m_count s + 1\<rparr>))"

definition get_create ::
  "('k \<Rightarrow> u64) \<Rightarrow> ('e \<Rightarrow> 'k) \<Rightarrow> 'e \<Rightarrow> bool \<Rightarrow> 'e hset \<Rightarrow> (nat \<times> 'e hset) option"
where
  "get_create h kf item known_new s0 =
     Option.bind (if m_data s0 = None then rehash h kf (length (m_valid s0)) s0 else Some s0) (\<lambda>s.
     Option.bind (if known_new then Some (Some 0) else find_pos_insert h kf (kf item) s) (\<lambda>pos0.
     Option.bind pos0 (\<lambda>pos.
       if known_new \<or> \<not> m_valid s ! pos then
         Option.bind (grow h kf s) (\<lambda>s1.
         Option.bind (find_pos_insert h kf (kf item) s1) (\<lambda>pos1.
         Option.bind pos1 (\<lambda>pos. set_new_at pos item s1)))
       else Some (pos, s))))"

definition set_construct :: "'e hset" where
  "set_construct = \<lparr>m_data = None, m_valid = replicate 8 False, m_used_slots = 0, m_count = 0\<rparr>"

definition set_construct_copy :: "('k \<Rightarrow> u64) \<Rightarrow> ('e \<Rightarrow> 'k) \<Rightarrow> 'e hset \<Rightarrow> 'e hset option" where
  "set_construct_copy h kf other =
     rehash h kf (length (m_valid other))
       \<lparr>m_data = Some (map (\<lambda>(ok, c). if ok then c else I_empty) (zip (m_valid other) (set_cells other))),
        m_valid = m_valid other, m_used_slots = m_count other, m_count = m_count other\<rparr>"

definition set_construct_move :: "'e hset \<Rightarrow> 'e hset \<times> 'e hset" where
  "set_construct_move other = (other, set_construct)"

text \<open>
  \<^verbatim>\<open>destruct\<close> frees \<^verbatim>\<open>m_data\<close> without clearing the pointer; a read through it afterwards is a
  read through \<open>None\<close> here.
\<close>

definition set_destruct :: "'e hset \<Rightarrow> 'e hset" where
  "set_destruct s = s\<lparr>m_count := 0, m_used_slots := 0, m_data := None, m_valid := []\<rparr>"

text \<open>Copy assignment from another object, and from the object itself.\<close>

definition set_assign :: "('k \<Rightarrow> u64) \<Rightarrow> ('e \<Rightarrow> 'k) \<Rightarrow> 'e hset \<Rightarrow> 'e hset \<Rightarrow> 'e hset option" where
  "set_assign h kf this other = (let this = set_destruct this in set_construct_copy h kf other)"

definition set_assign_self :: "('k \<Rightarrow> u64) \<Rightarrow> ('e \<Rightarrow> 'k) \<Rightarrow> 'e hset \<Rightarrow> 'e hset option" where
  "set_assign_self h kf this = (let this = set_destruct this in set_construct_copy h kf this)"

definition set_add :: "('k \<Rightarrow> u64) \<Rightarrow> ('e \<Rightarrow> 'k) \<Rightarrow> 'e \<Rightarrow> 'e hset \<Rightarrow> 'e hset option" where
  "set_add h kf item s = map_option snd (get_create h kf item False s)"

definition set_contains :: "('k \<Rightarrow> u64) \<Rightarrow> ('e \<Rightarrow> 'k) \<Rightarrow> 'k \<Rightarrow> 'e hset \<Rightarrow> bool option" where
  "set_contains h kf k s = map_option (\<lambda>pos. pos \<noteq> None) (find_pos_const h kf k s)"

definition set_remove :: "('k \<Rightarrow> u64) \<Rightarrow> ('e \<Rightarrow> 'k) \<Rightarrow> 'k \<Rightarrow> 'e hset \<Rightarrow> 'e hset option" where
  "set_remove h kf k s =
     Option.bind (find_pos_const h kf k s) (\<lambda>pos0.
       case pos0 of
         None \<Rightarrow> Some s
       | Some pos \<Rightarrow>
           let s1 = s\<lparr>m_data := map_option (\<lambda>d. d[pos := I_deleted]) (m_data s),
                      m_valid := (m_valid s)[pos := False], m_count := m_count s - 1\<rparr>
           in if m_count s1 < length (m_valid s1) div 4 \<and> 8 < length (m_valid s1)
              then rehash h kf (length (m_valid s1) div 2) s1
              else Some s1)"

definition set_size :: "'e hset \<Rightarrow> nat" where
  "set_size s = m_count s"

definition set_reset :: "'e hset \<Rightarrow> 'e hset" where
  "set_reset s = (let s = set_destruct s in set_construct)"

text \<open>Iteration: an iterator is a position; \<^verbatim>\<open>to_valid\<close> skips the slots without an object.\<close>

function to_valid :: "bool list \<Rightarrow> nat \<Rightarrow> nat" where
  "to_valid v pos = (if pos < length v \<and> \<not> v ! pos then to_valid v (pos + 1) else pos)"
  by pat_completeness auto
termination by (relation "measure (\<lambda>(v, pos). length v - pos)") auto

declare to_valid.simps [simp del]

lemma to_valid_ge: "pos \<le> to_valid v pos"
proof (induction v pos rule: to_valid.induct)
  case (1 v pos)
  then show ?case by (subst to_valid.simps) auto
qed

function set_iterate :: "'e hset \<Rightarrow> nat \<Rightarrow> 'e cell list" where
  "set_iterate s pos0 =
     (let pos = to_valid (m_valid s) pos0
      in if pos < length (m_valid s) then (set_cells s ! pos) # set_iterate s (pos + 1) else [])"
  by pat_completeness auto
termination
proof (relation "measure (\<lambda>(s, pos). length (m_valid s) - pos)")
  fix s :: "'e hset" and pos0 x
  assume "x = to_valid (m_valid s) pos0" and "x < length (m_valid s)"
  then show "((s, x + 1), s, pos0) \<in> measure (\<lambda>(s, pos). length (m_valid s) - pos)"
    using to_valid_ge [of pos0 "m_valid s"] by simp
qed simp

declare set_iterate.simps [simp del]

subsection \<open>The probe sequence\<close>

definition table_size :: "nat \<Rightarrow> bool" where
  "table_size n \<longleftrightarrow> (\<exists>j. 3 \<le> j \<and> j \<le> 64 \<and> n = 2 ^ j)"

lemma table_size_ge: "table_size n \<Longrightarrow> 8 \<le> n"
proof -
  assume "table_size n"
  then obtain j where "3 \<le> j" "n = 2 ^ j" by (auto simp: table_size_def)
  then have "(2::nat) ^ 3 \<le> n" using power_increasing [of 3 j "2::nat"] by simp
  then show ?thesis by simp
qed

lemma table_size_double: "table_size n \<Longrightarrow> n < 2 ^ 64 \<Longrightarrow> table_size (n * 2)"
  unfolding table_size_def
proof (elim exE conjE)
  fix j assume j: "3 \<le> j" "j \<le> 64" "n = 2 ^ j" and "n < 2 ^ 64"
  then have "j < 64" using power_less_imp_less_exp [of "2::nat" j 64] by simp
  then show "\<exists>j. 3 \<le> j \<and> j \<le> 64 \<and> n * 2 = 2 ^ j" using j by (intro exI [of _ "Suc j"]) simp
qed

lemma table_size_half: "table_size n \<Longrightarrow> 8 < n \<Longrightarrow> table_size (n div 2) \<and> n div 2 * 2 = n"
  unfolding table_size_def
proof (elim exE conjE)
  fix j assume j: "3 \<le> j" "j \<le> 64" "n = 2 ^ j" and "8 < n"
  then have "j \<noteq> 3" by auto
  then obtain i where i: "j = Suc i" "3 \<le> i" using j by (cases j) auto
  then have "n div 2 = 2 ^ i" using j by simp
  then show "(\<exists>j. 3 \<le> j \<and> j \<le> 64 \<and> n div 2 = 2 ^ j) \<and> n div 2 * 2 = n" using i j by auto
qed

lemma table_size_4: "table_size n \<Longrightarrow> n div 4 * 4 = n"
proof -
  assume "table_size n"
  then obtain j where "3 \<le> j" "n = 2 ^ j" by (auto simp: table_size_def)
  then have "(2::nat) ^ 2 dvd n" using le_imp_power_dvd [of 2 j "2::nat"] by simp
  then show ?thesis by simp
qed

lemma probe_mod:
  assumes "table_size n"
  shows "probe n hashv i = (unat hashv + i) mod n"
proof -
  obtain j where j: "j \<le> 64" "n = 2 ^ j" using assms by (auto simp: table_size_def)
  have "(of_nat n - 1 :: u64) = mask j" by (simp add: j mask_eq_exp_minus_1)
  then have "probe n hashv i = unat (take_bit j (hashv + of_nat i))"
    by (simp add: probe_def flip: take_bit_eq_mask)
  also have "\<dots> = unat (hashv + of_nat i) mod n"
    unfolding unsigned_take_bit_eq by (simp add: take_bit_eq_mod j)
  also have "unat (hashv + of_nat i) = (unat hashv + i) mod 2 ^ 64"
    by (simp add: unat_word_ariths unat_of_nat mod_add_right_eq)
  also have "(unat hashv + i) mod 2 ^ 64 mod n = (unat hashv + i) mod n"
    unfolding j(2) by (rule mod_mod_cancel [OF le_imp_power_dvd [OF j(1)]])
  finally show ?thesis .
qed

lemma probe_less: "table_size n \<Longrightarrow> probe n hashv i < n"
  using table_size_ge [of n] by (simp add: probe_mod)

lemma probe_reaches:
  assumes "table_size n" and "p < n"
  shows "\<exists>i<n. probe n hashv i = p"
proof -
  have n: "0 < n" using assms(2) by simp
  define r where "r = unat hashv mod n"
  define i where "i = (p + n - r) mod n"
  have "r < n" using n by (simp add: r_def)
  have "(unat hashv + i) mod n = (r + (p + n - r)) mod n" by (simp add: r_def i_def mod_simps)
  also have "r + (p + n - r) = p + n" using \<open>r < n\<close> by simp
  finally have "probe n hashv i = p" using assms by (simp add: probe_mod)
  moreover have "i < n" using n by (simp add: i_def)
  ultimately show ?thesis by blast
qed

subsection \<open>What the probe loop returns\<close>

fun is_obj :: "'e cell \<Rightarrow> bool" where
  "is_obj (Obj e) = True"
| "is_obj _ = False"

fun the_obj :: "'e cell \<Rightarrow> 'e" where
  "the_obj (Obj e) = e"
| "the_obj _ = undefined"

lemma is_obj_iff: "is_obj c \<longleftrightarrow> (\<exists>e. c = Obj e)"
  by (cases c) auto

lemma cell_is_iff: "cell_is hit c \<longleftrightarrow> (\<exists>e. c = Obj e \<and> hit e)"
  by (cases c) auto

lemma obj_not_empty: "is_obj c \<Longrightarrow> \<not> tag_is_empty c"
  by (cases c) auto

lemma find_pos_loop_step:
  fixes hashv :: u64 and i :: nat
  assumes "table_size (length v)" "length d = length v" and "\<forall>p<length v. v ! p = is_obj (d ! p)"
  defines "c \<equiv> d ! probe (length v) hashv i"
  shows "find_pos_loop we wu hit hashv d v i es =
    (let es' = (if is_obj c then es else if es = None then Some (probe (length v) hashv i) else es)
     in if wu \<and> cell_is hit c then Some (Some (probe (length v) hashv i))
        else if tag_is_empty c then Some (if we then es' else None)
        else find_pos_loop we wu hit hashv d v (i + 1) es')"
proof -
  have inb: "probe (length v) hashv i < length v" using probe_less [OF assms(1)] .
  then have v: "v ! probe (length v) hashv i = is_obj c" using assms(3) by (simp add: c_def)
  show ?thesis
    by (subst find_pos_loop.simps, cases c; cases es)
      (simp_all add: inb v assms(2) Let_def c_def [symmetric])
qed

lemma all_from:
  "(i::nat) \<le> m \<Longrightarrow> (\<forall>l. i \<le> l \<and> l \<le> m \<longrightarrow> Q l) \<longleftrightarrow> Q i \<and> (\<forall>l. Suc i \<le> l \<and> l \<le> m \<longrightarrow> Q l)"
  by (auto simp: Suc_le_eq) (metis le_neq_implies_less)

lemma find_pos_loop_spec:
  fixes n :: nat and hashv :: u64
  assumes n: "table_size n" "length v = n" "length d = n" and agree: "\<forall>p<n. v ! p = is_obj (d ! p)"
  defines "P \<equiv> probe n hashv"
  assumes "tag_is_empty (d ! P N)" and "i \<le> N"
  shows "\<exists>r. find_pos_loop we wu hit hashv d v i es = Some r \<and>
    ((\<exists>m\<ge>i. wu \<and> r = Some (P m) \<and> cell_is hit (d ! P m)) \<or>
     (\<exists>m\<ge>i. tag_is_empty (d ! P m) \<and> (wu \<longrightarrow> (\<forall>l. i \<le> l \<and> l \<le> m \<longrightarrow> \<not> cell_is hit (d ! P l))) \<and>
        (\<forall>l. i \<le> l \<and> l < m \<longrightarrow> \<not> tag_is_empty (d ! P l)) \<and>
        (if \<not> we then r = None else if es \<noteq> None then r = es
         else \<exists>l. i \<le> l \<and> l \<le> m \<and> \<not> is_obj (d ! P l) \<and> r = Some (P l))))"
  (is "\<exists>r. ?loop i es = Some r \<and> (?found i r \<or> ?empty i es r)")
  using \<open>i \<le> N\<close>
proof (induction "N - i" arbitrary: i es rule: less_induct)
  case less
  define es' where "es' = (if is_obj (d ! P i) then es else if es = None then Some (P i) else es)"
  have step: "?loop i es =
    (if wu \<and> cell_is hit (d ! P i) then Some (Some (P i))
     else if tag_is_empty (d ! P i) then Some (if we then es' else None)
     else ?loop (i + 1) es')"
    using find_pos_loop_step [of v d we wu hit hashv i es] agree unfolding Let_def es'_def P_def n
    by (simp only: n)
  have upto: "(\<forall>l. i \<le> l \<and> l \<le> m \<longrightarrow> Q l) \<longleftrightarrow> Q i \<and> (\<forall>l. i + 1 \<le> l \<and> l \<le> m \<longrightarrow> Q l)"
    if "i \<le> m" for Q m
    using all_from [OF that] by simp
  consider (hit) "wu \<and> cell_is hit (d ! P i)"
    | (stop) "\<not> (wu \<and> cell_is hit (d ! P i))" "tag_is_empty (d ! P i)"
    | (step) "\<not> (wu \<and> cell_is hit (d ! P i))" "\<not> tag_is_empty (d ! P i)" by blast
  then show ?case
  proof cases
    case hit
    then show ?thesis unfolding step by auto
  next
    case stop
    have no: "\<not> is_obj (d ! P i)" using stop(2) obj_not_empty by blast
    have "wu \<longrightarrow> (\<forall>l. i \<le> l \<and> l \<le> i \<longrightarrow> \<not> cell_is hit (d ! P l))"
      using stop(1) by (metis le_antisym)
    moreover have "if \<not> we then (if we then es' else None) = None
      else if es \<noteq> None then (if we then es' else None) = es
      else \<exists>l. i \<le> l \<and> l \<le> i \<and> \<not> is_obj (d ! P l) \<and> (if we then es' else None) = Some (P l)"
      using no by (auto simp: es'_def)
    moreover have "\<forall>l. i \<le> l \<and> l < i \<longrightarrow> \<not> tag_is_empty (d ! P l)" by (meson not_le)
    ultimately have "?empty i es (if we then es' else None)"
      using stop(2) by (intro exI [of _ i] conjI) (assumption | rule order_refl)+
    moreover have "?loop i es = Some (if we then es' else None)"
      using stop by (simp only: step if_True if_False)
    ultimately show ?thesis by blast
  next
    case step_on: step
    then have "i \<noteq> N" using \<open>tag_is_empty (d ! P N)\<close> by blast
    then have "N - (i + 1) < N - i" "i + 1 \<le> N" using less.prems by simp_all
    from less.hyps [OF this, of es'] obtain r where r: "?loop (i + 1) es' = Some r"
      and d: "?found (i + 1) r \<or> ?empty (i + 1) es' r" by blast
    show ?thesis
    proof (intro exI conjI)
      show "?loop i es = Some r" using r step_on by (simp only: step if_False)
      from d show "?found i r \<or> ?empty i es r"
      proof
        assume "?found (i + 1) r"
        then obtain m where "i + 1 \<le> m" "wu \<and> r = Some (P m) \<and> cell_is hit (d ! P m)" by blast
        moreover from this(1) have "i \<le> m" by simp
        ultimately show ?thesis by blast
      next
        assume "?empty (i + 1) es' r"
        then obtain m where m: "i + 1 \<le> m" "tag_is_empty (d ! P m)"
          "wu \<longrightarrow> (\<forall>l. i + 1 \<le> l \<and> l \<le> m \<longrightarrow> \<not> cell_is hit (d ! P l))"
          "\<forall>l. i + 1 \<le> l \<and> l < m \<longrightarrow> \<not> tag_is_empty (d ! P l)"
          "if \<not> we then r = None else if es' \<noteq> None then r = es'
           else \<exists>l. i + 1 \<le> l \<and> l \<le> m \<and> \<not> is_obj (d ! P l) \<and> r = Some (P l)"
          by blast
        have "wu \<longrightarrow> (\<forall>l. i \<le> l \<and> l \<le> m \<longrightarrow> \<not> cell_is hit (d ! P l))"
          using m(1,3) step_on(1) upto [of m "\<lambda>l. \<not> cell_is hit (d ! P l)"] by simp
        moreover have "\<forall>l. i \<le> l \<and> l < m \<longrightarrow> \<not> tag_is_empty (d ! P l)"
        proof (intro allI impI)
          fix l assume "i \<le> l \<and> l < m"
          then show "\<not> tag_is_empty (d ! P l)" using m(4) step_on(2) by (cases "l = i") auto
        qed
        moreover have "if \<not> we then r = None else if es \<noteq> None then r = es
           else \<exists>l. i \<le> l \<and> l \<le> m \<and> \<not> is_obj (d ! P l) \<and> r = Some (P l)"
        proof (cases "es' = None")
          case True
          then have "es = None" by (auto simp: es'_def split: if_splits)
          then show ?thesis using m(5) True by (cases we) (simp_all, blast intro: Suc_leD)
        next
          case False
          show ?thesis
          proof (cases "es = None")
            case True
            then have "\<not> is_obj (d ! P i)" "es' = Some (P i)" using False by (auto simp: es'_def split: if_splits)
            then show ?thesis using m(1,5) True by (cases we) (simp_all, blast intro: Suc_leD)
          next
            case es: False
            then have "es' = es" by (auto simp: es'_def)
            then show ?thesis using m(5) es by simp
          qed
        qed
        moreover have "i \<le> m" using m(1) by simp
        ultimately have "?empty i es r" using m(2) by (intro exI [of _ m] conjI) assumption+
        then show ?thesis by blast
      qed
    qed
  qed
qed

subsection \<open>Contents and invariant\<close>

fun objs :: "'e cell list \<Rightarrow> 'e list" where
  "objs [] = []"
| "objs (Obj e # cs) = e # objs cs"
| "objs (_ # cs) = objs cs"

definition set_items :: "'e hset \<Rightarrow> 'e list" where
  "set_items s = objs (set_cells s)"

definition nonempty_cells :: "'e cell list \<Rightarrow> nat" where
  "nonempty_cells d = length (filter (\<lambda>c. \<not> tag_is_empty c) d)"

definition reachable :: "('k \<Rightarrow> u64) \<Rightarrow> ('e \<Rightarrow> 'k) \<Rightarrow> 'e cell list \<Rightarrow> bool" where
  "reachable h kf d \<longleftrightarrow> (\<forall>p e. p < length d \<longrightarrow> d ! p = Obj e \<longrightarrow>
     (\<exists>m. probe (length d) (h (kf e)) m = p \<and>
        (\<forall>l<m. \<not> tag_is_empty (d ! probe (length d) (h (kf e)) l))))"

text \<open>A table whose cells and valid bits agree, and one that can also be searched.\<close>

definition cells_ok :: "('e \<Rightarrow> 'k) \<Rightarrow> 'e cell list \<Rightarrow> bool list \<Rightarrow> bool" where
  "cells_ok kf d v \<longleftrightarrow> table_size (length v) \<and> length d = length v \<and>
     (\<forall>p<length v. v ! p = is_obj (d ! p)) \<and> distinct (map kf (objs d))"

definition set_inv :: "('k \<Rightarrow> u64) \<Rightarrow> ('e \<Rightarrow> 'k) \<Rightarrow> 'e hset \<Rightarrow> bool" where
  "set_inv h kf s \<longleftrightarrow> cells_ok kf (set_cells s) (m_valid s) \<and> reachable h kf (set_cells s) \<and>
     m_count s = length (objs (set_cells s)) \<and> m_used_slots s = nonempty_cells (set_cells s) \<and>
     m_used_slots s < length (m_valid s)"

lemma set_objs: "set (objs d) = {e. Obj e \<in> set d}"
  by (induction d rule: objs.induct) auto

lemma objs_replicate [simp]: "objs (replicate n I_empty) = []"
  by (induction n) simp_all

lemma objs_conv: "objs d = map the_obj (filter is_obj d)"
  by (induction d rule: objs.induct) simp_all

lemma mset_objs_update:
  "p < length d \<Longrightarrow> mset (objs (d[p := c])) + mset (objs [d ! p]) = mset (objs d) + mset (objs [c])"
proof (induction d arbitrary: p)
  case Nil
  then show ?case by simp
next
  case (Cons e d)
  then show ?case by (cases p; cases c; cases e) (auto simp: add.commute)
qed

lemma length_objs_update:
  "p < length d \<Longrightarrow> length (objs (d[p := c])) + length (objs [d ! p]) = length (objs d) + length (objs [c])"
  using mset_objs_update [of p d c] by (metis size_mset size_union)

lemma nonempty_update:
  "p < length d \<Longrightarrow> nonempty_cells (d[p := c]) + of_bool (\<not> tag_is_empty (d ! p)) =
     nonempty_cells d + of_bool (\<not> tag_is_empty c)"
  unfolding nonempty_cells_def
proof (induction d arbitrary: p)
  case (Cons a d)
  show ?case
  proof (cases p)
    case (Suc q)
    then show ?thesis using Cons.IH [of q] Cons.prems by simp
  qed simp
qed simp

lemma nonempty_ge_objs: "length (objs d) \<le> nonempty_cells d"
  unfolding nonempty_cells_def by (induction d rule: objs.induct) simp_all

lemma ex_empty_cell:
  assumes "nonempty_cells d < length d"
  shows "\<exists>p<length d. tag_is_empty (d ! p)"
proof (rule ccontr)
  assume "\<not> ?thesis"
  then have "\<forall>c\<in>set d. \<not> tag_is_empty c" by (metis in_set_conv_nth)
  then have "filter (\<lambda>c. \<not> tag_is_empty c) d = d" by (rule filter_True)
  then show False using assms by (simp add: nonempty_cells_def)
qed

lemma distinct_map_mset: "mset xs = mset ys \<Longrightarrow> distinct (map f xs) \<longleftrightarrow> distinct (map f ys)"
  by (rule mset_eq_imp_distinct_iff) simp

subsection \<open>Searching, adding and deleting on the cells\<close>

definition free_slot :: "u64 \<Rightarrow> 'e cell list \<Rightarrow> nat \<Rightarrow> bool" where
  "free_slot hashv d p \<longleftrightarrow> p < length d \<and> \<not> is_obj (d ! p) \<and>
     (\<exists>m. probe (length d) hashv m = p \<and> (\<forall>l<m. \<not> tag_is_empty (d ! probe (length d) hashv l)))"

lemma find_loop_cases:
  assumes ok: "cells_ok kf d v" and room: "nonempty_cells d < length d"
  shows "\<exists>r. find_pos_loop we wu hit hashv d v 0 None = Some r \<and>
    ((\<exists>p e. wu \<and> r = Some p \<and> p < length d \<and> d ! p = Obj e \<and> hit e) \<or>
     (\<exists>m. tag_is_empty (d ! probe (length d) hashv m) \<and>
        (wu \<longrightarrow> (\<forall>l\<le>m. \<not> cell_is hit (d ! probe (length d) hashv l))) \<and>
        (if we then \<exists>p. r = Some p \<and> free_slot hashv d p else r = None)))"
proof -
  have n: "table_size (length d)" "length v = length d" "\<forall>p<length d. v ! p = is_obj (d ! p)"
    using ok by (simp_all add: cells_ok_def)
  obtain p where "p < length d" "tag_is_empty (d ! p)" using ex_empty_cell [OF room] by blast
  then obtain N where N: "tag_is_empty (d ! probe (length d) hashv N)"
    using probe_reaches [OF n(1)] by metis
  have less: "probe (length d) hashv m < length d" for m by (rule probe_less [OF n(1)])
  from find_pos_loop_spec [OF n(1,2) refl n(3) N, of 0 we wu hit None] obtain r where
    r: "find_pos_loop we wu hit hashv d v 0 None = Some r" and
    c: "(\<exists>m. wu \<and> r = Some (probe (length d) hashv m) \<and> cell_is hit (d ! probe (length d) hashv m)) \<or>
     (\<exists>m. tag_is_empty (d ! probe (length d) hashv m) \<and>
        (wu \<longrightarrow> (\<forall>l\<le>m. \<not> cell_is hit (d ! probe (length d) hashv l))) \<and>
        (\<forall>l<m. \<not> tag_is_empty (d ! probe (length d) hashv l)) \<and>
        (if \<not> we then r = None
         else \<exists>l\<le>m. \<not> is_obj (d ! probe (length d) hashv l) \<and> r = Some (probe (length d) hashv l)))"
    by (auto cong: if_cong)
  have free: "free_slot hashv d (probe (length d) hashv l)"
    if "l \<le> m" "\<not> is_obj (d ! probe (length d) hashv l)"
      "\<forall>l<m. \<not> tag_is_empty (d ! probe (length d) hashv l)" for l m
  proof -
    have "\<forall>i<l. \<not> tag_is_empty (d ! probe (length d) hashv i)" using that(1,3) by simp
    then show ?thesis using that(2) less unfolding free_slot_def by blast
  qed
  show ?thesis
    using c
  proof
    assume "\<exists>m. wu \<and> r = Some (probe (length d) hashv m) \<and> cell_is hit (d ! probe (length d) hashv m)"
    then show ?thesis using r less by (auto simp: cell_is_iff)
  next
    assume "\<exists>m. tag_is_empty (d ! probe (length d) hashv m) \<and>
        (wu \<longrightarrow> (\<forall>l\<le>m. \<not> cell_is hit (d ! probe (length d) hashv l))) \<and>
        (\<forall>l<m. \<not> tag_is_empty (d ! probe (length d) hashv l)) \<and>
        (if \<not> we then r = None
         else \<exists>l\<le>m. \<not> is_obj (d ! probe (length d) hashv l) \<and> r = Some (probe (length d) hashv l))"
    then obtain m where m: "tag_is_empty (d ! probe (length d) hashv m)"
      "wu \<longrightarrow> (\<forall>l\<le>m. \<not> cell_is hit (d ! probe (length d) hashv l))"
      "if we then \<exists>p. r = Some p \<and> free_slot hashv d p else r = None"
      using free by (metis (full_types))
    then show ?thesis using r by blast
  qed
qed

lemma find_ok:
  assumes ok: "cells_ok kf d v" "reachable h kf d" and room: "nonempty_cells d < length d"
  shows "\<exists>r. find_pos_loop we True (\<lambda>e. kf e = k) (h k) d v 0 None = Some r \<and>
    ((\<exists>p e. r = Some p \<and> p < length d \<and> d ! p = Obj e \<and> kf e = k) \<or>
     (k \<notin> kf ` set (objs d) \<and> (if we then \<exists>p. r = Some p \<and> free_slot (h k) d p else r = None)))"
proof -
  from find_loop_cases [OF ok(1) room, of we True "\<lambda>e. kf e = k" "h k"] obtain r where
    r: "find_pos_loop we True (\<lambda>e. kf e = k) (h k) d v 0 None = Some r" and
    c: "(\<exists>p e. r = Some p \<and> p < length d \<and> d ! p = Obj e \<and> kf e = k) \<or>
     (\<exists>m. tag_is_empty (d ! probe (length d) (h k) m) \<and>
        (\<forall>l\<le>m. \<not> cell_is (\<lambda>e. kf e = k) (d ! probe (length d) (h k) l)) \<and>
        (if we then \<exists>p. r = Some p \<and> free_slot (h k) d p else r = None))"
    by auto
  have "k \<notin> kf ` set (objs d)"
    if m: "tag_is_empty (d ! probe (length d) (h k) m)"
      "\<forall>l\<le>m. \<not> cell_is (\<lambda>e. kf e = k) (d ! probe (length d) (h k) l)" for m
  proof
    assume "k \<in> kf ` set (objs d)"
    then obtain e p where e: "kf e = k" "p < length d" "d ! p = Obj e"
      by (auto simp: set_objs in_set_conv_nth)
    then obtain i where i: "probe (length d) (h k) i = p"
      "\<forall>l<i. \<not> tag_is_empty (d ! probe (length d) (h k) l)"
      using ok(2) unfolding reachable_def by metis
    then have "i \<le> m" using m(1) by (meson not_le)
    then show False using m(2) i(1) e by (auto simp: cell_is_iff)
  qed
  then show ?thesis using r c by blast
qed

lemma put_ok:
  assumes ok: "cells_ok kf d v" "reachable h kf d" and free: "free_slot (h (kf e)) d p"
    and new: "kf e \<notin> kf ` set (objs d)"
  shows "cells_ok kf (d[p := Obj e]) (v[p := True])" and "reachable h kf (d[p := Obj e])"
    and "mset (objs (d[p := Obj e])) = add_mset e (mset (objs d))"
proof -
  have p: "p < length d" "\<not> is_obj (d ! p)" using free by (simp_all add: free_slot_def)
  have o: "objs [d ! p] = []" using p(2) by (cases "d ! p") auto
  show m: "mset (objs (d[p := Obj e])) = add_mset e (mset (objs d))"
    using mset_objs_update [OF p(1), of "Obj e"] o by simp
  have "distinct (map kf (objs (d[p := Obj e]))) \<longleftrightarrow> distinct (map kf (e # objs d))"
    by (rule distinct_map_mset) (simp add: m)
  then show "cells_ok kf (d[p := Obj e]) (v[p := True])"
    using ok(1) new p by (auto simp: cells_ok_def nth_list_update)
  show "reachable h kf (d[p := Obj e])"
    unfolding reachable_def length_list_update
  proof (intro allI impI)
    fix q e' assume q: "q < length d" "d[p := Obj e] ! q = Obj e'"
    have keep: "\<not> tag_is_empty (d ! i) \<Longrightarrow> \<not> tag_is_empty (d[p := Obj e] ! i)" for i
      using p by (cases "i = p") auto
    show "\<exists>m. probe (length d) (h (kf e')) m = q \<and>
        (\<forall>l<m. \<not> tag_is_empty (d[p := Obj e] ! probe (length d) (h (kf e')) l))"
    proof (cases "q = p")
      case True
      then have "e' = e" using q p by simp
      then show ?thesis using free keep True unfolding free_slot_def by blast
    next
      case False
      then have "d ! q = Obj e'" using q by simp
      then show ?thesis using ok(2) q(1) keep unfolding reachable_def by blast
    qed
  qed
qed

lemma delete_ok:
  assumes ok: "cells_ok kf d v" "reachable h kf d" and p: "p < length d" "d ! p = Obj e"
  shows "cells_ok kf (d[p := I_deleted]) (v[p := False])" and "reachable h kf (d[p := I_deleted])"
    and "add_mset e (mset (objs (d[p := I_deleted]))) = mset (objs d)"
proof -
  show m: "add_mset e (mset (objs (d[p := I_deleted]))) = mset (objs d)"
    using mset_objs_update [OF p(1), of I_deleted] p(2) by simp
  have "distinct (map kf (e # objs (d[p := I_deleted]))) \<longleftrightarrow> distinct (map kf (objs d))"
    by (rule distinct_map_mset) (simp add: m)
  then show "cells_ok kf (d[p := I_deleted]) (v[p := False])"
    using ok(1) p by (auto simp: cells_ok_def nth_list_update)
  have keep: "\<not> tag_is_empty (d ! i) \<Longrightarrow> \<not> tag_is_empty (d[p := I_deleted] ! i)" for i
    using p by (cases "i = p") auto
  show "reachable h kf (d[p := I_deleted])"
    unfolding reachable_def length_list_update
  proof (intro allI impI)
    fix q e' assume "q < length d" "d[p := I_deleted] ! q = Obj e'"
    then have "d ! q = Obj e'" using p(1) by (cases "q = p") auto
    then show "\<exists>m. probe (length d) (h (kf e')) m = q \<and>
        (\<forall>l<m. \<not> tag_is_empty (d[p := I_deleted] ! probe (length d) (h (kf e')) l))"
      using ok(2) \<open>q < length d\<close> keep unfolding reachable_def by blast
  qed
qed

subsection \<open>Rehashing\<close>

definition pair_items :: "(bool \<times> 'e cell) list \<Rightarrow> 'e list" where
  "pair_items xs = objs (map snd (filter fst xs))"

lemma rehash_into_ok:
  assumes "cells_ok kf d v" "reachable h kf d" "nonempty_cells d = length (objs d)"
    and "\<forall>(ok, c) \<in> set xs. ok \<longrightarrow> is_obj c"
    and "distinct (map kf (pair_items xs @ objs d))"
    and "length (pair_items xs) + length (objs d) < length d"
  shows "\<exists>d' v'. rehash_into h kf xs d v = Some (d', v') \<and> cells_ok kf d' v' \<and> reachable h kf d' \<and>
    length d' = length d \<and> nonempty_cells d' = length (objs d') \<and>
    mset (objs d') = mset (pair_items xs) + mset (objs d)"
  using assms
proof (induction xs arbitrary: d v)
  case Nil
  then show ?case by (simp add: pair_items_def)
next
  case (Cons x xs)
  obtain ok c where x: "x = (ok, c)" by (cases x)
  show ?case
  proof (cases ok)
    case False
    then have "pair_items (x # xs) = pair_items xs" by (simp add: x pair_items_def)
    then show ?thesis using Cons False by (simp add: x)
  next
    case True
    then obtain e where c: "c = Obj e" using Cons.prems(4) by (auto simp: x is_obj_iff)
    have items: "pair_items (x # xs) = e # pair_items xs" using True by (simp add: x c pair_items_def)
    have room: "nonempty_cells d < length d" using Cons.prems(3,6) by simp
    obtain p where p: "find_pos_loop True False (\<lambda>e'. kf e' = kf e) (h (kf e)) d v 0 None = Some (Some p)"
      "free_slot (h (kf e)) d p"
      using find_loop_cases [OF Cons.prems(1) room, of True False] by auto
    have new: "kf e \<notin> kf ` set (objs d)" using Cons.prems(5) by (auto simp: items)
    note put = put_ok [OF Cons.prems(1,2) p(2) new]
    let ?d = "d[p := Obj e]" and ?v = "v[p := True]"
    have pl: "p < length d" "\<not> is_obj (d ! p)" using p(2) by (simp_all add: free_slot_def)
    have len: "length (objs ?d) = length (objs d) + 1" using put(3) by (metis Suc_eq_plus1 size_add_mset size_mset)
    have "nonempty_cells ?d \<le> nonempty_cells d + 1"
      using nonempty_update [OF pl(1), of "Obj e"] by simp
    then have ne: "nonempty_cells ?d = length (objs ?d)"
      using nonempty_ge_objs [of ?d] len Cons.prems(3) by simp
    have di: "distinct (map kf (pair_items xs @ objs ?d))"
    proof -
      have "distinct (map kf (pair_items xs @ objs ?d)) \<longleftrightarrow> distinct (map kf (pair_items (x # xs) @ objs d))"
        by (rule distinct_map_mset) (simp add: items put(3))
      then show ?thesis using Cons.prems(5) by simp
    qed
    have "\<forall>(ok, c) \<in> set xs. ok \<longrightarrow> is_obj c" using Cons.prems(4) by simp
    moreover have "length (pair_items xs) + length (objs ?d) < length ?d"
      using Cons.prems(6) len by (simp add: items)
    ultimately show ?thesis
      using Cons.IH [OF put(1,2) ne _ di] put(3) p(1) True items by (simp add: x c)
  qed
qed

lemma filter_valid_cells:
  assumes "length d = length v" and "\<forall>p<length v. v ! p = is_obj (d ! p)"
  shows "pair_items (zip v d) = objs d"
  using assms
proof (induction v d rule: list_induct2')
  case (4 x xs y ys)
  have "\<forall>p<length xs. xs ! p = is_obj (ys ! p)" using 4(3) by (metis Suc_less_eq length_Cons nth_Cons_Suc)
  then have "pair_items (zip xs ys) = objs ys" using 4(1,2) by simp
  moreover have "x = is_obj y" using 4(3) by auto
  ultimately show ?case by (cases y) (simp_all add: pair_items_def)
qed (simp_all add: pair_items_def)

lemma fresh_cells:
  assumes "table_size n"
  shows "cells_ok kf (replicate n I_empty) (replicate n False)" "reachable h kf (replicate n I_empty)"
    "nonempty_cells (replicate n I_empty) = 0"
  using assms by (simp_all add: cells_ok_def reachable_def nonempty_cells_def)

lemma zip_valid_is_obj:
  assumes "length d = length v" and "\<forall>p<length v. v ! p = is_obj (d ! p)"
  shows "\<forall>(ok, c) \<in> set (zip v d). ok \<longrightarrow> is_obj c"
  using assms by (auto simp: set_zip)

text \<open>Rehashing keeps the objects, drops the deleted tags and makes the table searchable.\<close>

lemma rehash_ok:
  assumes "length (set_cells s) = length (m_valid s)"
    and "\<forall>p<length (m_valid s). m_valid s ! p = is_obj (set_cells s ! p)"
    and "distinct (map kf (objs (set_cells s)))"
    and "m_count s = length (objs (set_cells s))" and "table_size n" and "m_count s < n"
  shows "\<exists>s'. rehash h kf n s = Some s' \<and> set_inv h kf s' \<and> mset (set_items s') = mset (set_items s) \<and>
    m_count s' = m_count s \<and> length (m_valid s') = n \<and> m_used_slots s' = m_count s \<and> m_data s' \<noteq> None"
proof -
  let ?xs = "zip (m_valid s) (set_cells s)"
  have items: "pair_items ?xs = objs (set_cells s)" by (rule filter_valid_cells [OF assms(1,2)])
  obtain d v where r: "rehash_into h kf ?xs (replicate n I_empty) (replicate n False) = Some (d, v)"
    "cells_ok kf d v" "reachable h kf d" "length d = n" "nonempty_cells d = length (objs d)"
    "mset (objs d) = mset (objs (set_cells s))"
    using rehash_into_ok [OF fresh_cells(1,2) [OF assms(5)] _ zip_valid_is_obj [OF assms(1,2)], of kf h]
      fresh_cells(3) [OF assms(5)] assms(3,4,6)
    by (auto simp: items)
  have len: "length (objs d) = m_count s" using r(6) assms(4) by (metis size_mset)
  show ?thesis
    using r assms(6) len
    by (auto simp: rehash_def set_inv_def set_items_def set_cells_def cells_ok_def)
qed

lemma set_inv_parts:
  assumes "set_inv h kf s"
  shows "length (set_cells s) = length (m_valid s)"
    "\<forall>p<length (m_valid s). m_valid s ! p = is_obj (set_cells s ! p)"
    "distinct (map kf (objs (set_cells s)))" "m_count s = length (objs (set_cells s))"
    "table_size (length (m_valid s))" "m_count s < length (m_valid s)"
    "nonempty_cells (set_cells s) < length (set_cells s)"
    "cells_ok kf (set_cells s) (m_valid s)" "reachable h kf (set_cells s)"
  using assms nonempty_ge_objs [of "set_cells s"] by (auto simp: set_inv_def cells_ok_def)

lemma rehash_inv:
  assumes "set_inv h kf s" and "table_size n" and "m_count s < n"
  shows "\<exists>s'. rehash h kf n s = Some s' \<and> set_inv h kf s' \<and> mset (set_items s') = mset (set_items s) \<and>
    m_count s' = m_count s \<and> length (m_valid s') = n \<and> m_used_slots s' = m_count s \<and> m_data s' \<noteq> None"
  using rehash_ok [OF set_inv_parts(1-4) [OF assms(1)] assms(2,3)] .

lemma grow_ok:
  assumes "set_inv h kf s" and "m_data s \<noteq> None" and "m_count s < 2 ^ 62"
  shows "\<exists>s'. grow h kf s = Some s' \<and> set_inv h kf s' \<and> mset (set_items s') = mset (set_items s) \<and>
    m_count s' = m_count s \<and> m_used_slots s' + 1 < length (m_valid s') \<and> m_data s' \<noteq> None"
proof -
  note p = set_inv_parts [OF assms(1)]
  have n8: "8 \<le> length (m_valid s)" using table_size_ge [OF p(5)] .
  have n4: "length (m_valid s) div 4 * 4 = length (m_valid s)" using table_size_4 [OF p(5)] .
  consider (double) "length (m_valid s) div 2 \<le> m_count s"
    | (same) "\<not> length (m_valid s) div 2 \<le> m_count s" "length (m_valid s) div 4 * 3 \<le> m_used_slots s"
    | (keep) "\<not> length (m_valid s) div 2 \<le> m_count s" "\<not> length (m_valid s) div 4 * 3 \<le> m_used_slots s"
    by blast
  then show ?thesis
  proof cases
    case double
    then have "length (m_valid s) < 2 ^ 64" using assms(3) by simp
    then have "table_size (length (m_valid s) * 2)" by (rule table_size_double [OF p(5)])
    from rehash_inv [OF assms(1) this] show ?thesis
      using double p(6) n8 by (auto simp: grow_def)
  next
    case same
    from rehash_inv [OF assms(1) p(5,6)] show ?thesis
      using same n8 by (auto simp: grow_def)
  next
    case keep
    then have "m_used_slots s + 1 < length (m_valid s)" using n4 n8 by linarith
    then show ?thesis using keep assms by (simp add: grow_def)
  qed
qed

lemma find_pos_ok:
  assumes "set_inv h kf s"
  shows "\<exists>r. find_pos_full we True h kf k s = Some r \<and>
    ((\<exists>p e. r = Some p \<and> p < length (set_cells s) \<and> m_data s \<noteq> None \<and> set_cells s ! p = Obj e \<and> kf e = k) \<or>
     (k \<notin> kf ` set (set_items s) \<and>
      (if we \<and> m_data s \<noteq> None then \<exists>p. r = Some p \<and> free_slot (h k) (set_cells s) p else r = None)))"
proof (cases "m_data s")
  case None
  then show ?thesis by (simp add: find_pos_full_def set_items_def set_cells_def)
next
  case (Some d)
  then have c: "set_cells s = d" by (simp add: set_cells_def)
  show ?thesis
    using find_ok [OF set_inv_parts(8,9,7) [OF assms], of we k] Some
    by (auto simp: find_pos_full_def c set_items_def)
qed

lemma set_new_at_ok:
  assumes inv: "set_inv h kf s" and free: "free_slot (h (kf e)) (set_cells s) p"
    and new: "kf e \<notin> kf ` set (set_items s)" and data: "m_data s \<noteq> None"
    and room: "m_used_slots s + 1 < length (m_valid s)"
  shows "\<exists>s'. set_new_at p e s = Some (p, s') \<and> set_inv h kf s' \<and>
    mset (set_items s') = add_mset e (mset (set_items s)) \<and> m_count s' = m_count s + 1 \<and>
    p < length (set_cells s') \<and> set_cells s' ! p = Obj e"
proof -
  obtain d where d: "m_data s = Some d" using data by blast
  then have c: "set_cells s = d" by (simp add: set_cells_def)
  note p = set_inv_parts [OF inv, unfolded c]
  note put = put_ok [OF p(8,9) free [unfolded c] new [unfolded set_items_def c]]
  have pl: "p < length d" "\<not> is_obj (d ! p)" using free by (simp_all add: free_slot_def c)
  let ?s = "(if tag_is_empty (d ! p) then s\<lparr>m_used_slots := m_used_slots s + 1\<rparr> else s)
    \<lparr>m_data := Some (d[p := Obj e]), m_valid := (m_valid s)[p := True], m_count := m_count s + 1\<rparr>"
  have res: "set_new_at p e s = Some (p, ?s)" by (simp add: set_new_at_def d Let_def)
  have len: "length (objs (d[p := Obj e])) = m_count s + 1"
    using put(3) p(4) by (metis Suc_eq_plus1 size_add_mset size_mset)
  have used: "nonempty_cells (d[p := Obj e]) = m_used_slots ?s" "m_used_slots ?s < length (m_valid s)"
    using nonempty_update [OF pl(1), of "Obj e"] inv room by (auto simp: set_inv_def c split: if_splits)
  show ?thesis
    by (intro exI [of _ ?s], cases "tag_is_empty (d ! p)")
      (use res put len used pl p(4) in \<open>simp_all add: set_inv_def set_cells_def d set_items_def\<close>)
qed

lemma no_data_no_items: "m_data s = None \<Longrightarrow> set_items s = []"
  by (simp add: set_items_def set_cells_def)

lemma get_create_existing:
  assumes inv: "set_inv h kf s" and k: "kf item \<in> kf ` set (set_items s)"
  shows "\<exists>p e. get_create h kf item False s = Some (p, s) \<and> p < length (set_cells s) \<and>
    set_cells s ! p = Obj e \<and> kf e = kf item \<and> m_data s \<noteq> None"
proof -
  have d: "m_data s \<noteq> None" using k no_data_no_items [of s] by (cases "m_data s") auto
  from find_pos_ok [OF inv, of True "kf item"] k obtain p e where
    p: "find_pos_full True True h kf (kf item) s = Some (Some p)" "p < length (set_cells s)"
      "set_cells s ! p = Obj e" "kf e = kf item" by auto
  have "m_valid s ! p" using set_inv_parts(1,2) [OF inv] p(2,3) by auto
  moreover obtain y where "m_data s = Some y" using d by blast
  ultimately show ?thesis using p d by (simp add: get_create_def find_pos_insert_def)
qed

lemma find_pos_absent:
  assumes inv: "set_inv h kf s" and k: "k \<notin> kf ` set (set_items s)" and d: "m_data s \<noteq> None"
  shows "\<exists>p. find_pos_full True True h kf k s = Some (Some p) \<and> free_slot (h k) (set_cells s) p"
proof -
  have "kf e \<noteq> k" if "p < length (set_cells s)" "set_cells s ! p = Obj e" for p e
  proof -
    have "e \<in> set (set_items s)" using that by (auto simp: set_items_def set_objs in_set_conv_nth)
    then show ?thesis using k by blast
  qed
  then show ?thesis using find_pos_ok [OF inv, of True k] d by auto
qed

lemma get_create_new:
  assumes inv: "set_inv h kf s0" and new: "kf item \<notin> kf ` set (set_items s0)" and "m_count s0 < 2 ^ 62"
  shows "\<exists>p s'. get_create h kf item known s0 = Some (p, s') \<and> set_inv h kf s' \<and>
    mset (set_items s') = add_mset item (mset (set_items s0)) \<and> m_count s' = m_count s0 + 1 \<and>
    p < length (set_cells s') \<and> set_cells s' ! p = Obj item"
proof -
  obtain s where s: "(if m_data s0 = None then rehash h kf (length (m_valid s0)) s0 else Some s0) = Some s"
    "set_inv h kf s" "mset (set_items s) = mset (set_items s0)" "m_count s = m_count s0" "m_data s \<noteq> None"
    using rehash_inv [OF inv set_inv_parts(5,6) [OF inv]] inv by (cases "m_data s0") auto
  have items: "set (set_items s) = set (set_items s0)" using s(3) by (rule mset_eq_setD)
  obtain s1 where s1: "grow h kf s = Some s1" "set_inv h kf s1" "mset (set_items s1) = mset (set_items s)"
    "m_count s1 = m_count s" "m_used_slots s1 + 1 < length (m_valid s1)" "m_data s1 \<noteq> None"
    using grow_ok [OF s(2,5)] s(4) assms(3) by auto
  have items1: "set (set_items s1) = set (set_items s0)" using s1(3) items mset_eq_setD by metis
  obtain p1 where p1: "find_pos_full True True h kf (kf item) s1 = Some (Some p1)"
    "free_slot (h (kf item)) (set_cells s1) p1"
    using find_pos_absent [OF s1(2) _ s1(6), of "kf item"] new items1 by auto
  obtain s' where s': "set_new_at p1 item s1 = Some (p1, s')" "set_inv h kf s'"
    "mset (set_items s') = add_mset item (mset (set_items s1))" "m_count s' = m_count s1 + 1"
    "p1 < length (set_cells s')" "set_cells s' ! p1 = Obj item"
    using set_new_at_ok [OF s1(2) p1(2) _ s1(6,5)] new items1 by auto
  obtain p where p: "find_pos_full True True h kf (kf item) s = Some (Some p)" "free_slot (h (kf item)) (set_cells s) p"
    using find_pos_absent [OF s(2) _ s(5), of "kf item"] new items by auto
  have "\<not> m_valid s ! p" using p(2) set_inv_parts(1,2) [OF s(2)] by (auto simp: free_slot_def)
  then have "get_create h kf item known s0 = Some (p1, s')"
    using s(1) p(1) p1(1) s1(1) s'(1) by (simp add: get_create_def find_pos_insert_def)
  then show ?thesis using s' s1(3,4) s(3,4) by auto
qed

lemma set_remove_absent:
  assumes "set_inv h kf s" and "k \<notin> kf ` set (set_items s)"
  shows "set_remove h kf k s = Some s"
  using find_pos_ok [OF assms(1), of False k] assms(2)
  by (auto simp: set_remove_def find_pos_const_def set_items_def set_objs in_set_conv_nth)

lemma set_remove_present:
  assumes inv: "set_inv h kf s" and e: "e \<in> set (set_items s)"
  shows "\<exists>s'. set_remove h kf (kf e) s = Some s' \<and> set_inv h kf s' \<and>
    add_mset e (mset (set_items s')) = mset (set_items s) \<and> m_count s' + 1 = m_count s"
proof -
  note i = set_inv_parts [OF inv]
  from find_pos_ok [OF inv, of False "kf e"] e obtain p e' where
    p: "find_pos_full False True h kf (kf e) s = Some (Some p)" "p < length (set_cells s)" "m_data s \<noteq> None"
      "set_cells s ! p = Obj e'" "kf e' = kf e" by auto
  have "e' \<in> set (set_items s)" using p(2,4) by (auto simp: set_items_def set_objs in_set_conv_nth)
  then have e': "e' = e" using e p(5) i(3) by (auto simp: set_items_def distinct_map inj_on_def)
  obtain d where d: "m_data s = Some d" using p(3) by blast
  then have c: "set_cells s = d" by (simp add: set_cells_def)
  note del = delete_ok [OF i(8,9) p(2,4), unfolded c e']
  let ?s = "s\<lparr>m_data := Some (d[p := I_deleted]), m_valid := (m_valid s)[p := False], m_count := m_count s - 1\<rparr>"
  have c': "set_cells ?s = d[p := I_deleted]" by (simp add: set_cells_def)
  have len: "length (objs (d[p := I_deleted])) + 1 = m_count s"
    using del(3) i(4) by (metis Suc_eq_plus1 c size_add_mset size_mset)
  have used: "nonempty_cells (d[p := I_deleted]) = m_used_slots s"
    using nonempty_update [of p d I_deleted] p(2,4) inv by (simp add: c set_inv_def)
  have inv': "set_inv h kf ?s"
    unfolding set_inv_def c' using inv [unfolded set_inv_def c] del(1,2) len used by simp
  have items: "add_mset e (mset (set_items ?s)) = mset (set_items s)"
    unfolding set_items_def c' using del(3) c by simp
  have rem: "set_remove h kf (kf e) s =
      (if m_count ?s < length (m_valid s) div 4 \<and> 8 < length (m_valid s)
       then rehash h kf (length (m_valid s) div 2) ?s else Some ?s)"
    using p(1) by (simp add: set_remove_def find_pos_const_def d Let_def)
  show ?thesis
  proof (cases "m_count ?s < length (m_valid s) div 4 \<and> 8 < length (m_valid s)")
    case True
    then have half: "table_size (length (m_valid s) div 2)" using table_size_half [OF i(5)] by blast
    have "m_count ?s < length (m_valid s) div 2" using True by linarith
    from rehash_inv [OF inv' half this] obtain s' where
      "rehash h kf (length (m_valid s) div 2) ?s = Some s'" "set_inv h kf s'"
      "mset (set_items s') = mset (set_items ?s)" "m_count s' = m_count ?s" by blast
    then show ?thesis using True rem items len by auto
  next
    case False
    then show ?thesis using rem inv' items len by auto
  qed
qed

lemma set_contains_ok:
  assumes "set_inv h kf s"
  shows "set_contains h kf k s = Some (k \<in> kf ` set (set_items s))"
  using find_pos_ok [OF assms, of False k]
  by (auto simp: set_contains_def find_pos_const_def set_items_def set_objs in_set_conv_nth)

lemma set_construct_ok: "set_inv h kf set_construct" "set_items set_construct = []" "m_count set_construct = 0"
proof -
  have "table_size 8" unfolding table_size_def by (intro exI [of _ 3]) simp
  then show "set_inv h kf set_construct"
    using fresh_cells(1) [of 8 kf] fresh_cells(2) [of 8 h kf] fresh_cells(3) [of 8]
    by (simp add: set_inv_def set_construct_def set_cells_def)
qed (simp_all add: set_construct_def set_items_def set_cells_def)

lemma masked_cells:
  assumes "length d = length v" and "\<forall>p<length v. v ! p = is_obj (d ! p)"
  defines "d' \<equiv> map (\<lambda>(ok, c). if ok then c else I_empty) (zip v d)"
  shows "length d' = length v" "\<forall>p<length v. v ! p = is_obj (d' ! p)" "objs d' = objs d"
proof -
  show "length d' = length v" "\<forall>p<length v. v ! p = is_obj (d' ! p)"
    using assms(1,2) by (auto simp: d'_def)
  show "objs d' = objs d"
    using assms(1,2) unfolding d'_def
  proof (induction v d rule: list_induct2')
    case (4 x xs y ys)
    have "\<forall>p<length xs. xs ! p = is_obj (ys ! p)" using 4(3) by (metis Suc_less_eq length_Cons nth_Cons_Suc)
    moreover have "x = is_obj y" using 4(3) by auto
    ultimately show ?case using 4(1,2) by (cases y) simp_all
  qed simp_all
qed

lemma set_construct_copy_ok:
  assumes inv: "set_inv h kf s"
  shows "\<exists>s'. set_construct_copy h kf s = Some s' \<and> set_inv h kf s' \<and>
    mset (set_items s') = mset (set_items s) \<and> m_count s' = m_count s"
proof -
  note i = set_inv_parts [OF inv]
  note m = masked_cells [OF i(1,2)]
  let ?s = "\<lparr>m_data = Some (map (\<lambda>(ok, c). if ok then c else I_empty) (zip (m_valid s) (set_cells s))),
        m_valid = m_valid s, m_used_slots = m_count s, m_count = m_count s\<rparr>"
  have c: "set_cells ?s = map (\<lambda>(ok, c). if ok then c else I_empty) (zip (m_valid s) (set_cells s))"
    by (simp add: set_cells_def)
  have "\<exists>s'. rehash h kf (length (m_valid s)) ?s = Some s' \<and> set_inv h kf s' \<and>
      mset (set_items s') = mset (set_items ?s) \<and> m_count s' = m_count ?s \<and>
      length (m_valid s') = length (m_valid s) \<and> m_used_slots s' = m_count ?s \<and> m_data s' \<noteq> None"
    by (rule rehash_ok) (unfold c m, use i in simp_all)
  then show ?thesis using m(3) by (auto simp: set_construct_copy_def set_items_def c)
qed

lemma set_iterate_ok:
  assumes inv: "set_inv h kf s"
  shows "set_iterate s 0 = map Obj (set_items s)"
proof -
  note i = set_inv_parts [OF inv]
  have skip: "filter is_obj (drop (to_valid (m_valid s) pos) (set_cells s)) = filter is_obj (drop pos (set_cells s)) \<and>
      (to_valid (m_valid s) pos < length (m_valid s) \<longrightarrow> m_valid s ! to_valid (m_valid s) pos)" for pos
  proof (induction "length (m_valid s) - pos" arbitrary: pos)
    case 0
    then show ?case using i(1) by (subst (1 2 3) to_valid.simps) simp
  next
    case (Suc n)
    then have "pos < length (m_valid s)" by simp
    then have "drop pos (set_cells s) = set_cells s ! pos # drop (pos + 1) (set_cells s)"
      using i(1) by (simp add: Cons_nth_drop_Suc)
    then show ?case using Suc.hyps(1) [of "pos + 1"] Suc.hyps(2) i(2) \<open>pos < length (m_valid s)\<close>
      by (subst (1 2 3) to_valid.simps) auto
  qed
  have "set_iterate s pos = filter is_obj (drop pos (set_cells s))" for pos
  proof (induction "length (m_valid s) - pos" arbitrary: pos rule: less_induct)
    case less
    define q where "q = to_valid (m_valid s) pos"
    have pq: "pos \<le> q" by (simp add: q_def to_valid_ge)
    have it: "set_iterate s pos = (if q < length (m_valid s) then set_cells s ! q # set_iterate s (q + 1) else [])"
      by (subst set_iterate.simps) (simp add: Let_def q_def)
    have sk: "filter is_obj (drop pos (set_cells s)) = filter is_obj (drop q (set_cells s))"
      "q < length (m_valid s) \<longrightarrow> is_obj (set_cells s ! q)"
      using skip [of pos] i(2) by (simp_all add: q_def)
    show ?case
    proof (cases "q < length (m_valid s)")
      case True
      then have "drop q (set_cells s) = set_cells s ! q # drop (q + 1) (set_cells s)"
        using i(1) by (simp add: Cons_nth_drop_Suc)
      then show ?thesis using less.hyps [of "q + 1"] True pq sk it by simp
    next
      case False
      then show ?thesis using it sk(1) i(1) by simp
    qed
  qed
  moreover have "filter is_obj d = map Obj (objs d)" for d :: "'b cell list"
    by (induction d rule: objs.induct) simp_all
  ultimately show ?thesis by (simp add: set_items_def)
qed

subsection \<open>Running a sequence of operations\<close>

text \<open>A \<^verbatim>\<open>set<T>\<close> compares whole elements.\<close>

definition elem_key :: "'k \<Rightarrow> 'k" where
  "elem_key k = k"

lemma elem_key_eq: "elem_key k = k"
  by (simp add: elem_key_def)

lemma elem_key_simps [simp]: "elem_key ` A = A" "map elem_key xs = xs"
  by (simp_all add: elem_key_def map_idI)

datatype 'k set_op = SAdd 'k | SHas 'k | SRemove 'k | SSize | SCopy | SReset

datatype set_res = SDone | SBool bool | SNum nat

fun set_step :: "('k \<Rightarrow> u64) \<Rightarrow> 'k set_op \<Rightarrow> 'k hset \<Rightarrow> (set_res \<times> 'k hset) option" where
  "set_step h (SAdd k) s = map_option (Pair SDone) (set_add h elem_key k s)"
| "set_step h (SHas k) s = map_option (\<lambda>b. (SBool b, s)) (set_contains h elem_key k s)"
| "set_step h (SRemove k) s = map_option (Pair SDone) (set_remove h elem_key k s)"
| "set_step h SSize s = Some (SNum (set_size s), s)"
| "set_step h SCopy s = map_option (Pair SDone) (set_construct_copy h elem_key s)"
| "set_step h SReset s = Some (SDone, set_reset s)"

fun set_run :: "('k \<Rightarrow> u64) \<Rightarrow> 'k set_op list \<Rightarrow> 'k hset \<Rightarrow> (set_res list \<times> 'k hset) option" where
  "set_run h [] s = Some ([], s)"
| "set_run h (x # xs) s =
     (case set_step h x s of
        None \<Rightarrow> None
      | Some (r, s1) \<Rightarrow> map_option (apfst (Cons r)) (set_run h xs s1))"

text \<open>The same operations on a mathematical set.\<close>

fun spec_set_step :: "'k set_op \<Rightarrow> 'k set \<Rightarrow> set_res \<times> 'k set" where
  "spec_set_step (SAdd k) A = (SDone, insert k A)"
| "spec_set_step (SHas k) A = (SBool (k \<in> A), A)"
| "spec_set_step (SRemove k) A = (SDone, A - {k})"
| "spec_set_step SSize A = (SNum (card A), A)"
| "spec_set_step SCopy A = (SDone, A)"
| "spec_set_step SReset A = (SDone, {})"

fun spec_set_run :: "'k set_op list \<Rightarrow> 'k set \<Rightarrow> set_res list \<times> 'k set" where
  "spec_set_run [] A = ([], A)"
| "spec_set_run (x # xs) A = (let (r, A1) = spec_set_step x A in apfst (Cons r) (spec_set_run xs A1))"

lemma set_add_ok:
  assumes inv: "set_inv h elem_key s" and "m_count s < 2 ^ 62"
  shows "\<exists>s'. set_add h elem_key k s = Some s' \<and> set_inv h elem_key s' \<and>
    set (set_items s') = insert k (set (set_items s)) \<and> m_count s' \<le> m_count s + 1"
proof (cases "k \<in> set (set_items s)")
  case True
  then have "elem_key k \<in> elem_key ` set (set_items s)" by (simp add: elem_key_eq)
  from get_create_existing [OF inv this] show ?thesis
    using True inv by (auto simp: set_add_def)
next
  case False
  then have "elem_key k \<notin> elem_key ` set (set_items s)" by (simp add: elem_key_eq)
  from get_create_new [OF inv this assms(2), of False] obtain p s' where
    "get_create h elem_key k False s = Some (p, s')" "set_inv h elem_key s'"
    "mset (set_items s') = add_mset k (mset (set_items s))" "m_count s' = m_count s + 1" by blast
  moreover from this(3) have "set (set_items s') = insert k (set (set_items s))"
    by (metis set_mset_add_mset_insert set_mset_mset)
  ultimately show ?thesis by (simp add: set_add_def)
qed

lemma set_remove_ok:
  assumes inv: "set_inv h elem_key s"
  shows "\<exists>s'. set_remove h elem_key k s = Some s' \<and> set_inv h elem_key s' \<and>
    set (set_items s') = set (set_items s) - {k} \<and> m_count s' \<le> m_count s"
proof (cases "k \<in> set (set_items s)")
  case True
  from set_remove_present [OF inv True] elem_key_eq [of k] obtain s' where
    s': "set_remove h elem_key k s = Some s'" "set_inv h elem_key s'"
      "add_mset k (mset (set_items s')) = mset (set_items s)" "m_count s' + 1 = m_count s" by auto
  have "distinct (set_items s)" using set_inv_parts(3) [OF inv] by (simp add: set_items_def)
  then have "k \<notin> set (set_items s')"
    using s'(3) by (metis distinct.simps(2) mset_eq_imp_distinct_iff mset.simps(2))
  moreover have "set (set_items s) = insert k (set (set_items s'))"
    using s'(3) by (metis set_mset_add_mset_insert set_mset_mset)
  ultimately show ?thesis using s' by auto
next
  case False
  then show ?thesis using set_remove_absent [OF inv, of k] inv by auto
qed

lemma set_step_refines:
  assumes inv: "set_inv h elem_key s" and "m_count s < 2 ^ 62"
  shows "\<exists>r s'. set_step h x s = Some (r, s') \<and> set_inv h elem_key s' \<and> m_count s' \<le> m_count s + 1 \<and>
    spec_set_step x (set (set_items s)) = (r, set (set_items s'))"
proof (cases x)
  case (SAdd k)
  then show ?thesis using set_add_ok [OF assms, of k] by auto
next
  case (SHas k)
  then show ?thesis using set_contains_ok [OF inv, of k] inv by simp
next
  case (SRemove k)
  then show ?thesis using set_remove_ok [OF inv, of k] by auto
next
  case SSize
  have "distinct (set_items s)" using set_inv_parts(3) [OF inv] by (simp add: set_items_def)
  then have "card (set (set_items s)) = m_count s"
    using set_inv_parts(4) [OF inv] by (simp add: distinct_card set_items_def)
  then show ?thesis using SSize inv by (simp add: set_size_def)
next
  case SCopy
  obtain s' where "set_construct_copy h elem_key s = Some s'" "set_inv h elem_key s'"
    "mset (set_items s') = mset (set_items s)" "m_count s' = m_count s"
    using set_construct_copy_ok [OF inv] by blast
  then show ?thesis using SCopy mset_eq_setD [of "set_items s'" "set_items s"] by simp
next
  case SReset
  then show ?thesis using set_construct_ok(1) [of h elem_key] by (simp add: set_reset_def set_construct_ok(2,3))
qed

lemma set_run_refines:
  "set_inv h elem_key s \<Longrightarrow> m_count s + length xs \<le> 2 ^ 62 \<Longrightarrow>
    \<exists>rs s'. set_run h xs s = Some (rs, s') \<and> set_inv h elem_key s' \<and>
      spec_set_run xs (set (set_items s)) = (rs, set (set_items s'))"
proof (induction xs arbitrary: s)
  case (Cons x xs)
  have "m_count s < 2 ^ 62" using Cons.prems(2) by simp
  from set_step_refines [OF Cons.prems(1) this, of x] obtain r s1 where s1: "set_step h x s = Some (r, s1)"
    "set_inv h elem_key s1" "m_count s1 \<le> m_count s + 1"
    "spec_set_step x (set (set_items s)) = (r, set (set_items s1))" by blast
  moreover have "m_count s1 + length xs \<le> 2 ^ 62" using Cons.prems(2) s1(3) by simp
  ultimately show ?case using Cons.IH [of s1] by auto
qed simp

subsection \<open>Properties\<close>

text \<open>
  C8. The hash table is a set: starting from an empty one, every sequence of fewer than
  \<open>2^62\<close> additions, removals, lookups, size queries, copies and resets ends (no probe runs forever
  or out of the table) and returns what the same sequence returns on a mathematical set,
  whatever the hash function. Iterating over the table at the end visits every element of that
  set exactly once.
\<close>

theorem hash_set_refines_set:
  assumes "length ops \<le> 2 ^ 62"
  shows "\<exists>rs s. set_run h ops set_construct = Some (rs, s) \<and>
    spec_set_run ops {} = (rs, set (set_items s)) \<and>
    set_iterate s 0 = map Obj (set_items s) \<and> distinct (set_items s)"
proof -
  obtain rs s where s: "set_run h ops set_construct = Some (rs, s)" "set_inv h elem_key s"
    "spec_set_run ops {} = (rs, set (set_items s))"
    using set_run_refines [OF set_construct_ok(1), of ops h] assms by (auto simp: set_construct_ok)
  then show ?thesis
    using set_iterate_ok [OF s(2)] set_inv_parts(3) [OF s(2)] by (simp add: set_items_def)
qed

theorem hash_set_refines_set_witness:
  "\<exists>rs s. set_run (\<lambda>_. 7) [SAdd (1::nat), SAdd 2, SRemove 1, SHas 2] set_construct = Some (rs, s) \<and>
    spec_set_run [SAdd 1, SAdd 2, SRemove 1, SHas 2] {} = (rs, set (set_items s)) \<and>
    set_iterate s 0 = map Obj (set_items s) \<and> distinct (set_items s)"
  by (rule hash_set_refines_set) simp

text \<open>
  Assigning a set to itself destroys it: \<^verbatim>\<open>operator=\<close> destructs the target before it copies
  from the source, and they are the same object. The result has no slots at all, and the next
  lookup leaves the table.
\<close>

theorem set_self_assign_broken:
  "\<exists>s'. set_assign_self h kf s = Some s' \<and> set_items s' = [] \<and> m_valid s' = [] \<and>
    set_contains h kf k s' = None"
proof -
  have "set_assign_self h kf s = Some \<lparr>m_data = Some [], m_valid = [], m_used_slots = 0, m_count = 0\<rparr>"
    by (simp add: set_assign_self_def set_destruct_def set_construct_copy_def set_cells_def rehash_def)
  moreover have "find_pos_loop False True (\<lambda>e. kf e = k) (h k) [] [] 0 None = None"
    by (subst find_pos_loop.simps) simp
  ultimately show ?thesis
    by (simp add: set_items_def set_cells_def set_contains_def find_pos_const_def find_pos_full_def)
qed

end
