(* ===== verification/Hash_Map.thy ===== *)
theory Hash_Map
  imports Hash_Set
begin

text \<open>
  \<^verbatim>\<open>arlib/set.h\<close>, class \<^verbatim>\<open>map\<close>: a hash set of nodes that compares and hashes only their keys. A
  reference to a value inside the table is the index of its slot; \<open>map_store\<close> is an assignment
  through such a reference. \<open>dflt\<close> is the value the default constructor of \<^verbatim>\<open>Tvalue\<close> makes. The
  locale \<open>finite_map\<close> states what the rest of the program relies on.
\<close>

subsection \<open>Operations\<close>

record ('k, 'v) node =
  node_key :: 'k
  node_value :: 'v

type_synonym ('k, 'v) hmap = "('k, 'v) node hset"

definition map_new :: "('k, 'v) hmap" where
  "map_new = set_construct"

definition map_value_at :: "nat \<Rightarrow> ('k, 'v) hmap \<Rightarrow> 'v" where
  "map_value_at pos s = node_value (the_obj (set_cells s ! pos))"

definition map_store :: "nat \<Rightarrow> 'v \<Rightarrow> ('k, 'v) hmap \<Rightarrow> ('k, 'v) hmap" where
  "map_store pos value s =
     s\<lparr>m_data := map_option (\<lambda>d. d[pos := Obj ((the_obj (d ! pos))\<lparr>node_value := value\<rparr>)]) (m_data s)\<rparr>"

definition map_insert :: "('k \<Rightarrow> u64) \<Rightarrow> 'k \<Rightarrow> 'v \<Rightarrow> ('k, 'v) hmap \<Rightarrow> (nat \<times> ('k, 'v) hmap) option" where
  "map_insert h key value s =
     Option.bind (get_or_null h node_key key s) (\<lambda>item.
       case item of
         Some pos \<Rightarrow> Some (pos, map_store pos value s)
       | None \<Rightarrow> get_create h node_key \<lparr>node_key = key, node_value = value\<rparr> True s)"

definition map_insert_only :: "('k \<Rightarrow> u64) \<Rightarrow> 'k \<Rightarrow> 'v \<Rightarrow> ('k, 'v) hmap \<Rightarrow> (nat \<times> ('k, 'v) hmap) option" where
  "map_insert_only h key value s = get_create h node_key \<lparr>node_key = key, node_value = value\<rparr> True s"

definition map_get :: "('k \<Rightarrow> u64) \<Rightarrow> 'k \<Rightarrow> ('k, 'v) hmap \<Rightarrow> 'v option" where
  "map_get h key s =
     Option.bind (get_or_null h node_key key s) (\<lambda>item. map_option (\<lambda>pos. map_value_at pos s) item)"

definition map_get_or :: "('k \<Rightarrow> u64) \<Rightarrow> 'k \<Rightarrow> 'v \<Rightarrow> ('k, 'v) hmap \<Rightarrow> 'v option" where
  "map_get_or h key def s =
     map_option (\<lambda>ret. case ret of Some pos \<Rightarrow> map_value_at pos s | None \<Rightarrow> def) (get_or_null h node_key key s)"

definition map_get_or_null :: "('k \<Rightarrow> u64) \<Rightarrow> 'k \<Rightarrow> ('k, 'v) hmap \<Rightarrow> 'v option option" where
  "map_get_or_null h key s =
     map_option (map_option (\<lambda>pos. map_value_at pos s)) (get_or_null h node_key key s)"

definition map_get_create :: "('k \<Rightarrow> u64) \<Rightarrow> 'v \<Rightarrow> 'k \<Rightarrow> ('k, 'v) hmap \<Rightarrow> (nat \<times> ('k, 'v) hmap) option" where
  "map_get_create h dflt key s = get_create h node_key \<lparr>node_key = key, node_value = dflt\<rparr> False s"

definition map_get_create_with ::
  "('k \<Rightarrow> u64) \<Rightarrow> 'k \<Rightarrow> (unit \<Rightarrow> 'v) \<Rightarrow> ('k, 'v) hmap \<Rightarrow> (nat \<times> ('k, 'v) hmap) option"
where
  "map_get_create_with h key cr s =
     Option.bind (get_or_null h node_key key s) (\<lambda>ret.
       case ret of
         Some pos \<Rightarrow> Some (pos, s)
       | None \<Rightarrow> get_create h node_key \<lparr>node_key = key, node_value = cr ()\<rparr> True s)"

definition map_contains :: "('k \<Rightarrow> u64) \<Rightarrow> 'k \<Rightarrow> ('k, 'v) hmap \<Rightarrow> bool option" where
  "map_contains h = set_contains h node_key"

definition map_remove :: "('k \<Rightarrow> u64) \<Rightarrow> 'k \<Rightarrow> ('k, 'v) hmap \<Rightarrow> ('k, 'v) hmap option" where
  "map_remove h = set_remove h node_key"

definition map_reset :: "('k, 'v) hmap \<Rightarrow> ('k, 'v) hmap" where
  "map_reset = set_reset"

definition map_size :: "('k, 'v) hmap \<Rightarrow> nat" where
  "map_size = set_size"

definition map_nodes :: "('k, 'v) hmap \<Rightarrow> ('k, 'v) node list" where
  "map_nodes s = map the_obj (set_iterate s 0)"

definition map_keys :: "('k, 'v) hmap \<Rightarrow> 'k list" where
  "map_keys s = map node_key (map_nodes s)"

definition map_values :: "('k, 'v) hmap \<Rightarrow> 'v list" where
  "map_values s = map node_value (map_nodes s)"

text \<open>
  Serialization: a list of named items, in iteration order; reading skips the names that
  \<^verbatim>\<open>fromstring\<close> rejects and assigns the item through the reference \<open>get_create\<close> returned.
\<close>

definition map_serialize :: "('k \<Rightarrow> 'n) \<Rightarrow> ('k, 'v) hmap \<Rightarrow> ('n \<times> 'v) list" where
  "map_serialize tostring s = map (\<lambda>p. (tostring (node_key p), node_value p)) (map_nodes s)"

fun map_deserialize ::
  "('k \<Rightarrow> u64) \<Rightarrow> 'v \<Rightarrow> ('n \<Rightarrow> 'k option) \<Rightarrow> ('n \<times> 'v) list \<Rightarrow> ('k, 'v) hmap \<Rightarrow> ('k, 'v) hmap option"
where
  "map_deserialize h dflt fromstring [] s = Some s"
| "map_deserialize h dflt fromstring ((name, v) # items) s =
     (case fromstring name of
        None \<Rightarrow> map_deserialize h dflt fromstring items s
      | Some tmpk \<Rightarrow>
          (case map_get_create h dflt tmpk s of
             None \<Rightarrow> None
           | Some (pos, s1) \<Rightarrow> map_deserialize h dflt fromstring items (map_store pos v s1)))"

subsection \<open>The map a table stands for\<close>

definition map_inv :: "('k \<Rightarrow> u64) \<Rightarrow> ('k, 'v) hmap \<Rightarrow> bool" where
  "map_inv h s \<longleftrightarrow> set_inv h node_key s"

definition map_view :: "('k, 'v) hmap \<Rightarrow> 'k \<Rightarrow> 'v option" where
  "map_view s = map_of (map (\<lambda>n. (node_key n, node_value n)) (set_items s))"

lemma node_eta [simp]: "\<lparr>node_key = node_key n, node_value = node_value n\<rparr> = n"
  by (cases n) simp

lemma map_view_iff:
  assumes "distinct (map node_key (set_items s))"
  shows "map_view s k = Some v \<longleftrightarrow> \<lparr>node_key = k, node_value = v\<rparr> \<in> set (set_items s)"
proof -
  have "map_view s k = Some v \<longleftrightarrow> (k, v) \<in> (\<lambda>n. (node_key n, node_value n)) ` set (set_items s)"
    using assms unfolding map_view_def by (subst map_of_eq_Some_iff) (simp_all add: comp_def)
  also have "\<dots> \<longleftrightarrow> \<lparr>node_key = k, node_value = v\<rparr> \<in> set (set_items s)"
  proof
    assume "(k, v) \<in> (\<lambda>n. (node_key n, node_value n)) ` set (set_items s)"
    then obtain n where "n \<in> set (set_items s)" "k = node_key n" "v = node_value n" by auto
    moreover have "\<lparr>node_key = node_key n, node_value = node_value n\<rparr> = n" by (cases n) simp
    ultimately show "\<lparr>node_key = k, node_value = v\<rparr> \<in> set (set_items s)" by metis
  next
    assume "\<lparr>node_key = k, node_value = v\<rparr> \<in> set (set_items s)"
    then show "(k, v) \<in> (\<lambda>n. (node_key n, node_value n)) ` set (set_items s)"
      by (metis (no_types, lifting) image_eqI node.select_convs(1,2))
  qed
  finally show ?thesis .
qed

lemma dom_map_view: "dom (map_view s) = node_key ` set (set_items s)"
  by (simp add: map_view_def dom_map_of_conv_image_fst image_image)

lemma map_eqI:
  assumes "\<And>k v. f k = Some v \<longleftrightarrow> g k = Some v"
  shows "f = g"
proof
  fix k show "f k = g k" using assms by (metis option.exhaust)
qed

lemma map_view_mset:
  assumes "distinct (map node_key (set_items s))" and "mset (set_items s') = mset (set_items s)"
  shows "map_view s' = map_view s"
proof -
  have d: "distinct (map node_key (set_items s'))" using assms(1) distinct_map_mset [OF assms(2), of node_key] by (simp only:)
  have "set (set_items s') = set (set_items s)" using assms(2) by (rule mset_eq_setD)
  then show ?thesis
    by (intro map_eqI) (metis map_view_iff [OF d] map_view_iff [OF assms(1)])
qed

lemma map_view_add:
  assumes "mset (set_items s') = add_mset n (mset (set_items s))" and "distinct (map node_key (set_items s'))"
  shows "map_view s' = (map_view s)(node_key n \<mapsto> node_value n)"
proof -
  have d: "distinct (map node_key (n # set_items s))"
    using assms distinct_map_mset [of "set_items s'" "n # set_items s" node_key] by simp
  then have ds: "distinct (map node_key (set_items s))" by simp
  have set: "set (set_items s') = insert n (set (set_items s))"
    using assms(1) by (metis set_mset_add_mset_insert set_mset_mset)
  have absent: "\<lparr>node_key = node_key n, node_value = v\<rparr> \<notin> set (set_items s)" for v
  proof
    assume "\<lparr>node_key = node_key n, node_value = v\<rparr> \<in> set (set_items s)"
    then have "node_key n \<in> node_key ` set (set_items s)" by (rule rev_image_eqI) simp
    then show False using d by simp
  qed
  show ?thesis
  proof (rule map_eqI)
    fix k v
    show "map_view s' k = Some v \<longleftrightarrow> ((map_view s)(node_key n \<mapsto> node_value n)) k = Some v"
      using absent [of v] by (cases n) (auto simp: set map_view_iff [OF assms(2)] map_view_iff [OF ds])
  qed
qed

lemma map_inv_parts:
  assumes "map_inv h s"
  shows "set_inv h node_key s" "distinct (map node_key (set_items s))"
  using assms set_inv_parts(3) [of h node_key s] by (simp_all add: map_inv_def set_items_def)

subsection \<open>Every operation against the map it stands for\<close>

lemma get_or_null_ok:
  assumes "map_inv h s"
  shows "\<exists>r. get_or_null h node_key k s = Some r \<and>
    (case r of None \<Rightarrow> map_view s k = None
     | Some p \<Rightarrow> \<exists>n. p < length (set_cells s) \<and> m_data s \<noteq> None \<and> set_cells s ! p = Obj n \<and>
         node_key n = k \<and> map_view s k = Some (node_value n) \<and> map_value_at p s = node_value n)"
proof -
  note i = map_inv_parts [OF assms]
  have view: "map_view s (node_key n) = Some (node_value n)"
    if "p < length (set_cells s)" "set_cells s ! p = Obj n" for p n
  proof -
    have "n \<in> set (set_items s)" using that by (auto simp: set_items_def set_objs in_set_conv_nth)
    then show ?thesis by (simp add: map_view_iff [OF i(2)])
  qed
  have none: "map_view s k = None" if "k \<notin> node_key ` set (set_items s)"
    using that dom_map_view [of s] by blast
  show ?thesis
    using find_pos_ok [OF i(1), of False k] view none
    by (auto simp: get_or_null_def find_pos_const_def map_value_at_def)
qed

lemma map_lookups:
  assumes "map_inv h s"
  shows "map_get_or_null h k s = Some (map_view s k)" and "map_get h k s = map_view s k"
    and "map_get_or h k d s = Some (case map_view s k of None \<Rightarrow> d | Some v \<Rightarrow> v)"
    and "map_contains h k s = Some (map_view s k \<noteq> None)"
proof -
  obtain r where r: "get_or_null h node_key k s = Some r"
    "case r of None \<Rightarrow> map_view s k = None
     | Some p \<Rightarrow> \<exists>n. p < length (set_cells s) \<and> m_data s \<noteq> None \<and> set_cells s ! p = Obj n \<and>
         node_key n = k \<and> map_view s k = Some (node_value n) \<and> map_value_at p s = node_value n"
    using get_or_null_ok [OF assms] by blast
  show "map_get_or_null h k s = Some (map_view s k)" and "map_get h k s = map_view s k"
    and "map_get_or h k d s = Some (case map_view s k of None \<Rightarrow> d | Some v \<Rightarrow> v)"
    using r by (cases r; auto simp: map_get_or_null_def map_get_def map_get_or_def)+
  show "map_contains h k s = Some (map_view s k \<noteq> None)"
    using set_contains_ok [OF map_inv_parts(1) [OF assms], of k] dom_map_view [of s]
    by (auto simp: map_contains_def)
qed

lemma map_size_ok: "map_inv h s \<Longrightarrow> map_size s = card (dom (map_view s))"
  using set_inv_parts(4) [OF map_inv_parts(1)] map_inv_parts(2) [of h s]
  by (simp add: map_size_def set_size_def dom_map_view card_image distinct_map distinct_card set_items_def)

lemma map_store_ok:
  assumes inv: "map_inv h s" and p: "p < length (set_cells s)" "set_cells s ! p = Obj n" "m_data s \<noteq> None"
  shows "map_inv h (map_store p v s)" and "map_view (map_store p v s) = (map_view s)(node_key n \<mapsto> v)"
    and "m_count (map_store p v s) = m_count s"
proof -
  note i = map_inv_parts [OF inv]
  note j = set_inv_parts [OF i(1)]
  obtain d where d: "m_data s = Some d" using p(3) by blast
  then have c: "set_cells s = d" by (simp add: set_cells_def)
  let ?n = "n\<lparr>node_value := v\<rparr>"
  have c': "set_cells (map_store p v s) = d[p := Obj ?n]"
    using p(2) by (simp add: map_store_def set_cells_def d)
  have rest: "m_valid (map_store p v s) = m_valid s" "m_count (map_store p v s) = m_count s"
    "m_used_slots (map_store p v s) = m_used_slots s" by (simp_all add: map_store_def)
  have ms: "add_mset n (mset (objs (d[p := Obj ?n]))) = add_mset ?n (mset (objs d))"
    using mset_objs_update [OF p(1), of "Obj ?n"] p(2) by (simp add: c)
  have dist: "distinct (map node_key (objs (d[p := Obj ?n])))"
  proof -
    have "image_mset node_key (mset (objs (d[p := Obj ?n]))) = image_mset node_key (mset (objs d))"
      using arg_cong [OF ms, of "image_mset node_key"] by simp
    then have "mset (map node_key (objs (d[p := Obj ?n]))) = mset (map node_key (objs d))" by simp
    then show ?thesis using j(3) mset_eq_imp_distinct_iff by (metis c)
  qed
  have len: "length (objs (d[p := Obj ?n])) = m_count s"
    using ms j(4) by (metis c add_left_cancel size_add_mset size_mset Suc_inject)
  have ne: "nonempty_cells (d[p := Obj ?n]) = nonempty_cells d"
    using nonempty_update [OF p(1), of "Obj ?n"] p(2) by (simp add: c)
  have cells: "cells_ok node_key (d[p := Obj ?n]) (m_valid s)"
    using j(8) dist p(1,2) by (auto simp: cells_ok_def c nth_list_update)
  have tag: "tag_is_empty (d[p := Obj ?n] ! q) = tag_is_empty (d ! q)" for q
    using p(1,2) by (cases "q = p") (auto simp: c)
  have reach: "reachable h node_key (d[p := Obj ?n])"
    unfolding reachable_def length_list_update tag
  proof (intro allI impI)
    fix q e assume q: "q < length d" "d[p := Obj ?n] ! q = Obj e"
    obtain e' where "d ! q = Obj e'" "node_key e' = node_key e"
      using q p(1,2) by (cases "q = p") (auto simp: c)
    then show "\<exists>m. probe (length d) (h (node_key e)) m = q \<and>
        (\<forall>l<m. \<not> tag_is_empty (d ! probe (length d) (h (node_key e)) l))"
      using j(9) q(1) unfolding reachable_def c by metis
  qed
  show inv': "map_inv h (map_store p v s)"
    using i(1) cells reach len ne unfolding map_inv_def set_inv_def by (simp add: c' c rest)
  show "m_count (map_store p v s) = m_count s" by (fact rest)
  note i' = map_inv_parts [OF inv']
  have n: "n \<in> set (set_items s)" using p(1,2) by (auto simp: set_items_def set_objs in_set_conv_nth)
  have items: "add_mset n (mset (set_items (map_store p v s))) = add_mset ?n (mset (set_items s))"
    using ms by (simp add: set_items_def c c')
  show "map_view (map_store p v s) = (map_view s)(node_key n \<mapsto> v)"
  proof -
    obtain rest where r: "mset (set_items s) = add_mset n (mset rest)"
      using n by (metis ex_mset insert_DiffM set_mset_mset)
    then have r': "mset (set_items (map_store p v s)) = add_mset ?n (mset rest)"
      using items by (simp add: add_mset_commute)
    define t where "t = \<lparr>m_data = Some (map Obj rest), m_valid = [], m_used_slots = 0, m_count = 0\<rparr>"
    have t: "set_items t = rest"
    proof -
      have "objs (map Obj rest) = rest" by (induction rest) simp_all
      then show ?thesis by (simp add: set_items_def set_cells_def t_def)
    qed
    have "map_view s = (map_view t)(node_key n \<mapsto> node_value n)"
      by (rule map_view_add) (simp_all add: t r i(2))
    moreover have "map_view (map_store p v s) = (map_view t)(node_key ?n \<mapsto> node_value ?n)"
      by (rule map_view_add) (simp_all add: t r' i'(2))
    ultimately show ?thesis by simp
  qed
qed

subsection \<open>Insertion, removal and the other changes\<close>

lemma map_get_create_absent:
  assumes inv: "map_inv h s" and k: "map_view s k = None" and "m_count s < 2 ^ 62"
  shows "\<exists>p s'. get_create h node_key \<lparr>node_key = k, node_value = v\<rparr> known s = Some (p, s') \<and> map_inv h s' \<and>
    map_view s' = (map_view s)(k \<mapsto> v) \<and> m_count s' = m_count s + 1 \<and>
    p < length (set_cells s') \<and> set_cells s' ! p = Obj \<lparr>node_key = k, node_value = v\<rparr>"
proof -
  let ?n = "\<lparr>node_key = k, node_value = v\<rparr>"
  have "node_key ?n \<notin> node_key ` set (set_items s)" using k dom_map_view [of s] by auto
  from get_create_new [OF map_inv_parts(1) [OF inv] this assms(3), of known] obtain p s' where
    s': "get_create h node_key ?n known s = Some (p, s')" "set_inv h node_key s'"
      "mset (set_items s') = add_mset ?n (mset (set_items s))" "m_count s' = m_count s + 1"
      "p < length (set_cells s')" "set_cells s' ! p = Obj ?n" by blast
  have i': "map_inv h s'" using s'(2) by (simp add: map_inv_def)
  have "map_view s' = (map_view s)(node_key ?n \<mapsto> node_value ?n)"
    by (rule map_view_add [OF s'(3) map_inv_parts(2) [OF i']])
  then show ?thesis using s' i' by simp
qed

lemma obj_data: "p < length (set_cells s) \<Longrightarrow> set_cells s ! p = Obj n \<Longrightarrow> m_data s \<noteq> None"
  by (cases "m_data s") (auto simp: set_cells_def)

lemma map_insert_ok:
  assumes inv: "map_inv h s" and "m_count s < 2 ^ 62"
  shows "\<exists>p s'. map_insert h k v s = Some (p, s') \<and> map_inv h s' \<and> map_view s' = (map_view s)(k \<mapsto> v) \<and>
    m_count s' \<le> m_count s + 1"
proof -
  obtain r where r: "get_or_null h node_key k s = Some r"
    "case r of None \<Rightarrow> map_view s k = None
     | Some p \<Rightarrow> \<exists>n. p < length (set_cells s) \<and> m_data s \<noteq> None \<and> set_cells s ! p = Obj n \<and>
         node_key n = k \<and> map_view s k = Some (node_value n) \<and> map_value_at p s = node_value n"
    using get_or_null_ok [OF inv] by blast
  show ?thesis
  proof (cases r)
    case None
    then have "map_view s k = None" using r(2) by simp
    from map_get_create_absent [OF inv this assms(2), of v True] show ?thesis
      using None r(1) by (auto simp: map_insert_def)
  next
    case (Some p)
    then obtain n where n: "p < length (set_cells s)" "m_data s \<noteq> None" "set_cells s ! p = Obj n" "node_key n = k"
      using r(2) by auto
    show ?thesis using map_store_ok [OF inv n(1,3,2)] Some r(1) n(4) by (simp add: map_insert_def)
  qed
qed

lemma map_get_create_ok:
  assumes inv: "map_inv h s" and "m_count s < 2 ^ 62"
  shows "\<exists>p s' n. map_get_create h dflt k s = Some (p, s') \<and> map_inv h s' \<and>
    map_view s' = (case map_view s k of None \<Rightarrow> (map_view s)(k \<mapsto> dflt) | Some _ \<Rightarrow> map_view s) \<and>
    m_count s' \<le> m_count s + 1 \<and> p < length (set_cells s') \<and> set_cells s' ! p = Obj n \<and> node_key n = k"
proof (cases "map_view s k")
  case None
  from map_get_create_absent [OF inv this assms(2), of dflt False] show ?thesis
    using None by (auto simp: map_get_create_def)
next
  case (Some v)
  let ?n = "\<lparr>node_key = k, node_value = dflt\<rparr>"
  have "node_key ?n \<in> node_key ` set (set_items s)" using Some dom_map_view [of s] by auto
  from get_create_existing [OF map_inv_parts(1) [OF inv] this] show ?thesis
    using Some inv by (auto simp: map_get_create_def)
qed

text \<open>Assigning through the reference that \<open>get_create\<close> returned is an insertion.\<close>

lemma map_get_create_store:
  assumes inv: "map_inv h s" and "m_count s < 2 ^ 62"
  shows "\<exists>p s'. map_get_create h dflt k s = Some (p, s') \<and> map_inv h (map_store p v s') \<and>
    map_view (map_store p v s') = (map_view s)(k \<mapsto> v) \<and> m_count (map_store p v s') \<le> m_count s + 1"
proof -
  obtain p s' n where s': "map_get_create h dflt k s = Some (p, s')" "map_inv h s'"
    "map_view s' = (case map_view s k of None \<Rightarrow> (map_view s)(k \<mapsto> dflt) | Some _ \<Rightarrow> map_view s)"
    "m_count s' \<le> m_count s + 1" "p < length (set_cells s')" "set_cells s' ! p = Obj n" "node_key n = k"
    using map_get_create_ok [OF assms] by blast
  note st = map_store_ok [OF s'(2,5,6) obj_data [OF s'(5,6)], of v]
  have "(map_view s')(k \<mapsto> v) = (map_view s)(k \<mapsto> v)" using s'(3) by (cases "map_view s k") auto
  then show ?thesis using st s'(1,4,7) by simp
qed

lemma map_get_create_with_ok:
  assumes inv: "map_inv h s" and "m_count s < 2 ^ 62"
  shows "\<exists>p s'. map_get_create_with h k cr s = Some (p, s') \<and> map_inv h s' \<and>
    map_view s' = (case map_view s k of None \<Rightarrow> (map_view s)(k \<mapsto> cr ()) | Some _ \<Rightarrow> map_view s) \<and>
    m_count s' \<le> m_count s + 1"
proof -
  obtain r where r: "get_or_null h node_key k s = Some r"
    "case r of None \<Rightarrow> map_view s k = None
     | Some p \<Rightarrow> \<exists>n. p < length (set_cells s) \<and> m_data s \<noteq> None \<and> set_cells s ! p = Obj n \<and>
         node_key n = k \<and> map_view s k = Some (node_value n) \<and> map_value_at p s = node_value n"
    using get_or_null_ok [OF inv] by blast
  show ?thesis
  proof (cases r)
    case None
    then have k: "map_view s k = None" using r(2) by simp
    from map_get_create_absent [OF inv k assms(2), of "cr ()" True] show ?thesis
      using None r(1) k by (auto simp: map_get_create_with_def)
  next
    case (Some p)
    then show ?thesis using r inv by (auto simp: map_get_create_with_def)
  qed
qed

lemma map_remove_ok:
  assumes inv: "map_inv h s"
  shows "\<exists>s'. map_remove h k s = Some s' \<and> map_inv h s' \<and> map_view s' = (map_view s)(k := None) \<and>
    m_count s' \<le> m_count s"
proof (cases "k \<in> node_key ` set (set_items s)")
  case True
  then obtain n where n: "n \<in> set (set_items s)" "k = node_key n" by blast
  note i = map_inv_parts [OF inv]
  from set_remove_present [OF i(1) n(1)] obtain s' where
    s': "set_remove h node_key k s = Some s'" "set_inv h node_key s'"
      "add_mset n (mset (set_items s')) = mset (set_items s)" "m_count s' + 1 = m_count s"
    by (auto simp: n(2))
  have "map_view s = (map_view s')(node_key n \<mapsto> node_value n)"
    by (rule map_view_add [OF s'(3) [symmetric] i(2)])
  moreover have "k \<notin> dom (map_view s')"
  proof -
    have "distinct (map node_key (n # set_items s'))"
      using i(2) distinct_map_mset [of "set_items s" "n # set_items s'" node_key] s'(3) by simp
    then show ?thesis by (simp add: dom_map_view n(2))
  qed
  ultimately have "map_view s' = (map_view s)(k := None)" by (auto simp: n(2) fun_eq_iff)
  then show ?thesis using s' by (auto simp: map_remove_def map_inv_def)
next
  case False
  then have "map_view s k = None" using dom_map_view [of s] by blast
  then have "(map_view s)(k := None) = map_view s" by auto
  then show ?thesis
    using set_remove_absent [OF map_inv_parts(1) [OF inv] False] inv by (simp add: map_remove_def)
qed

lemma map_new_ok: "map_inv h map_new" "map_view map_new = Map.empty" "m_count map_new = 0"
  using set_construct_ok(1) [of h node_key]
  by (simp_all add: map_inv_def map_new_def map_view_def set_construct_ok(2,3))

lemma map_copy_ok:
  assumes inv: "map_inv h s"
  shows "\<exists>s'. set_construct_copy h node_key s = Some s' \<and> map_inv h s' \<and> map_view s' = map_view s \<and>
    m_count s' = m_count s"
proof -
  obtain s' where s': "set_construct_copy h node_key s = Some s'" "set_inv h node_key s'"
    "mset (set_items s') = mset (set_items s)" "m_count s' = m_count s"
    using set_construct_copy_ok [OF map_inv_parts(1) [OF inv]] by blast
  then show ?thesis using map_view_mset [OF map_inv_parts(2) [OF inv] s'(3)] by (auto simp: map_inv_def)
qed

lemma map_nodes_ok:
  assumes "map_inv h s"
  shows "map_nodes s = set_items s"
  using set_iterate_ok [OF map_inv_parts(1) [OF assms]] by (simp add: map_nodes_def comp_def)

subsection \<open>The interface the rest of the program uses\<close>

text \<open>Inserting a list of pairs one after the other.\<close>

fun insert_all :: "('k \<Rightarrow> 'v \<Rightarrow> 's \<Rightarrow> 's option) \<Rightarrow> ('k \<times> 'v) list \<Rightarrow> 's \<Rightarrow> 's option" where
  "insert_all ins [] s = Some s"
| "insert_all ins ((k, v) # kvs) s = Option.bind (ins k v s) (insert_all ins kvs)"

locale finite_map =
  fixes inv :: "'s \<Rightarrow> bool" and view :: "'s \<Rightarrow> 'k \<Rightarrow> 'v option" and count :: "'s \<Rightarrow> nat"
    and put :: "'k \<Rightarrow> 'v \<Rightarrow> 's \<Rightarrow> 's option" and delete :: "'k \<Rightarrow> 's \<Rightarrow> 's option"
    and lookup :: "'k \<Rightarrow> 's \<Rightarrow> 'v option option"
  assumes put_ok: "inv s \<Longrightarrow> count s < 2 ^ 62 \<Longrightarrow>
      \<exists>s'. put k v s = Some s' \<and> inv s' \<and> view s' = (view s)(k \<mapsto> v) \<and> count s' \<le> count s + 1"
    and delete_ok: "inv s \<Longrightarrow>
      \<exists>s'. delete k s = Some s' \<and> inv s' \<and> view s' = (view s)(k := None) \<and> count s' \<le> count s"
    and lookup_ok: "inv s \<Longrightarrow> lookup k s = Some (view s k)"
begin

lemma lookup_put:
  assumes "inv s" and "count s < 2 ^ 62"
  shows "Option.bind (put k v s) (lookup k') = (if k' = k then Some (Some v) else lookup k' s)"
  using put_ok [OF assms, of k v] lookup_ok assms(1) by auto

lemma lookup_delete:
  assumes "inv s"
  shows "Option.bind (delete k s) (lookup k') = (if k' = k then Some None else lookup k' s)"
  using delete_ok [OF assms, of k] lookup_ok assms by auto

lemma insert_all_ok:
  "inv s \<Longrightarrow> count s + length kvs \<le> 2 ^ 62 \<Longrightarrow>
    \<exists>s'. insert_all put kvs s = Some s' \<and> inv s' \<and> view s' = view s ++ map_of (rev kvs) \<and>
      count s' \<le> count s + length kvs"
proof (induction kvs arbitrary: s)
  case (Cons kv kvs)
  obtain k v where kv: "kv = (k, v)" by (cases kv)
  have "count s < 2 ^ 62" using Cons.prems(2) by simp
  from put_ok [OF Cons.prems(1) this, of k v] obtain s1 where
    s1: "put k v s = Some s1" "inv s1" "view s1 = (view s)(k \<mapsto> v)" "count s1 \<le> count s + 1" by blast
  have "count s1 + length kvs \<le> 2 ^ 62" using s1(4) Cons.prems(2) by simp
  from Cons.IH [OF s1(2) this] obtain s' where
    s': "insert_all put kvs s1 = Some s'" "inv s'" "view s' = view s1 ++ map_of (rev kvs)"
      "count s' \<le> count s1 + length kvs" by blast
  have "view s' = view s ++ map_of (rev (kv # kvs))" unfolding s'(3) s1(3) kv by simp
  then show ?case using s1(1,4) s'(1,2,4) by (simp add: kv)
qed simp

end

definition map_put :: "('k \<Rightarrow> u64) \<Rightarrow> 'k \<Rightarrow> 'v \<Rightarrow> ('k, 'v) hmap \<Rightarrow> ('k, 'v) hmap option" where
  "map_put h k v s = map_option snd (map_insert h k v s)"

interpretation hm: finite_map "map_inv h" map_view m_count "map_put h" "map_remove h" "map_get_or_null h" for h
proof
  fix s :: "('a, 'b) hmap" and k v
  assume inv: "map_inv h s"
  show "\<exists>s'. map_put h k v s = Some s' \<and> map_inv h s' \<and> map_view s' = (map_view s)(k \<mapsto> v) \<and> m_count s' \<le> m_count s + 1"
    if "m_count s < 2 ^ 62" using map_insert_ok [OF inv that, of k v] by (auto simp: map_put_def)
  show "\<exists>s'. map_remove h k s = Some s' \<and> map_inv h s' \<and> map_view s' = (map_view s)(k := None) \<and> m_count s' \<le> m_count s"
    by (rule map_remove_ok [OF inv])
  show "map_get_or_null h k s = Some (map_view s k)" by (rule map_lookups(1) [OF inv])
qed

text \<open>A second provider of the same interface: writing through the result of \<open>get_create\<close>.\<close>

definition map_assign :: "('k \<Rightarrow> u64) \<Rightarrow> 'v \<Rightarrow> 'k \<Rightarrow> 'v \<Rightarrow> ('k, 'v) hmap \<Rightarrow> ('k, 'v) hmap option" where
  "map_assign h dflt k v s = map_option (\<lambda>(pos, s1). map_store pos v s1) (map_get_create h dflt k s)"

interpretation ha: finite_map "map_inv h" map_view m_count "map_assign h dflt" "map_remove h" "map_get_or_null h"
  for h and dflt
proof
  fix s :: "('a, 'b) hmap" and k v
  assume inv: "map_inv h s"
  show "\<exists>s'. map_assign h dflt k v s = Some s' \<and> map_inv h s' \<and> map_view s' = (map_view s)(k \<mapsto> v) \<and> m_count s' \<le> m_count s + 1"
    if "m_count s < 2 ^ 62" using map_get_create_store [OF inv that, of dflt k v] by (auto simp: map_assign_def)
qed (rule hm.delete_ok hm.lookup_ok, assumption)+

lemma map_deserialize_insert_all:
  "map_deserialize h dflt fromstring items s =
    insert_all (map_assign h dflt)
      (map (\<lambda>(name, v). (the (fromstring name), v)) (filter (\<lambda>(name, v). fromstring name \<noteq> None) items)) s"
  by (induction h dflt fromstring items s rule: map_deserialize.induct)
    (auto simp: map_assign_def split: option.splits)

subsection \<open>Running a sequence of operations\<close>

datatype ('k, 'v) map_op =
  MInsert 'k 'v | MCreate 'k | MAssign 'k 'v | MCreateWith 'k 'v | MGet 'k | MGetOr 'k 'v | MHas 'k
  | MRemove 'k | MSize | MCopy | MReset

datatype 'v map_res = MDone | MBool bool | MNum nat | MVal "'v option"

fun map_step :: "('k \<Rightarrow> u64) \<Rightarrow> 'v \<Rightarrow> ('k, 'v) map_op \<Rightarrow> ('k, 'v) hmap \<Rightarrow> ('v map_res \<times> ('k, 'v) hmap) option" where
  "map_step h dflt (MInsert k v) s = map_option (Pair MDone) (map_put h k v s)"
| "map_step h dflt (MCreate k) s =
     map_option (\<lambda>(pos, s1). (MVal (Some (map_value_at pos s1)), s1)) (map_get_create h dflt k s)"
| "map_step h dflt (MAssign k v) s = map_option (Pair MDone) (map_assign h dflt k v s)"
| "map_step h dflt (MCreateWith k v) s =
     map_option (\<lambda>(pos, s1). (MDone, s1)) (map_get_create_with h k (\<lambda>_. v) s)"
| "map_step h dflt (MGet k) s = map_option (\<lambda>r. (MVal r, s)) (map_get_or_null h k s)"
| "map_step h dflt (MGetOr k v) s = map_option (\<lambda>r. (MVal (Some r), s)) (map_get_or h k v s)"
| "map_step h dflt (MHas k) s = map_option (\<lambda>b. (MBool b, s)) (map_contains h k s)"
| "map_step h dflt (MRemove k) s = map_option (Pair MDone) (map_remove h k s)"
| "map_step h dflt MSize s = Some (MNum (map_size s), s)"
| "map_step h dflt MCopy s = map_option (Pair MDone) (set_construct_copy h node_key s)"
| "map_step h dflt MReset s = Some (MDone, map_reset s)"

fun map_run ::
  "('k \<Rightarrow> u64) \<Rightarrow> 'v \<Rightarrow> ('k, 'v) map_op list \<Rightarrow> ('k, 'v) hmap \<Rightarrow> ('v map_res list \<times> ('k, 'v) hmap) option"
where
  "map_run h dflt [] s = Some ([], s)"
| "map_run h dflt (x # xs) s =
     (case map_step h dflt x s of
        None \<Rightarrow> None
      | Some (r, s1) \<Rightarrow> map_option (apfst (Cons r)) (map_run h dflt xs s1))"

text \<open>The same operations on a finite map.\<close>

fun spec_map_step :: "'v \<Rightarrow> ('k, 'v) map_op \<Rightarrow> ('k \<Rightarrow> 'v option) \<Rightarrow> 'v map_res \<times> ('k \<Rightarrow> 'v option)" where
  "spec_map_step dflt (MInsert k v) m = (MDone, m(k \<mapsto> v))"
| "spec_map_step dflt (MCreate k) m =
     (case m k of None \<Rightarrow> (MVal (Some dflt), m(k \<mapsto> dflt)) | Some v \<Rightarrow> (MVal (Some v), m))"
| "spec_map_step dflt (MAssign k v) m = (MDone, m(k \<mapsto> v))"
| "spec_map_step dflt (MCreateWith k v) m = (MDone, case m k of None \<Rightarrow> m(k \<mapsto> v) | Some _ \<Rightarrow> m)"
| "spec_map_step dflt (MGet k) m = (MVal (m k), m)"
| "spec_map_step dflt (MGetOr k v) m = (MVal (Some (case m k of None \<Rightarrow> v | Some w \<Rightarrow> w)), m)"
| "spec_map_step dflt (MHas k) m = (MBool (m k \<noteq> None), m)"
| "spec_map_step dflt (MRemove k) m = (MDone, m(k := None))"
| "spec_map_step dflt MSize m = (MNum (card (dom m)), m)"
| "spec_map_step dflt MCopy m = (MDone, m)"
| "spec_map_step dflt MReset m = (MDone, Map.empty)"

fun spec_map_run :: "'v \<Rightarrow> ('k, 'v) map_op list \<Rightarrow> ('k \<Rightarrow> 'v option) \<Rightarrow> 'v map_res list \<times> ('k \<Rightarrow> 'v option)" where
  "spec_map_run dflt [] m = ([], m)"
| "spec_map_run dflt (x # xs) m =
     (let (r, m1) = spec_map_step dflt x m in apfst (Cons r) (spec_map_run dflt xs m1))"

lemma map_step_refines:
  assumes inv: "map_inv h s" and room: "m_count s < 2 ^ 62"
  shows "\<exists>r s'. map_step h dflt x s = Some (r, s') \<and> map_inv h s' \<and> m_count s' \<le> m_count s + 1 \<and>
    spec_map_step dflt x (map_view s) = (r, map_view s')"
proof (cases x)
  case (MInsert k v)
  then show ?thesis using hm.put_ok [OF assms, of k v] by auto
next
  case (MCreate k)
  obtain p s' n where s': "map_get_create h dflt k s = Some (p, s')" "map_inv h s'"
    "map_view s' = (case map_view s k of None \<Rightarrow> (map_view s)(k \<mapsto> dflt) | Some _ \<Rightarrow> map_view s)"
    "m_count s' \<le> m_count s + 1" "p < length (set_cells s')" "set_cells s' ! p = Obj n" "node_key n = k"
    using map_get_create_ok [OF assms] by blast
  have "n \<in> set (set_items s')" using s'(5,6) by (auto simp: set_items_def set_objs in_set_conv_nth)
  then have "map_view s' k = Some (node_value n)"
    using map_view_iff [OF map_inv_parts(2) [OF s'(2)], of k "node_value n"] s'(7) by auto
  moreover have "map_value_at p s' = node_value n" by (simp add: map_value_at_def s'(6))
  ultimately show ?thesis using MCreate s'(1-4) by (cases "map_view s k") auto
next
  case (MAssign k v)
  then show ?thesis using ha.put_ok [OF assms, of dflt k v] by auto
next
  case (MCreateWith k v)
  then show ?thesis using map_get_create_with_ok [OF assms, of k "\<lambda>_. v"] by auto
next
  case (MGet k)
  then show ?thesis using map_lookups(1) [OF inv, of k] inv by simp
next
  case (MGetOr k v)
  then show ?thesis using map_lookups(3) [OF inv, of k v] inv by simp
next
  case (MHas k)
  then show ?thesis using map_lookups(4) [OF inv, of k] inv by simp
next
  case (MRemove k)
  then show ?thesis using hm.delete_ok [OF inv, of k] by auto
next
  case MSize
  then show ?thesis using map_size_ok [OF inv] inv by simp
next
  case MCopy
  then show ?thesis using map_copy_ok [OF inv] by auto
next
  case MReset
  have "map_reset s = map_new" by (simp add: map_reset_def set_reset_def map_new_def)
  then show ?thesis using MReset map_new_ok(1) [of h] by (simp add: map_new_ok(2,3))
qed

lemma map_run_refines:
  "map_inv h s \<Longrightarrow> m_count s + length xs \<le> 2 ^ 62 \<Longrightarrow>
    \<exists>rs s'. map_run h dflt xs s = Some (rs, s') \<and> map_inv h s' \<and>
      spec_map_run dflt xs (map_view s) = (rs, map_view s')"
proof (induction xs arbitrary: s)
  case (Cons x xs)
  have "m_count s < 2 ^ 62" using Cons.prems(2) by simp
  from map_step_refines [OF Cons.prems(1) this, of dflt x] obtain r s1 where s1: "map_step h dflt x s = Some (r, s1)"
    "map_inv h s1" "m_count s1 \<le> m_count s + 1" "spec_map_step dflt x (map_view s) = (r, map_view s1)" by blast
  moreover have "m_count s1 + length xs \<le> 2 ^ 62" using Cons.prems(2) s1(3) by simp
  ultimately show ?case using Cons.IH [of s1] by auto
qed simp

subsection \<open>Properties\<close>

text \<open>
  C5. The hash map is a finite map: from an empty one, every sequence of at most \<open>2^62\<close>
  insertions, creations, assignments through a reference, removals, lookups, copies and resets
  ends and returns what the same sequence returns on a finite map, whatever the hash function;
  iteration at the end yields each key exactly once.
\<close>

theorem hash_map_refines_map:
  assumes "length ops \<le> 2 ^ 62"
  shows "\<exists>rs s. map_run h dflt ops map_new = Some (rs, s) \<and>
    spec_map_run dflt ops Map.empty = (rs, map_view s) \<and>
    distinct (map_keys s) \<and> set (map_keys s) = dom (map_view s)"
proof -
  obtain rs s where s: "map_run h dflt ops map_new = Some (rs, s)" "map_inv h s"
    "spec_map_run dflt ops Map.empty = (rs, map_view s)"
    using map_run_refines [OF map_new_ok(1), of ops h dflt] assms by (auto simp: map_new_ok(2,3))
  then show ?thesis
    using map_inv_parts(2) [OF s(2)] by (auto simp: map_keys_def map_nodes_ok [OF s(2)] dom_map_view)
qed

theorem hash_map_refines_map_witness:
  "\<exists>rs s. map_run (\<lambda>_. 0) (0::nat) [MInsert ''a'' 1, MCreate ''b'', MRemove ''a'', MGet ''b''] map_new = Some (rs, s) \<and>
    spec_map_run 0 [MInsert ''a'' 1, MCreate ''b'', MRemove ''a'', MGet ''b''] Map.empty = (rs, map_view s) \<and>
    distinct (map_keys s) \<and> set (map_keys s) = dom (map_view s)"
  by (rule hash_map_refines_map) simp



end
