(* ===== verification/Heap.thy ===== *)
theory Heap
  imports Global "HOL-Library.Multiset"
begin

text \<open>
  \<^verbatim>\<open>arlib/heap.h\<close> and \<^verbatim>\<open>arlib/prioqueue.h\<close>: a binary heap in an array and the priority queue over
  it. A body is a list of at least the heap's size; \<open>lt\<close> is the comparison the caller passes.
  The contract on comparisons is the locale \<open>strict_weak_order\<close>. Sifting is done by moving a hole,
  as in the code; the proofs look at the list with the moved element already in the hole.
\<close>

subsection \<open>Operations\<close>

definition child1 :: "nat \<Rightarrow> nat" where "child1 n = n * 2 + 1"
definition child2 :: "nat \<Rightarrow> nat" where "child2 n = n * 2 + 2"
definition parent :: "nat \<Rightarrow> nat" where "parent n = (n - 1) div 2"

definition heap_swap :: "nat \<Rightarrow> nat \<Rightarrow> 'a list \<Rightarrow> 'a list" where
  "heap_swap a b body = body[a := body ! b, b := body ! a]"

function heapify_down :: "('a \<Rightarrow> 'a \<Rightarrow> bool) \<Rightarrow> nat \<Rightarrow> nat \<Rightarrow> 'a list \<Rightarrow> 'a list" where
  "heapify_down lt len j body =
     (if len \<le> child2 j then
        (if child1 j < len \<and> lt (body ! child1 j) (body ! j) then heap_swap (child1 j) j body else body)
      else
        let ch1 = child1 j; ch2 = child2 j;
            min_ch = (if lt (body ! ch1) (body ! ch2) then ch1 else ch2)
        in if lt (body ! min_ch) (body ! j)
           then heapify_down lt len min_ch (heap_swap min_ch j body)
           else body)"
  by pat_completeness auto
termination
  by (relation "measure (\<lambda>(lt, len, j, body). len - j)") (auto simp: child1_def child2_def)

declare heapify_down.simps [simp del]

fun heapify_from :: "('a \<Rightarrow> 'a \<Rightarrow> bool) \<Rightarrow> nat \<Rightarrow> nat \<Rightarrow> 'a list \<Rightarrow> 'a list" where
  "heapify_from lt len 0 body = heapify_down lt len 0 body"
| "heapify_from lt len (Suc i) body = heapify_from lt len i (heapify_down lt len (Suc i) body)"

definition heapify :: "('a \<Rightarrow> 'a \<Rightarrow> bool) \<Rightarrow> nat \<Rightarrow> 'a list \<Rightarrow> 'a list" where
  "heapify lt len body = (if len \<le> 1 then body else heapify_from lt len (parent (len - 1)) body)"

function heap_push_loop :: "('a \<Rightarrow> 'a \<Rightarrow> bool) \<Rightarrow> 'a \<Rightarrow> nat \<Rightarrow> 'a list \<Rightarrow> nat \<times> 'a list" where
  "heap_push_loop lt new_elem new_pos body =
     (if new_pos \<noteq> 0 \<and> lt new_elem (body ! parent new_pos)
      then heap_push_loop lt new_elem (parent new_pos) (body[new_pos := body ! parent new_pos])
      else (new_pos, body))"
  by pat_completeness auto
termination
  by (relation "measure (\<lambda>(lt, new_elem, new_pos, body). new_pos)") (auto simp: parent_def)

declare heap_push_loop.simps [simp del]

definition heap_push :: "('a \<Rightarrow> 'a \<Rightarrow> bool) \<Rightarrow> nat \<Rightarrow> 'a \<Rightarrow> 'a list \<Rightarrow> 'a list" where
  "heap_push lt len new_elem body =
     (let (new_pos, body) = heap_push_loop lt new_elem len body in body[new_pos := new_elem])"

function heap_pop_loop :: "('a \<Rightarrow> 'a \<Rightarrow> bool) \<Rightarrow> nat \<Rightarrow> nat \<Rightarrow> 'a list \<Rightarrow> nat \<times> 'a list" where
  "heap_pop_loop lt n_items par body =
     (let child = child1 par
      in if n_items \<le> child then (par, body)
         else
           let child = (if child + 1 < n_items \<and> lt (body ! (child + 1)) (body ! child)
                        then child + 1 else child)
           in if lt (body ! n_items) (body ! child) then (par, body)
              else heap_pop_loop lt n_items child (body[par := body ! child]))"
  by pat_completeness auto
termination
  by (relation "measure (\<lambda>(lt, n_items, par, body). n_items - par)") (auto simp: child1_def)

declare heap_pop_loop.simps [simp del]

definition heap_pop :: "('a \<Rightarrow> 'a \<Rightarrow> bool) \<Rightarrow> nat \<Rightarrow> 'a list \<Rightarrow> 'a \<times> 'a list" where
  "heap_pop lt len body =
     (let ret = body ! 0; n_items = len - 1
      in if n_items \<noteq> 0 then
           let (par, body) = heap_pop_loop lt n_items 0 body
           in (ret, body[par := body ! n_items])
         else (ret, body))"

subsection \<open>Comparisons\<close>

locale strict_weak_order =
  fixes lt :: "'a \<Rightarrow> 'a \<Rightarrow> bool"
  assumes lt_asym: "lt a b \<Longrightarrow> \<not> lt b a"
    and not_lt_trans: "\<not> lt b a \<Longrightarrow> \<not> lt c b \<Longrightarrow> \<not> lt c a"
begin

lemma lt_irrefl: "\<not> lt a a"
  using lt_asym by blast

lemma lt_trans: "lt a b \<Longrightarrow> lt b c \<Longrightarrow> lt a c"
  using lt_asym not_lt_trans by blast

lemma reversed: "strict_weak_order (\<lambda>a b. lt b a)"
  by unfold_locales (use lt_asym not_lt_trans in blast)+

end

subsection \<open>The heap property\<close>

definition heap_child :: "nat \<Rightarrow> nat \<Rightarrow> bool" where
  "heap_child n c \<longleftrightarrow> c = child1 n \<or> c = child2 n"

definition heap_from :: "('a \<Rightarrow> 'a \<Rightarrow> bool) \<Rightarrow> nat \<Rightarrow> nat \<Rightarrow> 'a list \<Rightarrow> bool" where
  "heap_from lt k len v \<longleftrightarrow>
     (\<forall>n c. k \<le> n \<longrightarrow> heap_child n c \<longrightarrow> c < len \<longrightarrow> \<not> lt (v ! c) (v ! n))"

definition is_heap :: "('a \<Rightarrow> 'a \<Rightarrow> bool) \<Rightarrow> nat \<Rightarrow> 'a list \<Rightarrow> bool" where
  "is_heap lt len v = heap_from lt 0 len v"

text \<open>A heap but for the children of \<open>j\<close>, and a heap but for the parent of \<open>j\<close>.\<close>

definition sinking :: "('a \<Rightarrow> 'a \<Rightarrow> bool) \<Rightarrow> nat \<Rightarrow> nat \<Rightarrow> nat \<Rightarrow> 'a list \<Rightarrow> bool" where
  "sinking lt k len j v \<longleftrightarrow>
     (\<forall>n c. k \<le> n \<longrightarrow> heap_child n c \<longrightarrow> c < len \<longrightarrow> n \<noteq> j \<longrightarrow> \<not> lt (v ! c) (v ! n)) \<and>
     (\<forall>p c. k \<le> p \<longrightarrow> heap_child p j \<longrightarrow> heap_child j c \<longrightarrow> c < len \<longrightarrow> \<not> lt (v ! c) (v ! p))"

definition rising :: "('a \<Rightarrow> 'a \<Rightarrow> bool) \<Rightarrow> nat \<Rightarrow> nat \<Rightarrow> 'a list \<Rightarrow> bool" where
  "rising lt len j v \<longleftrightarrow>
     (\<forall>n c. heap_child n c \<longrightarrow> c < len \<longrightarrow> c \<noteq> j \<longrightarrow> \<not> lt (v ! c) (v ! n)) \<and>
     (\<forall>p c. heap_child p j \<longrightarrow> heap_child j c \<longrightarrow> c < len \<longrightarrow> \<not> lt (v ! c) (v ! p))"

lemma heap_child_less: "heap_child n c \<Longrightarrow> n < c"
  by (auto simp: heap_child_def child1_def child2_def)

lemma heap_child_unique: "heap_child n c \<Longrightarrow> heap_child m c \<Longrightarrow> n = m"
  unfolding heap_child_def child1_def child2_def by presburger

lemma heap_child_parent: "c \<noteq> 0 \<Longrightarrow> heap_child n c \<longleftrightarrow> n = parent c"
  unfolding heap_child_def child1_def child2_def parent_def by presburger

lemma length_heap_swap [simp]: "length (heap_swap a b v) = length v"
  by (simp add: heap_swap_def)

lemma nth_heap_swap:
  "a < length v \<Longrightarrow> b < length v \<Longrightarrow>
    heap_swap a b v ! i = (if i = b then v ! a else if i = a then v ! b else v ! i)"
  by (simp add: heap_swap_def nth_list_update)

lemma mset_heap_swap: "a < length v \<Longrightarrow> b < length v \<Longrightarrow> mset (heap_swap a b v) = mset v"
  unfolding heap_swap_def by (rule mset_swap)

lemma heapify_down_above:
  "len \<le> i \<Longrightarrow> heapify_down lt len j v ! i = v ! i"
proof (induction lt len j v rule: heapify_down.induct)
  case (1 lt len j v)
  then show ?case
    by (subst heapify_down.simps) (auto simp: Let_def heap_swap_def child1_def child2_def)
qed

lemma heapify_from_above: "len \<le> i \<Longrightarrow> heapify_from lt len k v ! i = v ! i"
  by (induction lt len k v rule: heapify_from.induct) (simp_all add: heapify_down_above)

lemma heapify_above: "len \<le> i \<Longrightarrow> heapify lt len v ! i = v ! i"
  by (simp add: heapify_def heapify_from_above)

context strict_weak_order
begin

lemma sink_step:
  assumes s: "sinking lt k len j v" and kj: "k \<le> j" and len: "len \<le> length v"
    and c: "heap_child j c" "c < len" and down: "\<not> lt (v ! j) (v ! c)"
    and least: "\<And>d. heap_child j d \<Longrightarrow> d < len \<Longrightarrow> \<not> lt (v ! d) (v ! c)"
  shows "sinking lt k len c (heap_swap c j v)"
proof -
  have jc: "j < c" "c < length v" "j < length v" using heap_child_less [OF c(1)] c(2) len by simp_all
  note sw = nth_heap_swap [OF jc(2,3)]
  have s1: "\<not> lt (v ! d) (v ! n)" if "k \<le> n" "heap_child n d" "d < len" "n \<noteq> j" for n d
    using s that unfolding sinking_def by blast
  have s2: "\<not> lt (v ! d) (v ! p)" if "k \<le> p" "heap_child p j" "heap_child j d" "d < len" for p d
    using s that unfolding sinking_def by blast
  show ?thesis
    unfolding sinking_def
  proof (intro conjI allI impI)
    fix n d assume n: "k \<le> n" "heap_child n d" "d < len" "n \<noteq> c"
    show "\<not> lt (heap_swap c j v ! d) (heap_swap c j v ! n)"
    proof (cases "n = j")
      case True
      then have "d \<noteq> j" using n(2) heap_child_less by blast
      then show ?thesis using True n jc least down by (auto simp: sw)
    next
      case nj: False
      show ?thesis
      proof (cases "d = j")
        case True
        then show ?thesis using n nj s2 [OF n(1) _ c] by (simp add: sw)
      next
        case False
        have "d \<noteq> c" using n(2) nj c(1) heap_child_unique by blast
        then show ?thesis using False n nj s1 by (simp add: sw)
      qed
    qed
  next
    fix p d assume p: "k \<le> p" "heap_child p c" "heap_child c d" "d < len"
    have "p = j" using p(2) c(1) heap_child_unique by blast
    moreover have "d \<noteq> j" "d \<noteq> c" using heap_child_less [OF p(3)] jc by auto
    ultimately show "\<not> lt (heap_swap c j v ! d) (heap_swap c j v ! p)"
      using s1 [OF _ p(3,4)] kj jc by (simp add: sw)
  qed
qed

lemma sink_stop:
  assumes "sinking lt k len j v" and "\<And>d. heap_child j d \<Longrightarrow> d < len \<Longrightarrow> \<not> lt (v ! d) (v ! j)"
  shows "heap_from lt k len v"
  using assms unfolding sinking_def heap_from_def by metis

lemma heapify_down_ok:
  "sinking lt k len j v \<Longrightarrow> k \<le> j \<Longrightarrow> len \<le> length v \<Longrightarrow>
    heap_from lt k len (heapify_down lt len j v) \<and> mset (heapify_down lt len j v) = mset v"
proof (induction "len - j" arbitrary: j v rule: less_induct)
  case less
  note s = less.prems
  show ?case
  proof (cases "len \<le> child2 j")
    case True
    have one: "d = child1 j" if "heap_child j d" "d < len" for d using that True by (auto simp: heap_child_def)
    show ?thesis
    proof (cases "child1 j < len \<and> lt (v ! child1 j) (v ! j)")
      case swap: True
      let ?v = "heap_swap (child1 j) j v"
      have c: "heap_child j (child1 j)" "child1 j < len" using swap by (simp_all add: heap_child_def)
      have "sinking lt k len (child1 j) ?v"
        by (rule sink_step [OF s c]) (use swap lt_asym one lt_irrefl in blast)+
      moreover have "\<not> d < len" if "heap_child (child1 j) d" for d
        using that True by (auto simp: heap_child_def child1_def child2_def)
      ultimately have "heap_from lt k len ?v" using sink_stop by blast
      moreover have "mset ?v = mset v"
        using s(3) c heap_child_less [OF c(1)] by (simp add: mset_heap_swap)
      ultimately show ?thesis using True swap by (subst (1 2) heapify_down.simps) simp
    next
      case False
      then have "heap_from lt k len v" using sink_stop [OF s(1)] one by blast
      then show ?thesis using True False by (subst (1 2) heapify_down.simps) auto
    qed
  next
    case two: False
    define c where "c = (if lt (v ! child1 j) (v ! child2 j) then child1 j else child2 j)"
    have c: "heap_child j c" "c < len" using two by (auto simp: c_def heap_child_def child1_def child2_def)
    have least: "\<not> lt (v ! d) (v ! c)" if "heap_child j d" "d < len" for d
      using that lt_asym lt_irrefl by (auto simp: c_def heap_child_def)
    have step: "heapify_down lt len j v =
        (if lt (v ! c) (v ! j) then heapify_down lt len c (heap_swap c j v) else v)"
      using two by (subst heapify_down.simps) (simp add: Let_def c_def)
    show ?thesis
    proof (cases "lt (v ! c) (v ! j)")
      case True
      have "sinking lt k len c (heap_swap c j v)"
        by (rule sink_step [OF s c]) (use True lt_asym least in blast)+
      moreover have "len - c < len - j" "k \<le> c" "len \<le> length (heap_swap c j v)"
        using heap_child_less [OF c(1)] c(2) s(2,3) by simp_all
      moreover have "mset (heap_swap c j v) = mset v"
        using s(3) c heap_child_less [OF c(1)] by (simp add: mset_heap_swap)
      ultimately show ?thesis using less.hyps [of c "heap_swap c j v"] True by (simp add: step)
    next
      case False
      have "heap_from lt k len v"
      proof (rule sink_stop [OF s(1)])
        fix d assume "heap_child j d" "d < len"
        then show "\<not> lt (v ! d) (v ! j)" using least False not_lt_trans by blast
      qed
      then show ?thesis using False by (simp add: step)
    qed
  qed
qed

lemma length_heapify_down: "length (heapify_down lt len j v) = length v"
  by (induction lt len j v rule: heapify_down.induct) (subst heapify_down.simps, simp add: Let_def)

lemma heap_from_sinking: "heap_from lt (Suc j) len v \<Longrightarrow> sinking lt j len j v"
  unfolding heap_from_def sinking_def
  using heap_child_less by (metis Suc_leI le_neq_implies_less not_less)

lemma heapify_from_ok:
  "heap_from lt (Suc i) len v \<Longrightarrow> len \<le> length v \<Longrightarrow>
    is_heap lt len (heapify_from lt len i v) \<and> mset (heapify_from lt len i v) = mset v"
proof (induction i arbitrary: v)
  case 0
  then show ?case
    using heapify_down_ok [OF heap_from_sinking [OF 0(1)]] by (simp add: is_heap_def)
next
  case (Suc i)
  then show ?case
    using heapify_down_ok [OF heap_from_sinking [OF Suc.prems(1)]] Suc.IH [of "heapify_down lt len (Suc i) v"]
    by (simp add: length_heapify_down)
qed

lemma heapify_ok:
  assumes "len \<le> length v"
  shows "is_heap lt len (heapify lt len v)" and "mset (heapify lt len v) = mset v"
proof -
  have "is_heap lt len (heapify lt len v) \<and> mset (heapify lt len v) = mset v"
  proof (cases "len \<le> 1")
    case True
    then have "\<not> (heap_child n c \<and> c < len)" for n c using heap_child_less [of n c] by auto
    then show ?thesis using True unfolding heapify_def is_heap_def heap_from_def by auto
  next
    case False
    have "\<not> c < len" if "Suc (parent (len - 1)) \<le> n" "heap_child n c" for n c
    proof -
      have "len - 1 < child1 n" using that(1) False by (auto simp: parent_def child1_def)
      then show ?thesis using that(2) by (auto simp: heap_child_def child1_def child2_def)
    qed
    then have "heap_from lt (Suc (parent (len - 1))) len v" unfolding heap_from_def by blast
    then show ?thesis using heapify_from_ok assms False by (simp add: heapify_def)
  qed
  then show "is_heap lt len (heapify lt len v)" "mset (heapify lt len v) = mset v" by blast+
qed

lemma heap_min:
  assumes "is_heap lt len v" and "n < len"
  shows "\<not> lt (v ! n) (v ! 0)"
  using assms(2)
proof (induction n rule: less_induct)
  case (less n)
  show ?case
  proof (cases "n = 0")
    case True
    then show ?thesis using lt_irrefl by simp
  next
    case False
    then have p: "heap_child (parent n) n" by (simp add: heap_child_parent)
    then have "\<not> lt (v ! n) (v ! parent n)" using assms(1) less.prems by (auto simp: is_heap_def heap_from_def)
    moreover have "\<not> lt (v ! parent n) (v ! 0)" using less heap_child_less [OF p] by simp
    ultimately show ?thesis using not_lt_trans by blast
  qed
qed

subsection \<open>Popping\<close>

lemma heap_swap_hole:
  assumes "child < length body" "par < length body" "child \<noteq> par"
  shows "heap_swap child par (body[par := x]) = (body[par := body ! child])[child := x]"
  using assms by (auto simp: heap_swap_def nth_list_update list_eq_iff_nth_eq)

lemma heap_pop_loop_ok:
  assumes "sinking lt 0 n par (body[par := body ! n])" and "par < n" and "n < length body"
  shows "\<exists>par' body'. heap_pop_loop lt n par body = (par', body') \<and> par' < n \<and> length body' = length body \<and>
    (\<forall>i\<ge>n. body' ! i = body ! i) \<and> heap_from lt 0 n (body'[par' := body ! n]) \<and>
    mset (body'[par' := body ! n]) = mset (body[par := body ! n])"
  using assms
proof (induction "n - par" arbitrary: par body rule: less_induct)
  case less
  let ?x = "body ! n"
  define v where "v = body[par := ?x]"
  have vp: "v ! par = ?x" and vo: "i \<noteq> par \<Longrightarrow> v ! i = body ! i" for i
    using less.prems by (simp_all add: v_def)
  show ?case
  proof (cases "n \<le> child1 par")
    case True
    have "heap_from lt 0 n v"
      by (rule sink_stop [OF less.prems(1) [folded v_def]])
        (use True in \<open>auto simp: heap_child_def child1_def child2_def\<close>)
    then show ?thesis using True less.prems(2) by (subst heap_pop_loop.simps) (simp add: v_def)
  next
    case False
    define c where "c = (if child1 par + 1 < n \<and> lt (body ! (child1 par + 1)) (body ! child1 par)
      then child1 par + 1 else child1 par)"
    have c: "heap_child par c" "c < n" using False by (auto simp: c_def heap_child_def child1_def child2_def)
    have pc: "par < c" using heap_child_less [OF c(1)] .
    have least: "\<not> lt (v ! d) (v ! c)" if "heap_child par d" "d < n" for d
    proof -
      have "d = child1 par \<or> d = child1 par + 1" using that(1) by (auto simp: heap_child_def child1_def child2_def)
      moreover have "d \<noteq> par" "c \<noteq> par" using heap_child_less [OF that(1)] pc by auto
      ultimately show ?thesis using that(2) lt_asym lt_irrefl by (auto simp: vo c_def)
    qed
    have step: "heap_pop_loop lt n par body =
        (if lt ?x (body ! c) then (par, body) else heap_pop_loop lt n c (body[par := body ! c]))"
      using False by (subst heap_pop_loop.simps) (simp add: Let_def c_def)
    show ?thesis
    proof (cases "lt ?x (body ! c)")
      case True
      have "heap_from lt 0 n v"
      proof (rule sink_stop [OF less.prems(1) [folded v_def]])
        fix d assume "heap_child par d" "d < n"
        then have "\<not> lt (v ! d) (v ! c)" by (rule least)
        moreover have "\<not> lt (v ! c) (v ! par)" using True lt_asym pc by (simp add: vp vo)
        ultimately show "\<not> lt (v ! d) (v ! par)" using not_lt_trans by blast
      qed
      then show ?thesis using True step less.prems(2) by (simp add: v_def)
    next
      case False
      let ?b = "body[par := body ! c]"
      have bn: "?b ! n = ?x" using less.prems(2) by simp
      have sw: "heap_swap c par v = ?b[c := ?x]"
        unfolding v_def using less.prems(2,3) c(2) pc by (intro heap_swap_hole) simp_all
      have "sinking lt 0 n c (heap_swap c par v)"
        by (rule sink_step [OF less.prems(1) [folded v_def] _ _ c])
          (use less.prems least False pc in \<open>simp_all add: vp vo v_def\<close>)
      then have "sinking lt 0 n c (?b[c := ?b ! n])" by (simp add: sw bn)
      moreover have "n - c < n - par" using pc c(2) by linarith
      moreover have "n < length ?b" using less.prems(3) by simp
      ultimately obtain par' body' where r:
        "heap_pop_loop lt n c ?b = (par', body')" "par' < n" "length body' = length body"
        "\<forall>i\<ge>n. body' ! i = ?b ! i" "heap_from lt 0 n (body'[par' := ?x])"
        "mset (body'[par' := ?x]) = mset (?b[c := ?x])"
        using less.hyps [of c ?b] c(2) unfolding bn by (metis length_list_update)
      have "mset (?b[c := ?x]) = mset v"
        using mset_heap_swap [of c v par] sw less.prems(2,3) c(2) by (simp add: v_def)
      then show ?thesis using r False step less.prems(2) by (auto simp: v_def)
    qed
  qed
qed

lemma heap_pop_ok:
  assumes heap: "is_heap lt len body" and len: "0 < len" "len \<le> length body"
  shows "\<exists>body'. heap_pop lt len body = (body ! 0, body') \<and> length body' = length body \<and>
    (\<forall>i\<ge>len. body' ! i = body ! i) \<and> is_heap lt (len - 1) body' \<and>
    mset (body'[len - 1 := body ! 0]) = mset body"
proof (cases "len = 1")
  case True
  then have "is_heap lt (len - 1) body" by (simp add: is_heap_def heap_from_def)
  then show ?thesis using True by (simp add: heap_pop_def)
next
  case False
  define n where "n = len - 1"
  have n: "0 < n" "n < length body" "len = Suc n" using False len by (simp_all add: n_def)
  have sink: "sinking lt 0 n 0 (body[0 := body ! n])"
    unfolding sinking_def
  proof (intro conjI allI impI)
    fix m c assume "heap_child m c" "c < n" "m \<noteq> 0"
    moreover have "\<not> lt (body ! c) (body ! m)" if "heap_child m c" "c < n" for m c
      using heap that n by (simp add: is_heap_def heap_from_def)
    ultimately show "\<not> lt (body[0 := body ! n] ! c) (body[0 := body ! n] ! m)"
      using heap_child_less [of m c] by simp
  next
    fix m c assume "heap_child m 0"
    then show "\<not> lt (body[0 := body ! n] ! c) (body[0 := body ! n] ! m)" using heap_child_less by blast
  qed
  obtain p b where r: "heap_pop_loop lt n 0 body = (p, b)" "p < n" "length b = length body"
    "\<forall>i\<ge>n. b ! i = body ! i" "heap_from lt 0 n (b[p := body ! n])"
    "mset (b[p := body ! n]) = mset (body[0 := body ! n])"
    using heap_pop_loop_ok [OF sink n(1,2)] by blast
  let ?b = "b[p := body ! n]"
  have pop: "heap_pop lt len body = (body ! 0, ?b)" using r n by (simp add: heap_pop_def Let_def)
  have ne: "body \<noteq> []" using n(2) by (metis list.size(3) not_less0)
  have "mset (?b[n := body ! 0]) = mset body"
  proof -
    have "mset (?b[n := body ! 0]) = add_mset (body ! 0) (mset ?b - {#body ! n#})"
      using n r(2,3,4) by (subst mset_update) simp_all
    also have "\<dots> = add_mset (body ! 0) (mset (body[0 := body ! n]) - {#body ! n#})" by (simp only: r(6))
    also have "\<dots> = add_mset (body ! 0) (mset body - {#body ! 0#})"
      using n ne by (subst mset_update) simp_all
    also have "\<dots> = mset body" using ne by simp
    finally show ?thesis .
  qed
  then show ?thesis using pop r n by (auto simp: is_heap_def)
qed

subsection \<open>Pushing\<close>

lemma rise_step:
  assumes s: "rising lt len j v" and j: "j \<noteq> 0" "j < len" "len \<le> length v" and up: "lt (v ! j) (v ! parent j)"
  shows "rising lt len (parent j) (heap_swap (parent j) j v)"
proof -
  define p where "p = parent j"
  have pj: "heap_child p j" using j by (simp add: heap_child_parent p_def)
  have ltn: "p < j" "p < length v" "j < length v" using heap_child_less [OF pj] j by simp_all
  note sw = nth_heap_swap [OF ltn(2,3)]
  have s1: "\<not> lt (v ! c) (v ! n)" if "heap_child n c" "c < len" "c \<noteq> j" for n c
    using s that unfolding rising_def by blast
  have s2: "\<not> lt (v ! c) (v ! p)" if "heap_child j c" "c < len" for c
    using s that pj unfolding rising_def by blast
  have "rising lt len p (heap_swap p j v)"
    unfolding rising_def
  proof (intro conjI allI impI)
    fix n c assume n: "heap_child n c" "c < len" "c \<noteq> p"
    show "\<not> lt (heap_swap p j v ! c) (heap_swap p j v ! n)"
    proof (cases "c = j")
      case True
      then have "n = p" using n(1) pj heap_child_unique by blast
      then show ?thesis using True up [folded p_def] ltn lt_asym by (simp add: sw)
    next
      case cj: False
      show ?thesis
      proof (cases "n = j")
        case True
        then show ?thesis using n cj s2 by (simp add: sw)
      next
        case nj: False
        show ?thesis
        proof (cases "n = p")
          case True
          have "\<not> lt (v ! c) (v ! p)" using s1 n cj True by blast
          then have "\<not> lt (v ! c) (v ! j)" using up lt_trans by (auto simp: p_def)
          then show ?thesis using True n cj ltn by (simp add: sw)
        next
          case False
          then show ?thesis using n cj nj s1 by (simp add: sw)
        qed
      qed
    qed
  next
    fix pp c assume pp: "heap_child pp p" "heap_child p c" "c < len"
    have ne: "pp \<noteq> p" "pp \<noteq> j" "c \<noteq> p" using heap_child_less [OF pp(1)] heap_child_less [OF pp(2)] ltn(1) by simp_all
    have up': "\<not> lt (v ! p) (v ! pp)" using s1 [OF pp(1)] ltn j by simp
    show "\<not> lt (heap_swap p j v ! c) (heap_swap p j v ! pp)"
    proof (cases "c = j")
      case True
      then show ?thesis using up' ne by (simp add: sw)
    next
      case False
      then have "\<not> lt (v ! c) (v ! p)" using s1 pp(2,3) by blast
      then show ?thesis using up' ne False not_lt_trans by (simp add: sw)
    qed
  qed
  then show ?thesis by (simp add: p_def)
qed

lemma heap_push_loop_ok:
  assumes "rising lt len pos (body[pos := e])" and "pos < len" and "len \<le> length body"
  shows "\<exists>pos' body'. heap_push_loop lt e pos body = (pos', body') \<and> pos' < len \<and> length body' = length body \<and>
    (\<forall>i\<ge>len. body' ! i = body ! i) \<and> is_heap lt len (body'[pos' := e]) \<and>
    mset (body'[pos' := e]) = mset (body[pos := e])"
  using assms
proof (induction pos arbitrary: body rule: less_induct)
  case (less pos)
  define v where "v = body[pos := e]"
  have vp: "v ! pos = e" using less.prems by (simp add: v_def)
  show ?case
  proof (cases "pos \<noteq> 0 \<and> lt e (body ! parent pos)")
    case True
    let ?p = "parent pos" and ?b = "body[pos := body ! parent pos]"
    have pl: "?p < pos" using True heap_child_less heap_child_parent by blast
    have vo: "v ! ?p = body ! ?p" using pl by (simp add: v_def)
    have sw: "heap_swap ?p pos v = ?b[?p := e]"
      unfolding v_def using less.prems(2,3) pl by (intro heap_swap_hole) simp_all
    have "rising lt len ?p (heap_swap ?p pos v)"
      by (rule rise_step) (use less.prems True vp vo in \<open>simp_all add: v_def\<close>)
    then have "rising lt len ?p (?b[?p := e])" by (simp add: sw)
    from less.IH [OF pl this] obtain pos' body' where r:
      "heap_push_loop lt e ?p ?b = (pos', body')" "pos' < len" "length body' = length body"
      "\<forall>i\<ge>len. body' ! i = ?b ! i" "is_heap lt len (body'[pos' := e])"
      "mset (body'[pos' := e]) = mset (?b[?p := e])"
      using less.prems(2,3) pl by auto
    have "mset (?b[?p := e]) = mset v"
      using mset_heap_swap [of ?p v pos] sw less.prems(2,3) pl by (simp add: v_def)
    moreover have "heap_push_loop lt e pos body = heap_push_loop lt e ?p ?b"
      using True by (subst heap_push_loop.simps) simp
    ultimately show ?thesis using r less.prems(2) by (auto simp: v_def)
  next
    case False
    have "heap_from lt 0 len v"
      unfolding heap_from_def
    proof (intro allI impI)
      fix n c assume n: "heap_child n c" "c < len"
      show "\<not> lt (v ! c) (v ! n)"
      proof (cases "c = pos")
        case True
        have "pos \<noteq> 0" using heap_child_less [OF n(1)] True by simp
        then have "n = parent pos" using n(1) True heap_child_parent by blast
        moreover have "n \<noteq> pos" using heap_child_less [OF n(1)] True by simp
        ultimately show ?thesis using True False vp \<open>pos \<noteq> 0\<close> by (simp add: v_def)
      next
        case False
        then show ?thesis using less.prems(1) n unfolding rising_def v_def by blast
      qed
    qed
    then show ?thesis using False less.prems(2)
      by (subst heap_push_loop.simps) (auto simp: v_def is_heap_def)
  qed
qed

lemma heap_push_ok:
  assumes heap: "is_heap lt len body" and room: "len < length body"
  shows "is_heap lt (len + 1) (heap_push lt len e body)" "length (heap_push lt len e body) = length body"
    "mset (heap_push lt len e body) = mset (body[len := e])"
    "\<forall>i>len. heap_push lt len e body ! i = body ! i"
proof -
  have "rising lt (len + 1) len (body[len := e])"
    unfolding rising_def
  proof (intro conjI allI impI)
    fix n c assume n: "heap_child n c" "c < len + 1" "c \<noteq> len"
    then show "\<not> lt (body[len := e] ! c) (body[len := e] ! n)"
      using heap heap_child_less [OF n(1)] by (simp add: is_heap_def heap_from_def)
  next
    fix p c assume "heap_child len c" "c < len + 1"
    then show "\<not> lt (body[len := e] ! c) (body[len := e] ! p)" using heap_child_less by fastforce
  qed
  from heap_push_loop_ok [OF this] room obtain p b where
    "heap_push_loop lt e len body = (p, b)" "p < len + 1" "length b = length body"
    "\<forall>i\<ge>len + 1. b ! i = body ! i" "is_heap lt (len + 1) (b[p := e])" "mset (b[p := e]) = mset (body[len := e])"
    by auto
  then show "is_heap lt (len + 1) (heap_push lt len e body)" "length (heap_push lt len e body) = length body"
    "mset (heap_push lt len e body) = mset (body[len := e])"
    "\<forall>i>len. heap_push lt len e body ! i = body ! i"
    by (simp_all add: heap_push_def)
qed

end

lemma mset_take_cancel:
  assumes "mset xs = mset ys" and "length xs = length ys" and "\<And>i. k \<le> i \<Longrightarrow> i < length ys \<Longrightarrow> xs ! i = ys ! i"
  shows "mset (take k xs) = mset (take k ys)"
proof -
  have "drop k xs = drop k ys" using assms(2,3) by (intro nth_equalityI) auto
  moreover have "mset (take k xs) + mset (drop k xs) = mset (take k ys) + mset (drop k ys)"
    using assms(1) by (metis append_take_drop_id mset_append)
  ultimately show ?thesis by simp
qed

end
