(* ===== verification/Prioqueue.thy ===== *)
theory Prioqueue
  imports Heap
begin

text \<open>
  \<^verbatim>\<open>arlib/prioqueue.h\<close>: the priority queue over the heap functions. The storage is a list of the
  allocated size; \<open>junk\<close> is what freshly allocated memory happens to contain, and \<open>small\<close> says
  whether \<^verbatim>\<open>sizeof(T) <= 16\<close>.
\<close>

subsection \<open>Operations\<close>

definition capacity_for :: "bool \<Rightarrow> nat \<Rightarrow> nat" where
  "capacity_for small n = (let mn = (if small then 8 else 4) in if n < mn then mn else bitround n)"

definition realloc :: "'a \<Rightarrow> nat \<Rightarrow> 'a list \<Rightarrow> 'a list" where
  "realloc junk n xs = take n xs @ replicate (n - length xs) junk"

record 'a prioqueue =
  pq_items :: "'a list"
  pq_count :: nat

definition pq_new :: "bool \<Rightarrow> 'a \<Rightarrow> 'a prioqueue" where
  "pq_new small junk = \<lparr>pq_items = replicate (capacity_for small 0) junk, pq_count = 0\<rparr>"

definition pq_init_from :: "bool \<Rightarrow> 'a \<Rightarrow> ('a \<Rightarrow> 'a \<Rightarrow> bool) \<Rightarrow> 'a list \<Rightarrow> 'a prioqueue" where
  "pq_init_from small junk lt src =
     (let count = length src; items = realloc junk (capacity_for small count) src
      in \<lparr>pq_items = heapify lt count items, pq_count = count\<rparr>)"

definition pq_push :: "bool \<Rightarrow> 'a \<Rightarrow> ('a \<Rightarrow> 'a \<Rightarrow> bool) \<Rightarrow> 'a \<Rightarrow> 'a prioqueue \<Rightarrow> 'a prioqueue" where
  "pq_push small junk lt item q =
     (let items = (if pq_count q = capacity_for small (pq_count q)
                   then realloc junk (capacity_for small (pq_count q + 1)) (pq_items q)
                   else pq_items q)
      in \<lparr>pq_items = heap_push lt (pq_count q) item items, pq_count = pq_count q + 1\<rparr>)"

definition pq_pop :: "('a \<Rightarrow> 'a \<Rightarrow> bool) \<Rightarrow> 'a prioqueue \<Rightarrow> ('a \<times> 'a prioqueue) option" where
  "pq_pop lt q =
     (if pq_count q = 0 then None
      else let (ret, items) = heap_pop lt (pq_count q) (pq_items q)
           in Some (ret, \<lparr>pq_items = items, pq_count = pq_count q - 1\<rparr>))"

definition pq_size :: "'a prioqueue \<Rightarrow> nat" where "pq_size q = pq_count q"

text \<open>The comparison used when the caller passes none.\<close>

definition default_less :: "'a::linorder \<Rightarrow> 'a \<Rightarrow> bool" where
  "default_less a b = (a < b)"

interpretation default: strict_weak_order default_less
  by unfold_locales (auto simp: default_less_def)

subsection \<open>Invariant and abstraction\<close>

definition pq_inv :: "bool \<Rightarrow> ('a \<Rightarrow> 'a \<Rightarrow> bool) \<Rightarrow> 'a prioqueue \<Rightarrow> bool" where
  "pq_inv small lt q \<longleftrightarrow> is_heap lt (pq_count q) (pq_items q) \<and>
     capacity_for small (pq_count q) \<le> length (pq_items q)"

definition pq_bag :: "'a prioqueue \<Rightarrow> 'a multiset" where
  "pq_bag q = mset (take (pq_count q) (pq_items q))"

lemma is_heap_cong:
  "(\<And>i. i < len \<Longrightarrow> v ! i = w ! i) \<Longrightarrow> is_heap lt len v = is_heap lt len w"
  unfolding is_heap_def heap_from_def using heap_child_less by (metis order_less_trans)

lemma capacity_for_ge: "n \<le> capacity_for small n"
  by (auto simp: capacity_for_def Let_def bitround_ge)

lemma capacity_for_mono: "m \<le> n \<Longrightarrow> capacity_for small m \<le> capacity_for small n"
proof -
  have "bitround m \<le> bitround n" if "m \<le> n"
    using bitround_power [of n] bitround_ge [of n] bitround_least [of m] that by (metis order_trans)
  moreover have "x \<le> bitround n" if "x \<le> n" for x using bitround_ge [of n] that by linarith
  ultimately show "m \<le> n \<Longrightarrow> ?thesis" by (simp add: capacity_for_def Let_def)
qed

lemma capacity_for_next:
  assumes "n \<noteq> capacity_for small n"
  shows "capacity_for small (n + 1) = capacity_for small n"
proof -
  obtain k where "bitround n = 2 ^ k" using bitround_power by blast
  moreover have "n < bitround n" if "n \<noteq> bitround n" using bitround_ge [of n] that by linarith
  ultimately have round: "bitround (n + 1) \<le> bitround n" if "n \<noteq> bitround n"
    using bitround_least [of "n + 1" k] that by simp
  obtain m where "bitround (n + 1) = 2 ^ m" using bitround_power by blast
  then have "bitround n \<le> bitround (n + 1)"
    using bitround_least [of n m] bitround_ge [of "n + 1"] by simp
  moreover have "bitround (Suc n) = 8" if "n < 8" "\<not> n < 7"
  proof -
    have "Suc n = 8" using that by simp
    moreover have "bitround 8 = 8" by code_simp
    ultimately show ?thesis by metis
  qed
  moreover have "bitround (Suc n) = 4" if "n < 4" "\<not> n < 3"
  proof -
    have "Suc n = 4" using that by simp
    moreover have "bitround 4 = 4" by code_simp
    ultimately show ?thesis by metis
  qed
  ultimately show ?thesis using assms round by (auto simp: capacity_for_def Let_def split: if_splits)
qed

lemma realloc_props:
  assumes "length xs \<le> n"
  shows "length (realloc junk n xs) = n" and "i < length xs \<Longrightarrow> realloc junk n xs ! i = xs ! i"
    and "take (length xs) (realloc junk n xs) = xs"
  using assms by (auto simp: realloc_def nth_append)

lemma take_realloc:
  "k \<le> n \<Longrightarrow> k \<le> length xs \<Longrightarrow> take k (realloc junk n xs) = take k xs \<and> n \<le> length (realloc junk n xs)"
  by (simp add: realloc_def)

subsection \<open>The operations on the bag\<close>

context strict_weak_order
begin

lemma pq_new_ok: "pq_inv small lt (pq_new small junk)" "pq_bag (pq_new small junk) = {#}"
  by (simp_all add: pq_inv_def pq_new_def pq_bag_def is_heap_def heap_from_def)

lemma pq_init_ok: "pq_inv small lt (pq_init_from small junk lt src)" "pq_bag (pq_init_from small junk lt src) = mset src"
proof -
  let ?n = "length src" and ?c = "capacity_for small (length src)"
  let ?items = "realloc junk ?c src"
  have len: "length ?items = ?c" "?n \<le> ?c" by (simp_all add: realloc_props capacity_for_ge)
  have h: "is_heap lt ?n (heapify lt ?n ?items)" "mset (heapify lt ?n ?items) = mset ?items"
    using heapify_ok [of ?n ?items] len by simp_all
  have lh: "length (heapify lt ?n ?items) = ?c" using h(2) len(1) by (metis size_mset)
  show "pq_inv small lt (pq_init_from small junk lt src)"
    using h(1) lh by (simp add: pq_inv_def pq_init_from_def Let_def)
  have "mset (take ?n (heapify lt ?n ?items)) = mset (take ?n ?items)"
    by (rule mset_take_cancel) (use h(2) lh len heapify_above in \<open>simp_all\<close>)
  then show "pq_bag (pq_init_from small junk lt src) = mset src"
    by (simp add: pq_bag_def pq_init_from_def Let_def realloc_props capacity_for_ge)
qed

lemma pq_push_ok:
  assumes inv: "pq_inv small lt q"
  shows "pq_inv small lt (pq_push small junk lt e q)" "pq_bag (pq_push small junk lt e q) = add_mset e (pq_bag q)"
proof -
  let ?n = "pq_count q"
  define items where "items = (if ?n = capacity_for small ?n
    then realloc junk (capacity_for small (?n + 1)) (pq_items q) else pq_items q)"
  have heap: "is_heap lt ?n (pq_items q)" and cap: "capacity_for small ?n \<le> length (pq_items q)"
    using inv by (simp_all add: pq_inv_def)
  have le: "?n \<le> length (pq_items q)" using cap capacity_for_ge [of ?n small] by linarith
  have take: "take ?n items = take ?n (pq_items q)" and long: "capacity_for small (?n + 1) \<le> length items"
  proof -
    have "?n \<le> capacity_for small (?n + 1)" using capacity_for_ge [of "?n + 1" small] by simp
    note r = take_realloc [OF this le, of junk]
    show "take ?n items = take ?n (pq_items q)" using r by (simp add: items_def)
    have "capacity_for small (?n + 1) = capacity_for small ?n" if "?n \<noteq> capacity_for small ?n"
      using that capacity_for_next by blast
    then show "capacity_for small (?n + 1) \<le> length items" using r cap by (auto simp: items_def)
  qed
  have room: "?n < length items" using long capacity_for_ge [of "?n + 1" small] by simp
  have heap': "is_heap lt ?n items"
    using heap is_heap_cong [of ?n items "pq_items q" lt] take le room
    by (metis nth_take)
  note p = heap_push_ok [OF heap' room, of e]
  have push: "pq_push small junk lt e q = \<lparr>pq_items = heap_push lt ?n e items, pq_count = ?n + 1\<rparr>"
    by (simp add: pq_push_def items_def)
  show "pq_inv small lt (pq_push small junk lt e q)" using p(1,2) long by (simp add: pq_inv_def push)
  have "mset (take (?n + 1) (heap_push lt ?n e items)) = mset (take (?n + 1) (items[?n := e]))"
    by (rule mset_take_cancel) (use p(2,3,4) in simp_all)
  also have "take (?n + 1) (items[?n := e]) = take ?n items @ [e]"
    using room by (simp add: take_Suc_conv_app_nth)
  finally show "pq_bag (pq_push small junk lt e q) = add_mset e (pq_bag q)"
    by (simp add: pq_bag_def push take)
qed

lemma pq_pop_ok:
  assumes inv: "pq_inv small lt q" and ne: "pq_count q \<noteq> 0"
  shows "\<exists>x q'. pq_pop lt q = Some (x, q') \<and> pq_inv small lt q' \<and> pq_bag q = add_mset x (pq_bag q') \<and>
    (\<forall>y \<in># pq_bag q. \<not> lt y x)"
proof -
  let ?n = "pq_count q"
  have heap: "is_heap lt ?n (pq_items q)" and cap: "capacity_for small ?n \<le> length (pq_items q)"
    using inv by (simp_all add: pq_inv_def)
  have le: "?n \<le> length (pq_items q)" using cap capacity_for_ge [of ?n small] by linarith
  obtain b where b: "heap_pop lt ?n (pq_items q) = (pq_items q ! 0, b)" "length b = length (pq_items q)"
    "\<forall>i\<ge>?n. b ! i = pq_items q ! i" "is_heap lt (?n - 1) b"
    "mset (b[?n - 1 := pq_items q ! 0]) = mset (pq_items q)"
    using heap_pop_ok [OF heap _ le] ne by blast
  let ?q = "\<lparr>pq_items = b, pq_count = ?n - 1\<rparr>"
  have pop: "pq_pop lt q = Some (pq_items q ! 0, ?q)" using ne b(1) by (simp add: pq_pop_def)
  have "capacity_for small (?n - 1) \<le> length b"
    using capacity_for_mono [of "?n - 1" ?n small] cap b(2) by simp
  then have inv': "pq_inv small lt ?q" using b(4) by (simp add: pq_inv_def)
  have "mset (take ?n (b[?n - 1 := pq_items q ! 0])) = mset (take ?n (pq_items q))"
    by (rule mset_take_cancel) (use b ne in auto)
  moreover have "take ?n (b[?n - 1 := pq_items q ! 0]) = take (?n - 1) b @ [pq_items q ! 0]"
    using ne le b(2) by (cases ?n) (simp_all add: take_Suc_conv_app_nth)
  ultimately have bag: "pq_bag q = add_mset (pq_items q ! 0) (pq_bag ?q)" by (simp add: pq_bag_def)
  have "\<not> lt y (pq_items q ! 0)" if "y \<in># pq_bag q" for y
    using that heap_min [OF heap] by (auto simp: pq_bag_def in_set_conv_nth)
  then show ?thesis using pop inv' bag by blast
qed

end

subsection \<open>Running a sequence of operations\<close>

datatype 'a pq_op = PqPush 'a | PqPop

text \<open>Popping an empty queue is an error of the caller (\<open>None\<close>).\<close>

fun pq_run :: "bool \<Rightarrow> 'a \<Rightarrow> ('a \<Rightarrow> 'a \<Rightarrow> bool) \<Rightarrow> 'a pq_op list \<Rightarrow> 'a prioqueue \<Rightarrow> ('a list \<times> 'a prioqueue) option" where
  "pq_run small junk lt [] q = Some ([], q)"
| "pq_run small junk lt (PqPush e # ops) q = pq_run small junk lt ops (pq_push small junk lt e q)"
| "pq_run small junk lt (PqPop # ops) q =
     (case pq_pop lt q of
        None \<Rightarrow> None
      | Some (x, q1) \<Rightarrow> map_option (apfst (Cons x)) (pq_run small junk lt ops q1))"

text \<open>What a bag may return: any element that nothing in the bag is less than.\<close>

inductive bag_run :: "('a \<Rightarrow> 'a \<Rightarrow> bool) \<Rightarrow> 'a pq_op list \<Rightarrow> 'a multiset \<Rightarrow> 'a list \<Rightarrow> 'a multiset \<Rightarrow> bool"
  for lt where
  bag_done: "bag_run lt [] M [] M"
| bag_push: "bag_run lt ops (add_mset e M) out M' \<Longrightarrow> bag_run lt (PqPush e # ops) M out M'"
| bag_pop: "bag_run lt ops M out M' \<Longrightarrow> \<forall>y \<in># add_mset x M. \<not> lt y x \<Longrightarrow>
    bag_run lt (PqPop # ops) (add_mset x M) (x # out) M'"

inductive_cases bag_popE: "bag_run lt (PqPop # ops) M out M'"

fun pops_ok :: "'a pq_op list \<Rightarrow> nat \<Rightarrow> bool" where
  "pops_ok [] n = True"
| "pops_ok (PqPush e # ops) n = pops_ok ops (n + 1)"
| "pops_ok (PqPop # ops) n = (n \<noteq> 0 \<and> pops_ok ops (n - 1))"

lemma pq_bag_size: "pq_inv small lt q \<Longrightarrow> size (pq_bag q) = pq_count q"
  using capacity_for_ge [of "pq_count q" small] by (simp add: pq_inv_def pq_bag_def)

context strict_weak_order
begin

lemma pq_run_ok:
  "pq_inv small lt q \<Longrightarrow> pops_ok ops (pq_count q) \<Longrightarrow>
    \<exists>out q'. pq_run small junk lt ops q = Some (out, q') \<and> pq_inv small lt q' \<and>
      bag_run lt ops (pq_bag q) out (pq_bag q')"
proof (induction ops arbitrary: q)
  case Nil
  then show ?case by (auto intro: bag_run.intros)
next
  case (Cons op ops)
  show ?case
  proof (cases op)
    case (PqPush e)
    let ?q = "pq_push small junk lt e q"
    have "pq_count ?q = pq_count q + 1" by (simp add: pq_push_def)
    then show ?thesis
      using Cons.IH [OF pq_push_ok(1) [OF Cons.prems(1), of junk e]] Cons.prems PqPush
        pq_push_ok(2) [OF Cons.prems(1), of junk e]
      by (auto intro: bag_run.intros)
  next
    case PqPop
    obtain x q1 where q1: "pq_pop lt q = Some (x, q1)" "pq_inv small lt q1" "pq_bag q = add_mset x (pq_bag q1)"
      "\<forall>y \<in># pq_bag q. \<not> lt y x"
      using pq_pop_ok [OF Cons.prems(1)] Cons.prems(2) PqPop by auto
    have "pq_count q1 = pq_count q - 1"
      using arg_cong [OF q1(3), of size] pq_bag_size [OF q1(2)] pq_bag_size [OF Cons.prems(1)] by simp
    then obtain out q' where "pq_run small junk lt ops q1 = Some (out, q')" "pq_inv small lt q'"
      "bag_run lt ops (pq_bag q1) out (pq_bag q')"
      using Cons.IH [OF q1(2)] Cons.prems(2) PqPop by auto
    moreover have "bag_run lt (PqPop # ops) (add_mset x (pq_bag q1)) (x # out) (pq_bag q')"
      using calculation(3) q1(3,4) by (intro bag_pop) simp_all
    ultimately show ?thesis using q1(1,3) PqPop by simp
  qed
qed

end

subsection \<open>Properties\<close>

text \<open>
  C10. The priority queue is a bag from which the smallest element is taken: started from any
  source array, every sequence of pushes and pops that never pops an empty queue succeeds, and
  every pop removes and returns an element of the current contents that nothing in the queue is
  less than. Nothing is lost or duplicated. Only the order of the elements that compare equal
  is left open.
\<close>

theorem prioqueue_pops_minimum:
  assumes "strict_weak_order lt" and "pops_ok ops (length src)"
  shows "\<exists>out q. pq_run small junk lt ops (pq_init_from small junk lt src) = Some (out, q) \<and>
    bag_run lt ops (mset src) out (pq_bag q) \<and> pq_size q = size (pq_bag q)"
proof -
  note init = strict_weak_order.pq_init_ok [OF assms(1), of small junk src]
  have "pq_count (pq_init_from small junk lt src) = length src" by (simp add: pq_init_from_def Let_def)
  then have "pops_ok ops (pq_count (pq_init_from small junk lt src))" using assms(2) by simp
  from strict_weak_order.pq_run_ok [OF assms(1) init(1) this, of junk] obtain out q where
    "pq_run small junk lt ops (pq_init_from small junk lt src) = Some (out, q)"
    "pq_inv small lt q" "bag_run lt ops (mset src) out (pq_bag q)" by (auto simp: init(2))
  moreover from this(2) have "size (pq_bag q) = pq_count q" by (rule pq_bag_size)
  ultimately show ?thesis by (auto simp: pq_size_def)
qed

theorem prioqueue_pops_minimum_witness:
  "\<exists>out q. pq_run True (0::nat) default_less [PqPop, PqPush 1, PqPop] (pq_init_from True 0 default_less [5, 3]) = Some (out, q) \<and>
    bag_run default_less [PqPop, PqPush 1, PqPop] (mset [5, 3]) out (pq_bag q) \<and> pq_size q = size (pq_bag q)"
  by (rule prioqueue_pops_minimum [OF default.strict_weak_order_axioms]) simp

end
