(* ===== verification/Array_Sort.thy ===== *)
theory Array_Sort
  imports Prioqueue
begin

text \<open>
  The two sorts of \<^verbatim>\<open>arrayvieww\<close> in \<^verbatim>\<open>arlib/array.h\<close>: the unstable heap sort, which leaves an
  array that is sorted already alone, and the stable insertion sort, which looks for the
  insertion point by doubling and then halving a distance.
\<close>

subsection \<open>Heap sort\<close>

text \<open>The first index whose successor is out of order, or the end.\<close>

function sorted_scan :: "('a \<Rightarrow> 'a \<Rightarrow> bool) \<Rightarrow> nat \<Rightarrow> 'a list \<Rightarrow> bool" where
  "sorted_scan lt i items =
     (if length items \<le> i + 1 then True
      else if lt (items ! (i + 1)) (items ! i) then False
      else sorted_scan lt (i + 1) items)"
  by pat_completeness auto
termination by (relation "measure (\<lambda>(lt, i, items). length items - i)") auto

declare sorted_scan.simps [simp del]

fun sort_pops :: "('a \<Rightarrow> 'a \<Rightarrow> bool) \<Rightarrow> nat \<Rightarrow> 'a list \<Rightarrow> 'a list" where
  "sort_pops lt 0 items = items"
| "sort_pops lt (Suc n) items =
     (let (tmp, items) = heap_pop (\<lambda>a b. lt b a) (Suc n) items
      in sort_pops lt n (items[n := tmp]))"

definition sort_items :: "('a \<Rightarrow> 'a \<Rightarrow> bool) \<Rightarrow> 'a list \<Rightarrow> 'a list" where
  "sort_items lt items =
     (if sorted_scan lt 0 items then items
      else sort_pops lt (length items) (heapify (\<lambda>a b. lt b a) (length items) items))"

subsection \<open>Stable sort\<close>

text \<open>
  \<^verbatim>\<open>min\<close> is a \<^verbatim>\<open>size_t\<close> that may have wrapped below zero; a wrapped value is larger than any index,
  so \<open>mn\<close> is an integer here and the comparison \<^verbatim>\<open>min > a\<close> is written \<open>mn < 0 \<or> a < mn\<close>.
\<close>

function ssort_probe_up :: "('a \<Rightarrow> 'a \<Rightarrow> bool) \<Rightarrow> 'a list \<Rightarrow> nat \<Rightarrow> nat \<Rightarrow> nat" where
  "ssort_probe_up lt items a probe =
     (if 0 < probe \<and> probe < a \<and> lt (items ! a) (items ! (a - probe))
      then ssort_probe_up lt items a (probe * 2) else probe)"
  by pat_completeness auto
termination by (relation "measure (\<lambda>(lt, items, a, probe). a - probe)") auto

declare ssort_probe_up.simps [simp del]

fun ssort_probe_down :: "('a \<Rightarrow> 'a \<Rightarrow> bool) \<Rightarrow> 'a list \<Rightarrow> nat \<Rightarrow> int \<Rightarrow> nat \<Rightarrow> int" where
  "ssort_probe_down lt items a mn probe =
     (if probe = 0 then mn
      else
        let mn = (if mn + int probe < 0 \<or> int a < mn + int probe \<or>
                     \<not> lt (items ! a) (items ! nat (mn + int probe))
                  then mn + int probe else mn)
        in ssort_probe_down lt items a mn (probe div 2))"

declare ssort_probe_down.simps [simp del]

definition ssort_position :: "('a \<Rightarrow> 'a \<Rightarrow> bool) \<Rightarrow> 'a list \<Rightarrow> nat \<Rightarrow> nat" where
  "ssort_position lt items a =
     (let probe = ssort_probe_up lt items a 1;
          mn = ssort_probe_down lt items a (int a - int probe) (probe div 2)
      in nat (if mn < 0 \<or> int a < mn \<or> \<not> lt (items ! a) (items ! nat mn) then mn + 1 else mn))"

definition ssort_insert :: "nat \<Rightarrow> nat \<Rightarrow> 'a list \<Rightarrow> 'a list" where
  "ssort_insert a newpos items =
     take newpos items @ [items ! a] @ take (a - newpos) (drop newpos items) @ drop (a + 1) items"

fun ssort_from :: "('a \<Rightarrow> 'a \<Rightarrow> bool) \<Rightarrow> nat \<Rightarrow> nat \<Rightarrow> 'a list \<Rightarrow> 'a list" where
  "ssort_from lt 0 a items = items"
| "ssort_from lt (Suc n) a items =
     ssort_from lt n (a + 1)
       (if \<not> lt (items ! a) (items ! (a - 1)) then items
        else ssort_insert a (ssort_position lt items a) items)"

definition ssort :: "('a \<Rightarrow> 'a \<Rightarrow> bool) \<Rightarrow> 'a list \<Rightarrow> 'a list" where
  "ssort lt items = ssort_from lt (length items - 1) 1 items"

subsection \<open>Sortedness\<close>

definition sorted_by :: "('a \<Rightarrow> 'a \<Rightarrow> bool) \<Rightarrow> 'a list \<Rightarrow> bool" where
  "sorted_by lt xs \<longleftrightarrow> (\<forall>i j. i < j \<longrightarrow> j < length xs \<longrightarrow> \<not> lt (xs ! j) (xs ! i))"

definition equivalent :: "('a \<Rightarrow> 'a \<Rightarrow> bool) \<Rightarrow> 'a \<Rightarrow> 'a \<Rightarrow> bool" where
  "equivalent lt a b \<longleftrightarrow> \<not> lt a b \<and> \<not> lt b a"

text \<open>Inserting before a smaller index moves one element.\<close>

lemma ssort_insert_split:
  assumes "b < a" and "a < length xs"
  shows "xs = take b xs @ take (a - b) (drop b xs) @ [xs ! a] @ drop (a + 1) xs"
proof -
  have "take a xs = take b xs @ take (a - b) (drop b xs)" using assms(1) take_add [of b "a - b" xs] by simp
  then show ?thesis using id_take_nth_drop [OF assms(2)] by simp
qed

lemma ssort_insert_perm:
  assumes "b < a" and "a < length xs"
  shows "mset (ssort_insert a b xs) = mset xs"
  using arg_cong [OF ssort_insert_split [OF assms], of mset] by (simp add: ssort_insert_def)

subsection \<open>Sorting what a function maps into the order\<close>

definition agrees :: "('a \<Rightarrow> 'a \<Rightarrow> bool) \<Rightarrow> ('b \<Rightarrow> 'b \<Rightarrow> bool) \<Rightarrow> ('b \<Rightarrow> 'a) \<Rightarrow> 'b list \<Rightarrow> bool" where
  "agrees lt lt' f xs \<longleftrightarrow> (\<forall>x \<in> set xs. \<forall>y \<in> set xs. lt' x y = lt (f x) (f y))"

lemma agrees_nth: "agrees lt lt' f xs \<Longrightarrow> i < length xs \<Longrightarrow> j < length xs \<Longrightarrow> lt' (xs ! i) (xs ! j) = lt (map f xs ! i) (map f xs ! j)"
  by (simp add: agrees_def)

lemma ssort_probe_up_map:
  "agrees lt lt' f xs \<Longrightarrow> a < length xs \<Longrightarrow> ssort_probe_up lt' xs a probe = ssort_probe_up lt (map f xs) a probe"
proof (induction "a - probe" arbitrary: probe rule: less_induct)
  case less
  have "lt' (xs ! a) (xs ! (a - probe)) = lt (map f xs ! a) (map f xs ! (a - probe))"
    using agrees_nth [OF less.prems(1)] less.prems(2) by simp
  moreover have "ssort_probe_up lt' xs a (probe * 2) = ssort_probe_up lt (map f xs) a (probe * 2)" if "0 < probe" "probe < a"
    using less.hyps [of "probe * 2"] less.prems that by simp
  ultimately show ?case by (subst (1 2) ssort_probe_up.simps) auto
qed

lemma ssort_probe_down_map:
  "agrees lt lt' f xs \<Longrightarrow> a < length xs \<Longrightarrow> ssort_probe_down lt' xs a mn probe = ssort_probe_down lt (map f xs) a mn probe"
proof (induction probe arbitrary: mn rule: less_induct)
  case (less probe)
  have "lt' (xs ! a) (xs ! nat t) = lt (map f xs ! a) (map f xs ! nat t)" if "\<not> (t < 0 \<or> int a < t)" for t
  proof -
    have "nat t < length xs" using that less.prems(2) by linarith
    then show ?thesis using agrees_nth [OF less.prems(1) less.prems(2)] by blast
  qed
  then have test: "(t < 0 \<or> int a < t \<or> \<not> lt' (xs ! a) (xs ! nat t)) = (t < 0 \<or> int a < t \<or> \<not> lt (map f xs ! a) (map f xs ! nat t))" for t
    by blast
  show ?case
    using less.IH [of "probe div 2"] less.prems
    by (subst (1 2) ssort_probe_down.simps) (simp only: test Let_def, simp)
qed

lemma ssort_position_map:
  assumes "agrees lt lt' f xs" and "a < length xs"
  shows "ssort_position lt' xs a = ssort_position lt (map f xs) a"
proof -
  have "lt' (xs ! a) (xs ! nat t) = lt (map f xs ! a) (map f xs ! nat t)" if "\<not> (t < 0 \<or> int a < t)" for t
  proof -
    have "nat t < length xs" using that assms(2) by linarith
    then show ?thesis using agrees_nth [OF assms] by blast
  qed
  then have "(t < 0 \<or> int a < t \<or> \<not> lt' (xs ! a) (xs ! nat t)) = (t < 0 \<or> int a < t \<or> \<not> lt (map f xs ! a) (map f xs ! nat t))" for t
    by blast
  then show ?thesis
    by (simp only: ssort_position_def Let_def ssort_probe_up_map [OF assms] ssort_probe_down_map [OF assms])
qed

lemma ssort_insert_map: "a < length xs \<Longrightarrow> map f (ssort_insert a pos xs) = ssort_insert a pos (map f xs)"
  by (simp add: ssort_insert_def take_map drop_map)

context strict_weak_order
begin

lemma sorted_by_adjacent:
  assumes "\<And>i. i + 1 < length xs \<Longrightarrow> \<not> lt (xs ! (i + 1)) (xs ! i)"
  shows "sorted_by lt xs"
  unfolding sorted_by_def
proof (intro allI impI)
  fix i j assume "i < j" "j < length xs"
  then show "\<not> lt (xs ! j) (xs ! i)"
  proof (induction j)
    case (Suc j)
    then have step: "\<not> lt (xs ! Suc j) (xs ! j)" using assms [of j] by simp
    show ?case
    proof (cases "i = j")
      case False
      then have "\<not> lt (xs ! j) (xs ! i)" using Suc by simp
      then show ?thesis using step not_lt_trans by blast
    qed (use step in simp)
  qed simp
qed

lemma sorted_scan_ok:
  "sorted_scan lt i xs \<Longrightarrow> i \<le> k \<Longrightarrow> k + 1 < length xs \<Longrightarrow> \<not> lt (xs ! (k + 1)) (xs ! k)"
proof (induction "length xs - i" arbitrary: i)
  case 0
  then show ?case by simp
next
  case (Suc n)
  then have "\<not> length xs \<le> i + 1" by simp
  then have "\<not> lt (xs ! (i + 1)) (xs ! i)" "sorted_scan lt (i + 1) xs"
    using Suc.prems(1) by (subst (asm) sorted_scan.simps, simp split: if_splits)+
  then show ?case using Suc.hyps(1) [of "i + 1"] Suc.hyps(2) Suc.prems by (cases "i = k") auto
qed

lemma sort_pops_ok:
  assumes "is_heap (\<lambda>a b. lt b a) n xs" and "n \<le> length xs"
    and "\<And>i j. i < j \<Longrightarrow> n \<le> j \<Longrightarrow> j < length xs \<Longrightarrow> \<not> lt (xs ! j) (xs ! i)"
  shows "sorted_by lt (sort_pops lt n xs) \<and> mset (sort_pops lt n xs) = mset xs"
  using assms
proof (induction n arbitrary: xs)
  case 0
  then show ?case by (simp add: sorted_by_def)
next
  case (Suc n)
  note rev = strict_weak_order.heap_pop_ok [OF reversed] strict_weak_order.heap_min [OF reversed]
  obtain b where b: "heap_pop (\<lambda>a b. lt b a) (Suc n) xs = (xs ! 0, b)" "length b = length xs"
    "\<forall>i\<ge>Suc n. b ! i = xs ! i" "is_heap (\<lambda>a b. lt b a) n b" "mset (b[n := xs ! 0]) = mset xs"
    using rev(1) [OF Suc.prems(1) _ Suc.prems(2)] by auto
  let ?b = "b[n := xs ! 0]"
  have heap: "is_heap (\<lambda>a b. lt b a) n ?b"
    using b(4) unfolding is_heap_def heap_from_def by (metis heap_child_less less_trans nat_neq_iff nth_list_update_neq)
  have tk: "mset (take (Suc n) ?b) = mset (take (Suc n) xs)"
    by (rule mset_take_cancel) (use b in auto)
  have top: "\<not> lt (xs ! 0) (?b ! i)" if "i \<le> n" for i
  proof -
    have "?b ! i \<in> set (take (Suc n) ?b)" using that Suc.prems(2) b(2) by (auto simp: in_set_conv_nth intro!: exI [of _ i])
    then have "?b ! i \<in> set (take (Suc n) xs)" using tk by (metis set_mset_mset)
    then obtain k where "k < Suc n" "?b ! i = xs ! k" by (auto simp: in_set_conv_nth)
    then show ?thesis using rev(2) [OF Suc.prems(1)] by simp
  qed
  have "\<not> lt (?b ! j) (?b ! i)" if ij: "i < j" "n \<le> j" "j < length ?b" for i j
  proof (cases "j = n")
    case True
    then show ?thesis using top [of i] ij b(2) by simp
  next
    case False
    then have jn: "Suc n \<le> j" using ij by simp
    then have bj: "?b ! j = xs ! j" using b(3) by simp
    show ?thesis
    proof (cases "Suc n \<le> i")
      case True
      then show ?thesis using Suc.prems(3) [OF ij(1) jn] ij(3) b(2,3) bj by simp
    next
      case False
      then have "?b ! i \<in> set (take (Suc n) ?b)" using Suc.prems(2) b(2) by (auto simp: in_set_conv_nth intro!: exI [of _ i])
      then have "?b ! i \<in> set (take (Suc n) xs)" using tk by (metis set_mset_mset)
      then obtain k where k: "k < Suc n" "?b ! i = xs ! k" by (auto simp: in_set_conv_nth)
      then show ?thesis using Suc.prems(3) [of k j] jn ij(3) b(2) bj by simp
    qed
  qed
  then show ?case using Suc.IH [OF heap] Suc.prems(2) b by simp
qed

lemma sort_ok: "sorted_by lt (sort_items lt xs) \<and> mset (sort_items lt xs) = mset xs"
proof (cases "sorted_scan lt 0 xs")
  case True
  then have "sorted_by lt xs" using sorted_scan_ok by (intro sorted_by_adjacent) blast
  then show ?thesis using True by (simp add: sort_items_def)
next
  case False
  note h = strict_weak_order.heapify_ok [OF reversed, of "length xs" xs]
  have len: "length (heapify (\<lambda>a b. lt b a) (length xs) xs) = length xs" using h(2) by (metis order_refl size_mset)
  show ?thesis using sort_pops_ok [OF h(1)] h(2) len False by (simp add: sort_items_def)
qed

subsection \<open>The insertion point\<close>

text \<open>\<open>b\<close> is where the element at \<open>a\<close> belongs: after everything it is not less than.\<close>

definition boundary :: "'a list \<Rightarrow> nat \<Rightarrow> nat \<Rightarrow> bool" where
  "boundary xs a b \<longleftrightarrow> b < a \<and> (\<forall>i<a. lt (xs ! a) (xs ! i) \<longleftrightarrow> b \<le> i)"

lemma boundary_exists:
  assumes "sorted_by lt (take a xs)" and "a < length xs" and "0 < a" and "lt (xs ! a) (xs ! (a - 1))"
  shows "\<exists>b. boundary xs a b"
proof -
  define b where "b = (LEAST i. lt (xs ! a) (xs ! i))"
  have L: "lt (xs ! a) (xs ! b)" and least: "i < b \<Longrightarrow> \<not> lt (xs ! a) (xs ! i)" for i
    unfolding b_def using assms(4) by (auto intro: LeastI dest: not_less_Least)
  have "b \<le> a - 1" unfolding b_def using assms(4) by (rule Least_le)
  then have ba: "b < a" using assms(3) by simp
  have "lt (xs ! a) (xs ! i)" if "b \<le> i" "i < a" for i
  proof (cases "b = i")
    case False
    then have "\<not> lt (xs ! i) (xs ! b)" using assms(1,2) that by (simp add: sorted_by_def)
    then show ?thesis using L not_lt_trans by blast
  qed (use L in simp)
  then show ?thesis unfolding boundary_def using ba least not_le by blast
qed

lemma ssort_probe_up_ok:
  assumes b: "boundary xs a b"
  shows "probe = 2 ^ k \<Longrightarrow> (k = 0 \<or> (2 ^ (k - 1) < a \<and> b \<le> a - 2 ^ (k - 1))) \<Longrightarrow>
    \<exists>m. ssort_probe_up lt xs a probe = 2 ^ m \<and> (m = 0 \<or> (2 ^ (m - 1) < a \<and> b \<le> a - 2 ^ (m - 1))) \<and>
      (a \<le> 2 ^ m \<or> a - 2 ^ m < b)"
proof (induction "a - probe" arbitrary: probe k rule: less_induct)
  case less
  show ?case
  proof (cases "probe < a \<and> lt (xs ! a) (xs ! (a - probe))")
    case True
    have pos: "0 < probe" using less.prems(1) by simp
    have "b \<le> a - probe" using True b pos by (auto simp: boundary_def)
    then have "Suc k = 0 \<or> (2 ^ (Suc k - 1) < a \<and> b \<le> a - 2 ^ (Suc k - 1))"
      using True less.prems(1) by simp
    moreover have "probe * 2 = 2 ^ Suc k" using less.prems(1) by simp
    moreover have "a - probe * 2 < a - probe" using True pos by linarith
    ultimately obtain m where "ssort_probe_up lt xs a (probe * 2) = 2 ^ m"
      "m = 0 \<or> (2 ^ (m - 1) < a \<and> b \<le> a - 2 ^ (m - 1))" "a \<le> 2 ^ m \<or> a - 2 ^ m < b"
      using less.hyps [of "probe * 2" "Suc k"] by blast
    then show ?thesis using True pos by (subst ssort_probe_up.simps) auto
  next
    case False
    then have stop: "ssort_probe_up lt xs a probe = 2 ^ k" using less.prems(1) by (subst ssort_probe_up.simps) auto
    have "a \<le> 2 ^ k \<or> a - 2 ^ k < b"
    proof (cases "probe < a")
      case True
      then have "\<not> lt (xs ! a) (xs ! (a - probe))" "a - probe < a" using False less.prems(1) by simp_all
      then show ?thesis using b less.prems(1) by (simp add: boundary_def not_le)
    qed (use less.prems(1) in simp)
    then show ?thesis using stop less.prems(2) by blast
  qed
qed

lemma ssort_probe_down_ok:
  assumes b: "boundary xs a b"
  shows "probe = 0 \<or> (\<exists>k. probe = 2 ^ k) \<Longrightarrow> mn + 2 * int probe \<le> int a \<Longrightarrow>
    mn < int b \<or> mn = 0 \<and> b = 0 \<Longrightarrow> int b \<le> mn + max 1 (2 * int probe) \<Longrightarrow>
    \<exists>mn'. ssort_probe_down lt xs a mn probe = mn' \<and> (mn' < int b \<or> mn' = 0 \<and> b = 0) \<and> int b \<le> mn' + 1"
proof (induction probe arbitrary: mn rule: less_induct)
  case (less probe)
  show ?case
  proof (cases "probe = 0")
    case True
    then show ?thesis using less.prems by (subst ssort_probe_down.simps) auto
  next
    case False
    then obtain k where k: "probe = 2 ^ k" using less.prems(1) by blast
    let ?t = "mn + int probe"
    have ta: "?t < int a" using less.prems(2) False by simp
    have test: "(?t < 0 \<or> int a < ?t \<or> \<not> lt (xs ! a) (xs ! nat ?t)) \<longleftrightarrow> ?t < int b"
    proof (cases "?t < 0")
      case True
      then show ?thesis by simp
    next
      case False
      then have "nat ?t < a" using ta by simp
      then have "lt (xs ! a) (xs ! nat ?t) \<longleftrightarrow> b \<le> nat ?t" using b by (simp add: boundary_def)
      then show ?thesis using False ta by auto
    qed
    define mn' where "mn' = (if ?t < int b then ?t else mn)"
    have step: "ssort_probe_down lt xs a mn probe = ssort_probe_down lt xs a mn' (probe div 2)"
      using False test by (subst ssort_probe_down.simps) (simp add: Let_def mn'_def)
    have half: "probe div 2 = 0 \<and> probe = 1 \<or> (\<exists>k. probe div 2 = 2 ^ k) \<and> 2 * (probe div 2) = probe"
      using k by (cases k) auto
    have "int b \<le> mn' + max 1 (2 * int (probe div 2))"
      using half less.prems(4) False by (auto simp: mn'_def)
    moreover have "mn' + 2 * int (probe div 2) \<le> int a"
    proof -
      have "mn' \<le> mn + int probe" by (simp add: mn'_def)
      moreover have "2 * int (probe div 2) \<le> int probe" by linarith
      ultimately show ?thesis using less.prems(2) by linarith
    qed
    moreover have "mn' < int b \<or> mn' = 0 \<and> b = 0" using less.prems(3) by (auto simp: mn'_def)
    moreover have "probe div 2 = 0 \<or> (\<exists>k. probe div 2 = 2 ^ k)" using half by blast
    ultimately show ?thesis using less.IH [of "probe div 2" mn'] False unfolding step by simp
  qed
qed

lemma ssort_position_ok:
  assumes b: "boundary xs a b"
  shows "ssort_position lt xs a = b"
proof -
  have a: "0 < a" using b by (simp add: boundary_def)
  obtain m where m: "ssort_probe_up lt xs a 1 = 2 ^ m"
    "m = 0 \<or> (2 ^ (m - 1) < a \<and> b \<le> a - 2 ^ (m - 1))" "a \<le> 2 ^ m \<or> a - 2 ^ m < b"
    using ssort_probe_up_ok [OF b, of 1 0] by auto
  let ?P = "2 ^ m :: nat"
  have half: "m = 0 \<and> ?P div 2 = 0 \<or> ?P div 2 = 2 ^ (m - 1) \<and> 2 * (?P div 2) = ?P" by (cases m) auto
  have ba: "b < a" using b by (simp add: boundary_def)
  have c1: "?P div 2 = 0 \<or> (\<exists>k. ?P div 2 = 2 ^ k)" using half by blast
  have c2: "int a - int ?P + 2 * int (?P div 2) \<le> int a" by linarith
  have c3: "int a - int ?P < int b \<or> int a - int ?P = 0 \<and> b = 0" using m(3) ba by linarith
  have c4: "int b \<le> int a - int ?P + max 1 (2 * int (?P div 2))"
  proof (cases "m = 0")
    case True
    then have "a \<le> 1 \<or> a - 1 < b" using m(3) by simp
    then show ?thesis using True ba by auto
  next
    case False
    then have "?P div 2 = 2 ^ (m - 1)" "2 * (?P div 2) = ?P" using half by blast+
    moreover from this(1) have "b \<le> a - ?P div 2" "?P div 2 < a" using m(2) False by auto
    ultimately have "b \<le> a - ?P div 2" "?P div 2 < a" "2 * (?P div 2) = ?P" by simp_all
    then have "int b \<le> int a - int ?P + 2 * int (?P div 2)" by linarith
    then show ?thesis by linarith
  qed
  from ssort_probe_down_ok [OF b c1 c2 c3 c4] obtain mn where
    mn: "ssort_probe_down lt xs a (int a - int ?P) (?P div 2) = mn"
      "mn < int b \<or> mn = 0 \<and> b = 0" "int b \<le> mn + 1" by blast
  have pos: "ssort_position lt xs a =
      nat (if mn < 0 \<or> int a < mn \<or> \<not> lt (xs ! a) (xs ! nat mn) then mn + 1 else mn)"
    unfolding ssort_position_def m(1) Let_def mn(1) ..
  show ?thesis
  proof (cases "mn < int b")
    case True
    then have eq: "int b = mn + 1" using mn(3) by simp
    have "\<not> lt (xs ! a) (xs ! nat mn)" if "0 \<le> mn"
      using b that eq ba by (simp add: boundary_def)
    then have "mn < 0 \<or> int a < mn \<or> \<not> lt (xs ! a) (xs ! nat mn)" by linarith
    then show ?thesis using eq by (simp add: pos)
  next
    case False
    then have "mn = 0" "b = 0" using mn(2) by simp_all
    moreover from this have "lt (xs ! a) (xs ! 0)" using b a by (simp add: boundary_def)
    ultimately show ?thesis by (simp add: pos)
  qed
qed

subsection \<open>Inserting keeps order, contents and stability\<close>

lemma equivalent_trans: "equivalent lt a b \<Longrightarrow> equivalent lt b c \<Longrightarrow> equivalent lt a c"
  unfolding equivalent_def using not_lt_trans by blast

lemma ssort_insert_ok:
  assumes b: "boundary xs a b" and a: "a < length xs" and sorted: "sorted_by lt (take a xs)"
  defines "ys \<equiv> ssort_insert a b xs"
  shows "sorted_by lt (take (a + 1) ys)" "mset ys = mset xs" "length ys = length xs"
    "filter (equivalent lt y) ys = filter (equivalent lt y) xs"
proof -
  define pre mid post where "pre = take b xs" and "mid = take (a - b) (drop b xs)" and "post = drop (a + 1) xs"
  have ba: "b < a" using b by (simp add: boundary_def)
  have tka: "take a xs = pre @ mid"
    using ba take_add [of b "a - b" xs] by (simp add: pre_def mid_def)
  have xs: "xs = pre @ mid @ [xs ! a] @ post"
    using ssort_insert_split [OF ba a] by (simp add: pre_def mid_def post_def)
  have ys: "ys = pre @ [xs ! a] @ mid @ post" by (simp add: ys_def ssort_insert_def pre_def mid_def post_def)
  have lens: "length pre = b" "length mid = a - b" using a ba by (simp_all add: pre_def mid_def)
  show "mset ys = mset xs" unfolding ys_def by (rule ssort_insert_perm [OF ba a])
  then show "length ys = length xs" by (metis size_mset)
  have mid: "lt (xs ! a) e" if e: "e \<in> set mid" for e
  proof -
    obtain i where i: "i < a - b" "e = mid ! i" using e lens by (auto simp: in_set_conv_nth)
    have "mid ! i = xs ! (b + i)" using i a ba by (simp add: mid_def)
    then show ?thesis using b i by (simp add: boundary_def)
  qed
  have pre: "\<not> lt (xs ! a) e" if e: "e \<in> set pre" for e
  proof -
    obtain i where i: "i < b" "e = pre ! i" using e lens by (auto simp: in_set_conv_nth)
    have "pre ! i = xs ! i" using i by (simp add: pre_def)
    then show ?thesis using b i ba by (simp add: boundary_def)
  qed
  have sorted': "sorted_by lt (pre @ mid)" using sorted tka by simp
  have tk: "take (a + 1) ys = pre @ [xs ! a] @ mid" using lens ba by (simp add: ys Suc_diff_le)
  show "sorted_by lt (take (a + 1) ys)"
    unfolding tk sorted_by_def
  proof (intro allI impI)
    fix i j assume ij: "i < j" "j < length (pre @ [xs ! a] @ mid)"
    have shift: "(pre @ [xs ! a] @ mid) ! k = (if k < b then (pre @ mid) ! k else if k = b then xs ! a else (pre @ mid) ! (k - 1))"
      if "k < length (pre @ [xs ! a] @ mid)" for k
      using lens by (cases "k < b"; cases "k = b") (auto simp: nth_append nth_Cons')
    have inpre: "k < b \<Longrightarrow> (pre @ mid) ! k \<in> set pre" for k using lens by (simp add: nth_append)
    have inmid: "b < k \<Longrightarrow> k < length (pre @ [xs ! a] @ mid) \<Longrightarrow> (pre @ mid) ! (k - 1) \<in> set mid" for k
      using lens by (cases k) (auto simp: nth_append)
    have old: "\<not> lt ((pre @ mid) ! l) ((pre @ mid) ! k)" if "k < l" "l < length (pre @ mid)" for k l
      using sorted' that unfolding sorted_by_def by blast
    have jl: "j < length (pre @ [xs ! a] @ mid)" "i < length (pre @ [xs ! a] @ mid)" using ij by simp_all
    consider "j < b" | "j = b" | "b < j" "i < b" | "b < j" "i = b" | "b < i" using ij(1) by linarith
    then show "\<not> lt ((pre @ [xs ! a] @ mid) ! j) ((pre @ [xs ! a] @ mid) ! i)"
    proof cases
      case 1
      then show ?thesis using old [of i j] ij lens unfolding shift [OF jl(1)] shift [OF jl(2)] by simp
    next
      case 2
      then show ?thesis using pre inpre [of i] ij unfolding shift [OF jl(1)] shift [OF jl(2)] by simp
    next
      case 3
      then show ?thesis using old [of i "j - 1"] ij lens unfolding shift [OF jl(1)] shift [OF jl(2)] by simp
    next
      case 4
      then have "lt (xs ! a) ((pre @ mid) ! (j - 1))" using mid inmid jl by blast
      then show ?thesis using 4 lt_asym unfolding shift [OF jl(1)] shift [OF jl(2)] by simp
    next
      case 5
      then show ?thesis using old [of "i - 1" "j - 1"] ij lens unfolding shift [OF jl(1)] shift [OF jl(2)] by simp
    qed
  qed
  have "filter (equivalent lt y) ([xs ! a] @ mid) = filter (equivalent lt y) (mid @ [xs ! a])"
  proof (cases "equivalent lt y (xs ! a)")
    case True
    have "\<not> equivalent lt y e" if "e \<in> set mid" for e
    proof
      assume "equivalent lt y e"
      then have "equivalent lt (xs ! a) e" using True equivalent_trans by (metis equivalent_def)
      then show False using mid [OF that] by (simp add: equivalent_def)
    qed
    then have "filter (equivalent lt y) mid = []" by (simp add: filter_empty_conv)
    then show ?thesis by simp
  qed simp
  then have "filter (equivalent lt y) (pre @ ([xs ! a] @ mid) @ post) = filter (equivalent lt y) (pre @ (mid @ [xs ! a]) @ post)"
    by (simp only: filter_append)
  then show "filter (equivalent lt y) ys = filter (equivalent lt y) xs"
    unfolding append_assoc xs [symmetric] ys [symmetric] .
qed

lemma ssort_sorted_step:
  assumes "sorted_by lt (take a xs)" and "a < length xs" and "\<not> lt (xs ! a) (xs ! (a - 1))"
  shows "sorted_by lt (take (a + 1) xs)"
proof (rule sorted_by_adjacent)
  fix i assume i: "i + 1 < length (take (a + 1) xs)"
  show "\<not> lt (take (a + 1) xs ! (i + 1)) (take (a + 1) xs ! i)"
  proof (cases "i + 1 = a")
    case True
    then show ?thesis using assms(3) by auto
  next
    case ne: False
    then show ?thesis using assms(1,2) i by (auto simp: sorted_by_def)
  qed
qed

lemma ssort_from_ok:
  "sorted_by lt (take a xs) \<Longrightarrow> 0 < a \<Longrightarrow> a + n = length xs \<Longrightarrow>
    sorted_by lt (ssort_from lt n a xs) \<and> mset (ssort_from lt n a xs) = mset xs \<and>
    (\<forall>y. filter (equivalent lt y) (ssort_from lt n a xs) = filter (equivalent lt y) xs)"
proof (induction n arbitrary: a xs)
  case 0
  then show ?case by simp
next
  case (Suc n)
  have a: "a < length xs" using Suc.prems(3) by simp
  show ?case
  proof (cases "lt (xs ! a) (xs ! (a - 1))")
    case True
    from boundary_exists [OF Suc.prems(1) a Suc.prems(2) True] obtain b where b: "boundary xs a b" by blast
    note ins = ssort_insert_ok [OF b a Suc.prems(1)]
    have "ssort_from lt (Suc n) a xs = ssort_from lt n (a + 1) (ssort_insert a b xs)"
      using True by (simp add: ssort_position_ok [OF b])
    then show ?thesis using Suc.IH [OF ins(1)] ins(2,3,4) Suc.prems(3) by simp
  next
    case False
    have "sorted_by lt (take (a + 1) xs)" using ssort_sorted_step [OF Suc.prems(1) a False] .
    then show ?thesis using Suc.IH [of "a + 1" xs] Suc.prems(3) False by simp
  qed
qed

lemma ssort_ok:
  "sorted_by lt (ssort lt xs) \<and> mset (ssort lt xs) = mset xs \<and>
    filter (equivalent lt y) (ssort lt xs) = filter (equivalent lt y) xs"
proof (cases "xs = []")
  case True
  then show ?thesis by (simp add: ssort_def sorted_by_def)
next
  case False
  have "sorted_by lt (take 1 xs)" by (auto simp: sorted_by_def)
  then show ?thesis using ssort_from_ok [of 1 xs "length xs - 1"] False by (simp add: ssort_def Suc_leI)
qed

lemma ssort_from_map:
  "sorted_by lt (take a (map f xs)) \<Longrightarrow> 0 < a \<Longrightarrow> a + n = length xs \<Longrightarrow> agrees lt lt' f xs \<Longrightarrow>
    map f (ssort_from lt' n a xs) = ssort_from lt n a (map f xs)"
proof (induction n arbitrary: a xs)
  case (Suc n)
  let ?ys = "map f xs"
  have a: "a < length ?ys" using Suc.prems(3) by simp
  have eq: "lt' (xs ! a) (xs ! (a - 1)) = lt (?ys ! a) (?ys ! (a - 1))"
    using agrees_nth [OF Suc.prems(4)] a by simp
  show ?case
  proof (cases "lt (?ys ! a) (?ys ! (a - 1))")
    case True
    from boundary_exists [OF Suc.prems(1) a Suc.prems(2) True] obtain b where b: "boundary ?ys a b" by blast
    note ins = ssort_insert_ok [OF b a Suc.prems(1)]
    have pos: "ssort_position lt' xs a = b" "ssort_position lt ?ys a = b"
      using ssort_position_map [OF Suc.prems(4)] a ssort_position_ok [OF b] by simp_all
    have "mset (ssort_insert a b xs) = mset xs"
      using b a by (intro ssort_insert_perm) (simp_all add: boundary_def)
    then have "agrees lt lt' f (ssort_insert a b xs)" "length (ssort_insert a b xs) = length xs"
      using Suc.prems(4) mset_eq_setD mset_eq_length unfolding agrees_def by metis+
    then show ?thesis
      using Suc.IH [of "a + 1" "ssort_insert a b xs"] ins(1) Suc.prems(3) a True eq pos by (simp add: ssort_insert_map)
  next
    case False
    have "sorted_by lt (take (a + 1) ?ys)"
      using ssort_sorted_step [OF Suc.prems(1) a False] .
    then show ?thesis using Suc.IH [of "a + 1" xs] Suc.prems(3,4) False eq by simp
  qed
qed simp

lemma ssort_map:
  assumes "agrees lt lt' f xs"
  shows "map f (ssort lt' xs) = ssort lt (map f xs)"
proof (cases "xs = []")
  case True
  then show ?thesis by (simp add: ssort_def)
next
  case False
  have "sorted_by lt (take 1 (map f xs))" by (auto simp: sorted_by_def)
  then show ?thesis using ssort_from_map [of 1 f xs "length xs - 1"] assms False by (simp add: ssort_def Suc_leI)
qed

end

subsection \<open>Properties\<close>

text \<open>
  C19. Both sorts sort: for every comparison that is a strict weak order, the result is a
  rearrangement of the input in which nothing is less than an element before it.
\<close>

theorem sorts_sort:
  assumes "strict_weak_order lt"
  shows "sorted_by lt (sort_items lt xs) \<and> mset (sort_items lt xs) = mset xs \<and>
    sorted_by lt (ssort lt xs) \<and> mset (ssort lt xs) = mset xs"
  using strict_weak_order.sort_ok [OF assms] strict_weak_order.ssort_ok [OF assms] by blast

theorem sorts_sort_witness:
  "sorted_by default_less (sort_items default_less [3, 1, 2 :: nat]) \<and>
    mset (sort_items default_less [3, 1, 2 :: nat]) = mset [3, 1, 2] \<and>
    sorted_by default_less (ssort default_less [3, 1, 2 :: nat]) \<and>
    mset (ssort default_less [3, 1, 2 :: nat]) = mset [3, 1, 2]"
  by (rule sorts_sort [OF default.strict_weak_order_axioms])

text \<open>
  C20. \<open>ssort\<close> is stable: the elements equivalent to any given one keep their order. The search
  by doubling and halving, with its index that may wrap below zero, finds the same insertion
  point as a linear search.
\<close>

theorem ssort_stable:
  assumes "strict_weak_order lt"
  shows "filter (equivalent lt y) (ssort lt xs) = filter (equivalent lt y) xs"
  using strict_weak_order.ssort_ok [OF assms] by blast

text \<open>A comparison of pairs by their first component only.\<close>

definition fst_less :: "('a::linorder \<times> 'b) \<Rightarrow> ('a \<times> 'b) \<Rightarrow> bool" where
  "fst_less a b = default_less (fst a) (fst b)"

interpretation by_fst: strict_weak_order fst_less
  by unfold_locales (auto simp: fst_less_def default_less_def)

theorem ssort_stable_witness:
  "filter (equivalent fst_less (2 :: nat, CHR ''x'')) (ssort fst_less [(2, CHR ''b''), (1, CHR ''a''), (2, CHR ''c'')]) =
    filter (equivalent fst_less (2, CHR ''x'')) [(2, CHR ''b''), (1, CHR ''a''), (2, CHR ''c'')]"
  by (rule ssort_stable [OF by_fst.strict_weak_order_axioms])

end
