(* ===== verification/Fifo.thy ===== *)
theory Fifo
  imports Prelude
begin

text \<open>
  \<^verbatim>\<open>fifo<T>\<close> of \<^verbatim>\<open>arlib/array.h\<close>: a queue in one buffer, with a read and a write position. A slot of
  the buffer is raw memory or holds an object that was constructed and not yet destroyed; a
  popped object stays constructed in its slot until the next compaction. \<open>None\<close> is an access to
  a slot outside the buffer or without an object.
\<close>

subsection \<open>Operations\<close>

datatype 'a slot = Raw | Constructed 'a

record 'a fifo =
  ff_items :: "'a slot list"
  ff_rd :: nat
  ff_wr :: nat

definition ff_new :: "'a fifo" where
  "ff_new = \<lparr>ff_items = [], ff_rd = 0, ff_wr = 0\<rparr>"

definition ff_capacity :: "'a fifo \<Rightarrow> nat" where
  "ff_capacity q = length (ff_items q)"

text \<open>The destructor call on a range of slots; every one of them must hold an object.\<close>

fun destroy_range :: "nat \<Rightarrow> nat \<Rightarrow> 'a slot list \<Rightarrow> 'a slot list option" where
  "destroy_range first 0 items = Some items"
| "destroy_range first (Suc n) items =
     (if first < length items \<and> items ! first \<noteq> Raw
      then destroy_range (first + 1) n (items[first := Raw]) else None)"

text \<open>\<^verbatim>\<open>memmove(items, items+rd, wr-rd)\<close>: the vacated slots become raw memory.\<close>

definition move_down :: "nat \<Rightarrow> nat \<Rightarrow> 'a slot list \<Rightarrow> 'a slot list" where
  "move_down rd wr items =
     take (wr - rd) (drop rd items) @ replicate rd Raw @ drop wr items"

definition ff_make_room :: "'a fifo \<Rightarrow> 'a fifo option" where
  "ff_make_room q0 =
     (if ff_wr q0 = ff_capacity q0 then
        let q = (if ff_rd q0 \<le> ff_capacity q0 div 2
                 then q0\<lparr>ff_items := ff_items q0 @
                        replicate ((if ff_capacity q0 = 0 then 8 else ff_capacity q0 * 2) - ff_capacity q0) Raw\<rparr>
                 else q0)
        in map_option (\<lambda>items.
             q\<lparr>ff_items := move_down (ff_rd q) (ff_wr q) items,
               ff_wr := ff_wr q - ff_rd q, ff_rd := 0\<rparr>)
           (destroy_range 0 (ff_rd q) (ff_items q))
      else Some q0)"

definition ff_push :: "'a \<Rightarrow> 'a fifo \<Rightarrow> 'a fifo option" where
  "ff_push item q0 =
     Option.bind (ff_make_room q0) (\<lambda>q.
       if ff_wr q < ff_capacity q
       then Some (q\<lparr>ff_items := (ff_items q)[ff_wr q := Constructed item], ff_wr := ff_wr q + 1\<rparr>)
       else None)"

definition ff_pop :: "'a fifo \<Rightarrow> ('a \<times> 'a fifo) option" where
  "ff_pop q =
     (if ff_rd q < ff_capacity q
      then case ff_items q ! ff_rd q of
             Raw \<Rightarrow> None
           | Constructed x \<Rightarrow> Some (x, q\<lparr>ff_rd := ff_rd q + 1\<rparr>)
      else None)"

definition ff_empty :: "'a fifo \<Rightarrow> bool" where
  "ff_empty q = (ff_rd q = ff_wr q)"

text \<open>The destructor: \<^verbatim>\<open>for (n=0;n<wr;n++) items[rd+n].~T()\<close>.\<close>

definition ff_destroy :: "'a fifo \<Rightarrow> 'a slot list option" where
  "ff_destroy q = destroy_range (ff_rd q) (ff_wr q) (ff_items q)"

subsection \<open>Invariant and contents\<close>

definition ff_inv :: "'a fifo \<Rightarrow> bool" where
  "ff_inv q \<longleftrightarrow> ff_rd q \<le> ff_wr q \<and> ff_wr q \<le> ff_capacity q \<and>
     (\<forall>i<ff_capacity q. ff_items q ! i = Raw \<longleftrightarrow> ff_wr q \<le> i)"

fun slot_value :: "'a slot \<Rightarrow> 'a" where
  "slot_value (Constructed x) = x"
| "slot_value Raw = undefined"

definition ff_list :: "'a fifo \<Rightarrow> 'a list" where
  "ff_list q = map slot_value (slice (ff_rd q) (ff_wr q - ff_rd q) (ff_items q))"

lemma slot_nonraw: "s \<noteq> Raw \<Longrightarrow> s = Constructed (slot_value s)"
  by (cases s) auto

lemma destroy_range_ok:
  "first + n \<le> length items \<Longrightarrow> (\<forall>i. first \<le> i \<longrightarrow> i < first + n \<longrightarrow> items ! i \<noteq> Raw) \<Longrightarrow>
    destroy_range first n items = Some (take first items @ replicate n Raw @ drop (first + n) items)"
proof (induction n arbitrary: first items)
  case (Suc n)
  have "destroy_range (first + 1) n (items[first := Raw]) =
      Some (take (first + 1) (items[first := Raw]) @ replicate n Raw @ drop (first + 1 + n) (items[first := Raw]))"
    by (rule Suc.IH) (use Suc.prems in auto)
  moreover have "take (first + 1) (items[first := Raw]) = take first items @ [Raw]"
    using Suc.prems(1) by (simp add: take_Suc_conv_app_nth)
  moreover have "drop (first + 1 + n) (items[first := Raw]) = drop (first + 1 + n) items" by simp
  ultimately show ?case using Suc.prems by simp
qed simp

lemma move_down_ok:
  assumes b: "rd \<le> wr" "wr \<le> length xs" and raw: "\<And>i. i < length xs \<Longrightarrow> xs ! i = Raw \<longleftrightarrow> wr \<le> i"
  defines "ys \<equiv> move_down rd wr (replicate rd Raw @ drop rd xs)"
  shows "length ys = length xs" "\<And>i. i < length xs \<Longrightarrow> ys ! i = Raw \<longleftrightarrow> wr - rd \<le> i"
    "take (wr - rd) ys = take (wr - rd) (drop rd xs)"
proof -
  define front where "front = take (wr - rd) (drop rd xs)"
  have fl: "length front = wr - rd" using b by (simp add: front_def)
  have ys: "ys = front @ replicate rd Raw @ drop wr xs"
    using b by (simp add: ys_def move_down_def front_def)
  show len: "length ys = length xs" using b fl by (simp add: ys)
  show "take (wr - rd) ys = take (wr - rd) (drop rd xs)" using fl by (simp add: ys front_def)
  fix i assume i: "i < length xs"
  consider "i < wr - rd" | "wr - rd \<le> i" "i < wr" | "wr \<le> i" by linarith
  then show "ys ! i = Raw \<longleftrightarrow> wr - rd \<le> i"
  proof cases
    case 1
    then have "ys ! i = xs ! (rd + i)" using fl b by (simp add: ys nth_append front_def)
    then show ?thesis using raw [of "rd + i"] 1 b by simp
  next
    case 2
    then have "ys ! i = (replicate rd Raw @ drop wr xs) ! (i - (wr - rd))" using fl by (simp add: ys nth_append)
    moreover have "i - (wr - rd) < rd" using 2 b by linarith
    ultimately show ?thesis using 2 by (simp add: nth_append)
  next
    case 3
    have "ys = (front @ replicate rd Raw) @ drop wr xs" by (simp add: ys)
    moreover have "length (front @ replicate rd Raw) = wr" using fl b by simp
    ultimately have "ys ! i = drop wr xs ! (i - wr)" using 3 by (metis not_le nth_append)
    then have "ys ! i = xs ! i" using 3 b by simp
    then show ?thesis using raw [OF i] 3 by simp
  qed
qed

lemma ff_compact_ok:
  assumes inv: "ff_inv q" and items: "ff_items q' = ff_items q @ replicate k Raw"
    and pos: "ff_rd q' = ff_rd q" "ff_wr q' = ff_wr q"
  defines "r \<equiv> map_option (\<lambda>items. q'\<lparr>ff_items := move_down (ff_rd q') (ff_wr q') items,
      ff_wr := ff_wr q' - ff_rd q', ff_rd := 0\<rparr>) (destroy_range 0 (ff_rd q') (ff_items q'))"
  shows "\<exists>q2. r = Some q2 \<and> ff_inv q2 \<and> ff_list q2 = ff_list q \<and> ff_capacity q2 = ff_capacity q + k \<and>
    ff_wr q2 = ff_wr q - ff_rd q"
proof -
  define xs where "xs = ff_items q'"
  have b: "ff_rd q \<le> ff_wr q" "ff_wr q \<le> length (ff_items q)"
    and raw: "\<And>i. i < length (ff_items q) \<Longrightarrow> ff_items q ! i = Raw \<longleftrightarrow> ff_wr q \<le> i"
    using inv by (auto simp: ff_inv_def ff_capacity_def)
  have xl: "length xs = length (ff_items q) + k" by (simp add: xs_def items)
  have xraw: "xs ! i = Raw \<longleftrightarrow> ff_wr q \<le> i" if "i < length xs" for i
    using that b raw [of i] unfolding xl by (cases "i < length (ff_items q)") (auto simp: xs_def items nth_append)
  have wl: "ff_wr q \<le> length xs" using b xl by simp
  have "destroy_range 0 (ff_rd q) xs = Some (take 0 xs @ replicate (ff_rd q) Raw @ drop (0 + ff_rd q) xs)"
    by (rule destroy_range_ok) (use b wl xraw in auto)
  then have d: "destroy_range 0 (ff_rd q) xs = Some (replicate (ff_rd q) Raw @ drop (ff_rd q) xs)" by simp
  define ys where "ys = move_down (ff_rd q) (ff_wr q) (replicate (ff_rd q) Raw @ drop (ff_rd q) xs)"
  note m = move_down_ok [OF b(1) wl xraw, folded ys_def]
  let ?q2 = "q'\<lparr>ff_items := ys, ff_wr := ff_wr q - ff_rd q, ff_rd := 0\<rparr>"
  have r: "r = Some ?q2" by (simp only: r_def pos d option.map ys_def flip: xs_def)
  have cap: "ff_capacity ?q2 = ff_capacity q + k" using m(1) xl by (simp add: ff_capacity_def)
  have "ff_inv ?q2" using m(1,2) wl by (simp add: ff_inv_def ff_capacity_def)
  moreover have "ff_list ?q2 = ff_list q"
  proof -
    have "slice (ff_rd q) (ff_wr q - ff_rd q) (ff_items q) = slice 0 (ff_wr q - ff_rd q) ys"
      using m(3) b by (simp add: slice_def xs_def items)
    then show ?thesis by (simp add: ff_list_def)
  qed
  ultimately show ?thesis using r cap by simp
qed

lemma ff_make_room_ok:
  assumes inv: "ff_inv q"
  shows "\<exists>q'. ff_make_room q = Some q' \<and> ff_inv q' \<and> ff_list q' = ff_list q \<and> ff_wr q' < ff_capacity q'"
proof (cases "ff_wr q = ff_capacity q")
  case False
  then show ?thesis using inv by (simp add: ff_make_room_def ff_inv_def)
next
  case full: True
  show ?thesis
  proof (cases "ff_rd q \<le> ff_capacity q div 2")
    case True
    define k where "k = (if ff_capacity q = 0 then 8 else ff_capacity q * 2) - ff_capacity q"
    let ?q = "q\<lparr>ff_items := ff_items q @ replicate k Raw\<rparr>"
    have "0 < k" by (simp add: k_def)
    moreover have "ff_make_room q = map_option (\<lambda>items. ?q\<lparr>ff_items := move_down (ff_rd ?q) (ff_wr ?q) items,
        ff_wr := ff_wr ?q - ff_rd ?q, ff_rd := 0\<rparr>) (destroy_range 0 (ff_rd ?q) (ff_items ?q))"
      using full True by (simp add: ff_make_room_def Let_def k_def)
    ultimately show ?thesis
      using ff_compact_ok [OF inv, of ?q k] full by auto
  next
    case False
    then have "0 < ff_rd q" by simp
    moreover have "ff_rd q \<le> ff_wr q" using inv by (simp add: ff_inv_def)
    moreover have "ff_make_room q = map_option (\<lambda>items. q\<lparr>ff_items := move_down (ff_rd q) (ff_wr q) items,
        ff_wr := ff_wr q - ff_rd q, ff_rd := 0\<rparr>) (destroy_range 0 (ff_rd q) (ff_items q))"
      using full False by (simp add: ff_make_room_def Let_def)
    ultimately show ?thesis
      using ff_compact_ok [OF inv, of q 0] full by auto
  qed
qed

lemma ff_push_ok:
  assumes inv: "ff_inv q"
  shows "\<exists>q'. ff_push x q = Some q' \<and> ff_inv q' \<and> ff_list q' = ff_list q @ [x]"
proof -
  obtain q1 where q1: "ff_make_room q = Some q1" "ff_inv q1" "ff_list q1 = ff_list q" "ff_wr q1 < ff_capacity q1"
    using ff_make_room_ok [OF inv] by blast
  let ?q = "q1\<lparr>ff_items := (ff_items q1)[ff_wr q1 := Constructed x], ff_wr := ff_wr q1 + 1\<rparr>"
  have push: "ff_push x q = Some ?q"
    using q1(1,4) by (simp add: ff_push_def)
  have i: "ff_rd q1 \<le> ff_wr q1" "\<And>i. i < length (ff_items q1) \<Longrightarrow> ff_items q1 ! i = Raw \<longleftrightarrow> ff_wr q1 \<le> i"
    using q1(2) by (auto simp: ff_inv_def ff_capacity_def)
  have "ff_inv ?q"
    using i q1(4) by (auto simp: ff_inv_def ff_capacity_def nth_list_update)
  moreover have "ff_list ?q = ff_list q1 @ [x]"
  proof -
    have len: "ff_wr q1 < length (ff_items q1)" using q1(4) by (simp add: ff_capacity_def)
    have "take (ff_wr q1 - ff_rd q1 + 1) (drop (ff_rd q1) ((ff_items q1)[ff_wr q1 := Constructed x])) =
      take (ff_wr q1 - ff_rd q1) (drop (ff_rd q1) (ff_items q1)) @ [Constructed x]"
      using i(1) len by (simp add: take_Suc_conv_app_nth drop_update_swap)
    then show ?thesis using i(1) by (simp add: ff_list_def slice_def Suc_diff_le)
  qed
  ultimately show ?thesis using push q1(3) by auto
qed

lemma ff_pop_ok:
  assumes inv: "ff_inv q" and ne: "ff_list q = x # xs"
  shows "\<exists>q'. ff_pop q = Some (x, q') \<and> ff_inv q' \<and> ff_list q' = xs"
proof -
  have b: "ff_rd q \<le> ff_wr q" "ff_wr q \<le> length (ff_items q)"
    and raw: "\<And>i. i < length (ff_items q) \<Longrightarrow> ff_items q ! i = Raw \<longleftrightarrow> ff_wr q \<le> i"
    using inv by (auto simp: ff_inv_def ff_capacity_def)
  have "ff_rd q \<noteq> ff_wr q" using ne by (auto simp: ff_list_def)
  then have lt: "ff_rd q < ff_wr q" using b by simp
  have "slice (ff_rd q) (ff_wr q - ff_rd q) (ff_items q) =
      ff_items q ! ff_rd q # slice (ff_rd q + 1) (ff_wr q - (ff_rd q + 1)) (ff_items q)"
    using lt b by (simp add: slice_def Cons_nth_drop_Suc [symmetric] take_Cons' Suc_diff_Suc)
  then have x: "slot_value (ff_items q ! ff_rd q) = x" "ff_list (q\<lparr>ff_rd := ff_rd q + 1\<rparr>) = xs"
    using ne by (simp_all add: ff_list_def)
  have "ff_items q ! ff_rd q = Constructed x"
    using slot_nonraw [of "ff_items q ! ff_rd q"] raw [of "ff_rd q"] lt b x(1) by simp
  then have "ff_pop q = Some (x, q\<lparr>ff_rd := ff_rd q + 1\<rparr>)"
    using lt b by (simp add: ff_pop_def ff_capacity_def)
  moreover have "ff_inv (q\<lparr>ff_rd := ff_rd q + 1\<rparr>)"
    using inv lt by (simp add: ff_inv_def ff_capacity_def)
  ultimately show ?thesis using x(2) by blast
qed

lemma ff_empty_iff: "ff_inv q \<Longrightarrow> ff_empty q \<longleftrightarrow> ff_list q = []"
  by (auto simp: ff_inv_def ff_capacity_def ff_empty_def ff_list_def slice_def)

lemma ff_new_ok: "ff_inv ff_new" "ff_list ff_new = []"
  by (simp_all add: ff_new_def ff_inv_def ff_capacity_def ff_list_def slice_def)

subsection \<open>Running a sequence of operations\<close>

datatype 'a fifo_op = FPush 'a | FPop | FEmpty
datatype 'a fifo_res = FDone | FItem 'a | FIs bool

inductive fifo_step :: "'a fifo \<Rightarrow> 'a fifo_op \<Rightarrow> 'a fifo_res \<Rightarrow> 'a fifo \<Rightarrow> bool" where
  step_push: "ff_push x q = Some q' \<Longrightarrow> fifo_step q (FPush x) FDone q'"
| step_pop: "ff_pop q = Some (x, q') \<Longrightarrow> \<not> ff_empty q \<Longrightarrow> fifo_step q FPop (FItem x) q'"
| step_empty: "fifo_step q FEmpty (FIs (ff_empty q)) q"

inductive_simps fifo_step_simps:
  "fifo_step q (FPush x) r q'" "fifo_step q FPop r q'" "fifo_step q FEmpty r q'"

inductive fifo_steps :: "'a fifo \<Rightarrow> ('a fifo_op \<times> 'a fifo_res) list \<Rightarrow> 'a fifo \<Rightarrow> bool" where
  steps_nil: "fifo_steps q [] q"
| steps_cons: "fifo_step q x r q1 \<Longrightarrow> fifo_steps q1 tr q' \<Longrightarrow> fifo_steps q ((x, r) # tr) q'"

inductive_cases fifo_steps_ConsE: "fifo_steps q (xr # tr) q'"
inductive_cases fifo_steps_NilE: "fifo_steps q [] q'"

text \<open>The same trace on a list.\<close>

fun list_step :: "'a list \<Rightarrow> 'a fifo_op \<Rightarrow> ('a fifo_res \<times> 'a list) option" where
  "list_step xs (FPush x) = Some (FDone, xs @ [x])"
| "list_step [] FPop = None"
| "list_step (x # xs) FPop = Some (FItem x, xs)"
| "list_step xs FEmpty = Some (FIs (xs = []), xs)"

fun list_steps :: "'a list \<Rightarrow> ('a fifo_op \<times> 'a fifo_res) list \<Rightarrow> 'a list option" where
  "list_steps xs [] = Some xs"
| "list_steps xs ((x, r) # tr) =
     (case list_step xs x of Some (r', xs') \<Rightarrow> if r' = r then list_steps xs' tr else None | None \<Rightarrow> None)"

lemma fifo_step_sound:
  assumes inv: "ff_inv q" and st: "fifo_step q x r q'"
  shows "ff_inv q' \<and> list_step (ff_list q) x = Some (r, ff_list q')"
  using st
proof cases
  case (step_push y)
  then show ?thesis using ff_push_ok [OF inv, of y] by auto
next
  case (step_pop y)
  then show ?thesis using ff_pop_ok [OF inv] ff_empty_iff [OF inv] by (cases "ff_list q") auto
next
  case step_empty
  then show ?thesis using inv ff_empty_iff [OF inv] by (cases "ff_list q") auto
qed

lemma fifo_step_complete:
  assumes inv: "ff_inv q" and "list_step (ff_list q) x = Some (r, xs')"
  shows "\<exists>q'. fifo_step q x r q'"
proof (cases x)
  case (FPush y)
  then show ?thesis using assms ff_push_ok [OF inv, of y] by (auto simp: fifo_step_simps)
next
  case FPop
  then obtain y where "ff_list q = y # xs'" "r = FItem y" using assms(2) by (cases "ff_list q") auto
  then show ?thesis using FPop ff_pop_ok [OF inv] ff_empty_iff [OF inv] by (auto simp: fifo_step_simps)
next
  case FEmpty
  then show ?thesis using assms(2) ff_empty_iff [OF inv] by (cases "ff_list q") (auto simp: fifo_step_simps)
qed

lemma fifo_steps_iff:
  "ff_inv q \<Longrightarrow> (\<exists>q'. fifo_steps q tr q' \<and> ff_list q' = ys) \<longleftrightarrow> list_steps (ff_list q) tr = Some ys"
proof (induction tr arbitrary: q)
  case Nil
  then show ?case by (auto intro: steps_nil elim: fifo_steps_NilE)
next
  case (Cons xr tr)
  obtain x r where xr: "xr = (x, r)" by (cases xr)
  show ?case
  proof
    assume "\<exists>q'. fifo_steps q (xr # tr) q' \<and> ff_list q' = ys"
    then obtain q1 q' where q1: "fifo_step q x r q1" "fifo_steps q1 tr q'" "ff_list q' = ys"
      by (auto simp: xr elim: fifo_steps_ConsE)
    have "ff_inv q1" "list_step (ff_list q) x = Some (r, ff_list q1)"
      using fifo_step_sound [OF Cons.prems q1(1)] by simp_all
    then show "list_steps (ff_list q) (xr # tr) = Some ys"
      using Cons.IH [of q1] q1(2,3) by (auto simp: xr)
  next
    assume l: "list_steps (ff_list q) (xr # tr) = Some ys"
    then obtain xs' where xs': "list_step (ff_list q) x = Some (r, xs')" "list_steps xs' tr = Some ys"
      by (auto simp: xr split: option.splits if_splits)
    then obtain q1 where q1: "fifo_step q x r q1" using fifo_step_complete [OF Cons.prems] by blast
    then have "ff_inv q1" "ff_list q1 = xs'" using fifo_step_sound [OF Cons.prems q1] xs'(1) by auto
    then show "\<exists>q'. fifo_steps q (xr # tr) q' \<and> ff_list q' = ys"
      using Cons.IH [of q1] xs'(2) q1 by (auto simp: xr intro: steps_cons)
  qed
qed

lemma fifo_steps_inv: "fifo_steps q tr q' \<Longrightarrow> ff_inv q \<Longrightarrow> ff_inv q'"
  by (induction rule: fifo_steps.induct) (use fifo_step_sound in blast)+

subsection \<open>Properties\<close>

text \<open>
  C29. A \<open>fifo\<close> is a first-in first-out queue: the traces of pushes, pops and emptiness tests it
  allows from the start, with their results, are exactly those of a list to which elements are
  appended and from whose front they are taken. Every push succeeds, so the compaction and
  growth never touch a slot outside the buffer and never destroy an unread object.
\<close>

theorem fifo_refines_list:
  "(\<exists>q. fifo_steps ff_new tr q \<and> ff_list q = xs) \<longleftrightarrow> list_steps [] tr = Some xs"
  using fifo_steps_iff [OF ff_new_ok(1)] by (simp add: ff_new_ok(2))

text \<open>
  C38. The destructor of \<open>fifo\<close> is right only for a queue from which nothing was popped since the
  last compaction: then it destroys every object in the buffer. Once an element was popped it
  destroys a range that is shifted by the read position, and runs into memory that holds no
  object.
\<close>

theorem fifo_destructor:
  assumes "fifo_steps ff_new tr q"
  shows "if ff_rd q = 0 then ff_destroy q = Some (replicate (ff_capacity q) Raw) else ff_destroy q = None"
proof -
  have inv: "ff_inv q" using fifo_steps_inv [OF assms ff_new_ok(1)] .
  then have b: "ff_rd q \<le> ff_wr q" "ff_wr q \<le> length (ff_items q)"
    and raw: "\<And>i. i < length (ff_items q) \<Longrightarrow> ff_items q ! i = Raw \<longleftrightarrow> ff_wr q \<le> i"
    by (auto simp: ff_inv_def ff_capacity_def)
  show ?thesis
  proof (cases "ff_rd q = 0")
    case True
    have "destroy_range 0 (ff_wr q) (ff_items q) =
        Some (take 0 (ff_items q) @ replicate (ff_wr q) Raw @ drop (0 + ff_wr q) (ff_items q))"
      by (rule destroy_range_ok) (use b raw in auto)
    moreover have "drop (ff_wr q) (ff_items q) = replicate (length (ff_items q) - ff_wr q) Raw"
      by (rule nth_equalityI) (use raw in auto)
    ultimately show ?thesis using True b by (simp add: ff_destroy_def ff_capacity_def flip: replicate_add)
  next
    case False
    have "destroy_range first n items = None"
      if "first + n > w" "\<And>i. i < length items \<Longrightarrow> w \<le> i \<Longrightarrow> items ! i = Raw" "first \<le> w" "0 < n"
      for first n w and items :: "'a slot list"
      using that
    proof (induction n arbitrary: first items)
      case (Suc n)
      show ?case
      proof (cases "first < length items \<and> items ! first \<noteq> Raw")
        case True
        then have "first < w" using Suc.prems(2) [of first] by (meson not_le)
        then have "destroy_range (first + 1) n (items[first := Raw]) = None"
          using Suc.prems by (intro Suc.IH) (auto simp: nth_list_update)
        then show ?thesis using True by simp
      next
        case False
        then show ?thesis by auto
      qed
    qed simp
    from this [of "ff_wr q" "ff_rd q" "ff_wr q" "ff_items q"] False b raw show ?thesis
      by (simp add: ff_destroy_def)
  qed
qed

theorem fifo_destructor_witness:
  "\<exists>tr q. fifo_steps ff_new tr q \<and> ff_rd q = 1 \<and> ff_destroy (q :: nat fifo) = None"
proof -
  define q where "q = \<lparr>ff_items = [Constructed (5::nat)] @ replicate 7 Raw, ff_rd = 1, ff_wr = 1\<rparr>"
  have push: "ff_push 5 ff_new = Some (q\<lparr>ff_rd := 0\<rparr>)"
    by (simp add: q_def ff_push_def ff_make_room_def ff_new_def ff_capacity_def move_down_def eval_nat_numeral)
  have pop: "ff_pop (q\<lparr>ff_rd := 0\<rparr>) = Some (5, q)" "\<not> ff_empty (q\<lparr>ff_rd := 0\<rparr>)"
    by (simp_all add: q_def ff_pop_def ff_capacity_def ff_empty_def)
  have st: "fifo_steps ff_new [(FPush 5, FDone), (FPop, FItem 5)] q"
    by (rule steps_cons [OF step_push [OF push] steps_cons [OF step_pop [OF pop] steps_nil]])
  have "ff_rd q = 1" by (simp add: q_def)
  then show ?thesis using st fifo_destructor [OF st] by auto
qed

end
