(* ===== verification/Bitarray.thy ===== *)
theory Bitarray
  imports Global Endian
begin

text \<open>
  \<^verbatim>\<open>bitarray\<close> of \<^verbatim>\<open>arlib/array.h\<close> and \<^verbatim>\<open>arlib/array.cpp\<close>: bits packed into 32-bit chunks, on a
  64-bit little-endian machine. Up to 64 bits live in the two chunks inside the object, more in
  an allocation whose size is the number of bits rounded up to a power of two. \<open>ba_chunks\<close> is
  the storage that \<^verbatim>\<open>bits()\<close> points to; \<open>junk\<close> is the contents of fresh memory.
\<close>

unbundle bit_operations_syntax

subsection \<open>Operations\<close>

record bitarray =
  ba_chunks :: "u32 list"
  ba_nbits :: nat

definition chunk_size :: nat where "chunk_size = 32"
definition n_inline :: nat where "n_inline = 64"

definition ba_new :: bitarray where
  "ba_new = \<lparr>ba_chunks = [0, 0], ba_nbits = 0\<rparr>"

definition alloc_size :: "nat \<Rightarrow> nat" where
  "alloc_size len = bitround len div 8"

definition ba_get :: "nat \<Rightarrow> bitarray \<Rightarrow> bool" where
  "ba_get n b = (ba_chunks b ! (n div chunk_size) AND push_bit (n AND (chunk_size - 1)) 1 \<noteq> 0)"

definition ba_set :: "nat \<Rightarrow> bool \<Rightarrow> bitarray \<Rightarrow> bitarray" where
  "ba_set n val b =
     (let chunk = ba_chunks b ! (n div chunk_size);
          chunk = chunk AND NOT (push_bit (n AND (chunk_size - 1)) 1);
          chunk = chunk OR push_bit (n AND (chunk_size - 1)) (of_bool val)
      in b\<lparr>ba_chunks := (ba_chunks b)[n div chunk_size := chunk]\<rparr>)"

definition ba_size :: "bitarray \<Rightarrow> nat" where "ba_size b = ba_nbits b"

definition ba_get_or :: "nat \<Rightarrow> bool \<Rightarrow> bitarray \<Rightarrow> bool" where
  "ba_get_or n def b = (if ba_size b \<le> n then def else ba_get n b)"

definition clear_unused :: "nat \<Rightarrow> nat \<Rightarrow> u32 list \<Rightarrow> u32 list" where
  "clear_unused start nbytes ptr =
     (let low = start; high = nbytes * 8
      in if low = high then ptr
         else
           let ptr = ptr[low div chunk_size :=
                 ptr ! (low div chunk_size) AND NOT (push_bit (low AND (chunk_size - 1)) (- 1))];
               low = (low + (chunk_size - 1)) div chunk_size * chunk_size
           in blit ptr (low div chunk_size) (replicate ((high - low) div chunk_size) 0))"

definition ba_resize :: "u32 \<Rightarrow> nat \<Rightarrow> bitarray \<Rightarrow> bitarray" where
  "ba_resize junk len b0 =
     (let prevlen = ba_nbits b0; b = b0\<lparr>ba_nbits := len\<rparr>; cs = ba_chunks b0
      in if prevlen \<le> n_inline then
           if len \<le> n_inline then
             (if len < prevlen then b\<lparr>ba_chunks := clear_unused len 8 cs\<rparr> else b)
           else b\<lparr>ba_chunks := take 2 cs @ replicate ((alloc_size len - 8) div 4) 0\<rparr>
         else
           if len \<le> n_inline then b\<lparr>ba_chunks := clear_unused len 8 (take 2 cs)\<rparr>
           else
             let prevbytes = alloc_size prevlen; newbytes = alloc_size len
             in if prevbytes < newbytes then
                  b\<lparr>ba_chunks := clear_unused prevlen newbytes
                     (take (newbytes div 4) cs @ replicate (newbytes div 4 - length cs) junk)\<rparr>
                else if len < prevlen then b\<lparr>ba_chunks := clear_unused len newbytes cs\<rparr>
                else b)"

definition ba_set_resize :: "u32 \<Rightarrow> nat \<Rightarrow> bool \<Rightarrow> bitarray \<Rightarrow> bitarray" where
  "ba_set_resize junk n val b =
     ba_set n val (if ba_size b \<le> n then ba_resize junk (n + 1) b else b)"

definition ba_append :: "u32 \<Rightarrow> bool \<Rightarrow> bitarray \<Rightarrow> bitarray" where
  "ba_append junk item b = (let b = ba_resize junk (ba_nbits b + 1) b in ba_set (ba_nbits b - 1) item b)"

definition ba_reset :: "bitarray \<Rightarrow> bitarray" where
  "ba_reset b = ba_new"

fun ba_set_slice :: "nat \<Rightarrow> nat \<Rightarrow> bitarray \<Rightarrow> nat \<Rightarrow> bitarray \<Rightarrow> bitarray" where
  "ba_set_slice start 0 other other_start b = b"
| "ba_set_slice start (Suc num) other other_start b =
     ba_set_slice (start + 1) num other (other_start + 1) (ba_set start (ba_get other_start other) b)"

text \<open>
  \<^verbatim>\<open>slice\<close>. On its fast path the code adds \<^verbatim>\<open>first/8\<close> to a pointer to chunks and copies
  \<^verbatim>\<open>(count+7)/8\<close> bytes; reading past the storage is \<open>None\<close>.
\<close>

definition chunk_bytes :: "u32 list \<Rightarrow> bytes" where
  "chunk_bytes cs = concat (map (le_bytes 4) cs)"

fun bytes_chunks :: "bytes \<Rightarrow> u32 list" where
  "bytes_chunks (a # b # c # d # bs) = le_word [a, b, c, d] # bytes_chunks bs"
| "bytes_chunks _ = []"

definition ba_slice :: "u32 \<Rightarrow> nat \<Rightarrow> nat \<Rightarrow> bitarray \<Rightarrow> bitarray option" where
  "ba_slice junk first count b =
     (let ret = ba_resize junk count ba_new
      in if first AND 7 = 0 then
           let src = chunk_bytes (drop (first div 8) (ba_chunks b)); n = (count + 7) div 8
           in if n \<le> length src
              then Some (ret\<lparr>ba_chunks := bytes_chunks (blit (chunk_bytes (ba_chunks ret)) 0 (take n src))\<rparr>)
              else None
         else Some (ba_set_slice 0 count b first ret))"

subsection \<open>Bits of the storage\<close>

definition chunk_bit :: "u32 list \<Rightarrow> nat \<Rightarrow> bool" where
  "chunk_bit cs i = bit (cs ! (i div 32)) (i mod 32)"

definition needed :: "nat \<Rightarrow> nat" where
  "needed n = (if n \<le> 64 then 2 else bitround n div 32)"

definition ba_inv :: "bitarray \<Rightarrow> bool" where
  "ba_inv b \<longleftrightarrow> needed (ba_nbits b) \<le> length (ba_chunks b) \<and>
     (\<forall>i. ba_nbits b \<le> i \<longrightarrow> i < 32 * needed (ba_nbits b) \<longrightarrow> \<not> chunk_bit (ba_chunks b) i)"

definition ba_bits :: "bitarray \<Rightarrow> bool list" where
  "ba_bits b = map (\<lambda>i. ba_get i b) [0..<ba_nbits b]"

lemma and_31: "n AND 31 = n mod (32 :: nat)"
  using take_bit_eq_mask [of 5 n] by (simp add: take_bit_eq_mod mask_numeral)

lemma ba_get_bit: "ba_get n b = chunk_bit (ba_chunks b) n"
  unfolding ba_get_def chunk_bit_def chunk_size_def
  by (simp add: and_31 bit_iff_and_push_bit_not_eq_0)

lemma div_mod_32_eq: "(i :: nat) div 32 = j div 32 \<Longrightarrow> i mod 32 = j mod 32 \<Longrightarrow> i = j"
  by (metis div_mult_mod_eq)

lemma chunk_bit_set:
  assumes "n < 32 * length cs"
  shows "chunk_bit (cs[n div 32 := (cs ! (n div 32) AND NOT (push_bit (n mod 32) 1)) OR push_bit (n mod 32) (of_bool v)]) i =
    (if i = n then v else chunk_bit cs i)"
proof -
  have l: "n div 32 < length cs" using assms by (simp add: div_less_iff_less_mult mult.commute)
  have b1: "bit (push_bit k (1 :: u32)) m \<longleftrightarrow> m = k \<and> m < 32" for k m
    by (auto simp: bit_simps simp del: push_bit_of_1)
  have b2: "bit (push_bit k (of_bool v :: u32)) m \<longleftrightarrow> m = k \<and> m < 32 \<and> v" for k m
    by (cases v) (auto simp: bit_simps simp del: push_bit_of_1)
  show ?thesis
  proof (cases "i div 32 = n div 32")
    case True
    then have "i = n \<longleftrightarrow> i mod 32 = n mod 32" using div_mod_32_eq by blast
    then show ?thesis using True l by (auto simp: chunk_bit_def bit_or_iff bit_and_iff bit_not_iff b1 b2 simp del: push_bit_of_1)
  next
    case False
    then show ?thesis using l by (auto simp: chunk_bit_def)
  qed
qed

lemma clear_unused_ok:
  assumes "start \<le> 32 * m" and "m \<le> length cs"
  shows "length (clear_unused start (4 * m) cs) = length cs"
    and "i < 32 * length cs \<Longrightarrow>
      chunk_bit (clear_unused start (4 * m) cs) i \<longleftrightarrow> chunk_bit cs i \<and> (i < start \<or> 32 * m \<le> i)"
proof -
  have main: "length (clear_unused start (4 * m) cs) = length cs \<and>
      (i < 32 * length cs \<longrightarrow>
        (chunk_bit (clear_unused start (4 * m) cs) i \<longleftrightarrow> chunk_bit cs i \<and> (i < start \<or> 32 * m \<le> i)))" for i
  proof (cases "start = 32 * m")
    case True
    then show ?thesis by (auto simp: clear_unused_def)
  next
    case False
    define w where "w = cs[start div 32 := cs ! (start div 32) AND NOT (push_bit (start mod 32) (- 1))]"
    define q where "q = (start + 31) div 32"
    have q: "q \<le> m" "start \<le> 32 * q" using assms(1) by (simp_all add: q_def)
    have cl: "clear_unused start (4 * m) cs = blit w q (replicate (m - q) 0)"
    proof -
      have "32 * m - q * 32 = 32 * (m - q)" by (simp add: diff_mult_distrib2 mult.commute)
      then have "(32 * m - (start + 31) div 32 * 32) div 32 = m - q" by (simp add: q_def)
      then show ?thesis using False by (simp add: clear_unused_def Let_def chunk_size_def and_31 w_def q_def)
    qed
    have wl: "length w = length cs" by (simp add: w_def)
    have sl: "start div 32 < length cs" using False assms by (simp add: div_less_iff_less_mult)
    have wbit: "chunk_bit w i \<longleftrightarrow> chunk_bit cs i \<and> (i < start \<or> start div 32 < i div 32)"
      if "i < 32 * length cs" for i
    proof (cases "i div 32 = start div 32")
      case True
      have "i < start \<longleftrightarrow> i mod 32 < start mod 32"
        using True div_mult_mod_eq [of i 32] div_mult_mod_eq [of start 32] by linarith
      then show ?thesis using True sl
        by (auto simp: chunk_bit_def w_def bit_and_iff bit_not_iff bit_push_bit_iff bit_mask_iff)
    next
      case False
      then have "i < start \<or> start div 32 < i div 32"
        by (metis div_le_mono linorder_neqE_nat not_le)
      then show ?thesis using False by (auto simp: chunk_bit_def w_def)
    qed
    have nth: "blit w q (replicate (m - q) 0) ! k = (if q \<le> k \<and> k < m then 0 else w ! k)" if "k < length cs" for k
      using that q(1) assms(2) wl by (auto simp: blit_def nth_append)
    have "length (blit w q (replicate (m - q) 0)) = length cs"
      using q(1) assms(2) wl by (simp add: length_blit)
    moreover have "chunk_bit (blit w q (replicate (m - q) 0)) i \<longleftrightarrow> chunk_bit cs i \<and> (i < start \<or> 32 * m \<le> i)"
      if i: "i < 32 * length cs"
    proof -
      have il: "i div 32 < length cs" using i by (simp add: div_less_iff_less_mult mult.commute)
      show ?thesis
      proof (cases "q \<le> i div 32 \<and> i div 32 < m")
        case True
        then have "32 * q \<le> i" "i < 32 * m" by (simp_all add: div_less_iff_less_mult less_eq_div_iff_mult_less_eq mult.commute)
        then show ?thesis using nth [OF il] True q(2) by (simp add: chunk_bit_def)
      next
        case False
        then have same: "chunk_bit (blit w q (replicate (m - q) 0)) i = chunk_bit w i"
          by (simp only: chunk_bit_def nth [OF il] if_not_P [OF False] if_False)
        have "start div 32 < i div 32 \<longleftrightarrow> 32 * m \<le> i" if "start \<le> i"
        proof -
          have "m \<le> i div 32 \<or> i div 32 < q" using False by linarith
          moreover have "i div 32 < q \<Longrightarrow> i div 32 = start div 32" using that by (simp add: q_def)
          moreover have "start div 32 < m" using False assms(1) \<open>start \<noteq> 32 * m\<close> by (simp add: div_less_iff_less_mult)
          ultimately show ?thesis by (auto simp: less_eq_div_iff_mult_less_eq mult.commute)
        qed
        then show ?thesis unfolding same wbit [OF i] by (meson not_le)
      qed
    qed
    ultimately show ?thesis unfolding cl by simp
  qed
  show "length (clear_unused start (4 * m) cs) = length cs" using main by blast
  show "chunk_bit (clear_unused start (4 * m) cs) i \<longleftrightarrow> chunk_bit cs i \<and> (i < start \<or> 32 * m \<le> i)"
    if "i < 32 * length cs" using main [of i] that by blast
qed

subsection \<open>Every operation on the list of bits\<close>

lemma length_ba_bits [simp]: "length (ba_bits b) = ba_nbits b"
  by (simp add: ba_bits_def)

lemma nth_ba_bits: "i < ba_nbits b \<Longrightarrow> ba_bits b ! i = chunk_bit (ba_chunks b) i"
  by (simp add: ba_bits_def ba_get_bit)

lemma needed_ge: "n \<le> 32 * needed n"
proof (cases "n \<le> 64")
  case False
  obtain k where k: "bitround n = 2 ^ k" using bitround_power by blast
  have "64 < bitround n" using bitround_ge [of n] False by simp
  then have "(2::nat) ^ 6 < 2 ^ k" by (simp add: k)
  then have "6 < k" by (rule power_less_imp_less_exp [rotated]) simp
  then have "32 * (bitround n div 32) = bitround n" using le_imp_power_dvd [of 5 k "2::nat"] by (simp add: k)
  then show ?thesis using bitround_ge [of n] False by (simp add: needed_def)
qed (simp add: needed_def)

lemma needed_alloc: "64 < n \<Longrightarrow> alloc_size n = 4 * needed n \<and> 2 < needed n"
proof -
  assume n: "64 < n"
  obtain k where k: "bitround n = 2 ^ k" using bitround_power by blast
  have "64 < bitround n" using bitround_ge [of n] n by simp
  then have "(2::nat) ^ 6 < 2 ^ k" by (simp add: k)
  then have k7: "7 \<le> k" using power_less_imp_less_exp [of "2::nat" 6 k] by simp
  then obtain j where j: "k = j + 7" by (metis le_add_diff_inverse2)
  have "bitround n = 128 * 2 ^ j" by (simp add: k j power_add)
  then have "alloc_size n = 16 * 2 ^ j" "needed n = 4 * 2 ^ j" using n by (simp_all add: alloc_size_def needed_def)
  then show ?thesis using one_le_power [of "2::nat" j] by linarith
qed

lemma needed_mono: "m \<le> n \<Longrightarrow> needed m \<le> needed n"
proof -
  assume mn: "m \<le> n"
  have "bitround m \<le> bitround n"
    using bitround_power [of n] bitround_ge [of n] bitround_least [of m] mn by (metis order_trans)
  then show ?thesis using mn needed_alloc [of n] by (auto simp: needed_def div_le_mono)
qed

lemma ba_set_ok:
  assumes inv: "ba_inv b" and n: "n < ba_nbits b"
  shows "ba_inv (ba_set n v b)" "ba_bits (ba_set n v b) = (ba_bits b)[n := v]" "ba_nbits (ba_set n v b) = ba_nbits b"
proof -
  have room: "n < 32 * length (ba_chunks b)"
    using inv n needed_ge [of "ba_nbits b"] unfolding ba_inv_def by linarith
  have set: "ba_chunks (ba_set n v b) = (ba_chunks b)[n div 32 :=
      (ba_chunks b ! (n div 32) AND NOT (push_bit (n mod 32) 1)) OR push_bit (n mod 32) (of_bool v)]"
    by (simp add: ba_set_def chunk_size_def and_31 Let_def)
  have bits: "chunk_bit (ba_chunks (ba_set n v b)) i = (if i = n then v else chunk_bit (ba_chunks b) i)" for i
    unfolding set by (rule chunk_bit_set [OF room])
  show nb: "ba_nbits (ba_set n v b) = ba_nbits b" by (simp add: ba_set_def Let_def)
  show "ba_inv (ba_set n v b)"
    using inv n unfolding ba_inv_def bits nb by (simp add: set)
  show "ba_bits (ba_set n v b) = (ba_bits b)[n := v]"
    by (rule nth_equalityI) (auto simp: nb nth_ba_bits bits nth_list_update)
qed

lemma chunk_bit_append:
  "chunk_bit (xs @ ys) i = (if i < 32 * length xs then chunk_bit xs i else chunk_bit ys (i - 32 * length xs))"
proof (cases "i < 32 * length xs")
  case True
  then show ?thesis by (simp add: chunk_bit_def nth_append div_less_iff_less_mult mult.commute)
next
  case False
  then obtain j where "i = 32 * length xs + j" using le_Suc_ex not_less by metis
  then show ?thesis by (simp add: chunk_bit_def nth_append)
qed

lemma chunk_bit_take: "i < 32 * k \<Longrightarrow> chunk_bit (take k xs) i = chunk_bit xs i"
  by (simp add: chunk_bit_def div_less_iff_less_mult mult.commute)

text \<open>What a resize must do to the storage: keep the common bits, clear the rest.\<close>

definition resized :: "u32 list \<Rightarrow> nat \<Rightarrow> u32 list \<Rightarrow> nat \<Rightarrow> bool" where
  "resized cs old cs' new \<longleftrightarrow> needed new \<le> length cs' \<and>
     (\<forall>i<32 * needed new. chunk_bit cs' i \<longleftrightarrow> i < old \<and> i < new \<and> chunk_bit cs i)"

lemma ba_resize_chunks:
  assumes inv: "ba_inv b"
  shows "resized (ba_chunks b) (ba_nbits b) (ba_chunks (ba_resize junk len b)) len"
proof -
  let ?cs = "ba_chunks b" and ?n = "ba_nbits b"
  have len: "needed ?n \<le> length ?cs" and clear: "\<And>i. ?n \<le> i \<Longrightarrow> i < 32 * needed ?n \<Longrightarrow> \<not> chunk_bit ?cs i"
    using inv by (auto simp: ba_inv_def)
  have two: "2 \<le> length ?cs" using len needed_mono [of 0 ?n] by (simp add: needed_def)
  consider (ss) "?n \<le> 64" "len \<le> 64" | (sb) "?n \<le> 64" "64 < len" | (bs) "64 < ?n" "len \<le> 64" | (bb) "64 < ?n" "64 < len"
    by linarith
  then show ?thesis
  proof cases
    case ss
    show ?thesis
    proof (cases "len < ?n")
      case True
      note c = clear_unused_ok [of len 2 ?cs]
      have "ba_chunks (ba_resize junk len b) = clear_unused len 8 ?cs"
        using ss True by (simp add: ba_resize_def n_inline_def)
      then show ?thesis using c ss two True by (auto simp: resized_def needed_def)
    next
      case False
      have "ba_chunks (ba_resize junk len b) = ?cs" using ss False by (simp add: ba_resize_def n_inline_def)
      moreover have "i < ?n \<and> i < len" if "chunk_bit ?cs i" "i < 64" for i
      proof -
        have "i < ?n" using clear [of i] that ss by (auto simp: needed_def not_le [symmetric])
        then show ?thesis using False by simp
      qed
      ultimately show ?thesis using two ss False by (auto simp: resized_def needed_def)
    qed
  next
    case sb
    let ?k = "(alloc_size len - 8) div 4"
    have k: "2 + ?k = needed len" using needed_alloc [OF sb(2)] by linarith
    have cs: "ba_chunks (ba_resize junk len b) = take 2 ?cs @ replicate ?k 0"
      using sb by (simp add: ba_resize_def n_inline_def)
    have zero: "\<not> chunk_bit (replicate ?k 0) i" if "i < 32 * ?k" for i
    proof -
      have "i div 32 < ?k" using that by (simp add: div_less_iff_less_mult mult.commute)
      then show ?thesis by (simp add: chunk_bit_def)
    qed
    have "chunk_bit (take 2 ?cs @ replicate ?k 0) i \<longleftrightarrow> i < ?n \<and> i < len \<and> chunk_bit ?cs i"
      if i: "i < 32 * needed len" for i
    proof (cases "i < 64")
      case True
      then have "chunk_bit (take 2 ?cs @ replicate ?k 0) i = chunk_bit ?cs i"
        using two by (simp add: chunk_bit_append chunk_bit_take)
      then show ?thesis using clear [of i] sb True by (auto simp: needed_def not_le [symmetric])
    next
      case False
      then have "\<not> chunk_bit (take 2 ?cs @ replicate ?k 0) i"
        using two zero [of "i - 64"] i k by (simp add: chunk_bit_append)
      then show ?thesis using False sb by simp
    qed
    moreover have "needed len \<le> length (take 2 ?cs @ replicate ?k 0)" using k two by simp
    ultimately show ?thesis unfolding cs resized_def by blast
  next
    case bs
    note c = clear_unused_ok [of len 2 "take 2 ?cs"]
    have "ba_chunks (ba_resize junk len b) = clear_unused len 8 (take 2 ?cs)"
      using bs by (simp add: ba_resize_def n_inline_def)
    then show ?thesis using c bs two by (auto simp: resized_def needed_def chunk_bit_take)
  next
    case bb
    note na = needed_alloc [OF bb(1)] needed_alloc [OF bb(2)]
    show ?thesis
    proof (cases "alloc_size ?n < alloc_size len")
      case True
      let ?m = "needed len"
      let ?ds = "take ?m ?cs @ replicate (?m - length ?cs) junk"
      have cs: "ba_chunks (ba_resize junk len b) = clear_unused ?n (4 * ?m) ?ds"
        using bb True na by (simp add: ba_resize_def n_inline_def Let_def)
      have nm: "needed ?n < ?m" using True na by simp
      have nlt: "?n \<le> 32 * ?m" using needed_ge [of ?n] nm by linarith
      have dl: "length ?ds = ?m" by simp
      have less: "?n < len" using nm needed_mono [of len ?n] by (meson not_le not_less)
      note c = clear_unused_ok [OF nlt, of ?ds]
      have "chunk_bit ?ds i = chunk_bit ?cs i" if "i < ?n" for i
      proof -
        have "i < 32 * needed ?n" using that needed_ge [of ?n] by linarith
        then have "i < 32 * ?m" "i < 32 * length ?cs" using nm len by linarith+
        then show ?thesis by (simp add: chunk_bit_append chunk_bit_take min_def)
      qed
      then show ?thesis using c dl less unfolding cs resized_def by auto
    next
      case same: False
      have le: "needed len \<le> needed ?n" using same na by simp
      show ?thesis
      proof (cases "len < ?n")
        case True
        have cs: "ba_chunks (ba_resize junk len b) = clear_unused len (4 * needed len) ?cs"
          using bb same na True by (simp add: ba_resize_def n_inline_def Let_def)
        note c = clear_unused_ok [OF needed_ge [of len], of ?cs]
        have "i < 32 * length ?cs" if "i < 32 * needed len" for i using that le len by linarith
        then show ?thesis using c le len True unfolding cs resized_def by auto
      next
        case False
        have cs: "ba_chunks (ba_resize junk len b) = ?cs"
          using bb same na False by (simp add: ba_resize_def n_inline_def Let_def)
        have "needed len = needed ?n" using le needed_mono [of ?n len] False by simp
        then show ?thesis using len clear False unfolding cs resized_def by (auto simp: not_le [symmetric])
      qed
    qed
  qed
qed

lemma ba_nbits_resize [simp]: "ba_nbits (ba_resize junk len b) = len"
  by (simp add: ba_resize_def Let_def)

lemma ba_resize_ok:
  assumes inv: "ba_inv b"
  shows "ba_inv (ba_resize junk len b)" "ba_nbits (ba_resize junk len b) = len"
    "ba_bits (ba_resize junk len b) = take len (ba_bits b) @ replicate (len - ba_nbits b) False"
proof -
  note r = ba_resize_chunks [OF inv, of junk len]
  show nb: "ba_nbits (ba_resize junk len b) = len" by (simp add: ba_resize_def Let_def)
  show "ba_inv (ba_resize junk len b)" using r by (auto simp: ba_inv_def nb resized_def)
  show "ba_bits (ba_resize junk len b) = take len (ba_bits b) @ replicate (len - ba_nbits b) False"
  proof (rule nth_equalityI)
    fix i assume "i < length (ba_bits (ba_resize junk len b))"
    then have i: "i < len" by (simp add: nb)
    then have "i < 32 * needed len" using needed_ge [of len] by linarith
    then have "ba_bits (ba_resize junk len b) ! i \<longleftrightarrow> i < ba_nbits b \<and> chunk_bit (ba_chunks b) i"
      using r i by (simp add: nth_ba_bits nb resized_def)
    then show "ba_bits (ba_resize junk len b) ! i = (take len (ba_bits b) @ replicate (len - ba_nbits b) False) ! i"
      using i by (auto simp: nth_append nth_ba_bits)
  qed (simp add: nb)
qed

lemma ba_new_ok: "ba_inv ba_new" "ba_bits ba_new = []"
proof -
  have "chunk_bit [0, 0] i = False" if "i < 64" for i
    using that by (cases "i div 32") (auto simp: chunk_bit_def nth_Cons' )
  then show "ba_inv ba_new" by (auto simp: ba_inv_def ba_new_def needed_def)
qed (simp add: ba_bits_def ba_new_def)

lemma ba_append_ok:
  assumes inv: "ba_inv b"
  shows "ba_inv (ba_append junk v b)" "ba_bits (ba_append junk v b) = ba_bits b @ [v]"
proof -
  note r = ba_resize_ok [OF inv, of junk "ba_nbits b + 1"]
  have n: "ba_nbits b < ba_nbits (ba_resize junk (ba_nbits b + 1) b)" by (simp add: r)
  have app: "ba_append junk v b = ba_set (ba_nbits b) v (ba_resize junk (ba_nbits b + 1) b)"
    by (simp add: ba_append_def r Let_def)
  show "ba_inv (ba_append junk v b)" unfolding app by (rule ba_set_ok [OF r(1) n])
  have "(ba_bits b @ [False])[ba_nbits b := v] = ba_bits b @ [v]"
    using list_update_length [of "ba_bits b" False "[]" v] by simp
  then show "ba_bits (ba_append junk v b) = ba_bits b @ [v]"
    unfolding app ba_set_ok(2) [OF r(1) n] r(3) by simp
qed

lemma ba_set_slice_ok:
  "ba_inv b \<Longrightarrow> start + num \<le> ba_nbits b \<Longrightarrow> other_start + num \<le> ba_nbits other \<Longrightarrow>
    ba_inv (ba_set_slice start num other other_start b) \<and>
    ba_bits (ba_set_slice start num other other_start b) =
      blit (ba_bits b) start (slice other_start num (ba_bits other))"
proof (induction num arbitrary: start other_start b)
  case 0
  then show ?case by (simp add: blit_def)
next
  case (Suc num)
  let ?v = "ba_get other_start other"
  note s = ba_set_ok [OF Suc.prems(1), of start ?v]
  have lt: "start < ba_nbits b" "other_start < ba_nbits other" using Suc.prems by simp_all
  have v: "?v = ba_bits other ! other_start" using lt by (simp add: nth_ba_bits ba_get_bit)
  have sl: "slice other_start (Suc num) (ba_bits other) = ?v # slice (other_start + 1) num (ba_bits other)"
    using lt by (simp add: slice_def v flip: Cons_nth_drop_Suc)
  have "blit ((ba_bits b)[start := ?v]) (start + 1) (slice (other_start + 1) num (ba_bits other)) =
      blit (ba_bits b) start (slice other_start (Suc num) (ba_bits other))"
    unfolding sl using lt by (simp add: blit_def take_Suc_conv_app_nth)
  moreover have "start + 1 + num \<le> ba_nbits (ba_set start ?v b)" using s(3) lt Suc.prems by simp
  ultimately show ?case using Suc.IH [of "ba_set start ?v b" "start + 1" "other_start + 1"] s lt Suc.prems by simp
qed

lemma ba_set_resize_ok:
  assumes inv: "ba_inv b"
  shows "ba_inv (ba_set_resize junk n v b)"
    "ba_bits (ba_set_resize junk n v b) = (ba_bits b @ replicate (n + 1 - ba_nbits b) False)[n := v]"
proof -
  note r = ba_resize_ok [OF inv, of junk "n + 1"]
  show "ba_inv (ba_set_resize junk n v b)"
    using ba_set_ok(1) [OF r(1), of n v] ba_set_ok(1) [OF inv, of n v] by (auto simp: ba_set_resize_def ba_size_def r)
  show "ba_bits (ba_set_resize junk n v b) = (ba_bits b @ replicate (n + 1 - ba_nbits b) False)[n := v]"
    using ba_set_ok(2) [OF r(1), of n v] ba_set_ok(2) [OF inv, of n v]
    by (auto simp: ba_set_resize_def ba_size_def r(3) [simplified])
qed

lemma ba_slice_slow:
  assumes "ba_inv b" and "first + count \<le> ba_nbits b" and "first AND 7 \<noteq> 0"
  shows "\<exists>b'. ba_slice junk first count b = Some b' \<and> ba_inv b' \<and> ba_bits b' = slice first count (ba_bits b)"
proof -
  note r = ba_resize_ok [OF ba_new_ok(1), of junk count]
  let ?b = "ba_set_slice 0 count b first (ba_resize junk count ba_new)"
  have "ba_inv ?b" "ba_bits ?b = blit (ba_bits (ba_resize junk count ba_new)) 0 (slice first count (ba_bits b))"
    using ba_set_slice_ok [of "ba_resize junk count ba_new" 0 count first b] r assms(2) by simp_all
  moreover have "blit (ba_bits (ba_resize junk count ba_new)) 0 (slice first count (ba_bits b)) = slice first count (ba_bits b)"
    using assms(2) by (simp add: blit_def length_slice r)
  ultimately show ?thesis using assms(3) by (simp add: ba_slice_def Let_def)
qed

subsection \<open>Running a sequence of operations\<close>

datatype bit_op = BSet nat bool | BSetResize nat bool | BAppend bool | BResize nat | BReset | BGet nat

fun bit_step :: "u32 \<Rightarrow> bit_op \<Rightarrow> bitarray \<Rightarrow> bool option \<times> bitarray" where
  "bit_step junk (BSet n v) b = (None, if n < ba_size b then ba_set n v b else b)"
| "bit_step junk (BSetResize n v) b = (None, ba_set_resize junk n v b)"
| "bit_step junk (BAppend v) b = (None, ba_append junk v b)"
| "bit_step junk (BResize n) b = (None, ba_resize junk n b)"
| "bit_step junk BReset b = (None, ba_reset b)"
| "bit_step junk (BGet n) b = (Some (ba_get_or n False b), b)"

fun bit_run :: "u32 \<Rightarrow> bit_op list \<Rightarrow> bitarray \<Rightarrow> bool option list \<times> bitarray" where
  "bit_run junk [] b = ([], b)"
| "bit_run junk (x # xs) b = (let (r, b1) = bit_step junk x b in apfst (Cons r) (bit_run junk xs b1))"

fun bools_step :: "bit_op \<Rightarrow> bool list \<Rightarrow> bool option \<times> bool list" where
  "bools_step (BSet n v) xs = (None, xs[n := v])"
| "bools_step (BSetResize n v) xs = (None, (xs @ replicate (n + 1 - length xs) False)[n := v])"
| "bools_step (BAppend v) xs = (None, xs @ [v])"
| "bools_step (BResize n) xs = (None, take n xs @ replicate (n - length xs) False)"
| "bools_step BReset xs = (None, [])"
| "bools_step (BGet n) xs = (Some (n < length xs \<and> xs ! n), xs)"

fun bools_run :: "bit_op list \<Rightarrow> bool list \<Rightarrow> bool option list \<times> bool list" where
  "bools_run [] xs = ([], xs)"
| "bools_run (op # ops) xs = (let (r, xs1) = bools_step op xs in apfst (Cons r) (bools_run ops xs1))"

lemma bit_step_ok:
  assumes inv: "ba_inv b"
  shows "ba_inv (snd (bit_step junk x b)) \<and>
    bools_step x (ba_bits b) = (fst (bit_step junk x b), ba_bits (snd (bit_step junk x b)))"
proof (cases x)
  case (BSet n v)
  then show ?thesis using inv ba_set_ok [OF inv, of n v] by (simp add: ba_size_def list_update_beyond)
next
  case (BSetResize n v)
  then show ?thesis using ba_set_resize_ok [OF inv, of junk n v] by simp
next
  case (BAppend v)
  then show ?thesis using ba_append_ok [OF inv, of junk v] by simp
next
  case (BResize n)
  then show ?thesis using ba_resize_ok [OF inv, of junk n] by simp
next
  case BReset
  then show ?thesis by (simp add: ba_reset_def ba_new_ok)
next
  case (BGet n)
  then show ?thesis using inv by (auto simp: ba_get_or_def ba_size_def nth_ba_bits ba_get_bit)
qed

lemma bit_run_ok:
  "ba_inv b \<Longrightarrow> ba_inv (snd (bit_run junk xs b)) \<and>
    bools_run xs (ba_bits b) = (fst (bit_run junk xs b), ba_bits (snd (bit_run junk xs b)))"
proof (induction xs arbitrary: b)
  case (Cons x xs)
  obtain r b1 where b1: "bit_step junk x b = (r, b1)" by (cases "bit_step junk x b")
  then have "ba_inv b1" "bools_step x (ba_bits b) = (r, ba_bits b1)"
    using bit_step_ok [OF Cons.prems, of junk x] by simp_all
  then show ?case using Cons.IH [of b1] b1 by (simp add: apfst_def map_prod_def split_beta)
qed simp

subsection \<open>Properties\<close>

text \<open>
  C18. A bit array is a list of booleans: every sequence of reads, writes, appends and resizes from
  an empty array returns what a list returns, whatever fresh memory contains. In particular the
  bits that a resize brings back are always clear, through both storage forms and every
  reallocation; and the slow path of \<open>slice\<close> returns the sub-list.
\<close>

theorem bitarray_refines_list:
  assumes "bit_run junk ops ba_new = (outs, b)"
  shows "bools_run ops [] = (outs, ba_bits b) \<and>
    (first + count \<le> ba_size b \<and> first AND 7 \<noteq> 0 \<longrightarrow>
      (\<exists>b'. ba_slice junk first count b = Some b' \<and> ba_bits b' = slice first count (ba_bits b)))"
proof -
  have "ba_inv b" "bools_run ops [] = (outs, ba_bits b)"
    using bit_run_ok [OF ba_new_ok(1), of junk ops] assms by (simp_all add: ba_new_ok)
  then show ?thesis using ba_slice_slow [of b first count junk] by (auto simp: ba_size_def)
qed

theorem bitarray_refines_list_witness:
  "bools_run [BAppend True, BResize 100, BSet 70 True, BResize 65, BGet 0] [] =
      (fst (bit_run 0xFFFFFFFF [BAppend True, BResize 100, BSet 70 True, BResize 65, BGet 0] ba_new),
       ba_bits (snd (bit_run 0xFFFFFFFF [BAppend True, BResize 100, BSet 70 True, BResize 65, BGet 0] ba_new)))"
  by (rule bitarray_refines_list [OF prod.collapse [symmetric], THEN conjunct1])

definition bit8 :: bitarray where
  "bit8 = ba_set 8 True (ba_resize 0 64 ba_new)"

text \<open>
  The fast path of \<open>slice\<close>, taken when the first bit is a multiple of 8, is wrong: it adds
  a byte offset to a pointer to 32-bit chunks. For a 64-bit array whose only set bit is bit 8,
  the eight bits from bit 8 come out all clear.
\<close>

theorem bitarray_slice_wrong:
  "ba_bits bit8 = (replicate 64 False)[8 := True] \<and>
    (\<exists>b. ba_slice 0 8 8 bit8 = Some b \<and> ba_bits b = replicate 8 False) \<and>
    slice 8 8 (ba_bits bit8) = True # replicate 7 False"
proof -
  have r: "ba_inv (ba_resize 0 64 ba_new)" "ba_bits (ba_resize 0 64 ba_new) = replicate 64 False"
    using ba_resize_ok [OF ba_new_ok(1), of 0 64] by (simp_all add: ba_new_def ba_bits_def)
  have bits: "ba_bits bit8 = (replicate 64 False)[8 := True]"
    using ba_set_ok(2) [OF r(1), of 8 True] r(2) by (simp add: bit8_def)
  have cs: "ba_chunks bit8 = [256, 0]" "ba_chunks (ba_resize 0 8 ba_new) = [0, 0]"
    by code_simp+
  have "ba_slice 0 8 8 bit8 = Some ((ba_resize 0 8 ba_new)\<lparr>ba_chunks := [0, 0]\<rparr>)"
    unfolding ba_slice_def cs Let_def by code_simp
  moreover have "ba_bits ((ba_resize 0 8 ba_new)\<lparr>ba_chunks := [0, 0]\<rparr>) = replicate 8 False" by code_simp
  moreover have "slice 8 8 ((replicate 64 False)[8 := True]) = True # replicate 7 False" by code_simp
  ultimately show ?thesis using bits by simp
qed

end
