(* ===== verification/Ctype.thy ===== *)
theory Ctype
  imports Prelude
begin

text \<open>
  The character classes of \<^verbatim>\<open>arlib/string.h\<close>: a table of property bits per byte value
  (\<^verbatim>\<open>char_props\<close> of \<^verbatim>\<open>arlib/string.cpp\<close>) and the predicates and case conversions that read it.
\<close>

subsection \<open>The table and its readers\<close>

definition char_props :: "byte list" where
  "char_props =
     [0,0,0,0,0,0,0,0,0,0xC0,0xC0,0x40,0x40,0xC0,0,0] @
     [0,0,0,0,0,0,0,0,0,0,0,0,0,0,0,0] @
     [0xC0,0,0,0,0,0,0,0,0,0,0,0,0,0,0,0] @
     [0x18,0x18,0x18,0x18,0x18,0x18,0x18,0x18,0x18,0x18,0,0,0,0,0,0] @
     [0,0x38,0x38,0x38,0x38,0x38,0x38,0x30,0x30,0x30,0x30,0x30,0x30,0x30,0x30,0x30] @
     [0x30,0x30,0x30,0x30,0x30,0x30,0x30,0x30,0x30,0x30,0x30,0,0,0,0,0] @
     [0,0x38,0x38,0x38,0x38,0x38,0x38,0x30,0x30,0x30,0x30,0x30,0x30,0x30,0x30,0x30] @
     [0x30,0x30,0x30,0x30,0x30,0x30,0x30,0x30,0x30,0x30,0x30,0,0,0,0,0] @
     replicate 128 0"

definition isspace :: "byte \<Rightarrow> bool" where
  "isspace c = (char_props ! unat c AND 0x80 \<noteq> 0)"

definition iscspace :: "byte \<Rightarrow> bool" where
  "iscspace c = (char_props ! unat c AND 0x40 \<noteq> 0)"

definition isdigit :: "byte \<Rightarrow> bool" where
  "isdigit c = (0x30 \<le> c \<and> c \<le> 0x39)"

definition isalpha :: "byte \<Rightarrow> bool" where
  "isalpha c = (0x41 \<le> c \<and> c \<le> 0x5A \<or> 0x61 \<le> c \<and> c \<le> 0x7A)"

definition islower :: "byte \<Rightarrow> bool" where
  "islower c = (0x61 \<le> c \<and> c \<le> 0x7A)"

definition isupper :: "byte \<Rightarrow> bool" where
  "isupper c = (0x41 \<le> c \<and> c \<le> 0x5A)"

definition isalnum :: "byte \<Rightarrow> bool" where
  "isalnum c = (char_props ! unat c AND 0x10 \<noteq> 0)"

definition isxdigit :: "byte \<Rightarrow> bool" where
  "isxdigit c = (char_props ! unat c AND 0x08 \<noteq> 0)"

definition tolower :: "byte \<Rightarrow> byte" where
  "tolower c = c OR (char_props ! unat c AND 0x20)"

definition toupper :: "byte \<Rightarrow> byte" where
  "toupper c = c AND NOT (char_props ! unat c AND 0x20)"

subsection \<open>Facts about all byte values\<close>

lemma byte_in_range:
  assumes "a \<le> unat c" and "unat c < b"
  shows "(c :: byte) \<in> set (map word_of_nat [a..<b])"
proof -
  have "c = word_of_nat (unat c)" and "unat c \<in> set [a..<b]" using assms by simp_all
  then show ?thesis unfolding set_map by (rule image_eqI)
qed

lemma bytes_between:
  "list_all P (map word_of_nat [a..<b]) \<Longrightarrow> a \<le> unat c \<Longrightarrow> unat c < b \<Longrightarrow> P (c :: byte)"
  using byte_in_range unfolding list_all_iff by blast

lemma unat_byte: "unat (c :: byte) < 256"
  using unsigned_less [of c] by simp

definition ctype_row :: "byte \<Rightarrow> bool" where
  "ctype_row c =
     (let p = char_props ! unat c; up = isupper c; low = islower c; dig = isdigit c in
      (p AND 0x80 \<noteq> 0) = (c = 0x20 \<or> c = 0x09 \<or> c = 0x0D \<or> c = 0x0A) \<and>
      (p AND 0x40 \<noteq> 0) = (p AND 0x80 \<noteq> 0 \<or> c = 0x0B \<or> c = 0x0C) \<and>
      (p AND 0x10 \<noteq> 0) = (up \<or> low \<or> dig) \<and>
      (p AND 0x08 \<noteq> 0) = (dig \<or> 0x41 \<le> c AND NOT 0x20 \<and> c AND NOT 0x20 \<le> 0x46) \<and>
      c OR (p AND 0x20) = (if up then c + 0x20 else c) \<and>
      c AND NOT (p AND 0x20) = (if low then c - 0x20 else c))"

lemma ctype_rows_ascii: "list_all ctype_row (map word_of_nat [0..<128])"
  by code_simp

lemma char_props_high: "128 \<le> n \<Longrightarrow> n < 256 \<Longrightarrow> char_props ! n = 0"
  by (simp add: char_props_def nth_append)

lemma ctype_rows: "ctype_row c"
proof (cases "unat c < 128")
  case True
  then show ?thesis by (rule bytes_between [OF ctype_rows_ascii le0])
next
  case False
  then have high: "128 \<le> unat c" by simp
  then have p: "char_props ! unat c = 0" by (rule char_props_high) (rule unat_byte)
  have "list_all (\<lambda>c :: byte. \<not> c AND NOT 0x20 \<le> 0x46) (map word_of_nat [128..<256])" by code_simp
  then have "\<not> c AND NOT 0x20 \<le> 0x46" by (rule bytes_between [OF _ high unat_byte])
  moreover have "\<not> c \<le> 0x5A" "\<not> c \<le> 0x7A" "\<not> c \<le> 0x39" "c \<noteq> 0x20" "c \<noteq> 0x09" "c \<noteq> 0x0D" "c \<noteq> 0x0A"
    "c \<noteq> 0x0B" "c \<noteq> 0x0C"
    using False by (auto simp: word_le_nat_alt)
  ultimately show ?thesis using p by (simp add: ctype_row_def Let_def isupper_def islower_def isdigit_def)
qed

lemmas ctype_row_facts = ctype_rows [unfolded ctype_row_def Let_def]

lemma isspace_iff: "isspace c \<longleftrightarrow> c = 0x20 \<or> c = 0x09 \<or> c = 0x0D \<or> c = 0x0A"
  using ctype_row_facts [of c] by (simp add: isspace_def)

lemma isalpha_iff: "isalpha c \<longleftrightarrow> islower c \<or> isupper c"
  by (auto simp: isalpha_def islower_def isupper_def)

lemma isalnum_iff: "isalnum c \<longleftrightarrow> isalpha c \<or> isdigit c"
  using ctype_row_facts [of c] by (auto simp: isalnum_def isalpha_iff)

lemma tolower_eq: "tolower c = (if isupper c then c + 0x20 else c)"
  using ctype_row_facts [of c] by (simp add: tolower_def)

lemma toupper_eq: "toupper c = (if islower c then c - 0x20 else c)"
  using ctype_row_facts [of c] by (simp add: toupper_def)

text \<open>
  The table-driven character classes and case conversions are the ASCII ones for all 256
  byte values, as the reference functions in the library's own test define them.
\<close>

theorem ctype_correct:
  "(isspace c \<longleftrightarrow> c \<in> {0x20, 0x09, 0x0D, 0x0A}) \<and> (iscspace c \<longleftrightarrow> isspace c \<or> c \<in> {0x0B, 0x0C}) \<and>
   (isalpha c \<longleftrightarrow> islower c \<or> isupper c) \<and> (isalnum c \<longleftrightarrow> isalpha c \<or> isdigit c) \<and>
   (isxdigit c \<longleftrightarrow> isdigit c \<or> 0x41 \<le> c AND NOT 0x20 \<and> c AND NOT 0x20 \<le> 0x46) \<and>
   tolower c = (if isupper c then c + 0x20 else c) \<and> toupper c = (if islower c then c - 0x20 else c)"
  using ctype_row_facts [of c]
  by (simp add: isspace_def iscspace_def isalnum_def isxdigit_def tolower_def toupper_def isalpha_iff)
    blast

end
