(* ===== verification/Utf8.thy ===== *)
theory Utf8
  imports Endian Ctype
begin

text \<open>
  The UTF-8 functions of \<^verbatim>\<open>arlib/string.cpp\<close>: encoding a codepoint (\<^verbatim>\<open>string::codepoint\<close>), the
  validity check (\<^verbatim>\<open>cstring::isutf8\<close>) and the decoder (\<^verbatim>\<open>cstring::codepoint_at\<close>), compared with the
  encoding table of RFC 3629. A string is its list of bytes; \<open>host\<close> is the byte order of the
  machine, \<open>junk\<close> the contents of freshly allocated memory.
\<close>

subsection \<open>Encoding\<close>

definition codepoint_put :: "bool \<Rightarrow> bytes \<Rightarrow> u32 \<Rightarrow> bytes \<times> nat" where
  "codepoint_put host out cp =
     (if cp \<le> 0x7F then (out[0 := ucast cp], 1)
      else
        let cp = (if 0xD800 \<le> cp \<and> cp \<le> 0xDFFF then 0xFFFD else cp);
            cp = (if 0x10FFFF < cp then 0xFFFD else cp);
            bits = push_bit 4 (cp AND 0x00fff000) OR (cp AND 0x00000fff);
            bits = push_bit 2 (bits AND 0x0fc00fc0) OR (bits AND 0x003f003f)
        in if bits \<le> 0x00001fff then (writeu_be32 host out (push_bit 16 (bits OR 0xC080)), 2)
           else if bits \<le> 0x000fffff then (writeu_be32 host out (push_bit 8 (bits OR 0xE08080)), 3)
           else (writeu_be32 host out (bits OR 0xF0808080), 4))"

definition codepoint :: "bool \<Rightarrow> bytes \<Rightarrow> u32 \<Rightarrow> bytes" where
  "codepoint host junk cp = (let (out, n) = codepoint_put host junk cp in take n out)"

subsection \<open>Validity\<close>

definition is_continuation :: "byte \<Rightarrow> bool" where
  "is_continuation b = (b AND 0xC0 = 0x80)"

fun continuation_bits :: "u32 \<Rightarrow> bytes \<Rightarrow> u32 \<times> bytes" where
  "continuation_bits bits [] = (bits, [])"
| "continuation_bits bits (b # bs) =
     (if is_continuation b then continuation_bits (push_bit 8 bits OR ucast b) bs else (bits, b # bs))"

definition valid_bits :: "u32 \<Rightarrow> bool" where
  "valid_bits bits =
     (0xC280 \<le> bits \<and> bits \<le> 0xDFBF \<or>
      0xE0A080 \<le> bits \<and> bits XOR 0x020000 \<le> 0xEF9FBF \<or>
      0xF0908080 \<le> bits \<and> bits \<le> 0xF48FBFBF)"

lemma continuation_bits_length: "length (snd (continuation_bits bits bs)) \<le> length bs"
  by (induction bits bs rule: continuation_bits.induct) auto

function isutf8 :: "bytes \<Rightarrow> bool" where
  "isutf8 [] = True"
| "isutf8 (head # bs) =
     (if head < 0x80 then isutf8 bs
      else let (bits, rest) = continuation_bits (ucast head) bs
           in valid_bits bits \<and> isutf8 rest)"
  by pat_completeness auto
termination
proof (relation "measure length")
  fix head :: byte and bs rest :: bytes and bits :: u32 and x
  assume "x = continuation_bits (ucast head) bs" and "(bits, rest) = x"
  then have "length rest \<le> length bs"
    using continuation_bits_length [of "ucast head" bs] by (metis snd_conv)
  then show "(rest, head # bs) \<in> measure length" by simp
qed simp_all

subsection \<open>Decoding\<close>

text \<open>
  The \<^verbatim>\<open>do\<close> loop of \<^verbatim>\<open>codepoint_at\<close>: \<open>s\<close> is the string from the current index, \<open>remaining\<close> how many of
  its bytes are left, \<open>iter\<close> the head byte shifted once per byte read.
\<close>

function codepoint_loop :: "bytes \<Rightarrow> u32 \<Rightarrow> byte \<Rightarrow> nat \<Rightarrow> nat \<Rightarrow> u32 \<times> nat" where
  "codepoint_loop s bits iter remaining n =
     (let bits = push_bit 8 bits OR ucast (s ! n); n = n + 1; iter = push_bit 1 iter
      in if iter AND 0x80 \<noteq> 0 \<and> remaining - 1 \<noteq> 0 \<and> is_continuation (s ! n)
         then codepoint_loop s bits iter (remaining - 1) n else (bits, n))"
  by pat_completeness auto
termination by (relation "measure (\<lambda>(s, bits, iter, remaining, n). remaining)") auto

definition unpack_bits :: "u32 \<Rightarrow> u32" where
  "unpack_bits bits =
     (let bits = (bits AND 0x003f003f) OR drop_bit 2 (bits AND 0x0f003f00)
      in (bits AND 0x00000fff) OR drop_bit 4 (bits AND 0x0fff0000))"

definition codepoint_at :: "bytes \<Rightarrow> nat \<Rightarrow> u32 \<times> nat" where
  "codepoint_at str idx =
     (let s = drop idx str; head = s ! 0 in
      if head < 0x80 then (ucast head, idx + 1)
      else
        let (bits, n) = codepoint_loop s 0 head (length s) 0 in
        if 0xC280 \<le> bits \<and> bits \<le> 0xDFBF then (unpack_bits bits, idx + n)
        else if 0xE0A080 \<le> bits \<and> bits XOR 0x020000 \<le> 0xEF9FBF
        then (unpack_bits (bits AND NOT 0x200000), idx + n)
        else if 0xF0908080 \<le> bits \<and> bits \<le> 0xF48FBFBF then (unpack_bits bits, idx + n)
        else (0xDC00 OR ucast head, idx + 1))"

subsection \<open>The encoding of RFC 3629\<close>

definition scalar_value :: "nat \<Rightarrow> bool" where
  "scalar_value n = (n \<le> 0x10FFFF \<and> \<not> (0xD800 \<le> n \<and> n \<le> 0xDFFF))"

definition utf8_units :: "nat \<Rightarrow> nat list" where
  "utf8_units n =
     (if n < 0x80 then [n]
      else if n < 0x800 then [0xC0 + n div 64, 0x80 + n mod 64]
      else if n < 0x10000 then [0xE0 + n div 64 ^ 2, 0x80 + n div 64 mod 64, 0x80 + n mod 64]
      else [0xF0 + n div 64 ^ 3, 0x80 + n div 64 ^ 2 mod 64, 0x80 + n div 64 mod 64, 0x80 + n mod 64])"

definition utf8_encode :: "nat \<Rightarrow> bytes" where
  "utf8_encode n = map word_of_nat (utf8_units n)"

subsection \<open>Words built from bytes\<close>

lemma or_eq_plus: "(\<And>n. \<not> bit a n \<or> \<not> bit b n) \<Longrightarrow> a OR b = (a :: 'a::len word) + b"
  by (simp add: disjunctive_add)

lemma unat_shift_in: "unat (push_bit 8 w OR ucast b :: u32) = (unat w * 256 + unat (b :: byte)) mod 2 ^ 32"
proof -
  have "push_bit 8 w OR ucast b = (push_bit 8 w + ucast b :: u32)"
    by (rule or_eq_plus) (auto simp: bit_simps)
  then show ?thesis
    by (simp add: unat_word_ariths unsigned_push_bit_eq unsigned_ucast_eq take_bit_eq_mod push_bit_eq_mult mod_simps)
qed

lemma continuation_iff: "is_continuation b \<longleftrightarrow> 0x80 \<le> unat b \<and> unat b < 0xC0"
proof -
  have "list_all (\<lambda>b. is_continuation b = (0x80 \<le> unat b \<and> unat b < 0xC0)) (map word_of_nat [0..<256])"
    by code_simp
  then show ?thesis by (rule bytes_between [OF _ le0 unat_byte])
qed

lemma head_flip:
  assumes "0xE0 \<le> unat (h :: byte)"
  shows "unat (h XOR 2) = (if unat h mod 4 < 2 then unat h + 2 else unat h - 2)"
proof -
  have "list_all (\<lambda>h :: byte. unat (h XOR 2) = (if unat h mod 4 < 2 then unat h + 2 else unat h - 2))
      (map word_of_nat [0xE0..<256])"
    by code_simp
  then show ?thesis by (rule bytes_between [OF _ assms unat_byte])
qed

subsection \<open>Which byte sequences are encodings\<close>

lemma units_bytes: "n \<le> 0x10FFFF \<Longrightarrow> list_all (\<lambda>u. u < 256) (utf8_units n)"
  by (auto simp: utf8_units_def power2_eq_square power3_eq_cube)

lemma encode_units:
  assumes "n \<le> 0x10FFFF"
  shows "utf8_encode n = bs \<longleftrightarrow> utf8_units n = map unat bs"
proof -
  have "map unat (utf8_encode n) = utf8_units n"
    using units_bytes [OF assms] by (auto simp: utf8_encode_def list_all_iff unat_of_nat intro!: map_idI)
  moreover have "inj (unat :: byte \<Rightarrow> nat)" by (rule injI) (rule unsigned_word_eqI)
  ultimately show ?thesis by (metis inj_map_eq_map)
qed

lemma digit64: "z < 64 \<Longrightarrow> (64 * m + z) div 64 = m" "z < 64 \<Longrightarrow> (64 * m + z) mod 64 = (z :: nat)"
  by simp_all

lemma power64: "n div 64 ^ 2 = n div 64 div (64 :: nat)" "n div 64 ^ 3 = n div 64 div 64 div (64 :: nat)"
  by (simp_all add: power2_eq_square power3_eq_cube div_mult2_eq)

lemma split64: "\<exists>q r. m = 64 * q + r \<and> r < (64 :: nat)"
  by (intro exI [of _ "m div 64"] exI [of _ "m mod 64"]) simp

lemma continuation_digit: "0x80 \<le> b \<Longrightarrow> b < 0xC0 \<Longrightarrow> \<exists>y<64. b = 0x80 + (y :: nat)"
  by (rule exI [of _ "b - 0x80"]) simp

lemma units_two:
  assumes "0x80 \<le> b" "b < 0xC0"
  shows "(\<exists>n. scalar_value n \<and> utf8_units n = [h, b]) \<longleftrightarrow> 0xC2 \<le> h \<and> h \<le> 0xDF"
proof
  assume h: "0xC2 \<le> h \<and> h \<le> 0xDF"
  obtain y where y: "y < 64" "b = 0x80 + y" using continuation_digit [OF assms] by blast
  obtain x where x: "h = 0xC0 + x" "2 \<le> x" "x < 32" using h by (intro that [of "h - 0xC0"]) auto
  have "scalar_value (64 * x + y) \<and> utf8_units (64 * x + y) = [h, b]"
    using x y by (simp add: scalar_value_def utf8_units_def digit64)
  then show "\<exists>n. scalar_value n \<and> utf8_units n = [h, b]" by blast
next
  assume "\<exists>n. scalar_value n \<and> utf8_units n = [h, b]"
  then show "0xC2 \<le> h \<and> h \<le> 0xDF" by (auto simp: utf8_units_def split: if_splits)
qed

lemma units_three:
  assumes "0x80 \<le> b" "b < 0xC0" "0x80 \<le> c" "c < 0xC0"
  shows "(\<exists>n. scalar_value n \<and> utf8_units n = [h, b, c]) \<longleftrightarrow>
    0xE0 \<le> h \<and> h \<le> 0xEF \<and> (h = 0xE0 \<longrightarrow> 0xA0 \<le> b) \<and> (h = 0xED \<longrightarrow> b < 0xA0)"
    (is "_ \<longleftrightarrow> ?ok")
proof
  assume ok: ?ok
  obtain y where y: "y < 64" "b = 0x80 + y" using continuation_digit [OF assms(1,2)] by blast
  obtain z where z: "z < 64" "c = 0x80 + z" using continuation_digit [OF assms(3,4)] by blast
  obtain x where x: "h = 0xE0 + x" "x < 16" using ok by (intro that [of "h - 0xE0"]) auto
  define m where "m = 64 * x + y"
  have m: "32 \<le> m" "m < 1024" "m div 64 = x" "m mod 64 = y"
    using ok x y by (auto simp: m_def)
  moreover have gap: "\<not> (864 \<le> m \<and> m < 896)"
  proof
    assume "864 \<le> m \<and> m < 896"
    then have "x = 13" using y by (simp add: m_def)
    then have "32 \<le> y" using \<open>864 \<le> m \<and> m < 896\<close> by (simp add: m_def)
    then show False using \<open>x = 13\<close> ok x y by simp
  qed
  have "0x800 \<le> 64 * m + z" "64 * m + z < 0x10000" using m z by linarith+
  moreover have "(64 * m + z) div 64 = m" "(64 * m + z) mod 64 = z" using z by (simp_all add: digit64)
  moreover have "scalar_value (64 * m + z)" using m gap z unfolding scalar_value_def by linarith
  ultimately have "scalar_value (64 * m + z) \<and> utf8_units (64 * m + z) = [h, b, c]"
    using m x y z by (simp add: utf8_units_def power64)
  then show "\<exists>n. scalar_value n \<and> utf8_units n = [h, b, c]" by blast
next
  assume "\<exists>n. scalar_value n \<and> utf8_units n = [h, b, c]"
  then obtain n where n: "scalar_value n" "0x800 \<le> n" "n < 0x10000" "h = 0xE0 + n div 64 div 64"
      "b = 0x80 + n div 64 mod 64"
    by (auto simp: utf8_units_def power64 split: if_splits)
  define m where "m = n div 64"
  have "32 \<le> m" "m < 1024" "\<not> (864 \<le> m \<and> m < 896)" "h = 0xE0 + m div 64" "b = 0x80 + m mod 64"
    using n by (auto simp: m_def scalar_value_def)
  moreover obtain q r where "m = 64 * q + r" "r < 64" using split64 by blast
  ultimately show ?ok by auto
qed

lemma units_four:
  assumes "0x80 \<le> b" "b < 0xC0" "0x80 \<le> c" "c < 0xC0" "0x80 \<le> d" "d < 0xC0"
  shows "(\<exists>n. scalar_value n \<and> utf8_units n = [h, b, c, d]) \<longleftrightarrow>
    0xF0 \<le> h \<and> h \<le> 0xF4 \<and> (h = 0xF0 \<longrightarrow> 0x90 \<le> b) \<and> (h = 0xF4 \<longrightarrow> b < 0x90)"
    (is "_ \<longleftrightarrow> ?ok")
proof
  assume ok: ?ok
  obtain y where y: "y < 64" "b = 0x80 + y" using continuation_digit [OF assms(1,2)] by blast
  obtain z where z: "z < 64" "c = 0x80 + z" using continuation_digit [OF assms(3,4)] by blast
  obtain w where w: "w < 64" "d = 0x80 + w" using continuation_digit [OF assms(5,6)] by blast
  obtain x where x: "h = 0xF0 + x" "x < 5" using ok by (intro that [of "h - 0xF0"]) auto
  define m where "m = 64 * x + y"
  have m: "16 \<le> m" "m < 272" "m div 64 = x" "m mod 64 = y" using ok x y by (auto simp: m_def)
  define k where "k = 64 * m + z"
  have k: "1024 \<le> k" "k < 17408" "k div 64 = m" "k mod 64 = z" using m z by (auto simp: k_def digit64)
  have "0x10000 \<le> 64 * k + w" "64 * k + w \<le> 0x10FFFF" using k w by linarith+
  moreover have "(64 * k + w) div 64 = k" "(64 * k + w) mod 64 = w" using w by (simp_all add: digit64)
  moreover from this have "(64 * k + w) div 64 ^ 3 = x" "(64 * k + w) div 64 ^ 2 mod 64 = y"
    using k m by (simp_all only: power64)
  ultimately have "scalar_value (64 * k + w) \<and> utf8_units (64 * k + w) = [h, b, c, d]"
    using k m x y z w by (simp add: utf8_units_def power64 scalar_value_def)
  then show "\<exists>n. scalar_value n \<and> utf8_units n = [h, b, c, d]" by blast
next
  assume "\<exists>n. scalar_value n \<and> utf8_units n = [h, b, c, d]"
  then obtain n where n: "n \<le> 0x10FFFF" "0x10000 \<le> n" "h = 0xF0 + n div 262144"
      "b = 0x80 + n div 4096 mod 64"
    by (auto simp: utf8_units_def scalar_value_def split: if_splits)
  define m where "m = n div 4096"
  have "16 \<le> m" "m < 272" "h = 0xF0 + m div 64" "b = 0x80 + m mod 64"
    using n by (auto simp: m_def simp flip: div_mult2_eq)
  moreover obtain q r where "m = 64 * q + r" "r < 64" using split64 by blast
  ultimately show ?ok by auto
qed

subsection \<open>Four bytes in a word\<close>

definition be4 :: "byte \<Rightarrow> byte \<Rightarrow> byte \<Rightarrow> byte \<Rightarrow> u32" where
  "be4 a b c d = push_bit 24 (ucast a) OR push_bit 16 (ucast b) OR push_bit 8 (ucast c) OR ucast d"

lemma bit_be4:
  "bit (be4 a b c d) n \<longleftrightarrow>
    (if n < 8 then bit d n else if n < 16 then bit c (n - 8) else if n < 24 then bit b (n - 16) else bit a (n - 24))"
  by (auto simp: be4_def bit_simps dest: bit_imp_le_length)

lemma unat_ucast_byte: "unat (ucast (b :: byte) :: u32) = unat b"
  using unat_byte [of b] by (simp add: unsigned_ucast_eq take_bit_eq_mod)

lemma shift4:
  "push_bit 8 (push_bit 8 (push_bit 8 (push_bit 8 w OR ucast a) OR ucast b) OR ucast c) OR ucast d = be4 a b c d"
  by (rule bit_word_eqI) (auto simp: bit_be4 bit_simps dest: bit_imp_le_length)

lemma unat_be4: "unat (be4 a b c d) = unat a * 2 ^ 24 + unat b * 2 ^ 16 + unat c * 2 ^ 8 + unat d"
proof -
  have "unat a < 256" "unat b < 256" "unat c < 256" "unat d < 256" by (rule unat_byte)+
  then show ?thesis unfolding shift4 [of 0 a, symmetric] unat_shift_in by simp
qed

lemma be4_small: "ucast d = be4 0 0 0 d" "push_bit 8 (ucast c) OR ucast d = be4 0 0 c d"
  "push_bit 8 (push_bit 8 (ucast b) OR ucast c) OR ucast d = be4 0 b c d"
  by (rule bit_word_eqI; auto simp: bit_be4 bit_simps dest: bit_imp_le_length)+


lemma be4_xor: "be4 a b c d XOR 0x020000 = be4 a (b XOR 2) c d"
proof -
  have e: "(0x020000 :: int) = push_bit 17 1" "(2 :: int) = push_bit 1 1" by simp_all
  have bits: "bit (0x020000 :: int) n \<longleftrightarrow> n = 17" "bit (2 :: int) n \<longleftrightarrow> n = 1" for n
    unfolding e bit_push_bit_iff bit_1_iff by auto
  show ?thesis
    by (rule bit_word_eqI) (auto simp: bit_be4 bit_xor_iff bits)
qed

definition shift_bytes :: "u32 \<Rightarrow> bytes \<Rightarrow> u32" where
  "shift_bytes = foldl (\<lambda>w b. push_bit 8 w OR ucast b)"

lemma continuation_bits_eq:
  "continuation_bits w bs = (shift_bytes w (takeWhile is_continuation bs), dropWhile is_continuation bs)"
  by (induction w bs rule: continuation_bits.induct) (auto simp: shift_bytes_def)

lemma length_at_least_4:
  assumes "4 \<le> length xs"
  obtains ys a b c d where "xs = ys @ [a, b, c, d]"
proof -
  define zs where "zs = drop (length xs - 4) xs"
  have "length zs = 4" using assms by (simp add: zs_def)
  then obtain a b c d where "zs = [a, b, c, d]" by (auto simp: eval_nat_numeral length_Suc_conv)
  then have "xs = take (length xs - 4) xs @ [a, b, c, d]" unfolding zs_def by (metis append_take_drop_id)
  then show thesis by (rule that)
qed

lemma list_shapes:
  obtains "xs = []" | a where "xs = [a]" | a b where "xs = [a, b]" | a b c where "xs = [a, b, c]"
  | ys a b c d where "xs = ys @ [a, b, c, d]"
proof (cases "4 \<le> length xs")
  case True
  then show thesis using that(5) by (rule length_at_least_4)
next
  case False
  then consider "length xs = 0" | "length xs = 1" | "length xs = 2" | "length xs = 3" by linarith
  then show thesis using that(1-4) by cases (auto simp: eval_nat_numeral length_Suc_conv)
qed

lemma valid_bits_1: "\<not> valid_bits (ucast (h :: byte))"
  unfolding be4_small(1) valid_bits_def be4_xor word_le_nat_alt unat_be4 using unat_byte [of h] by simp

lemma valid_bits_2:
  "0x80 \<le> unat b \<Longrightarrow> unat b < 0xC0 \<Longrightarrow> valid_bits (be4 0 0 h b) \<longleftrightarrow> 0xC2 \<le> unat h \<and> unat h \<le> 0xDF"
  unfolding valid_bits_def be4_xor word_le_nat_alt unat_be4 using unat_byte [of h] by simp linarith

lemma valid_bits_3:
  assumes "0x80 \<le> unat b" "unat b < 0xC0" "0x80 \<le> unat c" "unat c < 0xC0" "0x80 \<le> unat h"
  shows "valid_bits (be4 0 h b c) \<longleftrightarrow>
    0xE0 \<le> unat h \<and> unat h \<le> 0xEF \<and> (unat h = 0xE0 \<longrightarrow> 0xA0 \<le> unat b) \<and> (unat h = 0xED \<longrightarrow> unat b < 0xA0)"
proof (cases "0xE0 \<le> unat h")
  case True
  define x y z x' where "x = unat h" and "y = unat b" and "z = unat c" and "x' = unat (h XOR 2)"
  note defs = this
  have "x' = (if x mod 4 < 2 then x + 2 else x - 2)" using head_flip [OF True] by (simp add: defs)
  then have flip: "x' < 0xEF \<longleftrightarrow> x < 0xED \<or> x = 0xEE \<or> x = 0xEF" "x' = 0xEF \<longleftrightarrow> x = 0xED" by presburger+
  have range: "0xE0 \<le> x" "x < 256" "0x80 \<le> y" "y < 0xC0" "0x80 \<le> z" "z < 0xC0"
    using assms True unat_byte [of h] by (simp_all add: defs)
  have "\<not> x * 65536 + y * 256 + z \<le> 0xDFBF" "\<not> 0xF0908080 \<le> x * 65536 + y * 256 + z" using range by linarith+
  moreover have "0xE0A080 \<le> x * 65536 + y * 256 + z \<longleftrightarrow> 0xE0 < x \<or> 0xA0 \<le> y" using range by linarith
  moreover have "x' * 65536 + y * 256 + z \<le> 0xEF9FBF \<longleftrightarrow> x' < 0xEF \<or> x' = 0xEF \<and> y < 0xA0" using range by linarith
  ultimately have "valid_bits (be4 0 h b c) \<longleftrightarrow> (0xE0 < x \<or> 0xA0 \<le> y) \<and> (x' < 0xEF \<or> x' = 0xEF \<and> y < 0xA0)"
    unfolding valid_bits_def be4_xor word_le_nat_alt unat_be4 by (simp flip: defs)
  then show ?thesis unfolding flip defs [symmetric] using range by auto
next
  case False
  then show ?thesis
    unfolding valid_bits_def be4_xor word_le_nat_alt unat_be4 using assms by auto
qed


lemma valid_bits_4:
  assumes "0x80 \<le> unat b" "unat b < 0xC0" "0x80 \<le> unat h" "0x80 \<le> unat c" "unat c < 0xC0" "0x80 \<le> unat d" "unat d < 0xC0"
  shows "valid_bits (be4 h b c d) \<longleftrightarrow>
    0xF0 \<le> unat h \<and> unat h \<le> 0xF4 \<and> (unat h = 0xF0 \<longrightarrow> 0x90 \<le> unat b) \<and> (unat h = 0xF4 \<longrightarrow> unat b < 0x90)"
proof -
  define x y z w y' where "x = unat h" and "y = unat b" and "z = unat c" and "w = unat d" and "y' = unat (b XOR 2)"
  note defs = this
  have range: "0x80 \<le> x" "x < 256" "0x80 \<le> y" "y < 0xC0" "0x80 \<le> z" "z < 0xC0" "0x80 \<le> w" "w < 0xC0"
    using assms unat_byte [of h] by (simp_all add: defs)
  have "\<not> x * 16777216 + y * 65536 + z * 256 + w \<le> 0xDFBF" "\<not> x * 16777216 + y' * 65536 + z * 256 + w \<le> 0xEF9FBF"
    using range by linarith+
  moreover have "0xF0908080 \<le> x * 16777216 + y * 65536 + z * 256 + w \<longleftrightarrow> 0xF0 < x \<or> x = 0xF0 \<and> 0x90 \<le> y"
    using range by linarith
  moreover have "x * 16777216 + y * 65536 + z * 256 + w \<le> 0xF48FBFBF \<longleftrightarrow> x < 0xF4 \<or> x = 0xF4 \<and> y < 0x90"
    using range by linarith
  ultimately have "valid_bits (be4 h b c d) \<longleftrightarrow> (0xF0 < x \<or> x = 0xF0 \<and> 0x90 \<le> y) \<and> (x < 0xF4 \<or> x = 0xF4 \<and> y < 0x90)"
    unfolding valid_bits_def be4_xor word_le_nat_alt unat_be4 by (simp flip: defs)
  then show ?thesis unfolding defs [symmetric] by auto
qed

lemma units_length: "length (utf8_units n) \<in> {1, 2, 3, 4}"
  by (simp add: utf8_units_def)

lemma units_one: "utf8_units n = [u] \<longleftrightarrow> n = u \<and> u < 0x80"
  by (auto simp: utf8_units_def)

lemma valid_encoding:
  assumes h: "0x80 \<le> unat h" and cs: "list_all is_continuation cs"
  shows "valid_bits (shift_bytes (ucast h) cs) \<longleftrightarrow> (\<exists>n. scalar_value n \<and> utf8_encode n = h # cs)"
proof -
  have enc: "(\<exists>n. scalar_value n \<and> utf8_encode n = h # cs) \<longleftrightarrow>
      (\<exists>n. scalar_value n \<and> utf8_units n = unat h # map unat cs)"
    using encode_units by (auto simp: scalar_value_def)
  show ?thesis
  proof (cases cs rule: list_shapes)
    case 1
    then show ?thesis unfolding enc using h by (simp add: shift_bytes_def valid_bits_1 units_one)
  next
    case (2 b)
    then show ?thesis unfolding enc using cs
      by (simp add: shift_bytes_def be4_small(2) valid_bits_2 continuation_iff units_two)
  next
    case (3 b c)
    then have "shift_bytes (ucast h) cs = be4 0 h b c"
      using be4_small(3) [of h b c] by (simp add: shift_bytes_def)
    then show ?thesis unfolding enc using cs h 3
      by (simp add: valid_bits_3 continuation_iff units_three)
  next
    case (4 b c d)
    then have "shift_bytes (ucast h) cs = be4 h b c d"
      using shift4 [of 0 h b c d] by (simp add: shift_bytes_def)
    then show ?thesis unfolding enc using cs h 4
      by (simp add: valid_bits_4 continuation_iff units_four)
  next
    case (5 ys a b c d)
    then have "shift_bytes (ucast h) cs = be4 a b c d"
      by (simp only: shift_bytes_def foldl_append foldl.simps shift4)
    then have "\<not> valid_bits (shift_bytes (ucast h) cs)"
      using cs 5 by (simp add: valid_bits_4 continuation_iff)
    moreover have "utf8_units n \<noteq> unat h # map unat cs" for n
      using units_length [of n] 5 by (auto dest: arg_cong [of _ _ length])
    ultimately show ?thesis unfolding enc by blast
  qed
qed

end
