(* ===== verification/Utf8_Correct.thy ===== *)
theory Utf8_Correct
  imports Utf8
begin

text \<open>
  Correctness of the UTF-8 functions: the validity check accepts exactly the concatenations of
  RFC 3629 encodings, the decoder returns the codepoint whose encoding starts at the index (and
  a marker otherwise), and the encoder writes the encoding.
\<close>

subsection \<open>Validity\<close>

definition utf8_text :: "bytes \<Rightarrow> bool" where
  "utf8_text bs \<longleftrightarrow> (\<exists>ns. list_all scalar_value ns \<and> bs = concat (map utf8_encode ns))"

lemma word_of_nat_bytes: "m < 256 \<Longrightarrow> unat (word_of_nat m :: byte) = m"
  by (simp add: unat_of_nat)

lemma encode_shape:
  assumes "scalar_value n"
  obtains h ks where "utf8_encode n = h # ks" and "list_all is_continuation ks" and "\<not> is_continuation h"
    and "unat h < 0x80 \<longrightarrow> ks = []" and "ks = [] \<longrightarrow> h = word_of_nat n \<and> n < 0x80"
proof -
  have n: "n \<le> 0x10FFFF" using assms by (simp add: scalar_value_def)
  have cont: "is_continuation (word_of_nat (0x80 + m mod 64))" for m
  proof -
    have "m mod 64 < 64" by simp
    then have "0x80 + m mod 64 < 256" by linarith
    then show ?thesis by (simp add: continuation_iff word_of_nat_bytes del: of_nat_add)
  qed
  have head: "unat (word_of_nat m :: byte) = m \<and> \<not> is_continuation (word_of_nat m)" if "0xC0 \<le> m" "m < 256" for m
    using that by (simp add: continuation_iff word_of_nat_bytes)
  consider "n < 0x80" | "0x80 \<le> n" "n < 0x800" | "0x800 \<le> n" "n < 0x10000" | "0x10000 \<le> n" by linarith
  then show thesis
  proof cases
    case 1
    show thesis by (rule that [of "word_of_nat n" "[]"])
      (use 1 in \<open>simp_all add: utf8_encode_def utf8_units_def continuation_iff word_of_nat_bytes\<close>)
  next
    case 2
    then have "0xC0 + n div 64 < 256" by simp
    note h = head [OF le_add1 this]
    show thesis by (rule that [of "word_of_nat (0xC0 + n div 64)" "[word_of_nat (0x80 + n mod 64)]"])
      (use 2 h cont in \<open>simp_all add: utf8_encode_def utf8_units_def del: of_nat_add\<close>)
  next
    case 3
    then have "n div 64 ^ 2 < 16" by (simp add: power64)
    then have "0xE0 + n div 64 ^ 2 < 256" by linarith
    note h = head [OF _ this]
    show thesis by (rule that [of "word_of_nat (0xE0 + n div 64 ^ 2)"
          "map word_of_nat [0x80 + n div 64 mod 64, 0x80 + n mod 64]"])
      (use 3 h cont in \<open>simp_all add: utf8_encode_def utf8_units_def del: of_nat_add\<close>)
  next
    case 4
    then have "n div 64 ^ 3 < 5" using n by (simp add: power64)
    then have "0xF0 + n div 64 ^ 3 < 256" by linarith
    note h = head [OF _ this]
    show thesis by (rule that [of "word_of_nat (0xF0 + n div 64 ^ 3)"
          "map word_of_nat [0x80 + n div 64 ^ 2 mod 64, 0x80 + n div 64 mod 64, 0x80 + n mod 64]"])
      (use 4 h cont in \<open>simp_all add: utf8_encode_def utf8_units_def del: of_nat_add\<close>)
  qed
qed

lemma utf8_text_Nil: "utf8_text []"
  unfolding utf8_text_def by (rule exI [of _ "[]"]) simp

lemma utf8_text_Cons: "scalar_value n \<Longrightarrow> utf8_text bs \<Longrightarrow> utf8_text (utf8_encode n @ bs)"
proof -
  assume n: "scalar_value n" and "utf8_text bs"
  then obtain ns where "list_all scalar_value ns" "bs = concat (map utf8_encode ns)"
    unfolding utf8_text_def by blast
  then show ?thesis unfolding utf8_text_def using n by (intro exI [of _ "n # ns"]) simp
qed

lemma utf8_text_cases:
  assumes "utf8_text bs" and "bs \<noteq> []"
  obtains n rest where "scalar_value n" "bs = utf8_encode n @ rest" "utf8_text rest"
proof -
  obtain ns where ns: "list_all scalar_value ns" "bs = concat (map utf8_encode ns)"
    using assms(1) unfolding utf8_text_def by blast
  then obtain m ms where "ns = m # ms" using assms(2) by (cases ns) auto
  then show thesis using that [of m "concat (map utf8_encode ms)"] ns unfolding utf8_text_def by auto
qed

lemma utf8_text_head: "utf8_text (b # bs) \<Longrightarrow> \<not> is_continuation b"
proof -
  assume "utf8_text (b # bs)"
  then obtain n rest where n: "scalar_value n" "b # bs = utf8_encode n @ rest" by (rule utf8_text_cases) simp
  obtain h ks where "utf8_encode n = h # ks" "\<not> is_continuation h" using n(1) by (rule encode_shape)
  then show ?thesis using n(2) by simp
qed

lemma takeWhile_run:
  "list_all P ks \<Longrightarrow> (rest = [] \<or> \<not> P (hd rest)) \<Longrightarrow> takeWhile P (ks @ rest) = ks \<and> dropWhile P (ks @ rest) = rest"
  by (induction ks) (auto simp: takeWhile_eq_Nil_iff dropWhile_eq_self_iff)

lemma isutf8_Cons:
  "isutf8 (head # bs) =
    (if unat head < 0x80 then isutf8 bs
     else valid_bits (shift_bytes (ucast head) (takeWhile is_continuation bs)) \<and>
       isutf8 (dropWhile is_continuation bs))"
  by (simp add: continuation_bits_eq word_less_nat_alt)

declare isutf8.simps(2) [simp del]

lemma utf8_text_ascii:
  assumes small: "unat head < 0x80"
  shows "utf8_text (head # bs) \<longleftrightarrow> utf8_text bs"
proof
  assume "utf8_text (head # bs)"
  then obtain n rest where n: "scalar_value n" "head # bs = utf8_encode n @ rest" "utf8_text rest"
    by (rule utf8_text_cases) simp
  obtain h ks where "utf8_encode n = h # ks" "unat h < 0x80 \<longrightarrow> ks = []" using n(1) by (rule encode_shape)
  then show "utf8_text bs" using n small by simp
next
  have e: "utf8_encode (unat head) = [head]" "scalar_value (unat head)"
    using small by (simp_all add: utf8_encode_def utf8_units_def scalar_value_def)
  assume "utf8_text bs"
  then show "utf8_text (head # bs)" using utf8_text_Cons [OF e(2)] e(1) by simp
qed

lemma utf8_text_multi:
  assumes big: "0x80 \<le> unat head"
  shows "utf8_text (head # bs) \<longleftrightarrow>
    valid_bits (shift_bytes (ucast head) (takeWhile is_continuation bs)) \<and> utf8_text (dropWhile is_continuation bs)"
proof -
  define cs rest where "cs = takeWhile is_continuation bs" and "rest = dropWhile is_continuation bs"
  have bs: "bs = cs @ rest" by (simp add: cs_def rest_def)
  have run: "list_all is_continuation cs" unfolding cs_def list_all_iff by (blast dest: set_takeWhileD)
  note valid = valid_encoding [OF big run]
  have "valid_bits (shift_bytes (ucast head) cs) \<and> utf8_text rest \<longleftrightarrow> utf8_text (head # bs)"
  proof
    assume "valid_bits (shift_bytes (ucast head) cs) \<and> utf8_text rest"
    then obtain n where "scalar_value n" "utf8_encode n = head # cs" "utf8_text rest"
      using valid by blast
    then show "utf8_text (head # bs)" using utf8_text_Cons [of n rest] bs by simp
  next
    assume "utf8_text (head # bs)"
    then obtain n rest' where n: "scalar_value n" "head # bs = utf8_encode n @ rest'" "utf8_text rest'"
      by (rule utf8_text_cases) simp
    obtain h ks where ks: "utf8_encode n = h # ks" "list_all is_continuation ks" using n(1) by (rule encode_shape)
    have "rest' = [] \<or> \<not> is_continuation (hd rest')"
      using n(3) utf8_text_head by (cases rest') auto
    moreover have eq: "h = head" "bs = ks @ rest'" using n(2) ks(1) by simp_all
    ultimately have same: "cs = ks" "rest = rest'"
      using takeWhile_run [OF ks(2)] unfolding cs_def rest_def by simp_all
    have "utf8_encode n = head # cs" using ks(1) eq same by simp
    then show "valid_bits (shift_bytes (ucast head) cs) \<and> utf8_text rest"
      using valid n(1,3) same by blast
  qed
  then show ?thesis by (simp only: cs_def rest_def)
qed

lemma isutf8_text: "isutf8 bs \<longleftrightarrow> utf8_text bs"
proof (induction "length bs" arbitrary: bs rule: less_induct)
  case less
  show ?case
  proof (cases bs)
    case Nil
    then show ?thesis by (simp add: utf8_text_Nil)
  next
    case (Cons head tl)
    show ?thesis
    proof (cases "unat head < 0x80")
      case True
      have "isutf8 tl \<longleftrightarrow> utf8_text tl" using less Cons by simp
      then show ?thesis unfolding Cons utf8_text_ascii [OF True] isutf8_Cons using True by simp
    next
      case False
      have "length (dropWhile is_continuation tl) < length bs"
        using length_dropWhile_le [of is_continuation tl] Cons by simp
      then have "isutf8 (dropWhile is_continuation tl) \<longleftrightarrow> utf8_text (dropWhile is_continuation tl)" using less by blast
      then show ?thesis unfolding Cons isutf8_Cons utf8_text_multi [OF leI [OF False]] using False by simp
    qed
  qed
qed

text \<open>
  C21. \<^verbatim>\<open>isutf8\<close> accepts exactly the byte strings that are a concatenation of the RFC 3629
  encodings of Unicode scalar values: no overlong form, surrogate, stray continuation byte,
  truncated sequence or value beyond U+10FFFF passes, and nothing valid is refused.
\<close>

theorem isutf8_correct: "isutf8 bs \<longleftrightarrow> (\<exists>ns. list_all scalar_value ns \<and> bs = concat (map utf8_encode ns))"
  unfolding isutf8_text utf8_text_def ..

lemma unpack_be4:
  "unpack_bits (be4 a b c d) =
    push_bit 18 (take_bit 4 (ucast a)) OR push_bit 12 (take_bit 6 (ucast b)) OR push_bit 6 (take_bit 6 (ucast c)) OR take_bit 6 (ucast d)"
  (is "?l = ?r")
proof -
  have "\<forall>n<32. bit ?l n = bit ?r n"
    by (simp add: all_less_numeral unpack_bits_def Let_def bit_simps bit_be4)
  then show ?thesis by (intro bit_word_eqI) simp
qed

lemma be4_clear: "be4 a b c d AND NOT 0x200000 = be4 a (b AND NOT 0x20) c d" (is "?l = ?r")
proof -
  have "\<forall>n<32. bit ?l n = bit ?r n"
    by (simp add: all_less_numeral bit_simps bit_be4)
  then show ?thesis by (intro bit_word_eqI) simp
qed

lemma unat_unpack:
  "unat (unpack_bits (be4 a b c d)) =
    unat a mod 16 * 2 ^ 18 + unat b mod 64 * 2 ^ 12 + unat c mod 64 * 2 ^ 6 + unat d mod 64"
proof -
  let ?a = "take_bit 4 (ucast a) :: u32" and ?b = "take_bit 6 (ucast b) :: u32" and ?c = "take_bit 6 (ucast c) :: u32"
    and ?d = "take_bit 6 (ucast d) :: u32"
  have "push_bit 18 ?a OR push_bit 12 ?b OR push_bit 6 ?c OR ?d =
      push_bit 18 ?a + (push_bit 12 ?b + (push_bit 6 ?c + ?d))"
    by (intro or_eq_plus [THEN trans] arg_cong2 [where f = plus] refl)
      (auto simp: bit_simps)
  then have "unat (unpack_bits (be4 a b c d)) = unat (push_bit 18 ?a + (push_bit 12 ?b + (push_bit 6 ?c + ?d)))"
    unfolding unpack_be4 by simp
  moreover have "unat a mod 16 < 16" "unat b mod 64 < 64" "unat c mod 64 < 64" "unat d mod 64 < 64" by simp_all
  ultimately show ?thesis
    by (simp add: unat_word_ariths unsigned_push_bit_eq unsigned_take_bit_eq unat_ucast_byte take_bit_eq_mod push_bit_eq_mult)
qed

lemma unat_clear:
  assumes "0xE0 \<le> unat b" "unat (b :: byte) < 0xF0"
  shows "unat (b AND NOT 0x20) mod 64 = unat b - 0xE0"
proof -
  have "list_all (\<lambda>b :: byte. unat (b AND NOT 0x20) mod 64 = unat b - 0xE0) (map word_of_nat [0xE0..<0xF0])"
    by code_simp
  then show ?thesis by (rule bytes_between [OF _ assms])
qed

definition lead_ones :: "byte \<Rightarrow> nat" where
  "lead_ones b = length (takeWhile (bit b) [7, 6, 5, 4, 3, 2, 1, 0])"

lemma lead_ones_step:
  "lead_ones b = (if b AND 0x80 \<noteq> 0 then Suc (lead_ones (push_bit 1 b)) else 0)"
proof -
  have "list_all (\<lambda>b. lead_ones b = (if b AND 0x80 \<noteq> 0 then Suc (lead_ones (push_bit 1 b)) else 0))
      (map word_of_nat [0..<256])" by code_simp
  then show ?thesis by (rule bytes_between [OF _ le0 unat_byte])
qed

lemma lead_ones_head:
  assumes "0xC0 \<le> unat h" "unat h < 0xF8"
  shows "lead_ones (push_bit 1 h) = (if unat h < 0xE0 then 1 else if unat h < 0xF0 then 2 else 3)"
proof -
  have "list_all (\<lambda>h. lead_ones (push_bit 1 h) = (if unat h < 0xE0 then 1 else if unat h < 0xF0 then 2 else 3))
      (map word_of_nat [0xC0..<0xF8])" by code_simp
  then show ?thesis by (rule bytes_between [OF _ assms])
qed

subsection \<open>The decoder\<close>

declare codepoint_loop.simps [simp del]

lemma codepoint_loop_eq:
  assumes "n < length s"
  shows "codepoint_loop s w iter (length s - n) n =
    (let j = 1 + min (lead_ones (push_bit 1 iter)) (length (takeWhile is_continuation (drop (n + 1) s)))
     in (shift_bytes w (take j (drop n s)), n + j))"
  using assms
proof (induction "length s - n" arbitrary: n w iter)
  case 0
  then show ?case by simp
next
  case (Suc k)
  let ?i = "push_bit 1 iter" and ?w = "push_bit 8 w OR ucast (s ! n) :: u32"
  have d: "drop n s = s ! n # drop (n + 1) s" using Suc.prems by (simp add: Cons_nth_drop_Suc)
  show ?case
  proof (cases "?i AND 0x80 \<noteq> 0 \<and> length s - n - 1 \<noteq> 0 \<and> is_continuation (s ! (n + 1))")
    case True
    then have more: "n + 1 < length s" by linarith
    then have d': "drop (n + 1) s = s ! (n + 1) # drop (n + 2) s" by (simp add: Cons_nth_drop_Suc)
    have "codepoint_loop s w iter (length s - n) n = codepoint_loop s ?w ?i (length s - (n + 1)) (n + 1)"
      using True by (subst codepoint_loop.simps) (simp add: Let_def)
    also have "\<dots> = (let j = 1 + min (lead_ones (push_bit 1 ?i)) (length (takeWhile is_continuation (drop (n + 2) s)))
        in (shift_bytes ?w (take j (drop (n + 1) s)), n + 1 + j))"
      using Suc.hyps(1) [of "n + 1" ?w ?i] Suc.hyps(2) more by (simp add: numeral_2_eq_2)
    finally have loop: "codepoint_loop s w iter (length s - n) n = \<dots>" .
    have run: "length (takeWhile is_continuation (drop (n + 1) s)) =
        Suc (length (takeWhile is_continuation (drop (n + 2) s)))"
      using True by (subst d') simp
    have lead: "lead_ones ?i = Suc (lead_ones (push_bit 1 ?i))" using True lead_ones_step [of ?i] by simp
    show ?thesis unfolding loop Let_def run lead min_Suc_Suc d by (simp add: shift_bytes_def)
  next
    case False
    then have stop: "codepoint_loop s w iter (length s - n) n = (?w, n + 1)"
      by (subst codepoint_loop.simps) (auto simp: Let_def)
    have "min (lead_ones ?i) (length (takeWhile is_continuation (drop (n + 1) s))) = 0"
    proof (cases "?i AND 0x80 = 0")
      case True
      then show ?thesis using lead_ones_step [of ?i] by simp
    next
      case i: False
      show ?thesis
      proof (cases "n + 1 < length s")
        case True
        then have d': "drop (n + 1) s = s ! (n + 1) # drop (n + 2) s" by (simp add: Cons_nth_drop_Suc)
        show ?thesis using False i True by (simp only: d') simp
      next
        case False
        then show ?thesis by simp
      qed
    qed
    then show ?thesis unfolding stop by (simp add: Let_def d shift_bytes_def)
  qed
qed

lemma units_value:
  "utf8_units m = [h, b] \<Longrightarrow> m = (h - 0xC0) * 64 + (b - 0x80)"
  "utf8_units m = [h, b, c] \<Longrightarrow> m = (h - 0xE0) * 4096 + (b - 0x80) * 64 + (c - 0x80)"
  "utf8_units m = [h, b, c, d] \<Longrightarrow> m = (h - 0xF0) * 262144 + (b - 0x80) * 4096 + (c - 0x80) * 64 + (d - 0x80)"
proof -
  have e: "m div 4096 = m div 64 div 64" "m div 262144 = m div 64 div 64 div 64" by (simp_all flip: div_mult2_eq)
  have d: "m div 64 * 64 + m mod 64 = m" "m div 64 div 64 * 64 + m div 64 mod 64 = m div 64"
    "m div 64 div 64 div 64 * 64 + m div 64 div 64 mod 64 = m div 64 div 64" by simp_all
  have d3: "m div 64 div 64 * 4096 + (m div 64 mod 64 * 64 + m mod 64) = m" using d by linarith
  have d4: "m div 64 div 64 div 64 * 262144 + (m div 64 div 64 mod 64 * 4096 + (m div 64 mod 64 * 64 + m mod 64)) = m"
    using d by linarith
  show "utf8_units m = [h, b] \<Longrightarrow> m = (h - 0xC0) * 64 + (b - 0x80)"
    by (auto simp: utf8_units_def split: if_splits)
  show "utf8_units m = [h, b, c] \<Longrightarrow> m = (h - 0xE0) * 4096 + (b - 0x80) * 64 + (c - 0x80)"
    by (auto simp: utf8_units_def e d3 split: if_splits)
  show "utf8_units m = [h, b, c, d] \<Longrightarrow> m = (h - 0xF0) * 262144 + (b - 0x80) * 4096 + (c - 0x80) * 64 + (d - 0x80)"
    by (auto simp: utf8_units_def e d4 split: if_splits)
qed

lemma mod64_sub: "64 * k \<le> x \<Longrightarrow> x < 64 * k + 64 \<Longrightarrow> x mod 64 = x - 64 * (k :: nat)"
  using digit64(2) [of "x - 64 * k" k] by simp

lemma cont_value: "is_continuation b \<Longrightarrow> unat b mod 64 = unat b - 0x80"
  using mod64_sub [of 2 "unat b"] by (simp add: continuation_iff)

lemma decode_value:
  assumes m: "scalar_value m" "utf8_encode m = h # ks" and h: "0x80 \<le> unat h" and run: "list_all is_continuation ks"
  defines "bits \<equiv> shift_bytes (ucast h) ks"
  shows "(if 0xC280 \<le> bits \<and> bits \<le> 0xDFBF then unpack_bits bits
      else if 0xE0A080 \<le> bits \<and> bits XOR 0x020000 \<le> 0xEF9FBF then unpack_bits (bits AND NOT 0x200000)
      else unpack_bits bits) = word_of_nat m \<and> lead_ones (push_bit 1 h) = length ks"
proof -
  have units: "utf8_units m = unat h # map unat ks"
    using encode_units [of m "h # ks"] m by (simp add: scalar_value_def)
  have ex: "\<exists>n. scalar_value n \<and> utf8_units n = unat h # map unat ks" using m(1) units by blast
  have small: "m < 2 ^ 32" using m(1) by (simp add: scalar_value_def)
  have eqI: "w = word_of_nat m" if "unat w = m" for w :: u32 using that by auto
  show ?thesis
  proof (cases ks rule: list_shapes)
    case 1
    then show ?thesis using units h by (simp add: units_one)
  next
    case (2 b)
    have bits: "bits = be4 0 0 h b" using be4_small(2) [of h b] 2 by (simp add: bits_def shift_bytes_def)
    have r: "0x80 \<le> unat b" "unat b < 0xC0" "0xC2 \<le> unat h" "unat h \<le> 0xDF"
      using run ex 2 by (simp_all add: continuation_iff units_two)
    have "0xC280 \<le> bits \<and> bits \<le> 0xDFBF" unfolding bits word_le_nat_alt unat_be4 using r by simp
    moreover have "unat (unpack_bits bits) = m"
      using units_value(1) [of m] units 2 r run mod64_sub [of 3 "unat h"] unfolding bits unat_unpack by (simp add: cont_value)
    ultimately show ?thesis using eqI lead_ones_head [of h] r 2 by simp
  next
    case (3 b c)
    have bits: "bits = be4 0 h b c" using be4_small(3) [of h b c] 3 by (simp add: bits_def shift_bytes_def)
    have r: "0x80 \<le> unat b" "unat b < 0xC0" "0x80 \<le> unat c" "unat c < 0xC0"
      using run 3 by (simp_all add: continuation_iff)
    moreover from r have ok: "0xE0 \<le> unat h \<and> unat h \<le> 0xEF \<and> (unat h = 0xE0 \<longrightarrow> 0xA0 \<le> unat b) \<and> (unat h = 0xED \<longrightarrow> unat b < 0xA0)"
      using ex units_three [OF r] 3 by simp
    ultimately have valid: "valid_bits bits" using valid_bits_3 [of b c h] h bits by simp
    have big: "\<not> bits \<le> 0xDFBF" "\<not> 0xF0908080 \<le> bits" unfolding bits word_le_nat_alt unat_be4 using r ok by simp_all
    then have second: "0xE0A080 \<le> bits \<and> bits XOR 0x020000 \<le> 0xEF9FBF" using valid unfolding valid_bits_def by blast
    have "unat (unpack_bits (bits AND NOT 0x200000)) = m"
      using units_value(2) [of m] units 3 run ok unat_clear [of h] unfolding bits be4_clear unat_unpack by (simp add: cont_value)
    then show ?thesis using big(1) second eqI lead_ones_head [of h] ok 3 by simp
  next
    case (4 b c d)
    have bits: "bits = be4 h b c d" using 4 shift4 [of 0 h b c d] by (simp add: bits_def shift_bytes_def)
    have r: "0x80 \<le> unat b" "unat b < 0xC0" "0x80 \<le> unat c" "unat c < 0xC0" "0x80 \<le> unat d" "unat d < 0xC0"
      using run 4 by (simp_all add: continuation_iff)
    then have ok: "0xF0 \<le> unat h \<and> unat h \<le> 0xF4"
      using ex units_four [OF r] 4 by simp
    then obtain x where x: "unat h = 0xF0 + x" "x \<le> 4" by (intro that [of "unat h - 0xF0"]) auto
    have big: "\<not> bits \<le> 0xDFBF" "\<not> bits XOR 0x020000 \<le> 0xEF9FBF"
      unfolding bits be4_xor word_le_nat_alt unat_be4 using ok by simp_all
    have "(240 + x) mod 16 = x" using x(2) by presburger
    then have "unat (unpack_bits bits) = m"
      using units_value(3) [of m] units 4 run x unfolding bits unat_unpack by (simp add: cont_value)
    then show ?thesis using big eqI lead_ones_head [of h] ok 4 by simp
  next
    case (5 ys a b c d)
    then show ?thesis using units units_length [of m] by auto
  qed
qed


lemma codepoint_at_high:
  assumes s: "drop idx str = h # more" and h: "0x80 \<le> unat h"
  defines "ks \<equiv> take (lead_ones (push_bit 1 h)) (takeWhile is_continuation more)"
  defines "bits \<equiv> shift_bytes (ucast h) ks"
  shows "codepoint_at str idx =
    (if valid_bits bits
     then (if 0xC280 \<le> bits \<and> bits \<le> 0xDFBF then unpack_bits bits
      else if 0xE0A080 \<le> bits \<and> bits XOR 0x020000 \<le> 0xEF9FBF then unpack_bits (bits AND NOT 0x200000)
      else unpack_bits bits, idx + length (h # ks))
     else (0xDC00 OR ucast h, idx + 1))"
proof -
  have take: "take (min n (length (takeWhile is_continuation more))) more = take n (takeWhile is_continuation more)" for n
    by (metis append_eq_conv_conj take_take takeWhile_dropWhile_id)
  have "codepoint_loop (h # more) 0 h (length (h # more)) 0 = (bits, length (h # ks))"
    using codepoint_loop_eq [of 0 "h # more" 0 h] by (simp add: Let_def take ks_def bits_def shift_bytes_def)
  moreover have "\<not> h < 0x80" using h by (simp add: word_less_nat_alt)
  ultimately show ?thesis by (auto simp: codepoint_at_def s valid_bits_def)
qed

text \<open>
  \<^verbatim>\<open>codepoint_at\<close> decodes: where the encoding of a scalar value starts at the index, it returns
  that value and moves the index past the encoding; everywhere else it returns the U+DC80..DCFF
  marker of the byte and moves the index by one.
\<close>

theorem codepoint_at_decodes:
  assumes "idx < length str"
  shows "(\<forall>m rest. scalar_value m \<and> drop idx str = utf8_encode m @ rest \<longrightarrow>
      codepoint_at str idx = (word_of_nat m, idx + length (utf8_encode m))) \<and>
    ((\<nexists>m rest. scalar_value m \<and> drop idx str = utf8_encode m @ rest) \<longrightarrow>
      codepoint_at str idx = (0xDC00 OR ucast (str ! idx), idx + 1))"
proof -
  obtain h more where s: "drop idx str = h # more" and nth: "str ! idx = h"
    using assms by (metis Cons_nth_drop_Suc)
  show ?thesis
  proof (cases "unat h < 0x80")
    case True
    then have at: "codepoint_at str idx = (ucast h, idx + 1)" by (simp add: codepoint_at_def s word_less_nat_alt)
    have "scalar_value (unat h)" "utf8_encode (unat h) = [h]"
      using True by (simp_all add: scalar_value_def utf8_encode_def utf8_units_def)
    then have ex: "\<exists>m rest. scalar_value m \<and> drop idx str = utf8_encode m @ rest" using s by (metis append_Cons append_Nil)
    have "codepoint_at str idx = (word_of_nat m, idx + length (utf8_encode m))"
      if m: "scalar_value m" "drop idx str = utf8_encode m @ rest" for m rest
    proof -
      obtain h' ks where e: "utf8_encode m = h' # ks" "unat h' < 0x80 \<longrightarrow> ks = []" "ks = [] \<longrightarrow> h' = word_of_nat m \<and> m < 0x80"
        using m(1) by (rule encode_shape)
      then have "ks = []" "h = word_of_nat m" "m < 0x80" using m(2) s True by auto
      then have "ucast h = (word_of_nat m :: u32)" by (simp add: word_unat_eq_iff unat_ucast_byte word_of_nat_bytes unat_of_nat)
      then show ?thesis using at e \<open>ks = []\<close> by simp
    qed
    then show ?thesis using ex by blast
  next
    case False
    then have h: "0x80 \<le> unat h" by simp
    define ks where "ks = take (lead_ones (push_bit 1 h)) (takeWhile is_continuation more)"
    have "list_all is_continuation ks" unfolding ks_def list_all_iff by (blast dest: in_set_takeD set_takeWhileD)
    note run = this
    note at = codepoint_at_high [OF s h, folded ks_def]
    have more: "\<exists>rest. more = ks @ rest" unfolding ks_def by (metis append_assoc append_take_drop_id takeWhile_dropWhile_id)
    have dec: "codepoint_at str idx = (word_of_nat m, idx + length (utf8_encode m))"
      if m: "scalar_value m" "drop idx str = utf8_encode m @ rest" for m rest
    proof -
      obtain h' js where e: "utf8_encode m = h' # js" "list_all is_continuation js" using m(1) by (rule encode_shape)
      have eq: "h' = h" "more = js @ rest" using e(1) m(2) s by simp_all
      note dv = decode_value [OF m(1) e(1)[unfolded eq(1)] h e(2)]
      have "ks = js" using dv e(2) by (simp add: ks_def eq(2) takeWhile_append2 list_all_iff)
      moreover have "valid_bits (shift_bytes (ucast h) js)" using valid_encoding [OF h e(2)] m(1) e(1) eq(1) by blast
      ultimately show ?thesis
        by (simp only: at if_True conjunct1 [OF dv] e(1) eq(1))
    qed
    have "codepoint_at str idx = (0xDC00 OR ucast h, idx + 1)" if none: "\<nexists>m rest. scalar_value m \<and> drop idx str = utf8_encode m @ rest"
    proof -
      have "\<not> valid_bits (shift_bytes (ucast h) ks)"
        using valid_encoding [OF h run] none s more by (metis append_Cons)
      then show ?thesis unfolding at by simp
    qed
    then show ?thesis using dec nth by blast
  qed
qed

theorem codepoint_at_decodes_witness: "codepoint_at ([0x41] @ utf8_encode 0x20AC @ [0xAC]) 1 = (0x20AC, 4)"
proof -
  have e: "length (utf8_encode 0x20AC) = 3" "scalar_value 0x20AC" by (simp_all add: utf8_encode_def utf8_units_def scalar_value_def)
  have "codepoint_at ([0x41] @ utf8_encode 0x20AC @ [0xAC]) 1 = (word_of_nat 0x20AC, 1 + length (utf8_encode 0x20AC))"
    by (rule codepoint_at_decodes [THEN conjunct1, THEN spec, THEN spec, THEN mp]) (use e in simp_all)
  then show ?thesis by (simp add: e)
qed

subsection \<open>The encoder\<close>

lemma be_bytes_be4: "be_bytes 4 (be4 a b c d) = [a, b, c, d]"
proof -
  have "be4 a b c d = be_word [a, b, c, d]"
  proof (rule bit_word_eqI)
    have "\<forall>n<32. bit (be4 a b c d) n = bit (be_word [a, b, c, d] :: u32) n"
      by (simp add: all_less_numeral bit_be4 bit_be_word)
    then show "bit (be4 a b c d) n = bit (be_word [a, b, c, d] :: u32) n" if "n < LENGTH(32)" for n
      using that by simp
  qed
  then show ?thesis by (simp add: be_bytes_be_word)
qed

lemma be4_or: "be4 a b c d OR be4 e f g h = be4 (a OR e) (b OR f) (c OR g) (d OR h)"
  by (rule bit_word_eqI) (simp add: bit_be4 bit_or_iff)

lemma be4_shift: "push_bit 16 (be4 a b c d) = be4 c d 0 0" "push_bit 8 (be4 a b c d) = be4 b c d 0"
proof -
  have "\<forall>n<32. bit (push_bit 16 (be4 a b c d)) n = bit (be4 c d 0 0) n"
    and "\<forall>n<32. bit (push_bit 8 (be4 a b c d)) n = bit (be4 b c d 0) n"
    by (simp_all add: all_less_numeral bit_simps bit_be4)
  then show "push_bit 16 (be4 a b c d) = be4 c d 0 0" "push_bit 8 (be4 a b c d) = be4 b c d 0"
    by (auto intro: bit_word_eqI)
qed

lemma spread_be4:
  "push_bit 2 ((push_bit 4 (cp AND 0x00fff000) OR (cp AND 0x00000fff)) AND 0x0fc00fc0) OR
     ((push_bit 4 (cp AND 0x00fff000) OR (cp AND 0x00000fff)) AND 0x003f003f) =
   be4 (ucast (take_bit 6 (drop_bit 18 cp))) (ucast (take_bit 6 (drop_bit 12 cp)))
     (ucast (take_bit 6 (drop_bit 6 cp))) (ucast (take_bit 6 (cp :: u32)))"
  (is "?l = ?r")
proof -
  have "\<forall>n<32. bit ?l n = bit ?r n"
    by (simp add: all_less_numeral bit_simps bit_be4)
  then show ?thesis by (intro bit_word_eqI) simp
qed

lemma unat_lt2p_u32: "unat (w :: u32) < 2 ^ 32"
  using unsigned_less [of w] by simp

lemma spread_value:
  "unat (ucast (take_bit 6 (drop_bit k cp)) :: byte) = unat (cp :: u32) div 2 ^ k mod 64"
proof -
  have "unat (take_bit 6 (drop_bit k cp)) = unat cp div 2 ^ k mod 64"
    using unat_lt2p_u32 [of cp] unfolding unsigned_take_bit_eq unsigned_drop_bit_eq
    by (simp add: take_bit_eq_mod drop_bit_eq_div)
  moreover have "unat cp div 2 ^ k mod 64 < 256" by (rule less_trans [of _ 64]) simp_all
  ultimately show ?thesis by (simp only: unsigned_ucast_eq) (simp add: take_bit_eq_mod)
qed

lemma or_mask:
  "m < 64 \<Longrightarrow> word_of_nat m OR 0x80 = (word_of_nat (0x80 + m) :: byte)"
  "m < 32 \<Longrightarrow> word_of_nat m OR 0xC0 = (word_of_nat (0xC0 + m) :: byte)"
  "m < 16 \<Longrightarrow> word_of_nat m OR 0xE0 = (word_of_nat (0xE0 + m) :: byte)"
  "m < 8 \<Longrightarrow> word_of_nat m OR 0xF0 = (word_of_nat (0xF0 + m) :: byte)"
proof -
  have "list_all (\<lambda>m. word_of_nat m OR 0x80 = (word_of_nat (0x80 + m) :: byte)) [0..<64]"
    "list_all (\<lambda>m. word_of_nat m OR 0xC0 = (word_of_nat (0xC0 + m) :: byte)) [0..<32]"
    "list_all (\<lambda>m. word_of_nat m OR 0xE0 = (word_of_nat (0xE0 + m) :: byte)) [0..<16]"
    "list_all (\<lambda>m. word_of_nat m OR 0xF0 = (word_of_nat (0xF0 + m) :: byte)) [0..<8]"
    by code_simp+
  then show "m < 64 \<Longrightarrow> word_of_nat m OR 0x80 = (word_of_nat (0x80 + m) :: byte)"
    "m < 32 \<Longrightarrow> word_of_nat m OR 0xC0 = (word_of_nat (0xC0 + m) :: byte)"
    "m < 16 \<Longrightarrow> word_of_nat m OR 0xE0 = (word_of_nat (0xE0 + m) :: byte)"
    "m < 8 \<Longrightarrow> word_of_nat m OR 0xF0 = (word_of_nat (0xF0 + m) :: byte)"
    unfolding list_all_iff set_upt by (meson atLeastLessThan_iff le0)+
qed


lemma spread_range:
  fixes a b c d n :: nat
  assumes n: "a * 262144 + b * 4096 + c * 64 + d = n" and lt: "b < 64" "c < 64" "d < 64"
  shows "a * 2 ^ 24 + b * 2 ^ 16 + c * 2 ^ 8 + d \<le> 0x1fff \<longleftrightarrow> n < 0x800"
    and "a * 2 ^ 24 + b * 2 ^ 16 + c * 2 ^ 8 + d \<le> 0xfffff \<longleftrightarrow> n < 0x10000"
proof -
  have e: "a * 2 ^ 24 + b * 2 ^ 16 + c * 2 ^ 8 + d = a * 16777216 + b * 65536 + c * 256 + d" by simp
  show "a * 2 ^ 24 + b * 2 ^ 16 + c * 2 ^ 8 + d \<le> 0x1fff \<longleftrightarrow> n < 0x800" unfolding e
  proof
    assume l: "a * 16777216 + b * 65536 + c * 256 + d \<le> 0x1fff"
    then have "a = 0" "b = 0" "c < 32" by linarith+
    then show "n < 0x800" using n lt by linarith
  next
    assume "n < 0x800"
    then have "a = 0" "b = 0" "c < 32" using n by linarith+
    then show "a * 16777216 + b * 65536 + c * 256 + d \<le> 0x1fff" using lt by linarith
  qed
  show "a * 2 ^ 24 + b * 2 ^ 16 + c * 2 ^ 8 + d \<le> 0xfffff \<longleftrightarrow> n < 0x10000" unfolding e
  proof
    assume l: "a * 16777216 + b * 65536 + c * 256 + d \<le> 0xfffff"
    then have "a = 0" "b < 16" by linarith+
    then show "n < 0x10000" using n lt by linarith
  next
    assume "n < 0x10000"
    then have "a = 0" "b < 16" using n by linarith+
    then show "a * 16777216 + b * 65536 + c * 256 + d \<le> 0xfffff" using lt by linarith
  qed
qed

lemma codepoint_utf8:
  assumes "length junk = 4"
  shows "codepoint host junk cp = utf8_encode (if scalar_value (unat cp) then unat cp else 0xFFFD)"
proof -
  define n where "n = (if scalar_value (unat cp) then unat cp else 0xFFFD)"
  define cp' where "cp' = (let cp = if 0xD800 \<le> cp \<and> cp \<le> 0xDFFF then 0xFFFD else cp in if 0x10FFFF < cp then 0xFFFD else cp)"
  have n: "unat cp' = n"
    by (auto simp: cp'_def n_def scalar_value_def Let_def word_le_nat_alt word_less_nat_alt)
  have le: "n \<le> 0x10FFFF" by (simp add: n_def scalar_value_def)
  define a b c d where "a = (ucast (take_bit 6 (drop_bit 18 cp')) :: byte)"
    and "b = (ucast (take_bit 6 (drop_bit 12 cp')) :: byte)" and "c = (ucast (take_bit 6 (drop_bit 6 cp')) :: byte)"
    and "d = (ucast (take_bit 6 cp') :: byte)"
  note abcd = this
  have va: "unat a = n div 64 ^ 3" "unat b = n div 64 ^ 2 mod 64" "unat c = n div 64 mod 64" "unat d = n mod 64"
    using le spread_value [of 18 cp'] spread_value [of 12 cp'] spread_value [of 6 cp'] spread_value [of 0 cp']
    by (simp_all add: abcd n)
  have w: "a = word_of_nat (n div 64 ^ 3)" "b = word_of_nat (n div 64 ^ 2 mod 64)" "c = word_of_nat (n div 64 mod 64)"
    "d = word_of_nat (n mod 64)"
    unfolding va [symmetric] by simp_all
  show ?thesis
  proof (cases "cp \<le> 0x7F")
    case True
    then have "unat cp < 0x80" by (simp add: word_le_nat_alt)
    then have "n < 0x80" "n = unat cp" by (auto simp: n_def scalar_value_def)
    then have "codepoint host junk cp = [ucast cp]" "utf8_encode n = [word_of_nat (unat cp)]"
      using True assms by (auto simp: codepoint_def codepoint_put_def utf8_encode_def utf8_units_def neq_Nil_conv take_Suc_conv_app_nth length_Suc_conv eval_nat_numeral)
    then show ?thesis by (simp add: n_def)
  next
    case False
    then have big: "0x80 \<le> n" by (auto simp: n_def word_le_nat_alt scalar_value_def)
    have put: "codepoint_put host junk cp =
      (if be4 a b c d \<le> 0x00001fff then (be_bytes 4 (be4 (c OR 0xC0) (d OR 0x80) 0 0), 2)
       else if be4 a b c d \<le> 0x000fffff then (be_bytes 4 (be4 (b OR 0xE0) (c OR 0x80) (d OR 0x80) 0), 3)
       else (be_bytes 4 (be4 (a OR 0xF0) (b OR 0x80) (c OR 0x80) (d OR 0x80)), 4))"
    proof -
      have mask: "(0xC080 :: u32) = be4 0 0 0xC0 0x80" "(0xE08080 :: u32) = be4 0 0xE0 0x80 0x80"
        "(0xF0808080 :: u32) = be4 0xF0 0x80 0x80 0x80" by code_simp+
      have blit: "blit junk 0 (be_bytes 4 w) = be_bytes 4 w" for w :: u32 using assms by (simp add: blit_start)
      show ?thesis using False
        unfolding codepoint_put_def Let_def cp'_def [unfolded Let_def, symmetric] spread_be4 abcd [symmetric]
          writeu_bytes blit unfolding mask be4_or be4_shift by simp
    qed
    have "n div 64 * 64 + n mod 64 = n" "n div 64 div 64 * 64 + n div 64 mod 64 = n div 64"
      "n div 64 div 64 div 64 * 64 + n div 64 div 64 mod 64 = n div 64 div 64" by simp_all
    then have sum: "unat a * 262144 + unat b * 4096 + unat c * 64 + unat d = n"
      unfolding va power64 by linarith
    have lt: "unat b < 64" "unat c < 64" "unat d < 64" unfolding va by simp_all
    have two: "be4 a b c d \<le> 0x1fff \<longleftrightarrow> n < 0x800"
      unfolding word_le_nat_alt unat_be4 using spread_range(1) [OF sum lt] by simp
    have three: "be4 a b c d \<le> 0xfffff \<longleftrightarrow> n < 0x10000"
      unfolding word_le_nat_alt unat_be4 using spread_range(2) [OF sum lt] by simp
    have "n < 0x800 \<Longrightarrow> n div 64 < 32" "n < 0x10000 \<Longrightarrow> n div 64 ^ 2 < 16" "n div 64 ^ 3 < 8"
      using le by (simp_all add: power64)
    then show ?thesis
      using big unfolding codepoint_def put two three utf8_encode_def utf8_units_def n_def [symmetric]
      by (simp add: be_bytes_be4 w or_mask del: of_nat_add)
  qed
qed

text \<open>
  C22. \<^verbatim>\<open>string::codepoint\<close> writes the RFC 3629 encoding of every Unicode scalar value, and the
  encoding of U+FFFD for a surrogate or a value beyond U+10FFFF, on machines of either byte
  order and whatever the uninitialised buffer held.
\<close>

theorem codepoint_encodes:
  assumes "length junk = 4"
  shows "codepoint host junk cp = utf8_encode (if scalar_value (unat cp) then unat cp else 0xFFFD)"
  using assms by (rule codepoint_utf8)

theorem codepoint_encodes_witness: "codepoint True [0, 0, 0, 0] 0x1F600 = utf8_encode 0x1F600"
  using codepoint_encodes [of "[0, 0, 0, 0]" True "0x1F600"] by (simp add: scalar_value_def)

end
