(* ===== verification/Glob.thy ===== *)
theory Glob
  imports Ctype
begin

text \<open>
  \<^verbatim>\<open>cstring::matches_glob\<close> of \<^verbatim>\<open>arlib/string.cpp\<close>: a backtracking matcher that keeps only the last
  asterisk, and the meaning of a pattern it is compared with.
\<close>

subsection \<open>The matcher\<close>

definition star :: byte where "star = 0x2A"
definition any_byte :: byte where "any_byte = 0x3F"

text \<open>
  The indices \<open>s\<close>, \<open>p\<close>, \<open>sp\<close> and \<open>pp\<close> stand for the pointers of the same names in the source.
  Whether the loop ends is part of what is proved, so it is a partial function.
\<close>

partial_function (option) glob_loop ::
  "bool \<Rightarrow> bytes \<Rightarrow> bytes \<Rightarrow> nat \<Rightarrow> nat \<Rightarrow> nat \<Rightarrow> nat \<Rightarrow> bool option" where
  [code]: "glob_loop ci str pat s p sp pp =
     (if s < length str then
        if p < length pat \<and> pat ! p = star then
          (if p + 1 = length pat then Some True
           else glob_loop ci str pat s (p + 1) (s + 1) (p + 1))
        else if p < length pat \<and> s < length str \<and>
          (pat ! p = str ! s \<or> pat ! p = any_byte \<or> ci \<and> tolower (pat ! p) = tolower (str ! s))
        then glob_loop ci str pat (s + 1) (p + 1) sp pp
        else glob_loop ci str pat sp pp (sp + 1) pp
      else Some (list_all (\<lambda>c. c = star) (drop p pat)))"

definition matches_glob :: "bool \<Rightarrow> bytes \<Rightarrow> bytes \<Rightarrow> bool option" where
  "matches_glob ci str pat =
     (if pat = [] then Some (str = []) else glob_loop ci str pat 0 0 (length str) 0)"

subsection \<open>What a pattern means\<close>

definition glob_byte :: "bool \<Rightarrow> byte \<Rightarrow> byte \<Rightarrow> bool" where
  "glob_byte ci p c \<longleftrightarrow> p = c \<or> p = any_byte \<or> ci \<and> tolower p = tolower c"

fun glob_spec :: "bool \<Rightarrow> bytes \<Rightarrow> bytes \<Rightarrow> bool" where
  "glob_spec ci [] str = (str = [])"
| "glob_spec ci (p # ps) str =
     (if p = star then \<exists>k\<le>length str. glob_spec ci ps (drop k str)
      else case str of [] \<Rightarrow> False | c # cs \<Rightarrow> glob_byte ci p c \<and> glob_spec ci ps cs)"

lemma glob_spec_suffix:
  "glob_spec ci (star # ps) (drop j str) \<Longrightarrow> i \<le> j \<Longrightarrow> j \<le> length str \<Longrightarrow> glob_spec ci (star # ps) (drop i str)"
proof -
  assume "glob_spec ci (star # ps) (drop j str)" and ij: "i \<le> j" "j \<le> length str"
  then obtain k where "k \<le> length str - j" "glob_spec ci ps (drop (j + k) str)"
    by (auto simp: add.commute)
  then have "(j + k - i) \<le> length (drop i str)" "glob_spec ci ps (drop (j + k - i) (drop i str))"
    using ij by simp_all
  then show ?thesis by auto
qed

lemma glob_spec_no_star:
  assumes "glob_spec ci (u @ ps) str" and "star \<notin> set u"
  shows "length u \<le> length str \<and> glob_spec ci ps (drop (length u) str)"
  using assms
proof (induction u arbitrary: str)
  case (Cons c u)
  then show ?case by (cases str) auto
qed simp

lemma glob_spec_end: "glob_spec ci ps [] \<longleftrightarrow> list_all (\<lambda>c. c = star) ps"
  by (induction ps) auto

lemma drop_slice_split: "pp \<le> p \<Longrightarrow> drop pp pat = slice pp (p - pp) pat @ drop p pat"
  by (metis append_take_drop_id drop_drop le_add_diff_inverse2 slice_def)

text \<open>
  What is still to be decided in a state of the loop: the rest of the pattern matches the rest
  of the string, or the pattern after the last asterisk matches further to the right.
\<close>

definition retry :: "bool \<Rightarrow> bytes \<Rightarrow> bytes \<Rightarrow> nat \<Rightarrow> nat \<Rightarrow> bool" where
  "retry ci str pat sp pp \<longleftrightarrow> (\<exists>j\<ge>sp. j \<le> length str \<and> glob_spec ci (drop pp pat) (drop j str))"

definition glob_inv :: "bytes \<Rightarrow> bytes \<Rightarrow> nat \<Rightarrow> nat \<Rightarrow> nat \<Rightarrow> nat \<Rightarrow> bool" where
  "glob_inv str pat s p sp pp \<longleftrightarrow>
     p \<le> length pat \<and> pp \<le> p \<and> star \<notin> set (slice pp (p - pp) pat) \<and> 0 < sp \<and> sp - 1 + (p - pp) = s \<and> s \<le> length str"

lemma glob_spec_star:
  assumes p: "p < length pat" "pat ! p = star" and le: "s \<le> length str"
  shows "glob_spec ci (drop p pat) (drop s str) \<longleftrightarrow>
    glob_spec ci (drop (p + 1) pat) (drop s str) \<or> retry ci str pat (s + 1) (p + 1)"
proof -
  have dp: "drop p pat = star # drop (p + 1) pat" using p by (simp add: Cons_nth_drop_Suc flip: p(2))
  have "glob_spec ci (drop p pat) (drop s str) \<longleftrightarrow> (\<exists>k\<le>length str - s. glob_spec ci (drop (p + 1) pat) (drop (s + k) str))"
    by (simp add: dp add.commute)
  also have "\<dots> \<longleftrightarrow> (\<exists>j\<ge>s. j \<le> length str \<and> glob_spec ci (drop (p + 1) pat) (drop j str))"
  proof
    assume "\<exists>k\<le>length str - s. glob_spec ci (drop (p + 1) pat) (drop (s + k) str)"
    then obtain k where "k \<le> length str - s" "glob_spec ci (drop (p + 1) pat) (drop (s + k) str)" by blast
    then show "\<exists>j\<ge>s. j \<le> length str \<and> glob_spec ci (drop (p + 1) pat) (drop j str)"
      using le by (intro exI [of _ "s + k"]) simp
  next
    assume "\<exists>j\<ge>s. j \<le> length str \<and> glob_spec ci (drop (p + 1) pat) (drop j str)"
    then obtain j where "s \<le> j" "j \<le> length str" "glob_spec ci (drop (p + 1) pat) (drop j str)" by blast
    then show "\<exists>k\<le>length str - s. glob_spec ci (drop (p + 1) pat) (drop (s + k) str)"
      by (intro exI [of _ "j - s"]) simp
  qed
  also have "\<dots> \<longleftrightarrow> glob_spec ci (drop (p + 1) pat) (drop s str) \<or> retry ci str pat (s + 1) (p + 1)"
    using le unfolding retry_def by (metis Suc_eq_plus1 le_SucI le_refl not_less_eq_eq order_antisym)
  finally show ?thesis .
qed

lemma retry_star:
  assumes inv: "glob_inv str pat s p sp pp" and p: "p < length pat" "pat ! p = star"
  shows "glob_spec ci (drop p pat) (drop s str) \<or> retry ci str pat sp pp \<longleftrightarrow>
    glob_spec ci (drop (p + 1) pat) (drop s str) \<or> retry ci str pat (s + 1) (p + 1)"
proof -
  have dp: "drop p pat = star # drop (p + 1) pat" using p by (simp add: Cons_nth_drop_Suc flip: p(2))
  have "glob_spec ci (drop p pat) (drop s str)" if r: "retry ci str pat sp pp"
  proof -
    obtain j where j: "sp \<le> j" "j \<le> length str" "glob_spec ci (drop pp pat) (drop j str)"
      using r unfolding retry_def by blast
    define u where "u = slice pp (p - pp) pat"
    have u: "drop pp pat = u @ drop p pat" "length u = p - pp" "star \<notin> set u"
      using inv p using drop_slice_split [of pp p pat] by (auto simp: glob_inv_def u_def length_slice)
    have "p - pp \<le> length str - j" "glob_spec ci (drop p pat) (drop (j + (p - pp)) str)"
      using glob_spec_no_star [of ci u "drop p pat" "drop j str"] j u by (simp_all add: add.commute)
    moreover from this have "j + (p - pp) \<le> length str" using j(2) by linarith
    moreover have "s \<le> j + (p - pp)" using j(1) inv by (auto simp: glob_inv_def)
    ultimately show ?thesis unfolding dp using glob_spec_suffix by blast
  qed
  moreover have "s \<le> length str" using inv by (simp add: glob_inv_def)
  ultimately show ?thesis using glob_spec_star [OF p] by blast
qed

lemma glob_invD:
  "glob_inv str pat s p sp pp \<Longrightarrow> p \<le> length pat \<and> pp \<le> p \<and> 0 < sp \<and> sp - 1 + (p - pp) = s \<and> s \<le> length str"
  by (simp add: glob_inv_def)

lemma retry_step:
  assumes "sp \<le> length str"
  shows "retry ci str pat sp pp \<longleftrightarrow> glob_spec ci (drop pp pat) (drop sp str) \<or> retry ci str pat (sp + 1) pp"
  using assms unfolding retry_def
  by (metis Suc_eq_plus1 le_SucI le_refl not_less_eq_eq order_antisym)

lemma retry_end: "length str < sp \<Longrightarrow> \<not> retry ci str pat sp pp"
  by (auto simp: retry_def)

lemma retry_finished:
  assumes "glob_inv str pat (length str) p sp pp"
  shows "\<not> retry ci str pat sp pp"
proof
  assume "retry ci str pat sp pp"
  then obtain j where j: "sp \<le> j" "j \<le> length str" "glob_spec ci (drop pp pat) (drop j str)"
    unfolding retry_def by blast
  have u: "drop pp pat = slice pp (p - pp) pat @ drop p pat" "length (slice pp (p - pp) pat) = p - pp"
    "star \<notin> set (slice pp (p - pp) pat)"
    using assms drop_slice_split [of pp p pat] by (auto simp: glob_inv_def length_slice)
  have "p - pp \<le> length str - j"
    using glob_spec_no_star [of ci "slice pp (p - pp) pat" "drop p pat" "drop j str"] j u by simp
  then show False using j glob_invD [OF assms] by linarith
qed

lemma glob_spec_step:
  assumes "p < length pat" "s < length str" "pat ! p \<noteq> star"
  shows "glob_spec ci (drop p pat) (drop s str) \<longleftrightarrow>
    glob_byte ci (pat ! p) (str ! s) \<and> glob_spec ci (drop (p + 1) pat) (drop (s + 1) str)"
proof -
  have "drop p pat = pat ! p # drop (p + 1) pat" "drop s str = str ! s # drop (s + 1) str"
    using assms by (simp_all add: Cons_nth_drop_Suc)
  then show ?thesis using assms(3) by simp
qed

lemma glob_inv_match:
  assumes "glob_inv str pat s p sp pp" "p < length pat" "s < length str" "pat ! p \<noteq> star"
  shows "glob_inv str pat (s + 1) (p + 1) sp pp"
proof -
  have le: "pp \<le> p" using assms(1) by (simp add: glob_inv_def)
  then have "p + 1 - pp = Suc (p - pp)" by simp
  then have "slice pp (p + 1 - pp) pat = slice pp (p - pp) pat @ [pat ! p]"
    unfolding slice_def using assms(2) le by (simp add: take_Suc_conv_app_nth)
  then show ?thesis using assms by (auto simp: glob_inv_def)
qed

lemma glob_loop_total:
  assumes "glob_inv str pat s p sp pp"
  shows "glob_loop ci str pat s p sp pp = Some (glob_spec ci (drop p pat) (drop s str) \<or> retry ci str pat sp pp)"
proof -
  have wf: "wf (less_than <*lex*> less_than <*lex*> less_than)" by (intro wf_lex_prod wf_less_than)
  show ?thesis using assms
  proof (induction "(length pat - pp, length str + 1 - sp, length str - s)" arbitrary: s p sp pp rule: wf_induct_rule [OF wf])
    case 1
    note IH = "1.hyps" and inv = "1.prems"
    note d = glob_invD [OF inv]
    consider "s = length str" | "s < length str" "p < length pat" "pat ! p = star"
      | "s < length str" "p < length pat" "pat ! p \<noteq> star" "glob_byte ci (pat ! p) (str ! s)"
      | "s < length str" "p = length pat \<or> pat ! p \<noteq> star \<and> \<not> glob_byte ci (pat ! p) (str ! s)"
      using d by linarith
    then show ?case
    proof cases
      case finished: 1
      then show ?thesis using retry_finished inv by (subst glob_loop.simps) (simp add: glob_spec_end)
    next
      case at_star: 2
      show ?thesis
      proof (cases "p + 1 = length pat")
        case True
        then have "drop p pat = [star]" using at_star Cons_nth_drop_Suc [of p pat] by simp
        then have "glob_spec ci (drop p pat) (drop s str)" by (auto intro: exI [of _ "length str - s"])
        then show ?thesis using at_star True by (subst glob_loop.simps) simp
      next
        case False
        have "glob_inv str pat s (p + 1) (s + 1) (p + 1)" using at_star by (simp add: glob_inv_def)
        then have "glob_loop ci str pat s (p + 1) (s + 1) (p + 1) =
            Some (glob_spec ci (drop (p + 1) pat) (drop s str) \<or> retry ci str pat (s + 1) (p + 1))"
          using at_star d by (intro IH) auto
        then show ?thesis using at_star False retry_star [OF inv at_star(2,3)] by (subst glob_loop.simps) simp
      qed
    next
      case match: 3
      have "glob_loop ci str pat (s + 1) (p + 1) sp pp =
          Some (glob_spec ci (drop (p + 1) pat) (drop (s + 1) str) \<or> retry ci str pat sp pp)"
        using match d glob_inv_match [OF inv match(2,1,3)] by (intro IH) auto
      then show ?thesis using match glob_spec_step [OF match(2,1,3)]
        by (subst glob_loop.simps) (simp add: glob_byte_def)
    next
      case miss: 4
      have no: "\<not> glob_spec ci (drop p pat) (drop s str)"
        using miss d glob_spec_step [of p pat s str ci] by (cases "p < length pat") auto
      have sp: "sp \<le> length str" using miss(1) d by linarith
      have "glob_inv str pat sp pp (sp + 1) pp" using sp d by (simp add: glob_inv_def)
      then have "glob_loop ci str pat sp pp (sp + 1) pp =
          Some (glob_spec ci (drop pp pat) (drop sp str) \<or> retry ci str pat (sp + 1) pp)"
        using sp by (intro IH) auto
      moreover have "glob_loop ci str pat s p sp pp = glob_loop ci str pat sp pp (sp + 1) pp"
        using miss by (subst glob_loop.simps) (auto simp: glob_byte_def)
      ultimately show ?thesis using no retry_step [OF sp] by simp
    qed
  qed
qed


text \<open>Before the first asterisk both indices move together and there is nothing to retry.\<close>

lemma glob_loop_prefix:
  assumes "p \<le> length pat" "p \<le> length str" "star \<notin> set (take p pat)" "pat \<noteq> []"
  shows "glob_loop ci str pat p p (length str) 0 =
    Some (p \<le> length str \<and> glob_spec ci (drop p pat) (drop p str))"
  using assms
proof (induction "length pat - p" arbitrary: p rule: less_induct)
  case less
  consider "p = length str" | "p < length str" "p < length pat" "pat ! p = star"
    | "p < length str" "p < length pat" "pat ! p \<noteq> star" "glob_byte ci (pat ! p) (str ! p)"
    | "p < length str" "p = length pat \<or> p < length pat \<and> pat ! p \<noteq> star \<and> \<not> glob_byte ci (pat ! p) (str ! p)"
    using less.prems by linarith
  then show ?case
  proof cases
    case 1
    then show ?thesis by (subst glob_loop.simps) (simp add: glob_spec_end)
  next
    case 2
    have inv: "glob_inv str pat p (p + 1) (p + 1) (p + 1)" using 2 by (simp add: glob_inv_def)
    have dp: "drop p pat = star # drop (p + 1) pat" using 2 Cons_nth_drop_Suc [of p pat] by simp
    note star_ok = glob_spec_star [OF 2(2,3), of p str ci]
    then show ?thesis
      using 2 glob_loop_total [OF inv, of ci] by (subst glob_loop.simps) (auto simp: dp)
  next
    case 3
    have "take (p + 1) pat = take p pat @ [pat ! p]" using 3 by (simp add: take_Suc_conv_app_nth)
    then have "glob_loop ci str pat (p + 1) (p + 1) (length str) 0 =
        Some (p + 1 \<le> length str \<and> glob_spec ci (drop (p + 1) pat) (drop (p + 1) str))"
      using 3 less.prems by (intro less.hyps) auto
    then show ?thesis using 3 glob_spec_step [OF 3(2,1,3)]
      by (subst glob_loop.simps) (simp add: glob_byte_def)
  next
    case 4
    have no: "\<not> glob_spec ci (drop p pat) (drop p str)"
      using 4 glob_spec_step [of p pat p str ci] by auto
    have "\<not> list_all (\<lambda>c. c = star) pat"
    proof (cases pat)
      case (Cons a as)
      then show ?thesis using less.prems 4 by (cases p) auto
    qed (use less.prems in simp)
    moreover have "glob_loop ci str pat p p (length str) 0 = glob_loop ci str pat (length str) 0 (length str + 1) 0"
      using 4 by (subst glob_loop.simps) (auto simp: glob_byte_def)
    ultimately show ?thesis using no by (simp add: glob_loop.simps [of _ _ _ "length str"])
  qed
qed


text \<open>
  C23. Glob matching always ends, and its answer is the meaning of the pattern: \<^verbatim>\<open>?\<close> stands for any
  one byte, \<^verbatim>\<open>*\<close> for any number of bytes, other bytes for themselves (or for either case of the
  letter). Keeping only the last asterisk to retry from loses no match.
\<close>

theorem matches_glob_correct: "matches_glob ci str pat = Some (glob_spec ci pat str)"
  using glob_loop_prefix [of 0 pat str ci] by (cases "pat = []") (simp_all add: matches_glob_def)

end
