(* ===== verification/Memmem.thy ===== *)
theory Memmem
  imports Prelude
begin

text \<open>
  \<^verbatim>\<open>arlib/memmem.cpp\<close>: finding a byte string in another, with the SSE4.2 string instruction for
  short needles, the C library for long ones, and a rolling hash where there is neither. Every
  position is an offset into the haystack; \<open>None\<close> is the null pointer.
\<close>

subsection \<open>The standard functions\<close>

text \<open>\<^verbatim>\<open>memmem\<close> of the C library, which is also what the functions here promise: the first occurrence.\<close>

definition occurs_at :: "bytes \<Rightarrow> bytes \<Rightarrow> nat \<Rightarrow> bool" where
  "occurs_at hay needle i \<longleftrightarrow> i + length needle \<le> length hay \<and> slice i (length needle) hay = needle"

definition memmem :: "bytes \<Rightarrow> bytes \<Rightarrow> nat option" where
  "memmem hay needle = find (occurs_at hay needle) [0..<length hay + 1]"

definition memchr :: "bytes \<Rightarrow> byte \<Rightarrow> nat option" where
  "memchr hay c = find (\<lambda>i. hay ! i = c) [0..<length hay]"

subsection \<open>The SSE4.2 instructions\<close>

text \<open>
  \<^verbatim>\<open>_mm_cmpestri\<close> in equal-ordered mode: bit \<open>j\<close> is set when the first operand matches the second
  from position \<open>j\<close>, as far as the second register reaches; the result is the lowest set bit.
\<close>

definition cmpestri_bit :: "bytes \<Rightarrow> nat \<Rightarrow> bytes \<Rightarrow> nat \<Rightarrow> nat \<Rightarrow> bool" where
  "cmpestri_bit a la b lb j \<longleftrightarrow> (\<forall>i<16 - j. i < la \<longrightarrow> i + j < lb \<and> a ! i = b ! (i + j))"

definition cmpestri :: "bytes \<Rightarrow> nat \<Rightarrow> bytes \<Rightarrow> nat \<Rightarrow> nat" where
  "cmpestri a la b lb = (case find (cmpestri_bit a la b lb) [0..<16] of Some j \<Rightarrow> j | None \<Rightarrow> 16)"

text \<open>
  \<^verbatim>\<open>load_sse2_small_highundef\<close>: the value, whose high bytes are whatever memory holds after the
  source, and the first address and the size of the 16-byte access of the optimised build.
\<close>

definition load_small_highundef :: "bytes \<Rightarrow> bytes \<Rightarrow> bytes" where
  "load_small_highundef junk src = take 16 (src @ junk)"

definition load_access :: "u64 \<Rightarrow> nat \<Rightarrow> u64" where
  "load_access src len =
     (if (drop_bit 4 src + 1) AND 255 \<noteq> 0 \<or> unat ((- src) AND 15) < len then src
      else NOT 15 AND src)"

subsection \<open>Short needles\<close>

text \<open>
  The loop of \<^verbatim>\<open>memmem_sse42\<close>: \<open>Inl\<close> is the occurrence it returned, \<open>Inr\<close> the offset at which
  fewer than 16 bytes are left. The instruction takes needles of at most 16 bytes, and the caller
  passes at most 15; beyond that the step of the loop would not be positive.
\<close>

function (sequential) sse42_loop :: "bytes \<Rightarrow> bytes \<Rightarrow> bytes \<Rightarrow> nat \<Rightarrow> nat + nat" where
  "sse42_loop needle_sse needle hay at =
     (if 16 \<le> length hay - at \<and> length needle \<le> 16 then
        let chunk = slice at 16 hay in
        if needle ! 0 \<notin> set chunk then sse42_loop needle_sse needle hay (at + 16)
        else
          let pos = cmpestri needle_sse (length needle) chunk 16 in
          if pos < 16 + 1 - length needle then Inl (at + pos)
          else sse42_loop needle_sse needle hay (at + (16 + 1 - length needle))
      else Inr at)"
  by pat_completeness auto
termination by (relation "measure (\<lambda>(_, _, hay, at). length hay - at)") auto

definition memmem_sse42 :: "bytes \<Rightarrow> (nat \<Rightarrow> bytes) \<Rightarrow> bytes \<Rightarrow> bytes \<Rightarrow> nat option" where
  "memmem_sse42 junk tail_junk hay needle =
     (let needle_sse = load_small_highundef junk needle in
      case sse42_loop needle_sse needle hay 0 of
        Inl pos \<Rightarrow> Some pos
      | Inr at \<Rightarrow>
          let left = length hay - at;
              pos = cmpestri needle_sse (length needle) (load_small_highundef (tail_junk at) (drop at hay)) left
          in if int pos < int left + 1 - int (length needle) then Some (at + pos) else None)"

subsection \<open>The rolling hash\<close>

definition hash_in :: u64 where "hash_in = 283"

definition mark_used :: "u32 list \<Rightarrow> byte \<Rightarrow> u32 list" where
  "mark_used used ch = (let k = unat ch div 32 in used[k := used ! k OR push_bit (unat (ch AND 31)) 1])"

definition is_used :: "u32 list \<Rightarrow> byte \<Rightarrow> bool" where
  "is_used used ch = (used ! (unat ch div 32) AND push_bit (unat (ch AND 31)) 1 \<noteq> 0)"

fun needle_scan :: "bytes \<Rightarrow> u64 \<times> u32 list \<Rightarrow> u64 \<times> u32 list" where
  "needle_scan [] st = st"
| "needle_scan (ch # rest) (h, used) = needle_scan rest (h * hash_in + ucast ch, mark_used used ch)"

text \<open>The window is read backwards; \<open>Inl n\<close> is the position of a byte the needle does not contain.\<close>

fun window_scan :: "u32 list \<Rightarrow> bytes \<Rightarrow> nat \<Rightarrow> nat \<Rightarrow> u64 \<Rightarrow> u64 \<Rightarrow> nat + u64 \<times> u64" where
  "window_scan used hay at 0 h out = Inr (h, out)"
| "window_scan used hay at (Suc n) h out =
     (let ch = hay ! (at + n) in
      if \<not> is_used used ch then Inl n
      else window_scan used hay at n (h + ucast ch * out) (out * hash_in))"

datatype slide_result = Found nat | Exhausted | Restart nat

function slide :: "bytes \<Rightarrow> bytes \<Rightarrow> u64 \<Rightarrow> u32 list \<Rightarrow> u64 \<Rightarrow> u64 \<Rightarrow> nat \<Rightarrow> slide_result" where
  "slide hay needle needle_hash used out h p =
     (if needle_hash = h \<and> slice p (length needle) hay = needle then Found p
      else if length hay \<le> p + length needle then Exhausted
      else
        let h = h * hash_in; h = h - ucast (hay ! p) * out; h = h + ucast (hay ! (p + length needle));
            ch = hay ! (p + length needle)
        in if \<not> is_used used ch then Restart (p + length needle)
           else slide hay needle needle_hash used out h (p + 1))"
  by pat_completeness auto
termination by (relation "measure (\<lambda>(hay, _, _, _, _, _, p). length hay - p)") auto

partial_function (option) rollhash_from :: "bytes \<Rightarrow> bytes \<Rightarrow> u64 \<Rightarrow> u32 list \<Rightarrow> nat \<Rightarrow> nat option option" where
  [code]: "rollhash_from hay needle needle_hash used at =
     (if length hay < at + length needle then Some None
      else case window_scan used hay at (length needle) 0 1 of
        Inl n \<Rightarrow> rollhash_from hay needle needle_hash used (at + n + 1)
      | Inr (h, out) \<Rightarrow>
          (case slide hay needle needle_hash used out h at of
             Found p \<Rightarrow> Some (Some p)
           | Exhausted \<Rightarrow> Some None
           | Restart p \<Rightarrow> rollhash_from hay needle needle_hash used p))"

definition memmem_rollhash :: "bytes \<Rightarrow> bytes \<Rightarrow> nat option option" where
  "memmem_rollhash hay needle =
     (let (h, used) = needle_scan needle (0, replicate 8 0)
      in rollhash_from hay needle h used 0)"

subsection \<open>Choosing between them\<close>

text \<open>\<open>sse42\<close>: the processor has SSE4.2; \<open>libc\<close>: the platform has a \<^verbatim>\<open>memmem\<close> of its own.\<close>

definition memmem_arlib ::
  "bool \<Rightarrow> bool \<Rightarrow> bytes \<Rightarrow> (nat \<Rightarrow> bytes) \<Rightarrow> bytes \<Rightarrow> bytes \<Rightarrow> nat option option" where
  "memmem_arlib sse42 libc junk tail_junk hay needle =
     (if length needle = 0 then Some (Some 0)
      else case memchr hay (needle ! 0) of
        None \<Rightarrow> Some None
      | Some first \<Rightarrow>
          if length needle = 1 then Some (Some first)
          else
            let rest = drop first hay in
            if length rest < length needle then Some None
            else if length needle \<le> 15 \<and> sse42
            then Some (map_option (\<lambda>p. first + p) (memmem_sse42 junk tail_junk rest needle))
            else if libc then Some (map_option (\<lambda>p. first + p) (memmem rest needle))
            else map_option (map_option (\<lambda>p. first + p)) (memmem_rollhash rest needle))"

subsection \<open>First occurrences\<close>

lemma find_upt_Some: "find P [0..<n] = Some i \<longleftrightarrow> i < n \<and> P i \<and> (\<forall>j<i. \<not> P j)"
  by (auto simp: find_Some_iff)

lemma find_upt_None: "find P [0..<n] = None \<longleftrightarrow> (\<forall>j<n. \<not> P j)"
  by (auto simp: find_None_iff)

lemma memmem_Some:
  "memmem hay needle = Some i \<longleftrightarrow> occurs_at hay needle i \<and> (\<forall>j<i. \<not> occurs_at hay needle j)"
  unfolding memmem_def find_upt_Some by (auto simp: occurs_at_def)

lemma memmem_None: "memmem hay needle = None \<longleftrightarrow> (\<forall>j. \<not> occurs_at hay needle j)"
  unfolding memmem_def find_upt_None by (auto simp: occurs_at_def)

lemma occurs_at_nth:
  "occurs_at hay needle i \<longleftrightarrow> i + length needle \<le> length hay \<and> (\<forall>k<length needle. hay ! (i + k) = needle ! k)"
  by (auto simp: occurs_at_def list_eq_iff_nth_eq length_slice nth_slice)

definition none_before :: "bytes \<Rightarrow> bytes \<Rightarrow> nat \<Rightarrow> bool" where
  "none_before hay needle k \<longleftrightarrow> (\<forall>j<k. \<not> occurs_at hay needle j)"

lemma none_before_0 [simp]: "none_before hay needle 0"
  by (simp add: none_before_def)

lemma memmem_found: "none_before hay needle i \<Longrightarrow> occurs_at hay needle i \<Longrightarrow> memmem hay needle = Some i"
  by (simp add: memmem_Some none_before_def)

lemma memmem_missing:
  assumes "none_before hay needle k" and "length hay < k + length needle"
  shows "memmem hay needle = None"
proof -
  have "\<not> occurs_at hay needle j" for j
  proof (cases "j < k")
    case False
    then have "length hay < j + length needle" using assms(2) by linarith
    then show ?thesis by (simp add: occurs_at_def)
  qed (use assms(1) in \<open>simp add: none_before_def\<close>)
  then show ?thesis by (simp add: memmem_None)
qed

lemma none_before_extend:
  "none_before hay needle k \<Longrightarrow> (\<And>j. k \<le> j \<Longrightarrow> j < m \<Longrightarrow> \<not> occurs_at hay needle j) \<Longrightarrow> none_before hay needle m"
  unfolding none_before_def by (metis not_less)

lemma memmem_drop:
  assumes "none_before hay needle k" and "k \<le> length hay"
  shows "memmem hay needle = map_option (\<lambda>p. k + p) (memmem (drop k hay) needle)"
proof -
  have shift: "occurs_at (drop k hay) needle j \<longleftrightarrow> occurs_at hay needle (k + j)" for j
    using assms(2) by (auto simp: occurs_at_nth add.assoc)
  show ?thesis
  proof (cases "memmem (drop k hay) needle")
    case None
    have "none_before hay needle (length hay + 1)"
    proof (rule none_before_extend [OF assms(1)])
      fix j assume "k \<le> j"
      then show "\<not> occurs_at hay needle j"
        using None shift [of "j - k"] by (simp add: memmem_None)
    qed
    then show ?thesis using None by (simp add: memmem_missing)
  next
    case (Some p)
    have "none_before hay needle (k + p)"
    proof (rule none_before_extend [OF assms(1)])
      fix j assume "k \<le> j" "j < k + p"
      then have "j - k < p" "k + (j - k) = j" by auto
      then show "\<not> occurs_at hay needle j"
        using Some shift [of "j - k"] by (simp add: memmem_Some)
    qed
    moreover have "occurs_at hay needle (k + p)" using Some shift [of p] by (simp add: memmem_Some)
    ultimately show ?thesis using Some by (simp add: memmem_found)
  qed
qed

subsection \<open>The string instruction\<close>

lemma cmpestri_bit_iff:
  assumes n: "0 < length needle" "length needle \<le> 16" and lb: "lb \<le> 16" "at + lb \<le> length hay"
    and whole: "lb = 16 \<or> at + lb = length hay"
    and a: "\<forall>i<length needle. a ! i = needle ! i" and b: "\<forall>i<lb. b ! i = hay ! (at + i)"
    and j: "j < 16"
  shows "j + length needle \<le> 16 \<Longrightarrow> cmpestri_bit a (length needle) b lb j \<longleftrightarrow> occurs_at hay needle (at + j) \<and> j + length needle \<le> lb"
    and "lb < 16 \<Longrightarrow> 16 < j + length needle \<Longrightarrow> \<not> cmpestri_bit a (length needle) b lb j"
proof -
  show "cmpestri_bit a (length needle) b lb j \<longleftrightarrow> occurs_at hay needle (at + j) \<and> j + length needle \<le> lb"
    if le: "j + length needle \<le> 16"
  proof
    assume bit: "cmpestri_bit a (length needle) b lb j"
    have each: "i + j < lb \<and> needle ! i = hay ! (at + (i + j))" if i: "i < length needle" for i
    proof -
      have "i < 16 - j" using i le by linarith
      then have "i + j < lb \<and> a ! i = b ! (i + j)" using bit i by (simp add: cmpestri_bit_def)
      then show ?thesis using a b i by simp
    qed
    have "length needle - 1 < length needle" using n by simp
    from each [OF this] have "length needle - 1 + j < lb" by blast
    then have "j + length needle \<le> lb" using n by linarith
    moreover have "hay ! (at + j + k) = needle ! k" if "k < length needle" for k
      using each [OF that] by (simp add: add_ac)
    ultimately show "occurs_at hay needle (at + j) \<and> j + length needle \<le> lb"
      using lb(2) by (simp add: occurs_at_nth)
  next
    assume "occurs_at hay needle (at + j) \<and> j + length needle \<le> lb"
    then show "cmpestri_bit a (length needle) b lb j"
      using a b by (auto simp: cmpestri_bit_def occurs_at_nth add_ac)
  qed
  show "\<not> cmpestri_bit a (length needle) b lb j" if "lb < 16" "16 < j + length needle"
  proof
    assume bit: "cmpestri_bit a (length needle) b lb j"
    have "lb - j < 16 - j" "lb - j < length needle" using that j by auto
    then have "lb - j + j < lb" using bit unfolding cmpestri_bit_def by blast
    then show False by simp
  qed
qed

lemma cmpestri_bounds:
  "cmpestri a la b lb < 16 \<Longrightarrow> cmpestri_bit a la b lb (cmpestri a la b lb)"
  "j < 16 \<Longrightarrow> j < cmpestri a la b lb \<Longrightarrow> \<not> cmpestri_bit a la b lb j"
  "cmpestri a la b lb \<le> 16"
  by (auto simp: cmpestri_def find_upt_Some find_upt_None split: option.splits)


lemma sse42_loop_ok:
  assumes n: "2 \<le> length needle" "length needle \<le> 16" and none: "none_before hay needle at" "at \<le> length hay"
    and sse: "\<forall>i<length needle. needle_sse ! i = needle ! i"
  shows "case sse42_loop needle_sse needle hay at of
      Inl p \<Rightarrow> memmem hay needle = Some p
    | Inr k \<Rightarrow> none_before hay needle k \<and> k \<le> length hay \<and> length hay - k < 16"
  using none
proof (induction "length hay - at" arbitrary: at rule: less_induct)
  case less
  show ?case
  proof (cases "16 \<le> length hay - at")
    case False
    then show ?thesis using less.prems by (subst sse42_loop.simps) simp
  next
    case True
    define chunk where "chunk = slice at 16 hay"
    define pos where "pos = cmpestri needle_sse (length needle) chunk 16"
    have le: "at + 16 \<le> length hay" using True by linarith
    have chunk: "\<forall>i<16. chunk ! i = hay ! (at + i)" and len: "length chunk = 16"
      using le by (simp_all add: chunk_def nth_slice length_slice)
    have loop: "sse42_loop needle_sse needle hay at =
        (if needle ! 0 \<notin> set chunk then sse42_loop needle_sse needle hay (at + 16)
         else if pos < 17 - length needle then Inl (at + pos)
         else sse42_loop needle_sse needle hay (at + (17 - length needle)))"
      using True n by (subst sse42_loop.simps) (simp add: Let_def chunk_def pos_def)
    have bit: "cmpestri_bit needle_sse (length needle) chunk 16 j \<longleftrightarrow> occurs_at hay needle (at + j)"
      if "j + length needle \<le> 16" for j
    proof -
      have "0 < length needle" "j < 16" using n that by linarith+
      from cmpestri_bit_iff(1) [OF this(1) n(2) le_refl le disjI1 [OF refl] sse chunk this(2) that]
      show ?thesis using that by simp
    qed
    show ?thesis
    proof (cases "needle ! 0 \<in> set chunk")
      case no: False
      have "\<not> occurs_at hay needle j" if "at \<le> j" "j < at + 16" for j
      proof
        assume "occurs_at hay needle j"
        then have "hay ! j = needle ! 0" using n by (force simp: occurs_at_nth)
        moreover have "chunk ! (j - at) = hay ! j" "j - at < length chunk" using chunk that len by simp_all
        moreover from this have "hay ! j \<in> set chunk" by (metis nth_mem)
        ultimately show False using no by simp
      qed
      then have "none_before hay needle (at + 16)" using less.prems(1) by (rule none_before_extend [rotated])
      then show ?thesis using less.hyps [of "at + 16"] le no loop by simp
    next
      case yes: True
      show ?thesis
      proof (cases "pos < 17 - length needle")
        case True
        have "occurs_at hay needle (at + pos)"
          using cmpestri_bounds(1) [of needle_sse "length needle" chunk 16] bit [of pos] True n
          by (simp add: pos_def)
        moreover have "none_before hay needle (at + pos)"
        proof (rule none_before_extend [OF less.prems(1)])
          fix j assume "at \<le> j" "j < at + pos"
          then have j: "j - at < pos" "at + (j - at) = j" by auto
          then show "\<not> occurs_at hay needle j"
            using cmpestri_bounds(2) [of "j - at" needle_sse "length needle" chunk 16] bit [of "j - at"] True
            by (simp add: pos_def)
        qed
        ultimately show ?thesis using loop yes True by (simp add: memmem_found)
      next
        case False
        have "none_before hay needle (at + (17 - length needle))"
        proof (rule none_before_extend [OF less.prems(1)])
          fix j assume "at \<le> j" "j < at + (17 - length needle)"
          then have j: "j - at < pos" "at + (j - at) = j" "j - at + length needle \<le> 16" using False by auto
          then show "\<not> occurs_at hay needle j"
            using cmpestri_bounds(2) [of "j - at" needle_sse "length needle" chunk 16] bit [of "j - at"] n
            by (simp add: pos_def)
        qed
        then show ?thesis using less.hyps [of "at + (17 - length needle)"] le n yes False loop by simp
      qed
    qed
  qed
qed

lemma memmem_sse42_ok:
  assumes n: "2 \<le> length needle" "length needle \<le> 15"
  shows "memmem_sse42 junk tail_junk hay needle = memmem hay needle"
proof -
  define sse where "sse = load_small_highundef junk needle"
  have sse: "\<forall>i<length needle. sse ! i = needle ! i"
    using n by (simp add: sse_def load_small_highundef_def nth_append)
  have ok: "case sse42_loop sse needle hay 0 of Inl p \<Rightarrow> memmem hay needle = Some p
      | Inr k \<Rightarrow> none_before hay needle k \<and> k \<le> length hay \<and> length hay - k < 16"
    by (rule sse42_loop_ok) (use n sse in auto)
  show ?thesis
  proof (cases "sse42_loop sse needle hay 0")
    case (Inl p)
    then show ?thesis using ok by (simp add: memmem_sse42_def Let_def flip: sse_def)
  next
    case (Inr k)
    then have k: "none_before hay needle k" "k \<le> length hay" "length hay - k < 16" using ok by auto
    define left tail where "left = length hay - k" and "tail = load_small_highundef (tail_junk k) (drop k hay)"
    define pos where "pos = cmpestri sse (length needle) tail left"
    have tail: "\<forall>i<left. tail ! i = hay ! (k + i)"
      using k by (simp add: tail_def left_def load_small_highundef_def nth_append)
    have res: "memmem_sse42 junk tail_junk hay needle =
        (if int pos < int left + 1 - int (length needle) then Some (k + pos) else None)"
      using Inr by (simp add: memmem_sse42_def Let_def pos_def left_def tail_def flip: sse_def)
    have left: "left < 16" "k + left = length hay" using k by (simp_all add: left_def)
    have bit: "cmpestri_bit sse (length needle) tail left j \<longleftrightarrow> occurs_at hay needle (k + j)" if "j < 16" for j
    proof -
      have p: "0 < length needle" "length needle \<le> 16" "left \<le> 16" "k + left \<le> length hay" using n left by linarith+
      note iff = cmpestri_bit_iff [OF p disjI2 [OF left(2)] sse tail that]
      show ?thesis
      proof (cases "j + length needle \<le> 16")
        case True
        have "occurs_at hay needle (k + j) \<longrightarrow> j + length needle \<le> left" using left(2) by (auto simp: occurs_at_def)
        then show ?thesis using iff(1) [OF True] by blast
      next
        case False
        then have "\<not> occurs_at hay needle (k + j)" using left by (simp add: occurs_at_def)
        then show ?thesis using iff(2) [OF left(1)] False by simp
      qed
    qed
    show ?thesis
    proof (cases "pos < 16")
      case True
      then have "occurs_at hay needle (k + pos)"
        using cmpestri_bounds(1) [of sse "length needle" tail left] bit [of pos] by (simp add: pos_def)
      moreover have "none_before hay needle (k + pos)"
      proof (rule none_before_extend [OF k(1)])
        fix j assume "k \<le> j" "j < k + pos"
        then have j: "j - k < pos" "k + (j - k) = j" by auto
        then show "\<not> occurs_at hay needle j"
          using cmpestri_bounds(2) [of "j - k" sse "length needle" tail left] bit [of "j - k"] True
          by (simp add: pos_def)
      qed
      moreover have "int pos < int left + 1 - int (length needle)"
        using \<open>occurs_at hay needle (k + pos)\<close> left by (simp add: occurs_at_def)
      ultimately show ?thesis using res by (simp add: memmem_found)
    next
      case False
      have "\<not> occurs_at hay needle j" for j
      proof -
        consider "j < k" | "k \<le> j" "j - k < 16" | "k \<le> j" "16 \<le> j - k" by linarith
        then show ?thesis
        proof cases
          case 1
          then show ?thesis using k(1) by (simp add: none_before_def)
        next
          case 2
          then show ?thesis using False cmpestri_bounds(2) [of "j - k" sse "length needle" tail left] bit [of "j - k"]
            by (simp add: pos_def)
        next
          case 3
          then have "length hay < j + length needle" using left n by linarith
          then show ?thesis by (simp add: occurs_at_def)
        qed
      qed
      moreover have "\<not> int pos < int left + 1 - int (length needle)" using False left n by linarith
      moreover have "memmem hay needle = None" using calculation(1) memmem_None by blast
      ultimately show ?thesis using res by simp
    qed
  qed
qed


subsection \<open>The rolling hash\<close>

definition window_hash :: "bytes \<Rightarrow> u64" where
  "window_hash = foldl (\<lambda>h ch. h * hash_in + ucast ch) 0"

lemma window_hash_snoc: "window_hash (ws @ [c]) = window_hash ws * hash_in + ucast c"
  by (simp add: window_hash_def)

lemma foldl_hash: "foldl (\<lambda>h ch. h * hash_in + ucast ch) h ws = h * hash_in ^ length ws + window_hash ws"
proof (induction ws rule: rev_induct)
  case (snoc c ws)
  then show ?case by (simp add: window_hash_snoc algebra_simps)
qed (simp add: window_hash_def)

lemma window_hash_Cons: "window_hash (c # ws) = ucast c * hash_in ^ length ws + window_hash ws"
  using foldl_hash [of "ucast c" ws] by (simp add: window_hash_def)

lemma slice_Suc: "p + n < length xs \<Longrightarrow> slice p (Suc n) xs = slice p n xs @ [xs ! (p + n)]"
  by (simp add: slice_def take_Suc_conv_app_nth)

lemma slice_Cons: "p + n < length xs \<Longrightarrow> slice p (Suc n) xs = xs ! p # slice (p + 1) n xs"
  by (simp add: slice_def flip: Cons_nth_drop_Suc)

lemma roll:
  assumes "p + n < length hay"
  shows "window_hash (slice (p + 1) n hay) =
    window_hash (slice p n hay) * hash_in - ucast (hay ! p) * hash_in ^ n + ucast (hay ! (p + n))"
proof -
  have "length (slice (p + 1) n hay) = n" using assms by (simp add: length_slice)
  then have "window_hash (slice p (Suc n) hay) = ucast (hay ! p) * hash_in ^ n + window_hash (slice (p + 1) n hay)"
    using slice_Cons [OF assms] by (simp add: window_hash_Cons)
  moreover have "window_hash (slice p (Suc n) hay) = window_hash (slice p n hay) * hash_in + ucast (hay ! (p + n))"
    using slice_Suc [OF assms] by (simp add: window_hash_snoc)
  ultimately show ?thesis by (simp add: algebra_simps)
qed

lemma is_used_bit: "is_used used ch \<longleftrightarrow> bit (used ! (unat ch div 32)) (unat (ch AND 31))"
  unfolding is_used_def by (rule bit_iff_and_push_bit_not_eq_0 [symmetric])

lemma is_used_mark:
  assumes "length used = 8"
  shows "is_used (mark_used used ch) ch" "is_used used c \<Longrightarrow> is_used (mark_used used ch) c"
    "length (mark_used used ch) = 8"
proof -
  have k: "unat ch div 32 < 8" using unsigned_less [of ch] by (simp add: div_less_iff_less_mult)
  have "ch AND 31 = take_bit 5 ch" by (simp add: take_bit_eq_mask mask_eq_exp_minus_1)
  then have "unat (ch AND 31) = take_bit 5 (unat ch)" by (simp only: unsigned_take_bit_eq)
  moreover have "take_bit 5 (unat ch) < 2 ^ 5" by (rule take_bit_nat_less_exp)
  ultimately have "unat (ch AND 31) < 32" by (simp only:) simp
  then have "bit (push_bit (unat (ch AND 31)) (1 :: u32)) (unat (ch AND 31))" unfolding bit_push_bit_iff by simp
  then show "is_used (mark_used used ch) ch"
    unfolding is_used_bit mark_used_def Let_def using k assms by (simp only: nth_list_update_eq bit_or_iff simp_thms)
  show "is_used used c \<Longrightarrow> is_used (mark_used used ch) c"
    using k assms by (simp add: is_used_bit mark_used_def Let_def nth_list_update bit_or_iff)
  show "length (mark_used used ch) = 8" using assms by (simp add: mark_used_def Let_def)
qed

lemma needle_scan_ok:
  assumes "needle_scan ws (h, used) = (h', used')" and "length used = 8"
  shows "h' = foldl (\<lambda>h ch. h * hash_in + ucast ch) h ws \<and> (\<forall>c. is_used used c \<or> c \<in> set ws \<longrightarrow> is_used used' c)"
  using assms
proof (induction ws arbitrary: h used)
  case (Cons ch ws)
  note m = is_used_mark [OF Cons.prems(2)]
  have "needle_scan ws (h * hash_in + ucast ch, mark_used used ch) = (h', used')" using Cons.prems(1) by simp
  from Cons.IH [OF this m(3)] show ?case using m(1) m(2) [of _ ch] by auto
qed simp

lemma window_scan_ok:
  assumes "at + n \<le> length hay"
  shows "case window_scan used hay at n h out of
      Inl m \<Rightarrow> m < n \<and> \<not> is_used used (hay ! (at + m))
    | Inr (h', out') \<Rightarrow> h' = h + out * window_hash (slice at n hay) \<and> out' = out * hash_in ^ n"
  using assms
proof (induction n arbitrary: h out)
  case 0
  then show ?case by (simp add: window_hash_def)
next
  case (Suc n)
  show ?case
  proof (cases "is_used used (hay ! (at + n))")
    case True
    have "slice at (Suc n) hay = slice at n hay @ [hay ! (at + n)]" using Suc.prems by (simp add: slice_Suc)
    then show ?thesis
      using True Suc.IH [of "h + ucast (hay ! (at + n)) * out" "out * hash_in"] Suc.prems
      by (auto simp: Let_def window_hash_snoc algebra_simps split: sum.splits)
  next
    case False
    then show ?thesis by (simp add: Let_def)
  qed
qed

lemma unused_blocks:
  assumes used: "\<And>c. c \<in> set needle \<Longrightarrow> is_used used c" and "\<not> is_used used (hay ! q)"
    and "j \<le> q" "q < j + length needle"
  shows "\<not> occurs_at hay needle j"
proof
  assume occ: "occurs_at hay needle j"
  have k: "q - j < length needle" "j + (q - j) = q" using assms(3,4) by auto
  then have "needle ! (q - j) = hay ! q" using occ by (metis occurs_at_nth)
  then show False using used [OF nth_mem [OF k(1)]] assms(2) by simp
qed

declare slide.simps [simp del]

lemma slide_unfold:
  assumes "p + length needle \<le> length hay"
  shows "slide hay needle (window_hash needle) used (hash_in ^ length needle) (window_hash (slice p (length needle) hay)) p =
    (if slice p (length needle) hay = needle then Found p
     else if length hay \<le> p + length needle then Exhausted
     else if \<not> is_used used (hay ! (p + length needle)) then Restart (p + length needle)
     else slide hay needle (window_hash needle) used (hash_in ^ length needle)
       (window_hash (slice (p + 1) (length needle) hay)) (p + 1))"
proof -
  define w where "w = window_hash (slice p (length needle) hay)"
  have iff: "window_hash needle = w \<and> slice p (length needle) hay = needle \<longleftrightarrow> slice p (length needle) hay = needle"
    by (auto simp: w_def)
  show ?thesis
  proof (cases "length hay \<le> p + length needle")
    case True
    then show ?thesis unfolding w_def [symmetric] by (subst slide.simps) (simp only: iff if_True)
  next
    case False
    then have "p + length needle < length hay" by simp
    note roll = roll [OF this]
    show ?thesis unfolding roll w_def [symmetric] by (subst slide.simps) (simp only: iff Let_def)
  qed
qed

lemma slide_ok:
  assumes used: "\<And>c. c \<in> set needle \<Longrightarrow> is_used used c" and n: "0 < length needle"
    and "p + length needle \<le> length hay" "none_before hay needle p"
  shows "case slide hay needle (window_hash needle) used (hash_in ^ length needle) (window_hash (slice p (length needle) hay)) p of
      Found q \<Rightarrow> memmem hay needle = Some q
    | Exhausted \<Rightarrow> memmem hay needle = None
    | Restart q \<Rightarrow> none_before hay needle q \<and> p < q \<and> q \<le> length hay"
  using assms(3-)
proof (induction "length hay - p" arbitrary: p rule: less_induct)
  case less
  note unfold = slide_unfold [OF less.prems(1), of used]
  show ?case
  proof (cases "slice p (length needle) hay = needle")
    case True
    then have "occurs_at hay needle p" using less.prems(1) by (simp add: occurs_at_def)
    then have "memmem hay needle = Some p" by (rule memmem_found [OF less.prems(2)])
    then show ?thesis unfolding unfold using True by simp
  next
    case no: False
    then have "\<not> occurs_at hay needle p" by (simp add: occurs_at_def)
    then have next_none: "none_before hay needle (p + 1)"
      using less.prems(2) unfolding none_before_def by (metis less_Suc_eq Suc_eq_plus1)
    show ?thesis
    proof (cases "length hay \<le> p + length needle")
      case True
      then have "memmem hay needle = None" by (intro memmem_missing [OF next_none]) simp
      then show ?thesis unfolding unfold using True no by simp
    next
      case False
      then have lt: "p + 1 + length needle \<le> length hay" by simp
      show ?thesis
      proof (cases "is_used used (hay ! (p + length needle))")
        case True
        have "case slide hay needle (window_hash needle) used (hash_in ^ length needle)
            (window_hash (slice (p + 1) (length needle) hay)) (p + 1) of
              Found q \<Rightarrow> memmem hay needle = Some q
            | Exhausted \<Rightarrow> memmem hay needle = None
            | Restart q \<Rightarrow> none_before hay needle q \<and> p + 1 < q \<and> q \<le> length hay"
          by (rule less.hyps [OF _ lt next_none]) (use lt in linarith)
        then show ?thesis unfolding unfold using True no False by (simp split: slide_result.splits)
      next
        case unused: False
        have "none_before hay needle (p + length needle)"
        proof (rule none_before_extend [OF next_none])
          fix j assume "p + 1 \<le> j" "j < p + length needle"
          then show "\<not> occurs_at hay needle j" using unused by (intro unused_blocks [OF used]) auto
        qed
        then show ?thesis unfolding unfold using no False unused n lt by simp
      qed
    qed
  qed
qed

lemma rollhash_from_ok:
  assumes used: "\<And>c. c \<in> set needle \<Longrightarrow> is_used used c" and n: "0 < length needle"
    and none: "none_before hay needle at"
  shows "rollhash_from hay needle (window_hash needle) used at = Some (memmem hay needle)"
  using none
proof (induction "length hay - at" arbitrary: at rule: less_induct)
  case less
  show ?case
  proof (cases "length hay < at + length needle")
    case True
    then show ?thesis using memmem_missing [OF less.prems] by (subst rollhash_from.simps) simp
  next
    case False
    then have fits: "at + length needle \<le> length hay" by simp
    note scan = window_scan_ok [OF fits, of used 0 1]
    show ?thesis
    proof (cases "window_scan used hay at (length needle) 0 1")
      case (Inl m)
      then have m: "m < length needle" "\<not> is_used used (hay ! (at + m))" using scan by auto
      have "none_before hay needle (at + m + 1)"
      proof (rule none_before_extend [OF less.prems])
        fix j assume "at \<le> j" "j < at + m + 1"
        then show "\<not> occurs_at hay needle j" using m by (intro unused_blocks [OF used, where q = "at + m"]) auto
      qed
      then have "rollhash_from hay needle (window_hash needle) used (at + m + 1) = Some (memmem hay needle)"
        using less.hyps [of "at + m + 1"] m fits by simp
      then show ?thesis using Inl False by (subst rollhash_from.simps) simp
    next
      case (Inr r)
      then have r: "r = (window_hash (slice at (length needle) hay), hash_in ^ length needle)"
        using scan by (cases r) auto
      note slide = slide_ok [OF used n fits less.prems]
      show ?thesis
      proof (cases "slide hay needle (window_hash needle) used (hash_in ^ length needle)
          (window_hash (slice at (length needle) hay)) at")
        case (Found q)
        then show ?thesis using Inr r False slide by (subst rollhash_from.simps) simp
      next
        case Exhausted
        then show ?thesis using Inr r False slide by (subst rollhash_from.simps) simp
      next
        case (Restart q)
        then have q: "none_before hay needle q" "at < q" "q \<le> length hay" using slide by simp_all
        then have "rollhash_from hay needle (window_hash needle) used q = Some (memmem hay needle)"
          using less.hyps [of q] by simp
        then show ?thesis using Restart Inr r False by (subst rollhash_from.simps) simp
      qed
    qed
  qed
qed

lemma memmem_rollhash_ok: "0 < length needle \<Longrightarrow> memmem_rollhash hay needle = Some (memmem hay needle)"
proof -
  assume n: "0 < length needle"
  obtain h used where scan: "needle_scan needle (0, replicate 8 0) = (h, used)" by fastforce
  then have "h = window_hash needle" "\<And>c. c \<in> set needle \<Longrightarrow> is_used used c"
    using needle_scan_ok [OF scan] by (simp_all add: window_hash_def)
  then show ?thesis using rollhash_from_ok [of needle used hay 0] n scan by (simp add: memmem_rollhash_def)
qed


lemma memchr_Some: "memchr hay c = Some i \<longleftrightarrow> i < length hay \<and> hay ! i = c \<and> (\<forall>j<i. hay ! j \<noteq> c)"
  by (simp add: memchr_def find_upt_Some)

lemma memchr_None: "memchr hay c = None \<longleftrightarrow> c \<notin> set hay"
  by (auto simp: memchr_def find_upt_None in_set_conv_nth)

lemma occurs_first: "occurs_at hay needle j \<Longrightarrow> 0 < length needle \<Longrightarrow> j < length hay \<and> hay ! j = needle ! 0"
  unfolding occurs_at_nth by (metis add_leD1 add.right_neutral le_neq_implies_less less_add_same_cancel1 order_less_le_trans)

text \<open>
  C9. With or without SSE4.2, with or without a \<^verbatim>\<open>memmem\<close> in the C library, and whatever the unused
  bytes of the vector registers hold, the search ends and returns the first occurrence of the
  needle: hash collisions and the skipping of bytes the needle lacks never hide or invent one.
\<close>

theorem memmem_arlib_correct:
  "memmem_arlib sse42 libc junk tail_junk hay needle = Some (memmem hay needle)"
proof (cases "length needle = 0")
  case True
  then have "memmem hay needle = Some 0" by (simp add: memmem_Some occurs_at_def)
  then show ?thesis using True by (simp add: memmem_arlib_def)
next
  case False
  then have n: "0 < length needle" by simp
  show ?thesis
  proof (cases "memchr hay (needle ! 0)")
    case None
    have "memmem hay needle = None"
      unfolding memmem_None using None occurs_first [OF _ n] by (metis memchr_None nth_mem)
    then show ?thesis using None False by (simp add: memmem_arlib_def)
  next
    case (Some first)
    then have first: "first < length hay" "hay ! first = needle ! 0" "\<forall>j<first. hay ! j \<noteq> needle ! 0"
      by (simp_all add: memchr_Some)
    have none: "none_before hay needle first"
      using occurs_first [OF _ n] first(3) unfolding none_before_def by metis
    have rest: "memmem hay needle = map_option (\<lambda>p. first + p) (memmem (drop first hay) needle)"
      by (rule memmem_drop [OF none]) (use first(1) in simp)
    show ?thesis
    proof (cases "length needle = 1")
      case True
      then have "occurs_at hay needle first" using first by (simp add: occurs_at_nth)
      then show ?thesis using Some False True memmem_found [OF none] by (simp add: memmem_arlib_def)
    next
      case many: False
      show ?thesis
      proof (cases "length (drop first hay) < length needle")
        case True
        have "memmem hay needle = None" by (rule memmem_missing [OF none]) (use True first(1) in simp)
        then show ?thesis using Some False many True by (simp add: memmem_arlib_def Let_def)
      next
        case fits: False
        have "memmem_sse42 junk tail_junk (drop first hay) needle = memmem (drop first hay) needle" if "length needle \<le> 15"
          by (rule memmem_sse42_ok) (use that n many in linarith)+
        then show ?thesis using Some False many fits memmem_rollhash_ok [OF n] rest
          by (simp add: memmem_arlib_def Let_def)
      qed
    qed
  qed
qed

lemma mod16_complement: "(a + s) mod 16 = 0 \<Longrightarrow> a mod 16 = (16 - s mod 16) mod (16 :: nat)"
proof -
  assume "(a + s) mod 16 = 0"
  then have sum: "(a mod 16 + s mod 16) mod 16 = 0" by (simp add: mod_add_eq)
  have lt: "a mod 16 < 16" "s mod 16 < 16" by simp_all
  obtain k where k: "a mod 16 + s mod 16 = 16 * k" using sum by (metis dvdE mod_0_imp_dvd)
  then have "k = 0 \<or> k = 1" using lt by linarith
  then show ?thesis using k lt by auto
qed

lemma unat_neg_15: "unat ((- src) AND (15 :: u64)) = (16 - unat src mod 16) mod 16"
proof -
  have "(- src) AND 15 = take_bit 4 (- src)" by (simp add: take_bit_eq_mask mask_eq_exp_minus_1)
  then have "unat ((- src) AND 15) = take_bit 4 (unat (- src))" by (simp only: unsigned_take_bit_eq)
  also have "\<dots> = unat (- src) mod 16" by (simp add: take_bit_eq_mod)
  finally have neg: "unat ((- src) AND 15) = unat (- src) mod 16" .
  have "(unat (- src) + unat src) mod 2 ^ 64 = unat (- src + src)" unfolding unat_word_ariths by simp
  then have "2 ^ 64 dvd unat (- src) + unat src" by (simp add: mod_0_imp_dvd)
  then have "2 ^ 4 dvd unat (- src) + unat src" by (rule power_le_dvd) simp
  then have "(unat (- src) + unat src) mod 16 = 0" by simp
  then show ?thesis unfolding neg by (rule mod16_complement)
qed

lemma unat_low_bits: "unat (w AND 255) = unat w mod 256" "unat (NOT 15 AND w) = unat w - unat w mod 16" for w :: u64
proof -
  have "w AND 255 = take_bit 8 w" by (simp add: take_bit_eq_mask mask_eq_exp_minus_1)
  then have "unat (w AND 255) = take_bit 8 (unat w)" by (simp only: unsigned_take_bit_eq)
  then show "unat (w AND 255) = unat w mod 256" by (simp add: take_bit_eq_mod)
  have "NOT 15 AND w = push_bit 4 (drop_bit 4 w)"
  proof -
    have m: "15 = (mask 4 :: u64)" by (simp add: mask_eq_exp_minus_1)
    show ?thesis unfolding m by (rule bit_word_eqI) (auto simp: bit_simps)
  qed
  moreover have "unat w < 2 ^ 64" using unsigned_less [of w] by simp
  ultimately show "unat (NOT 15 AND w) = unat w - unat w mod 16"
    unfolding unsigned_push_bit_eq unsigned_drop_bit_eq \<open>NOT 15 AND w = _\<close>
    by (simp add: take_bit_eq_mod push_bit_eq_mult drop_bit_eq_div minus_mod_eq_div_mult)
qed

text \<open>
  The vector load of the optimised build, asked for at least one byte, touches no memory page
  that the bytes it was asked for do not lie on, so it cannot fault where a plain copy would not.
\<close>

theorem load_access_pages:
  assumes "0 < len" and "len \<le> 16" and "unat src + 16 \<le> 2 ^ 64" and "i < 16"
  shows "\<exists>j<len. (unat (load_access src len) + i) div 4096 = (unat src + j) div 4096"
proof -
  define s where "s = unat src"
  have lt: "s + 16 \<le> 2 ^ 64" using assms(3) by (simp add: s_def)
  have "unat (drop_bit 4 src + 1) = s div 16 + 1"
    using lt unsigned_less [of src] by (simp add: unat_word_ariths unsigned_drop_bit_eq take_bit_eq_mod drop_bit_eq_div s_def)
  then have "unat ((drop_bit 4 src + 1) AND 255) = (s div 16 + 1) mod 256" by (simp add: unat_low_bits)
  then have cond: "(drop_bit 4 src + 1) AND 255 \<noteq> 0 \<longleftrightarrow> (s div 16 + 1) mod 256 \<noteq> 0"
    by (metis unat_0 word_unat_eq_iff)
  have access: "unat (load_access src len) =
      (if (s div 16 + 1) mod 256 \<noteq> 0 \<or> (16 - s mod 16) mod 16 < len then s else s - s mod 16)"
    by (simp only: load_access_def cond unat_neg_15 unat_low_bits s_def if_distrib [of unat])
  define P t r where "P = s div 16 div 256" and "t = s div 16 mod 256" and "r = s mod 16"
  have tr: "t < 256" "r < 16" and q: "s div 16 = 256 * P + t" by (simp_all add: P_def t_def r_def)
  have "s = 16 * (s div 16) + r" by (simp add: r_def)
  then have s: "s = 4096 * P + (16 * t + r)" using q by linarith
  have page: "(s + k) div 4096 = P + (16 * t + r + k) div 4096" for k
    unfolding s by (simp add: add.assoc)
  have last: "(s div 16 + 1) mod 256 \<noteq> 0 \<longleftrightarrow> t < 255"
  proof -
    have "(s div 16 + 1) mod 256 = (t + 1) mod 256" unfolding q by simp
    also have "\<dots> = (if t = 255 then 0 else t + 1)" using tr(1) by auto
    finally show ?thesis using tr(1) by auto
  qed
  show ?thesis
  proof (cases "t < 255")
    case True
    then have "(s + i) div 4096 = (s + 0) div 4096" unfolding page using tr assms(4) by simp
    then show ?thesis unfolding access last s_def [symmetric] using True assms(1) by auto
  next
    case False
    then have t: "t = 255" using tr by simp
    show ?thesis
    proof (cases "(16 - r) mod 16 < len")
      case True
      have "(s + i) div 4096 = (s + 0) div 4096 \<or> (s + i) div 4096 = (s + (16 - r) mod 16) div 4096"
      proof (cases "r = 0 \<or> r + i < 16")
        case True
        then show ?thesis unfolding page t using assms(4) by auto
      next
        case False
        then show ?thesis unfolding page t using tr assms(4) by (simp add: div_if)
      qed
      then have "\<exists>j<len. (s + i) div 4096 = (s + j) div 4096" using True assms(1) by blast
      then show ?thesis unfolding access last s_def [symmetric] r_def [symmetric] using True by simp
    next
      case no: False
      have "s - r + i = 4096 * P + (4080 + i)" using s t by simp
      then have "(s - r + i) div 4096 = (s + 0) div 4096" unfolding page t using tr assms(4) by simp
      then show ?thesis unfolding access last s_def [symmetric] r_def [symmetric] using no t assms(1) by auto
    qed
  qed
qed

theorem load_access_pages_witness: "\<exists>j<3. (unat (load_access 4093 3) + 5) div 4096 = (unat (4093 :: u64) + j) div 4096"
  by (rule load_access_pages) simp_all

text \<open>
  The comment at the last load of \<^verbatim>\<open>memmem_sse42\<close> claims that at least one byte is left there.
  It is wrong: skipping a chunk without the needle's first byte can leave none. For a haystack of
  31 bytes ending at a page boundary the load then reads 16 bytes of the page after it.
\<close>

theorem memmem_tail_overread:
  "sse42_loop (load_small_highundef (replicate 16 0) [0x61, 0x61]) [0x61, 0x61] (0x61 # replicate 30 0x62) 0 = Inr 31 \<and>
   length (0x61 # replicate 30 (0x62 :: byte)) = 31 \<and>
   load_access (4065 + 31) (31 - 31) = 4096 \<and> \<not> (\<exists>j<31. (4065 + j) div 4096 = (4096 :: nat) div 4096)"
proof -
  have "sse42_loop (load_small_highundef (replicate 16 0) [0x61, 0x61]) [0x61, 0x61] (0x61 # replicate 30 0x62) 0 = Inr 31"
    by code_simp
  moreover have "load_access 4096 0 = 4096" by code_simp
  ultimately show ?thesis by simp
qed

end
