(* ===== verification/Strings.thy ===== *)
theory Strings
  imports Ctype Memmem
begin

text \<open>
  The searching, splitting, replacing and comparing members of \<^verbatim>\<open>cstring\<close> and \<^verbatim>\<open>string\<close>
  (\<^verbatim>\<open>arlib/string.cpp\<close>). A string is its list of bytes, a position an offset into it. \<open>memmem\<close> is
  the first occurrence, which the \<^verbatim>\<open>Memmem\<close> theory proves the library's own search returns.
\<close>

subsection \<open>Searching\<close>

definition npos :: "nat" where "npos = 2 ^ 64 - 1"

definition contains :: "bytes \<Rightarrow> bytes \<Rightarrow> bool" where
  "contains self other = (memmem self other \<noteq> None)"

definition indexof :: "bytes \<Rightarrow> bytes \<Rightarrow> nat \<Rightarrow> nat" where
  "indexof self other start =
     (case memmem (drop start self) other of Some i \<Rightarrow> start + i | None \<Rightarrow> npos)"

function lastindexof_from :: "bytes \<Rightarrow> bytes \<Rightarrow> nat \<Rightarrow> nat \<Rightarrow> nat" where
  "lastindexof_from self other at ret =
     (if length self < at then ret
      else case memmem (drop at self) other of
        None \<Rightarrow> ret
      | Some i \<Rightarrow> lastindexof_from self other (at + i + 1) (at + i))"
  by pat_completeness auto
termination by (relation "measure (\<lambda>(self, _, at, _). length self + 1 - at)") auto

definition lastindexof :: "bytes \<Rightarrow> bytes \<Rightarrow> nat" where
  "lastindexof self other = (if other = [] then length self else lastindexof_from self other 0 npos)"

definition startswith :: "bytes \<Rightarrow> bytes \<Rightarrow> bool" where
  "startswith self other =
     (if length self < length other then False else take (length other) self = other)"

definition endswith :: "bytes \<Rightarrow> bytes \<Rightarrow> bool" where
  "endswith self other =
     (if length self < length other then False
      else drop (length self - length other) self = other)"

text \<open>The case-insensitive comparison loop: whether \<open>n\<close> bytes from \<open>a\<close> and from \<open>b\<close> agree.\<close>

definition ieq_at :: "bytes \<Rightarrow> nat \<Rightarrow> bytes \<Rightarrow> bool" where
  "ieq_at a start b = (\<forall>i<length b. tolower (a ! (start + i)) = tolower (b ! i))"

function iindexof_from :: "bytes \<Rightarrow> bytes \<Rightarrow> nat \<Rightarrow> nat" where
  "iindexof_from self other start =
     (if start \<le> length self - length other
      then if ieq_at self start other then start else iindexof_from self other (start + 1)
      else npos)"
  by pat_completeness auto
termination by (relation "measure (\<lambda>(self, other, start). length self + 1 - start)") auto

definition iindexof :: "bytes \<Rightarrow> bytes \<Rightarrow> nat \<Rightarrow> nat" where
  "iindexof self other start =
     (if length self < start + length other then npos else iindexof_from self other start)"

fun ilastindexof_from :: "bytes \<Rightarrow> bytes \<Rightarrow> nat \<Rightarrow> nat" where
  "ilastindexof_from self other 0 = (if ieq_at self 0 other then 0 else npos)"
| "ilastindexof_from self other (Suc n) =
     (if ieq_at self (Suc n) other then Suc n else ilastindexof_from self other n)"

definition ilastindexof :: "bytes \<Rightarrow> bytes \<Rightarrow> nat" where
  "ilastindexof self other =
     (if length self < length other then npos
      else ilastindexof_from self other (length self - length other))"

definition icontains :: "bytes \<Rightarrow> bytes \<Rightarrow> bool" where
  "icontains self other = (iindexof self other 0 \<noteq> npos)"

definition istartswith :: "bytes \<Rightarrow> bytes \<Rightarrow> bool" where
  "istartswith self other = (if length self < length other then False else ieq_at self 0 other)"

definition iendswith :: "bytes \<Rightarrow> bytes \<Rightarrow> bool" where
  "iendswith self other =
     (if length self < length other then False
      else ieq_at self (length self - length other) other)"

definition iequals :: "bytes \<Rightarrow> bytes \<Rightarrow> bool" where
  "iequals self other = (length self = length other \<and> istartswith self other)"

subsection \<open>Splitting\<close>

text \<open>
  The loop of \<^verbatim>\<open>csplit\<close> and \<^verbatim>\<open>csplit_to\<close>; \<open>left\<close> is how many more pieces the limit allows before
  the rest. With an empty separator every iteration finds a match without moving, so the loop
  ends only by the limit; \<open>None\<close> as the limit is \<^verbatim>\<open>SIZE_MAX\<close>, which is not reached.
\<close>

partial_function (option) csplit_loop :: "bytes \<Rightarrow> nat option \<Rightarrow> bytes \<Rightarrow> bytes list option" where
  [code]: "csplit_loop sep left data =
     (if left = Some 0 then Some [data]
      else case memmem data sep of
        None \<Rightarrow> Some [data]
      | Some i \<Rightarrow>
          Option.bind (csplit_loop sep (map_option (\<lambda>n. n - 1) left) (drop (i + length sep) data))
            (\<lambda>rest. Some (take i data # rest)))"

definition csplit :: "bytes \<Rightarrow> bytes \<Rightarrow> nat option \<Rightarrow> bytes list option" where
  "csplit self sep limit = csplit_loop sep limit self"

text \<open>The inclusive variant keeps the separator at the end of each piece.\<close>

partial_function (option) cspliti_loop :: "bytes \<Rightarrow> nat option \<Rightarrow> bytes \<Rightarrow> bytes list option" where
  [code]: "cspliti_loop sep left data =
     (if left = Some 0 then Some (if data \<noteq> [] then [data] else [])
      else case memmem data sep of
        None \<Rightarrow> Some (if data \<noteq> [] then [data] else [])
      | Some i \<Rightarrow>
          Option.bind (cspliti_loop sep (map_option (\<lambda>n. n - 1) left) (drop (i + length sep) data))
            (\<lambda>rest. Some (take (i + length sep) data # rest)))"

definition cspliti :: "bytes \<Rightarrow> bytes \<Rightarrow> nat option \<Rightarrow> bytes list option" where
  "cspliti self sep limit = cspliti_loop sep limit self"

text \<open>
  \<^verbatim>\<open>csplit_to\<close> fills a fixed array: at most \<open>n - 1\<close> separators are consumed, unused entries keep
  the empty string they were constructed with.
\<close>

definition csplit_to :: "bytes \<Rightarrow> bytes \<Rightarrow> nat \<Rightarrow> bytes list option" where
  "csplit_to self sep n =
     map_option (\<lambda>ps. ps @ replicate (n - length ps) []) (csplit_loop sep (Some (n - 1)) self)"

text \<open>Splitting from the right: the scan for the separator moves \<open>next\<close> down from the end.\<close>

fun scan_down :: "(nat \<Rightarrow> bool) \<Rightarrow> nat \<Rightarrow> nat option" where
  "scan_down match 0 = (if match 0 then Some 0 else None)"
| "scan_down match (Suc n) = (if match (Suc n) then Some (Suc n) else scan_down match n)"

definition rscan :: "bytes \<Rightarrow> bytes \<Rightarrow> nat \<Rightarrow> nat option" where
  "rscan self sep nxt = scan_down (\<lambda>i. slice i (length sep) self = sep) nxt"

fun crsplit_loop :: "bytes \<Rightarrow> bytes \<Rightarrow> nat \<Rightarrow> nat \<Rightarrow> bytes list \<Rightarrow> bytes list" where
  "crsplit_loop self sep 0 data ret = take data self # ret"
| "crsplit_loop self sep (Suc left) data ret =
     (if data < length sep then take data self # ret
      else case rscan self sep (data - length sep) of
        None \<Rightarrow> take data self # ret
      | Some nxt \<Rightarrow>
          crsplit_loop self sep left nxt (slice (nxt + length sep) (data - (nxt + length sep)) self # ret))"

definition crsplit :: "bytes \<Rightarrow> bytes \<Rightarrow> nat \<Rightarrow> bytes list" where
  "crsplit self sep limit = crsplit_loop self sep limit (length self) []"

fun crspliti_loop :: "bytes \<Rightarrow> bytes \<Rightarrow> nat \<Rightarrow> nat \<Rightarrow> bytes list \<Rightarrow> bytes list" where
  "crspliti_loop self sep left data ret =
     (let finish = (let len = data + (if data = length self then 0 else length sep)
                    in if len \<noteq> 0 then take len self # ret else ret)
      in case left of
        0 \<Rightarrow> finish
      | Suc left' \<Rightarrow>
          if data < length sep then finish
          else case rscan self sep (data - length sep) of
            None \<Rightarrow> finish
          | Some nxt \<Rightarrow>
              let len = data - (nxt + length sep) + (if data = length self then 0 else length sep)
              in crspliti_loop self sep left' nxt
                   (if len \<noteq> 0 then slice (nxt + length sep) len self # ret else ret))"

definition crspliti :: "bytes \<Rightarrow> bytes \<Rightarrow> nat \<Rightarrow> bytes list" where
  "crspliti self sep limit = crspliti_loop self sep limit (length self) []"

subsection \<open>Replacing\<close>

text \<open>The first pass computes the length of the result, the second fills the buffer.\<close>

partial_function (option) replace_length :: "bytes \<Rightarrow> bytes \<Rightarrow> bytes \<Rightarrow> nat \<Rightarrow> nat option" where
  [code]: "replace_length pat out hay outlen =
     (case memmem hay pat of
        None \<Rightarrow> Some outlen
      | Some i \<Rightarrow> replace_length pat out (drop (i + length pat) hay) (outlen + length out - length pat))"

partial_function (option) replace_fill :: "bytes \<Rightarrow> bytes \<Rightarrow> bytes \<Rightarrow> bytes \<Rightarrow> nat \<Rightarrow> bytes option" where
  [code]: "replace_fill pat out prev buf at =
     (case memmem prev pat of
        None \<Rightarrow> if at + length prev \<le> length buf then Some (blit buf at prev) else None
      | Some i \<Rightarrow>
          if at + i + length out \<le> length buf
          then replace_fill pat out (drop (i + length pat) prev)
                 (blit (blit buf at (take i prev)) (at + i) out) (at + i + length out)
          else None)"

definition replace :: "(nat \<Rightarrow> bytes) \<Rightarrow> bytes \<Rightarrow> bytes \<Rightarrow> bytes \<Rightarrow> bytes option" where
  "replace junk self pat out =
     Option.bind
       (if length pat \<noteq> length out then replace_length pat out self (length self) else Some (length self))
       (\<lambda>outlen. replace_fill pat out self (junk outlen) 0)"

text \<open>\<^verbatim>\<open>arrayview::join\<close> with a separator.\<close>

definition join_between :: "bytes \<Rightarrow> bytes list \<Rightarrow> bytes" where
  "join_between between items =
     (case items of [] \<Rightarrow> [] | x # xs \<Rightarrow> foldl (\<lambda>out y. (out @ between) @ y) x xs)"

subsection \<open>Occurrences\<close>

lemma join_Cons: "ps \<noteq> [] \<Longrightarrow> join_between sep (p # ps) = p @ sep @ join_between sep ps"
proof -
  have shift: "foldl (\<lambda>out. (@) (out @ sep)) (p @ x) xs = p @ foldl (\<lambda>out. (@) (out @ sep)) x xs" for p x xs
    by (induction xs arbitrary: x) simp_all
  assume "ps \<noteq> []"
  then obtain q qs where ps: "ps = q # qs" by (cases ps) auto
  show ?thesis unfolding ps join_between_def by (simp add: shift)
qed

lemma join_single [simp]: "join_between sep [p] = p"
  by (simp add: join_between_def)

lemma length_join: "length a = length b \<Longrightarrow> length (join_between a ps) = length (join_between b ps)"
proof (induction ps)
  case (Cons p ps)
  then show ?case by (cases "ps = []") (simp_all add: join_Cons)
qed (simp add: join_between_def)

lemma memmem_split:
  assumes "memmem data sep = Some i"
  shows "i + length sep \<le> length data" "data = take i data @ sep @ drop (i + length sep) data"
    "sep \<noteq> [] \<Longrightarrow> memmem (take i data) sep = None"
proof -
  have occ: "i + length sep \<le> length data" "slice i (length sep) data = sep"
    and first: "\<And>j. j < i \<Longrightarrow> \<not> occurs_at data sep j"
    using assms by (auto simp: memmem_Some occurs_at_def)
  show "i + length sep \<le> length data" by (rule occ)
  show "data = take i data @ sep @ drop (i + length sep) data"
    using occ(2) unfolding slice_def by (metis append_take_drop_id drop_drop add.commute)
  show "memmem (take i data) sep = None" if ne: "sep \<noteq> []"
  proof -
    have "\<not> occurs_at (take i data) sep j" for j
    proof
      assume a: "occurs_at (take i data) sep j"
      have "0 < length sep" using ne by simp
      moreover have le: "j + length sep \<le> i" using a occ(1) by (auto simp: occurs_at_def)
      ultimately have j: "j + length sep \<le> i" "j < i" by linarith+
      have "occurs_at data sep j" using a j occ(1) by (auto simp: occurs_at_nth)
      then show False using first [OF j(2)] by simp
    qed
    then show ?thesis by (simp add: memmem_None)
  qed
qed

subsection \<open>Splitting\<close>

definition split_ok :: "bytes \<Rightarrow> nat option \<Rightarrow> bytes \<Rightarrow> bytes list \<Rightarrow> bool" where
  "split_ok sep left data ps \<longleftrightarrow>
     ps \<noteq> [] \<and> join_between sep ps = data \<and> (\<forall>p\<in>set (butlast ps). memmem p sep = None) \<and>
     (memmem (last ps) sep = None \<or> left = Some (length ps - 1)) \<and> (\<forall>n. left = Some n \<longrightarrow> length ps \<le> n + 1)"

lemma csplit_loop_ok:
  assumes "sep \<noteq> []"
  shows "\<exists>ps. csplit_loop sep left data = Some ps \<and> split_ok sep left data ps"
proof (induction "length data" arbitrary: data left rule: less_induct)
  case less
  show ?case
  proof (cases "left = Some 0")
    case True
    then show ?thesis by (subst csplit_loop.simps) (simp add: split_ok_def)
  next
    case limit: False
    show ?thesis
    proof (cases "memmem data sep")
      case None
      then show ?thesis using limit by (subst csplit_loop.simps) (auto simp: split_ok_def)
    next
      case (Some i)
      note sp = memmem_split [OF Some]
      let ?left = "map_option (\<lambda>n. n - 1) left" and ?rest = "drop (i + length sep) data"
      have "length ?rest < length data" using sp(1) assms by (cases sep) auto
      then obtain ps where ps: "csplit_loop sep ?left ?rest = Some ps" "split_ok sep ?left ?rest ps"
        using less.hyps by blast
      have "csplit_loop sep left data = Some (take i data # ps)"
        using Some limit ps(1) by (subst csplit_loop.simps) simp
      moreover have "split_ok sep left data (take i data # ps)"
      proof -
        obtain m where "length ps = Suc m" "ps \<noteq> []" using ps(2) by (cases ps) (auto simp: split_ok_def)
        then show ?thesis using ps(2) sp(2) sp(3) [OF assms] limit unfolding split_ok_def
          by (cases left) (auto simp: join_Cons)
      qed
      ultimately show ?thesis by blast
    qed
  qed
qed

lemma csplit_empty_diverges: "csplit_loop [] None data = None"
proof -
  have "\<not> (sep = [] \<and> left = None)" if "csplit_loop sep left data = Some r" for sep left data r
    by (rule csplit_loop.raw_induct [where P = "\<lambda>sep left data r. \<not> (sep = [] \<and> left = None)", OF _ that])
      (auto split: if_splits option.splits bind_splits simp: memmem_None occurs_at_def, metis not_None_eq option.map(1))
  then show ?thesis by fastforce
qed

text \<open>
  C25. \<^verbatim>\<open>csplit\<close> with a nonempty separator always returns; joining its pieces with the separator
  gives the string back, no piece but the last contains the separator, the last one contains it
  only when the limit was reached, and there are at most \<^verbatim>\<open>limit + 1\<close> pieces.
\<close>

theorem csplit_correct:
  assumes "sep \<noteq> []"
  shows "\<exists>ps. csplit self sep limit = Some ps \<and> join_between sep ps = self \<and>
    (\<forall>p\<in>set (butlast ps). \<not> contains p sep) \<and> (contains (last ps) sep \<longrightarrow> limit = Some (length ps - 1)) \<and>
    (\<forall>n. limit = Some n \<longrightarrow> length ps \<le> n + 1)"
proof -
  obtain ps where "csplit_loop sep limit self = Some ps" "split_ok sep limit self ps"
    using csplit_loop_ok [OF assms] by blast
  then show ?thesis by (auto simp: csplit_def split_ok_def contains_def intro!: exI [of _ ps])
qed

theorem csplit_correct_witness:
  "\<exists>ps. csplit [1, 9, 2, 9] [9] None = Some ps \<and> join_between [9] ps = [1, 9, 2, 9]"
  using csplit_correct [of "[9]" "[1, 9, 2, 9]" None] by auto

text \<open>
  Splitting without a limit by the empty string never returns: the search finds the empty
  separator at the same place forever, and the array of pieces grows without bound.
\<close>

theorem csplit_empty_never_returns: "csplit self [] None = None"
  by (simp add: csplit_def csplit_empty_diverges)

lemma cspliti_loop_ok:
  assumes "sep \<noteq> []"
  shows "\<exists>ps. cspliti_loop sep left data = Some ps \<and> concat ps = data \<and>
    (\<forall>p\<in>set ps. p \<noteq> []) \<and> (\<forall>p\<in>set (butlast ps). endswith p sep)"
proof (induction "length data" arbitrary: data left rule: less_induct)
  case less
  show ?case
  proof (cases "left = Some 0")
    case True
    then show ?thesis by (subst cspliti_loop.simps) auto
  next
    case limit: False
    show ?thesis
    proof (cases "memmem data sep")
      case None
      then show ?thesis using limit by (subst cspliti_loop.simps) auto
    next
      case (Some i)
      note sp = memmem_split [OF Some]
      let ?left = "map_option (\<lambda>n. n - 1) left" and ?rest = "drop (i + length sep) data"
      have "length ?rest < length data" using sp(1) assms by (cases sep) auto
      then obtain ps where ps: "cspliti_loop sep ?left ?rest = Some ps" "concat ps = ?rest"
          "\<forall>p\<in>set ps. p \<noteq> []" "\<forall>p\<in>set (butlast ps). endswith p sep"
        using less.hyps by blast
      have piece: "take (i + length sep) data = take i data @ sep"
        using Some by (auto simp: memmem_Some occurs_at_def slice_def take_add)
      have "cspliti_loop sep left data = Some ((take i data @ sep) # ps)"
        using Some limit ps(1) piece by (subst cspliti_loop.simps) simp
      moreover have "endswith (take i data @ sep) sep" by (simp add: endswith_def)
      ultimately show ?thesis using ps sp(2) assms by (intro exI [of _ "(take i data @ sep) # ps"]) auto
    qed
  qed
qed

subsection \<open>Replacing\<close>

lemma csplit_loop_None: "sep \<noteq> [] \<Longrightarrow> \<exists>ps. csplit_loop sep None data = Some ps \<and> ps \<noteq> []"
  using csplit_loop_ok [of sep None data] by (auto simp: split_ok_def)

lemma csplit_loop_step:
  assumes "memmem data sep = Some i" and "csplit_loop sep None (drop (i + length sep) data) = Some ps"
  shows "csplit_loop sep None data = Some (take i data # ps)"
  using assms by (subst csplit_loop.simps) simp

lemma replace_length_ok:
  assumes "pat \<noteq> []" and "csplit_loop pat None hay = Some ps"
  shows "replace_length pat out hay (k + length hay) = Some (k + length (join_between out ps))"
  using assms(2)
proof (induction "length hay" arbitrary: hay k ps rule: less_induct)
  case less
  show ?case
  proof (cases "memmem hay pat")
    case None
    then have "ps = [hay]" using less.prems by (subst (asm) csplit_loop.simps) simp
    then show ?thesis using None by (subst replace_length.simps) simp
  next
    case (Some i)
    note sp = memmem_split [OF Some]
    let ?rest = "drop (i + length pat) hay"
    obtain qs where qs: "csplit_loop pat None ?rest = Some qs" "qs \<noteq> []" using csplit_loop_None [OF assms(1)] by blast
    have ps: "ps = take i hay # qs" using csplit_loop_step [OF Some qs(1)] less.prems by simp
    have len: "length hay = i + length pat + length ?rest" using sp(1) by simp
    have "length ?rest < length hay" using sp(1) assms(1) by (cases pat) auto
    then have "replace_length pat out ?rest ((k + i + length out) + length ?rest) =
        Some ((k + i + length out) + length (join_between out qs))" using less.hyps qs(1) by blast
    moreover have "k + length hay + length out - length pat = (k + i + length out) + length ?rest" using len by linarith
    ultimately show ?thesis using Some sp(1) qs(2) by (subst replace_length.simps) (simp add: ps join_Cons)
  qed
qed

lemma replace_fill_ok:
  assumes "pat \<noteq> []" and "csplit_loop pat None prev = Some ps" and "length buf = at + length (join_between out ps)"
  shows "replace_fill pat out prev buf at = Some (take at buf @ join_between out ps)"
  using assms(2,3)
proof (induction "length prev" arbitrary: prev buf at ps rule: less_induct)
  case less
  show ?case
  proof (cases "memmem prev pat")
    case None
    then have "ps = [prev]" using less.prems(1) by (subst (asm) csplit_loop.simps) simp
    then show ?thesis using None less.prems(2) by (subst replace_fill.simps) (simp add: blit_def)
  next
    case (Some i)
    note sp = memmem_split [OF Some]
    let ?rest = "drop (i + length pat) prev"
    obtain qs where qs: "csplit_loop pat None ?rest = Some qs" "qs \<noteq> []" using csplit_loop_None [OF assms(1)] by blast
    have ps: "ps = take i prev # qs" using csplit_loop_step [OF Some qs(1)] less.prems(1) by simp
    have li: "length (take i prev) = i" using sp(1) by simp
    have len: "length buf = at + i + length out + length (join_between out qs)"
      using less.prems(2) qs(2) li by (simp add: ps join_Cons)
    define buf' where "buf' = blit (blit buf at (take i prev)) (at + i) out"
    have b: "length buf' = length buf" "take (at + i + length out) buf' = take at buf @ take i prev @ out"
      using len li by (simp_all add: buf'_def blit_def)
    have "length ?rest < length prev" using sp(1) assms(1) by (cases pat) auto
    then have "replace_fill pat out ?rest buf' (at + i + length out) =
        Some (take (at + i + length out) buf' @ join_between out qs)"
      using qs(1) len b(1) by (intro less.hyps) auto
    then show ?thesis using Some len qs(2) b(2)
      by (subst replace_fill.simps) (simp add: ps join_Cons flip: buf'_def)
  qed
qed

text \<open>
  C26. Replacing a nonempty pattern returns, never writes outside the buffer it sized in the first
  pass, and its result is the pieces between the occurrences joined with the replacement.
\<close>

theorem replace_correct:
  assumes "pat \<noteq> []" and "\<And>n. length (junk n) = n"
  shows "\<exists>ps. csplit self pat None = Some ps \<and> replace junk self pat out = Some (join_between out ps)"
proof -
  obtain ps where ps: "csplit_loop pat None self = Some ps" "split_ok pat None self ps"
    using csplit_loop_ok [OF assms(1)] by blast
  have "(if length pat \<noteq> length out then replace_length pat out self (length self) else Some (length self)) =
      Some (length (join_between out ps))"
    using replace_length_ok [OF assms(1) ps(1), of out 0] length_join [of pat out ps] ps(2)
    by (auto simp: split_ok_def)
  moreover have "replace_fill pat out self (junk (length (join_between out ps))) 0 = Some (join_between out ps)"
    using replace_fill_ok [OF assms(1) ps(1), of "junk (length (join_between out ps))" 0 out] assms(2) by simp
  ultimately show ?thesis using ps(1) by (simp add: replace_def csplit_def)
qed

theorem replace_correct_witness:
  "\<exists>ps. csplit [1, 9, 2] [9] None = Some ps \<and>
    replace (\<lambda>n. replicate n 0) [1, 9, 2] [9] [7, 8] = Some (join_between [7, 8] ps)"
  by (rule replace_correct) simp_all

subsection \<open>Finding\<close>

definition ioccurs_at :: "bytes \<Rightarrow> bytes \<Rightarrow> nat \<Rightarrow> bool" where
  "ioccurs_at self other i \<longleftrightarrow> i + length other \<le> length self \<and> ieq_at self i other"

definition first_at :: "(nat \<Rightarrow> bool) \<Rightarrow> nat \<Rightarrow> nat \<Rightarrow> bool" where
  "first_at occ start r \<longleftrightarrow>
     (r = npos \<and> (\<forall>j\<ge>start. \<not> occ j)) \<or> (start \<le> r \<and> occ r \<and> (\<forall>j. start \<le> j \<and> j < r \<longrightarrow> \<not> occ j))"

definition last_at :: "(nat \<Rightarrow> bool) \<Rightarrow> nat \<Rightarrow> bool" where
  "last_at occ r \<longleftrightarrow> (r = npos \<and> (\<forall>j. \<not> occ j)) \<or> (occ r \<and> (\<forall>j>r. \<not> occ j))"

lemma occurs_at_drop: "start \<le> length self \<Longrightarrow> occurs_at (drop start self) other j \<longleftrightarrow> occurs_at self other (start + j)"
  by (auto simp: occurs_at_nth add.assoc)

lemma indexof_first:
  assumes "start \<le> length self"
  shows "first_at (occurs_at self other) start (indexof self other start)"
proof (cases "memmem (drop start self) other")
  case None
  then have none: "\<not> occurs_at self other (start + j)" for j using assms by (simp add: memmem_None occurs_at_drop)
  then have "\<not> occurs_at self other j" if "start \<le> j" for j using none [of "j - start"] that by simp
  then show ?thesis using None by (simp add: indexof_def first_at_def)
next
  case (Some i)
  then have at: "occurs_at self other (start + i)" and before: "\<And>j. j < i \<Longrightarrow> \<not> occurs_at self other (start + j)"
    using assms by (auto simp: memmem_Some occurs_at_drop)
  have "\<not> occurs_at self other j" if "start \<le> j" "j < start + i" for j
    using before [of "j - start"] that by simp
  then show ?thesis using Some at by (simp add: indexof_def first_at_def)
qed

lemma lastindexof_from_ok:
  assumes "other \<noteq> []" and "last_at (\<lambda>j. j < at \<and> occurs_at self other j) ret" and "at \<le> length self + 1"
  shows "last_at (occurs_at self other) (lastindexof_from self other at ret)"
  using assms(2,3)
proof (induction "length self + 1 - at" arbitrary: at ret rule: less_induct)
  case less
  have end_of: "last_at (occurs_at self other) ret" if none: "\<And>j. at \<le> j \<Longrightarrow> \<not> occurs_at self other j"
  proof -
    have "(\<lambda>j. j < at \<and> occurs_at self other j) = occurs_at self other" using none by (force simp: not_le)
    then show ?thesis using less.prems(1) by simp
  qed
  show ?case
  proof (cases "length self < at")
    case True
    then have "\<not> occurs_at self other j" if "at \<le> j" for j using that by (simp add: occurs_at_def)
    then show ?thesis using True end_of by (subst lastindexof_from.simps) simp
  next
    case False
    then have le: "at \<le> length self" by simp
    show ?thesis
    proof (cases "memmem (drop at self) other")
      case None
      then have none: "\<not> occurs_at self other (at + j)" for j using le by (simp add: memmem_None occurs_at_drop)
      have "\<not> occurs_at self other j" if "at \<le> j" for j using none [of "j - at"] that by simp
      then show ?thesis using None False end_of by (subst lastindexof_from.simps) simp
    next
      case (Some i)
      then have occ: "occurs_at self other (at + i)" using le by (simp add: memmem_Some occurs_at_drop)
      then have "at + i + 1 \<le> length self + 1" by (simp add: occurs_at_def)
      moreover have "last_at (\<lambda>j. j < at + i + 1 \<and> occurs_at self other j) (at + i)"
        using occ by (auto simp: last_at_def)
      ultimately have "last_at (occurs_at self other) (lastindexof_from self other (at + i + 1) (at + i))"
        using less.hyps le by simp
      then show ?thesis using Some False by (subst lastindexof_from.simps) simp
    qed
  qed
qed

lemma iindexof_from_ok:
  assumes "length other \<le> length self"
  shows "first_at (ioccurs_at self other) start (iindexof_from self other start)"
proof (induction "length self + 1 - start" arbitrary: start rule: less_induct)
  case less
  show ?case
  proof (cases "start \<le> length self - length other")
    case True
    show ?thesis
    proof (cases "ieq_at self start other")
      case yes: True
      then have "ioccurs_at self other start" using True assms by (simp add: ioccurs_at_def)
      then show ?thesis using True yes by (subst iindexof_from.simps) (auto simp: first_at_def)
    next
      case False
      then have no: "\<not> ioccurs_at self other start" by (simp add: ioccurs_at_def)
      have "first_at (ioccurs_at self other) (start + 1) (iindexof_from self other (start + 1))"
        using less.hyps True by simp
      then have "first_at (ioccurs_at self other) start (iindexof_from self other (start + 1))"
        using no unfolding first_at_def by (metis Suc_eq_plus1 Suc_leD le_antisym not_less_eq_eq)
      then show ?thesis using True False by (subst iindexof_from.simps) simp
    qed
  next
    case False
    then have "\<not> ioccurs_at self other j" if "start \<le> j" for j using that by (auto simp: ioccurs_at_def)
    then show ?thesis using False by (subst iindexof_from.simps) (simp add: first_at_def)
  qed
qed

lemma iindexof_first: "first_at (ioccurs_at self other) start (iindexof self other start)"
proof (cases "length self < start + length other")
  case True
  then have "\<not> ioccurs_at self other j" if "start \<le> j" for j using that by (auto simp: ioccurs_at_def)
  then show ?thesis using True by (simp add: iindexof_def first_at_def)
next
  case False
  then show ?thesis using iindexof_from_ok [of other self start] by (simp add: iindexof_def)
qed

lemma ilastindexof_from_ok:
  assumes "n + length other \<le> length self"
  shows "last_at (\<lambda>j. j \<le> n \<and> ioccurs_at self other j) (ilastindexof_from self other n)"
  using assms
proof (induction n)
  case 0
  then show ?case by (auto simp: last_at_def ioccurs_at_def)
next
  case (Suc n)
  show ?case
  proof (cases "ieq_at self (Suc n) other")
    case True
    then show ?thesis using Suc.prems by (auto simp: last_at_def ioccurs_at_def)
  next
    case False
    then have "(\<lambda>j. j \<le> Suc n \<and> ioccurs_at self other j) = (\<lambda>j. j \<le> n \<and> ioccurs_at self other j)"
      by (auto simp: le_Suc_eq ioccurs_at_def)
    then show ?thesis using False Suc by simp
  qed
qed

lemma ilastindexof_last: "last_at (ioccurs_at self other) (ilastindexof self other)"
proof (cases "length self < length other")
  case True
  then show ?thesis by (auto simp: ilastindexof_def last_at_def ioccurs_at_def)
next
  case False
  have "(\<lambda>j. j \<le> length self - length other \<and> ioccurs_at self other j) = ioccurs_at self other"
    by (rule ext) (auto simp: ioccurs_at_def)
  then show ?thesis
    using False ilastindexof_from_ok [of "length self - length other" other self] by (simp add: ilastindexof_def)
qed

text \<open>
  The four index functions return the first or the last place of the other string, compared
  byte for byte or without regard to ASCII case, and \<^verbatim>\<open>-1\<close> exactly when there is none.
\<close>

theorem index_functions_correct:
  assumes "start \<le> length self" and "other \<noteq> []"
  shows "first_at (occurs_at self other) start (indexof self other start) \<and>
    last_at (occurs_at self other) (lastindexof self other) \<and>
    first_at (ioccurs_at self other) start (iindexof self other start) \<and>
    last_at (ioccurs_at self other) (ilastindexof self other)"
proof -
  have "last_at (\<lambda>j. j < 0 \<and> occurs_at self other j) npos" by (simp add: last_at_def)
  then have "last_at (occurs_at self other) (lastindexof self other)"
    using lastindexof_from_ok [OF assms(2), of 0 self npos] assms(2) by (simp add: lastindexof_def)
  then show ?thesis using indexof_first [OF assms(1)] iindexof_first ilastindexof_last by blast
qed

theorem index_functions_correct_witness:
  "first_at (occurs_at [1, 2, 1, 2] [1, 2]) 1 (indexof [1, 2, 1, 2] [1, 2] 1) \<and>
    last_at (occurs_at [1, 2, 1, 2] [1, 2]) (lastindexof [1, 2, 1, 2] [1, 2])"
  using index_functions_correct [of 1 "[1, 2, 1, 2]" "[1, 2]"] by simp

subsection \<open>Splitting from the right\<close>

lemma scan_down_None: "scan_down P n = None \<Longrightarrow> i \<le> n \<Longrightarrow> \<not> P i"
  by (induction n) (auto split: if_splits simp: le_Suc_eq)

lemma scan_down_Some: "scan_down P n = Some i \<Longrightarrow> i \<le> n \<and> P i \<and> (\<forall>j. i < j \<and> j \<le> n \<longrightarrow> \<not> P j)"
  by (induction n) (auto split: if_splits simp: le_Suc_eq)

lemma rscan_None: "rscan self sep n = None \<Longrightarrow> i \<le> n \<Longrightarrow> slice i (length sep) self \<noteq> sep"
  unfolding rscan_def by (rule scan_down_None)

lemma rscan_Some:
  "rscan self sep n = Some i \<Longrightarrow>
    i \<le> n \<and> slice i (length sep) self = sep \<and> (\<forall>j. i < j \<and> j \<le> n \<longrightarrow> slice j (length sep) self \<noteq> sep)"
  unfolding rscan_def by (rule scan_down_Some)

definition rsplit_inv :: "bytes \<Rightarrow> bytes \<Rightarrow> nat \<Rightarrow> bytes list \<Rightarrow> bool" where
  "rsplit_inv self sep data ret \<longleftrightarrow> join_between sep (take data self # ret) = self \<and> data \<le> length self \<and>
     (\<forall>p\<in>set ret. memmem p sep = None)"

lemma rsplit_step:
  assumes sep: "sep \<noteq> []" and inv: "rsplit_inv self sep data ret" and scan: "length sep \<le> data" "rscan self sep (data - length sep) = Some nxt"
  shows "rsplit_inv self sep nxt (slice (nxt + length sep) (data - (nxt + length sep)) self # ret)"
proof -
  define piece where "piece = slice (nxt + length sep) (data - (nxt + length sep)) self"
  note r = rscan_Some [OF scan(2)]
  have le: "nxt + length sep \<le> data" "data \<le> length self" using r scan(1) inv by (auto simp: rsplit_inv_def)
  have cut: "take data self = take nxt self @ sep @ piece"
  proof -
    have "take data self = take (nxt + length sep + (data - (nxt + length sep))) self" using le by simp
    also have "\<dots> = take (nxt + length sep) self @ piece" by (simp only: take_add piece_def slice_def)
    also have "take (nxt + length sep) self = take nxt self @ sep" using r by (simp add: take_add slice_def)
    finally show ?thesis by simp
  qed
  have "\<not> occurs_at piece sep j" for j
  proof
    assume occ: "occurs_at piece sep j"
    have len: "length piece = data - (nxt + length sep)" using le by (simp add: piece_def length_slice)
    have in_self: "occurs_at self sep (nxt + length sep + j)"
      unfolding occurs_at_nth
    proof (intro conjI allI impI)
      have "j + length sep \<le> length piece" using occ by (simp add: occurs_at_def)
      then show "nxt + length sep + j + length sep \<le> length self" using le len by linarith
      fix k assume k: "k < length sep"
      then have "piece ! (j + k) = sep ! k" "j + k < length piece" using occ by (simp_all add: occurs_at_nth)
      then show "self ! (nxt + length sep + j + k) = sep ! k"
        using le len by (simp add: piece_def nth_slice add.assoc)
    qed
    have "nxt < nxt + length sep + j" using sep by simp
    moreover have "j + length sep \<le> length piece" using occ by (simp add: occurs_at_def)
    then have "nxt + length sep + j \<le> data - length sep" using le len by linarith
    ultimately show False using r in_self by (auto simp: occurs_at_def)
  qed
  then have none: "memmem piece sep = None" by (simp add: memmem_None)
  have "join_between sep (take nxt self # piece # ret) = join_between sep (take data self # ret)"
    by (cases "ret = []") (simp_all add: join_Cons cut)
  then show ?thesis using inv none le unfolding rsplit_inv_def piece_def [symmetric] by auto
qed

lemma crsplit_loop_ok:
  assumes "sep \<noteq> []" and "rsplit_inv self sep data ret"
  shows "\<exists>p ps. crsplit_loop self sep left data ret = p # ps \<and> join_between sep (p # ps) = self \<and>
    (\<forall>q\<in>set ps. memmem q sep = None) \<and> length ps \<le> length ret + left \<and>
    (memmem p sep = None \<or> length ps = length ret + left)"
  using assms(2)
proof (induction left arbitrary: data ret)
  case 0
  then show ?case by (simp add: rsplit_inv_def)
next
  case (Suc left)
  have stop: ?case if "crsplit_loop self sep (Suc left) data ret = take data self # ret" "memmem (take data self) sep = None"
    using that Suc.prems by (simp add: rsplit_inv_def)
  show ?case
  proof (cases "data < length sep")
    case True
    then have "memmem (take data self) sep = None" by (auto simp: memmem_None occurs_at_def)
    then show ?thesis using stop True by simp
  next
    case False
    show ?thesis
    proof (cases "rscan self sep (data - length sep)")
      case None
      have "\<not> occurs_at (take data self) sep j" for j
      proof
        assume "occurs_at (take data self) sep j"
        then have "slice j (length sep) self = sep" "j \<le> data - length sep"
          by (auto simp: occurs_at_def slice_def drop_take min_def split: if_splits)
        then show False using rscan_None [OF None] by simp
      qed
      then show ?thesis using stop None False by (simp add: memmem_None)
    next
      case (Some nxt)
      have "rsplit_inv self sep nxt (slice (nxt + length sep) (data - (nxt + length sep)) self # ret)"
        by (rule rsplit_step [OF assms(1) Suc.prems _ Some]) (use False in simp)
      from Suc.IH [OF this] show ?thesis using Some False by auto
    qed
  qed
qed

text \<open>
  Splitting from the right by a nonempty separator: joining the pieces gives the string back,
  no piece but the first contains the separator, the first one contains it only when the limit
  was reached, and there are at most \<^verbatim>\<open>limit + 1\<close> pieces.
\<close>

theorem crsplit_correct:
  assumes "sep \<noteq> []"
  shows "\<exists>p ps. crsplit self sep limit = p # ps \<and> join_between sep (p # ps) = self \<and>
    (\<forall>q\<in>set ps. \<not> contains q sep) \<and> length ps \<le> limit \<and> (contains p sep \<longrightarrow> length ps = limit)"
proof -
  have "rsplit_inv self sep (length self) []" by (simp add: rsplit_inv_def)
  from crsplit_loop_ok [OF assms this, of limit] show ?thesis by (auto simp: crsplit_def contains_def)
qed

theorem crsplit_correct_witness:
  "\<exists>p ps. crsplit [1, 9, 2, 9, 3] [9] 1 = p # ps \<and> join_between [9] (p # ps) = [1, 9, 2, 9, 3]"
  using crsplit_correct [of "[9]" "[1, 9, 2, 9, 3]" 1] by auto

end
