(* ===== verification/Str_Compare.thy ===== *)
theory Str_Compare
  imports Ctype "HOL-Library.List_Lexorder" "HOL-Library.Product_Lexorder"
begin

text \<open>
  The three-way comparisons of \<^verbatim>\<open>string\<close> (\<^verbatim>\<open>arlib/string.cpp\<close>): bytewise, case-insensitive and
  natural, where digit sequences compare as numbers. Each is shown to be the comparison of a sort
  key in a lexicographic order of the library.
\<close>

subsection \<open>Comparison functions\<close>

text \<open>\<^verbatim>\<open>memcmp\<close> on equally long buffers: the difference of the first bytes that differ.\<close>

fun memcmp :: "bytes \<Rightarrow> bytes \<Rightarrow> int" where
  "memcmp (a # as) (b # bs) = (if a = b then memcmp as bs else uint a - uint b)"
| "memcmp _ _ = 0"

text \<open>The difference of two \<^verbatim>\<open>uint32_t\<close> lengths, returned as an \<^verbatim>\<open>int\<close>.\<close>

definition length_diff :: "bytes \<Rightarrow> bytes \<Rightarrow> int" where
  "length_diff a b = sint (word_of_nat (length a) - word_of_nat (length b) :: u32)"

definition compare3 :: "bytes \<Rightarrow> bytes \<Rightarrow> int" where
  "compare3 a b =
     (let cmplen = min (length a) (length b); ret = memcmp (take cmplen a) (take cmplen b)
      in if ret \<noteq> 0 then ret else length_diff a b)"

fun icompare_loop :: "int \<Rightarrow> bytes \<Rightarrow> bytes \<Rightarrow> int" where
  "icompare_loop ret_i (a # as) (b # bs) =
     (if a \<noteq> b then
        let ret_i = (if ret_i = 0 then uint a - uint b else ret_i); ac = toupper a; bc = toupper b
        in if ac \<noteq> bc then uint ac - uint bc else icompare_loop ret_i as bs
      else icompare_loop ret_i as bs)"
| "icompare_loop ret_i _ _ = ret_i"

definition icompare3 :: "bytes \<Rightarrow> bytes \<Rightarrow> int" where
  "icompare3 a b = icompare_loop (length_diff a b) a b"

definition string_less :: "bytes \<Rightarrow> bytes \<Rightarrow> bool" where
  "string_less a b = (compare3 a b < 0)"

definition string_iless :: "bytes \<Rightarrow> bytes \<Rightarrow> bool" where
  "string_iless a b = (icompare3 a b < 0)"

definition zero_digit :: "byte \<Rightarrow> bool" where "zero_digit c = (c = 0x30)"

fun skip_common_zeros :: "bytes \<Rightarrow> bytes \<Rightarrow> bytes \<times> bytes" where
  "skip_common_zeros (a # as) (b # bs) =
     (if zero_digit a \<and> zero_digit b then skip_common_zeros as bs else (a # as, b # bs))"
| "skip_common_zeros as bs = (as, bs)"

lemma skip_common_zeros_eq:
  "skip_common_zeros as bs =
    (let m = min (length (takeWhile zero_digit as)) (length (takeWhile zero_digit bs)) in (drop m as, drop m bs))"
  by (induction as bs rule: skip_common_zeros.induct) (auto simp: Let_def)

lemma digits_of_zeros: "takeWhile isdigit cs = takeWhile zero_digit cs @ takeWhile isdigit (dropWhile zero_digit cs)"
  by (induction cs) (auto simp: zero_digit_def isdigit_def)

lemma rest_of_zeros: "dropWhile isdigit (dropWhile zero_digit cs) = dropWhile isdigit cs"
  by (induction cs) (auto simp: zero_digit_def isdigit_def)

lemma dropWhile_drop: "m \<le> length (takeWhile P cs) \<Longrightarrow> dropWhile P (drop m cs) = dropWhile P cs"
proof (induction cs arbitrary: m)
  case (Cons c cs)
  then show ?case by (cases m) (auto split: if_splits)
qed simp

function natcompare_loop :: "bool \<Rightarrow> bytes \<Rightarrow> bytes \<Rightarrow> int \<Rightarrow> int \<Rightarrow> int" where
  "natcompare_loop ci (a # as) (b # bs) ret_zero ret_case =
     (if isdigit a \<and> isdigit b then
        let (as1, bs1) = skip_common_zeros (a # as) (b # bs);
            as2 = dropWhile zero_digit as1;
            ret_zero = (if ret_zero = 0 \<and> as2 \<noteq> as1 then 1 else ret_zero);
            bs2 = dropWhile zero_digit bs1;
            ret_zero = (if ret_zero = 0 \<and> bs2 \<noteq> bs1 then - 1 else ret_zero);
            da = takeWhile isdigit as2; db = takeWhile isdigit bs2
        in if length db < length da then 1
           else if length da < length db then - 1
           else let ret = memcmp da db
                in if ret \<noteq> 0 then ret
                   else natcompare_loop ci (dropWhile isdigit as2) (dropWhile isdigit bs2) ret_zero ret_case
      else if a \<noteq> b then
        let ret_case = (if ret_case = 0 then uint a - uint b else ret_case);
            ac = (if ci then toupper a else a); bc = (if ci then toupper b else b)
        in if ac \<noteq> bc then uint ac - uint bc else natcompare_loop ci as bs ret_zero ret_case
      else natcompare_loop ci as bs ret_zero ret_case)"
| "natcompare_loop ci [] (b # bs) ret_zero ret_case = - 1"
| "natcompare_loop ci (a # as) [] ret_zero ret_case = 1"
| "natcompare_loop ci [] [] ret_zero ret_case =
     (if ret_zero \<noteq> 0 then ret_zero else if ret_case \<noteq> 0 then ret_case else 0)"
  by pat_completeness auto
termination
proof (relation "measure (\<lambda>(ci, as, bs, rz, rc). length as)", goal_cases)
  case (2 ci a as b bs ret_zero ret_case x as1 bs1 as2 rz1 bs2 rz2 da db ret)
  have "as2 = dropWhile zero_digit (a # as)"
    using 2 by (auto simp: skip_common_zeros_eq Let_def dropWhile_drop simp del: dropWhile.simps)
  then have "dropWhile isdigit as2 = dropWhile isdigit as" using 2 by (simp add: rest_of_zeros del: dropWhile.simps(2)) simp
  then show ?case using length_dropWhile_le [of isdigit as] by (simp add: less_Suc_eq_le)
qed auto

definition natcompare3 :: "bool \<Rightarrow> bytes \<Rightarrow> bytes \<Rightarrow> int" where
  "natcompare3 ci a b = natcompare_loop ci a b 0 0"

definition snatcompare3 :: "bytes \<Rightarrow> bytes \<Rightarrow> int" where "snatcompare3 a b = natcompare3 False a b"
definition inatcompare3 :: "bytes \<Rightarrow> bytes \<Rightarrow> int" where "inatcompare3 a b = natcompare3 True a b"
definition snatless :: "bytes \<Rightarrow> bytes \<Rightarrow> bool" where "snatless a b = (snatcompare3 a b < 0)"
definition inatless :: "bytes \<Rightarrow> bytes \<Rightarrow> bool" where "inatless a b = (inatcompare3 a b < 0)"


subsection \<open>Comparison by a key\<close>

definition cmp :: "'a::linorder \<Rightarrow> 'a \<Rightarrow> int" where
  "cmp x y = (if x < y then - 1 else if x = y then 0 else 1)"

lemma cmp_refl [simp]: "cmp x x = 0"
  by (simp add: cmp_def)

lemma cmp_eq_0_iff [simp]: "cmp x y = 0 \<longleftrightarrow> x = y"
  by (simp add: cmp_def)

lemma cmp_neg_iff [simp]: "cmp x y < 0 \<longleftrightarrow> x < y" "cmp x y = - 1 \<longleftrightarrow> x < y"
  by (simp_all add: cmp_def)

lemma cmp_Suc [simp]: "cmp (Suc m) (Suc n) = cmp m n" "cmp 0 (Suc n) = - 1" "cmp (Suc n) 0 = 1"
  by (simp_all add: cmp_def)

lemma cmp_Cons: "cmp (x # xs) (y # ys) = (if x = y then cmp xs ys else cmp x y)"
  by (auto simp: cmp_def)

lemma cmp_Nil: "cmp [] (y # ys) = - 1" "cmp (x # xs) [] = 1"
  by (auto simp: cmp_def)

lemma cmp_Pair: "cmp (x, y) (x', y') = (if x = x' then cmp y y' else cmp x x')"
  by (auto simp: cmp_def)

lemma sgn_uint_diff: "sgn (uint a - uint b) = cmp a (b :: byte)"
  by (auto simp: cmp_def sgn_if word_less_def word_uint_eq_iff)

lemma cmp_of_unat: "cmp (unat a) (unat b) = cmp a (b :: byte)"
  by (auto simp: cmp_def word_less_nat_alt word_unat_eq_iff)

lemma sgn_memcmp: "length as = length bs \<Longrightarrow> sgn (memcmp as bs) = cmp as bs"
  by (induction as bs rule: memcmp.induct) (auto simp: cmp_Cons sgn_uint_diff)

lemma memcmp_0_iff: "length as = length bs \<Longrightarrow> memcmp as bs = 0 \<longleftrightarrow> as = bs"
  by (metis cmp_eq_0_iff sgn_0_0 sgn_memcmp)

lemma sgn_length_diff:
  assumes "length a < 2 ^ 31" "length b < 2 ^ 31"
  shows "sgn (length_diff a b) = cmp (length a) (length b)"
proof -
  have "length_diff a b = signed_take_bit 31 (int (length a) - int (length b))"
  proof -
    have "word_of_nat (length a) - word_of_nat (length b) = (word_of_int (int (length a) - int (length b)) :: u32)" by simp
    then show ?thesis unfolding length_diff_def by (simp only: signed_of_int) simp
  qed
  also have "\<dots> = int (length a) - int (length b)"
    by (rule signed_take_bit_int_eq_self) (use assms in simp_all)
  finally show ?thesis by (auto simp: cmp_def sgn_if)
qed

lemma cmp_append_prefix:
  "cmp as bs = (let n = min (length as) (length bs) in
     if take n as \<noteq> take n bs then cmp (take n as) (take n bs) else cmp (length as) (length bs))"
proof (induction as arbitrary: bs)
  case Nil
  then show ?case by (cases bs) (simp_all add: cmp_Nil)
next
  case (Cons a as)
  show ?case
  proof (cases bs)
    case (Cons b bs')
    then show ?thesis using Cons.IH [of bs'] by (simp add: cmp_Cons Let_def)
  qed (simp add: cmp_Nil)
qed

lemma sgn_compare3:
  assumes "length a < 2 ^ 31" "length b < 2 ^ 31"
  shows "sgn (compare3 a b) = cmp a b"
  unfolding cmp_append_prefix [of a b] compare3_def Let_def
  using sgn_memcmp [of "take (min (length a) (length b)) a" "take (min (length a) (length b)) b"]
    memcmp_0_iff [of "take (min (length a) (length b)) a" "take (min (length a) (length b)) b"]
    sgn_length_diff [OF assms]
  by auto

lemma sgn_icompare_loop:
  "sgn ret = cmp (length as) (length bs) \<or> (length as = length bs \<and> ret \<noteq> 0) \<Longrightarrow>
    sgn (icompare_loop ret as bs) =
      (if map toupper as \<noteq> map toupper bs then cmp (map toupper as) (map toupper bs)
       else if ret \<noteq> 0 then sgn ret else cmp as bs)"
proof (induction as arbitrary: bs ret)
  case Nil
  then show ?case by (cases bs) (auto simp: cmp_Nil)
next
  case (Cons a as)
  show ?case
  proof (cases bs)
    case Nil
    then show ?thesis using Cons.prems by (auto simp: cmp_Nil)
  next
    case bs: (Cons b bs')
    show ?thesis
    proof (cases "a = b")
      case True
      then show ?thesis using Cons.IH [of ret bs'] Cons.prems bs by (auto simp: cmp_Cons)
    next
      case False
      define r where "r = (if ret = 0 then uint a - uint b else ret)"
      have "r \<noteq> 0" using False by (simp add: r_def word_uint_eq_iff)
      have "sgn r = cmp (length as) (length bs') \<or> length as = length bs' \<and> r \<noteq> 0"
        using Cons.prems bs \<open>r \<noteq> 0\<close> by (auto simp: r_def split: if_splits)
      then show ?thesis
        using Cons.IH [of r bs'] False \<open>r \<noteq> 0\<close> bs by (auto simp: Let_def cmp_Cons sgn_uint_diff r_def)
    qed
  qed
qed

lemma sgn_icompare3:
  assumes "length a < 2 ^ 31" "length b < 2 ^ 31"
  shows "sgn (icompare3 a b) = cmp (map toupper a, a) (map toupper b, b)"
proof -
  note loop = sgn_icompare_loop [OF disjI1 [OF sgn_length_diff [OF assms]]]
  have "length_diff a b = 0" if "map toupper a = map toupper b"
  proof -
    have "length a = length b" using that by (rule map_eq_imp_length_eq)
    then show ?thesis using sgn_length_diff [OF assms] by (simp add: sgn_0_0)
  qed
  then show ?thesis using loop by (auto simp: icompare3_def cmp_Pair)
qed

text \<open>
  For strings below 2 GiB, \<^verbatim>\<open>compare3\<close> is the bytewise lexicographic order with the end of the
  string first, and \<^verbatim>\<open>icompare3\<close> the order by the uppercased strings with the strings themselves
  as tie-break: the sign is negative, zero or positive as the one key is below, equal or above.
\<close>

theorem string_compare_lexicographic:
  assumes "length a < 2 ^ 31" and "length b < 2 ^ 31"
  shows "sgn (compare3 a b) = cmp a b \<and> sgn (icompare3 a b) = cmp (map toupper a, a) (map toupper b, b) \<and>
    (string_less a b \<longleftrightarrow> a < b) \<and> (string_iless a b \<longleftrightarrow> (map toupper a, a) < (map toupper b, b))"
  using sgn_compare3 [OF assms] sgn_icompare3 [OF assms] unfolding string_less_def string_iless_def
  by (metis cmp_neg_iff(1) sgn_less)

theorem string_compare_lexicographic_witness:
  "sgn (compare3 [0x61] [0x42]) = cmp [0x61] [0x42 :: byte] \<and> compare3 [0x61] [0x42] = 31 \<and> icompare3 [0x61] [0x42] = - 1"
proof -
  have "compare3 [0x61] [0x42] = 31 \<and> icompare3 [0x61] [0x42] = - 1" by code_simp
  then show ?thesis using string_compare_lexicographic [of "[0x61]" "[0x42]"] by simp
qed

subsection \<open>Natural order\<close>

text \<open>
  The components of a string: a digit sequence counts as its digits without leading zeros, ordered
  by length and then digit by digit, at the place of the digits among the bytes.
\<close>

function nat_tokens :: "bool \<Rightarrow> bytes \<Rightarrow> (nat \<times> nat \<times> bytes) list" where
  "nat_tokens ci [] = []"
| "nat_tokens ci (c # cs) =
     (if isdigit c then
        let ds = takeWhile isdigit (dropWhile zero_digit (c # cs))
        in (0x30, length ds, ds) # nat_tokens ci (dropWhile isdigit cs)
      else (unat (if ci then toupper c else c), 0, []) # nat_tokens ci cs)"
  by pat_completeness auto
termination
  by (relation "measure (\<lambda>(ci, cs). length cs)") (auto simp: less_Suc_eq_le length_dropWhile_le)

function leading_zeros :: "bytes \<Rightarrow> nat list" where
  "leading_zeros [] = []"
| "leading_zeros (c # cs) =
     (if isdigit c then length (takeWhile zero_digit (c # cs)) # leading_zeros (dropWhile isdigit cs)
      else leading_zeros cs)"
  by pat_completeness auto
termination
  by (relation "measure length") (auto simp: less_Suc_eq_le length_dropWhile_le)

definition nat_key :: "bool \<Rightarrow> bytes \<Rightarrow> (nat \<times> nat \<times> bytes) list \<times> nat list \<times> bytes" where
  "nat_key ci cs = (nat_tokens ci cs, leading_zeros cs, cs)"

lemma dropWhile_moves:
  assumes "m \<le> length (takeWhile P xs)"
  shows "dropWhile P xs \<noteq> drop m xs \<longleftrightarrow> m < length (takeWhile P xs)"
proof
  assume "dropWhile P xs \<noteq> drop m xs"
  then show "m < length (takeWhile P xs)" using assms dropWhile_eq_drop [of P xs] by (cases "m = length (takeWhile P xs)") auto
next
  assume "m < length (takeWhile P xs)"
  then have "length (dropWhile P xs) \<noteq> length (drop m xs)"
    using length_takeWhile_le [of P xs] by (simp add: dropWhile_eq_drop)
  then show "dropWhile P xs \<noteq> drop m xs" by metis
qed

lemma digit_step:
  fixes as bs :: bytes
  assumes "isdigit a" "isdigit b"
  defines "za \<equiv> length (takeWhile zero_digit (a # as))" and "zb \<equiv> length (takeWhile zero_digit (b # bs))"
    and "da \<equiv> takeWhile isdigit (dropWhile zero_digit (a # as))"
    and "db \<equiv> takeWhile isdigit (dropWhile zero_digit (b # bs))"
  shows "natcompare_loop ci (a # as) (b # bs) rz rc =
    (let rz' = (if rz \<noteq> 0 then rz else cmp za zb) in
     if length db < length da then 1 else if length da < length db then - 1
     else if memcmp da db \<noteq> 0 then memcmp da db
     else natcompare_loop ci (dropWhile isdigit as) (dropWhile isdigit bs) rz' rc)"
proof -
  define m where "m = min za zb"
  have skip: "skip_common_zeros (a # as) (b # bs) = (drop m (a # as), drop m (b # bs))"
    unfolding m_def za_def zb_def skip_common_zeros_eq Let_def ..
  have dr: "dropWhile zero_digit (drop m (a # as)) = dropWhile zero_digit (a # as)"
    "dropWhile zero_digit (drop m (b # bs)) = dropWhile zero_digit (b # bs)"
    by (rule dropWhile_drop, simp add: m_def za_def zb_def)+
  have more: "dropWhile zero_digit (a # as) \<noteq> drop m (a # as) \<longleftrightarrow> zb < za"
    "dropWhile zero_digit (b # bs) \<noteq> drop m (b # bs) \<longleftrightarrow> za < zb"
    using dropWhile_moves [of m zero_digit "a # as"] dropWhile_moves [of m zero_digit "b # bs"]
    unfolding za_def [symmetric] zb_def [symmetric] m_def by auto
  have rest: "dropWhile isdigit (dropWhile zero_digit (a # as)) = dropWhile isdigit as"
    "dropWhile isdigit (dropWhile zero_digit (b # bs)) = dropWhile isdigit bs"
    unfolding rest_of_zeros using assms(1,2) by simp_all
  define rz' where "rz' = (if rz \<noteq> 0 then rz else cmp za zb)"
  have rz: "(if (if rz = 0 \<and> zb < za then 1 else rz) = 0 \<and> za < zb then - 1 else if rz = 0 \<and> zb < za then 1 else rz) = rz'"
    by (auto simp: rz'_def cmp_def)
  show ?thesis
    unfolding rz'_def [symmetric]
    by (subst natcompare_loop.simps(1))
      (simp only: assms(1,2) simp_thms if_True skip Let_def prod.case dr more rest rz da_def [symmetric] db_def [symmetric])
qed


definition fold_case :: "bool \<Rightarrow> byte \<Rightarrow> byte" where
  "fold_case ci c = (if ci then toupper c else c)"

lemma isdigit_toupper: "isdigit (toupper c) = isdigit c" "isdigit c \<Longrightarrow> toupper c = c"
proof -
  have "\<not> isdigit (c - 0x20)" if "islower c"
  proof -
    have "0x61 \<le> unat c" "unat c \<le> 0x7A" using that by (auto simp: islower_def word_le_nat_alt)
    then have "0x41 \<le> unat (c - 0x20)" by (simp add: unat_sub word_le_nat_alt)
    then show ?thesis by (simp add: isdigit_def word_le_nat_alt)
  qed
  moreover have "\<not> isdigit c" if "islower c" using that by (auto simp: isdigit_def islower_def word_le_nat_alt)
  ultimately show "isdigit (toupper c) = isdigit c" "isdigit c \<Longrightarrow> toupper c = c" by (auto simp: toupper_eq)
qed

lemma digit_against_byte:
  assumes "isdigit a" "\<not> isdigit b"
  shows "fold_case ci a = a" "0x30 \<noteq> unat (fold_case ci b)" "cmp 0x30 (unat (fold_case ci b)) = cmp a (fold_case ci b)"
    "cmp (unat (fold_case ci b)) 0x30 = cmp (fold_case ci b) a" "a \<noteq> fold_case ci b"
proof -
  define c where "c = fold_case ci b"
  have c: "\<not> isdigit c" using assms(2) by (simp add: c_def fold_case_def isdigit_toupper)
  have a: "0x30 \<le> unat a" "unat a \<le> 0x39" using assms(1) by (auto simp: isdigit_def word_le_nat_alt)
  have out: "unat c < 0x30 \<or> 0x39 < unat c" using c by (auto simp: isdigit_def word_le_nat_alt)
  show "fold_case ci a = a" using assms(1) by (simp add: fold_case_def isdigit_toupper)
  show "0x30 \<noteq> unat (fold_case ci b)" "cmp 0x30 (unat (fold_case ci b)) = cmp a (fold_case ci b)"
    "cmp (unat (fold_case ci b)) 0x30 = cmp (fold_case ci b) a" "a \<noteq> fold_case ci b"
    unfolding c_def [symmetric] cmp_of_unat [symmetric] using a out by (auto simp: cmp_def)
qed

lemma byte_step:
  assumes "\<not> (isdigit a \<and> isdigit b)"
  shows "natcompare_loop ci (a # as) (b # bs) rz rc =
    (if fold_case ci a \<noteq> fold_case ci b then uint (fold_case ci a) - uint (fold_case ci b)
     else natcompare_loop ci as bs rz (if a \<noteq> b \<and> rc = 0 then uint a - uint b else rc))"
  using assms by (subst natcompare_loop.simps(1)) (auto simp: fold_case_def Let_def)

lemma nat_tokens_byte: "\<not> isdigit c \<Longrightarrow> nat_tokens ci (c # cs) = (unat (fold_case ci c), 0, []) # nat_tokens ci cs"
  "\<not> isdigit c \<Longrightarrow> leading_zeros (c # cs) = leading_zeros cs"
  by (simp_all add: fold_case_def)

lemma nat_tokens_digits:
  fixes c :: byte and cs :: bytes
  assumes "isdigit c"
  defines "ds \<equiv> takeWhile isdigit (dropWhile zero_digit (c # cs))" and "z \<equiv> length (takeWhile zero_digit (c # cs))"
  shows "nat_tokens ci (c # cs) = (0x30, length ds, ds) # nat_tokens ci (dropWhile isdigit cs)"
    "leading_zeros (c # cs) = z # leading_zeros (dropWhile isdigit cs)"
    "c # cs = replicate z 0x30 @ ds @ dropWhile isdigit cs"
proof -
  show "nat_tokens ci (c # cs) = (0x30, length ds, ds) # nat_tokens ci (dropWhile isdigit cs)"
    "leading_zeros (c # cs) = z # leading_zeros (dropWhile isdigit cs)"
    using assms(1) by (simp_all add: ds_def z_def Let_def del: takeWhile.simps dropWhile.simps)
  have "takeWhile zero_digit (c # cs) = replicate z 0x30"
    unfolding z_def by (rule replicate_eqI) (auto simp: zero_digit_def simp del: takeWhile.simps dest!: set_takeWhileD)
  moreover have "dropWhile isdigit (c # cs) = dropWhile isdigit cs" using assms(1) by simp
  ultimately show "c # cs = replicate z 0x30 @ ds @ dropWhile isdigit cs"
    unfolding ds_def by (metis append_assoc digits_of_zeros takeWhile_dropWhile_id)
qed

declare nat_tokens.simps(2) [simp del] leading_zeros.simps(2) [simp del] natcompare_loop.simps(1) [simp del]

lemma cmp_append: "cmp (p @ xs) (p @ ys) = cmp xs ys"
  by (induction p) (simp_all add: cmp_Cons)

text \<open>The first comparison that is not equal decides.\<close>

definition orelse :: "int \<Rightarrow> int \<Rightarrow> int" where
  "orelse c d = (if c = 0 then d else c)"

lemma orelse_simps [simp]: "orelse 0 d = d" "orelse c 0 = c" "orelse (orelse c d) e = orelse c (orelse d e)"
  by (simp_all add: orelse_def)

lemma orelse_stop: "c \<noteq> 0 \<Longrightarrow> orelse c d = c"
  by (simp add: orelse_def)

lemma orelse_cong: "(c = 0 \<Longrightarrow> d = d') \<Longrightarrow> orelse c d = orelse c d'"
  by (simp add: orelse_def)

lemma sgn_orelse: "sgn (orelse c d) = orelse (sgn c) (sgn d)"
  by (simp add: orelse_def sgn_0_0)

lemma cmp_orelse: "cmp (x # xs) (y # ys) = orelse (cmp x y) (cmp xs ys)"
  "cmp (u, v) (u', v') = orelse (cmp u u') (cmp v v')"
  by (simp_all add: orelse_def cmp_Cons cmp_Pair)

lemma sgn_cmp: "sgn (cmp x y) = cmp x y"
  by (simp add: cmp_def)

definition nat_order :: "bool \<Rightarrow> bytes \<Rightarrow> bytes \<Rightarrow> int \<Rightarrow> int \<Rightarrow> int" where
  "nat_order ci as bs rz rc = orelse (cmp (nat_tokens ci as) (nat_tokens ci bs)) (orelse (sgn rz)
     (orelse (cmp (leading_zeros as) (leading_zeros bs)) (orelse (sgn rc) (cmp as bs))))"

lemma nat_order_digits:
  fixes as bs :: bytes
  assumes "isdigit a" "isdigit b"
    and IH: "\<And>rz rc. sgn (natcompare_loop ci (dropWhile isdigit as) (dropWhile isdigit bs) rz rc) =
      nat_order ci (dropWhile isdigit as) (dropWhile isdigit bs) rz rc"
  shows "sgn (natcompare_loop ci (a # as) (b # bs) rz rc) = nat_order ci (a # as) (b # bs) rz rc"
proof -
  define ra rb where "ra = dropWhile isdigit as" and "rb = dropWhile isdigit bs"
  define za zb where "za = length (takeWhile zero_digit (a # as))" and "zb = length (takeWhile zero_digit (b # bs))"
  define da db where "da = takeWhile isdigit (dropWhile zero_digit (a # as))"
    and "db = takeWhile isdigit (dropWhile zero_digit (b # bs))"
  note defs = ra_def rb_def za_def zb_def da_def db_def
  note ta = nat_tokens_digits [where c = a and cs = as, OF assms(1), folded defs]
  note tb = nat_tokens_digits [where c = b and cs = bs, OF assms(2), folded defs]
  have "natcompare_loop ci (a # as) (b # bs) rz rc =
    (if length db < length da then 1 else if length da < length db then - 1
     else if memcmp da db \<noteq> 0 then memcmp da db
     else natcompare_loop ci ra rb (if rz \<noteq> 0 then rz else cmp za zb) rc)"
    by (subst digit_step [OF assms(1,2)]) (simp only: defs Let_def)
  also have "\<dots> = orelse (cmp (length da) (length db)) (orelse (memcmp da db) (natcompare_loop ci ra rb (orelse rz (cmp za zb)) rc))"
    by (simp add: orelse_def cmp_def)
  finally have loop: "sgn (natcompare_loop ci (a # as) (b # bs) rz rc) =
    orelse (cmp (length da) (length db)) (orelse (cmp da db) (nat_order ci ra rb (orelse rz (cmp za zb)) rc))"
    unfolding ra_def rb_def using IH sgn_memcmp [of da db]
    by (auto simp only: sgn_orelse sgn_cmp cmp_eq_0_iff intro!: orelse_cong)
  have "orelse (cmp (length da) (length db)) (orelse (cmp da db) (orelse (cmp (nat_tokens ci ra) (nat_tokens ci rb))
      (orelse (sgn rz) (orelse (cmp za zb) (orelse (cmp (leading_zeros ra) (leading_zeros rb)) (orelse (sgn rc) (cmp ra rb))))))) =
    nat_order ci (a # as) (b # bs) rz rc"
    unfolding nat_order_def ta(1,2) tb(1,2) cmp_orelse cmp_refl orelse_simps
    by (intro orelse_cong) (simp only: cmp_orelse(1) [symmetric] ta(3) tb(3) cmp_append cmp_eq_0_iff)
  then show ?thesis unfolding loop by (simp add: nat_order_def sgn_orelse sgn_cmp)
qed

lemma nat_tokens_head:
  "isdigit c \<Longrightarrow> \<exists>u us. nat_tokens ci (c # cs) = (0x30, u) # us"
  "\<not> isdigit c \<Longrightarrow> \<exists>u us. nat_tokens ci (c # cs) = (unat (fold_case ci c), u) # us"
  by (intro exI, erule nat_tokens_digits(1)) (intro exI, erule nat_tokens_byte(1))

lemma nat_order_mixed:
  assumes "isdigit a \<noteq> isdigit b"
  shows "sgn (natcompare_loop ci (a # as) (b # bs) rz rc) = nat_order ci (a # as) (b # bs) rz rc"
proof -
  define fa fb where "fa = fold_case ci a" and "fb = fold_case ci b"
  have heads: "\<exists>p u us q v vs. nat_tokens ci (a # as) = (p, u) # us \<and> nat_tokens ci (b # bs) = (q, v) # vs \<and>
    cmp p q = cmp fa fb \<and> fa \<noteq> fb"
  proof (cases "isdigit a")
    case True
    then have b: "\<not> isdigit b" using assms by simp
    note d = digit_against_byte [OF True b, of ci]
    have "cmp 0x30 (unat fb) = cmp fa fb \<and> fa \<noteq> fb" using d(1,3,5) by (simp only: fa_def fb_def simp_thms not_False_eq_True)
    then show ?thesis using nat_tokens_head(1) [OF True] nat_tokens_head(2) [OF b] unfolding fb_def by blast
  next
    case False
    then have b: "isdigit b" using assms by simp
    note d = digit_against_byte [OF b False, of ci]
    have "cmp (unat fa) 0x30 = cmp fa fb \<and> fa \<noteq> fb" using d(1,4) d(5) [symmetric] by (simp only: fa_def fb_def simp_thms not_False_eq_True)
    then show ?thesis using nat_tokens_head(2) [OF False] nat_tokens_head(1) [OF b] unfolding fa_def by blast
  qed
  then have "cmp fa fb \<noteq> 0" by (metis cmp_eq_0_iff)
  then have "sgn (natcompare_loop ci (a # as) (b # bs) rz rc) = cmp fa fb"
    using assms by (subst byte_step) (auto simp: fa_def fb_def sgn_uint_diff)
  also have "\<dots> = nat_order ci (a # as) (b # bs) rz rc"
    using heads \<open>cmp fa fb \<noteq> 0\<close>
    by (elim exE conjE) (simp only: nat_order_def cmp_orelse orelse_stop orelse_simps not_False_eq_True)
  finally show ?thesis .
qed

lemma nat_order_bytes:
  assumes "\<not> isdigit a" "\<not> isdigit b"
    and IH: "\<And>rz rc. sgn (natcompare_loop ci as bs rz rc) = nat_order ci as bs rz rc"
  shows "sgn (natcompare_loop ci (a # as) (b # bs) rz rc) = nat_order ci (a # as) (b # bs) rz rc"
proof -
  have "natcompare_loop ci (a # as) (b # bs) rz rc =
    orelse (uint (fold_case ci a) - uint (fold_case ci b)) (natcompare_loop ci as bs rz (orelse rc (uint a - uint b)))"
    by (subst byte_step) (use assms in \<open>auto simp: orelse_def word_uint_eq_iff\<close>)
  then have "sgn (natcompare_loop ci (a # as) (b # bs) rz rc) =
    orelse (cmp (fold_case ci a) (fold_case ci b)) (nat_order ci as bs rz (orelse rc (uint a - uint b)))"
    by (simp only: sgn_orelse sgn_uint_diff IH)
  then show ?thesis
    using assms by (simp only: nat_order_def nat_tokens_byte cmp_orelse cmp_of_unat cmp_refl orelse_simps sgn_orelse sgn_uint_diff simp_thms)
qed

lemma sgn_natcompare_loop: "sgn (natcompare_loop ci as bs rz rc) = nat_order ci as bs rz rc"
proof (induction "length as" arbitrary: as bs rz rc rule: less_induct)
  case less
  have nil: "cmp [] (nat_tokens ci (c # cs)) = - 1" "cmp (nat_tokens ci (c # cs)) [] = 1" for c cs
    using nat_tokens_head [of c ci cs] by (cases "isdigit c"; auto simp: cmp_Nil)+
  show ?case
  proof (cases "as = [] \<or> bs = []")
    case True
    then consider "as = []" "bs = []" | b bs' where "as = []" "bs = b # bs'" | a as' where "as = a # as'" "bs = []"
      by (meson neq_Nil_conv)
    then show ?thesis
    proof cases
      case 1
      then show ?thesis by (simp add: nat_order_def orelse_def sgn_0_0)
    next
      case 2
      then show ?thesis by (simp add: nat_order_def nil orelse_stop)
    next
      case 3
      then show ?thesis by (simp add: nat_order_def nil orelse_stop)
    qed
  next
    case False
    then obtain a as' b bs' where as: "as = a # as'" and bs: "bs = b # bs'" by (meson neq_Nil_conv)
    have "length as' < length as" "length (dropWhile isdigit as') < length as"
      using as by (simp_all add: less_Suc_eq_le length_dropWhile_le)
    then have IH: "sgn (natcompare_loop ci as' bs' rz rc) = nat_order ci as' bs' rz rc"
      "sgn (natcompare_loop ci (dropWhile isdigit as') (dropWhile isdigit bs') rz rc) =
        nat_order ci (dropWhile isdigit as') (dropWhile isdigit bs') rz rc" for rz rc
      by (blast intro: less.hyps)+
    consider "isdigit a" "isdigit b" | "isdigit a \<noteq> isdigit b" | "\<not> isdigit a" "\<not> isdigit b" by blast
    then show ?thesis
      unfolding as bs by cases (rule nat_order_digits nat_order_mixed nat_order_bytes, (assumption | rule IH)+)+
  qed
qed

lemma cmp_inj: "(cmp x y = cmp x' y') \<Longrightarrow> (x < y \<longleftrightarrow> x' < y') \<and> (x = y \<longleftrightarrow> x' = y')"
  by (metis cmp_eq_0_iff cmp_neg_iff(1))

text \<open>
  The list of the header, in its order but for the last two: the header puts \<^verbatim>\<open>a@\<close> behind \<^verbatim>\<open>aa\<close>, but
  0x40 is below every letter of either case, so both comparisons put it in front.
\<close>

lemma natcompare_header_list:
  "sorted_wrt inatless (map (map (\<lambda>c. of_char c :: byte))
     [''a$'', ''a1'', ''a2'', ''a02'', ''a2a'', ''a2a1'', ''a02a2'', ''a2a3'', ''a2b'', ''a02b'', ''A3A'', ''A3a'', ''a3A'',
      ''a3a'', ''A03A'', ''A03a'', ''a03A'', ''a03a'', ''a10'', ''a11'', ''a@'', ''aa''])"
  "snatless [0x61, 0x40] [0x61, 0x61]"
  by code_simp+

text \<open>
  C24. The natural comparison is a total order on strings of any length: its sign is the
  lexicographic comparison of a key made of the string's components (bytes, and digit
  sequences as numbers of unbounded size), then of the counts of leading zeros, then of the bytes
  themselves; the case-insensitive one folds the bytes of the first part. In particular the result
  is zero for equal strings only, and the two \<^verbatim>\<open>less\<close> functions are the strict order of the keys. The
  documented list of sorted strings follows this order but for its last two, \<^verbatim>\<open>aa\<close> and \<^verbatim>\<open>a@\<close>, which the code
  puts the other way round (\<open>natcompare_header_list\<close>).
\<close>

theorem natcompare_is_key_order:
  "sgn (natcompare3 ci a b) = cmp (nat_key ci a) (nat_key ci b) \<and> (natcompare3 ci a b = 0 \<longleftrightarrow> a = b) \<and>
   snatless a b = (nat_key False a < nat_key False b) \<and> inatless a b = (nat_key True a < nat_key True b)"
proof -
  have key: "sgn (natcompare3 ci a b) = cmp (nat_key ci a) (nat_key ci b)" for ci
    by (simp add: natcompare3_def sgn_natcompare_loop nat_order_def nat_key_def cmp_orelse)
  have "natcompare3 ci a b = 0 \<longleftrightarrow> nat_key ci a = nat_key ci b" using key [of ci] by (metis cmp_eq_0_iff sgn_0_0)
  moreover have "nat_key ci a = nat_key ci b \<longleftrightarrow> a = b" by (auto simp: nat_key_def)
  moreover have "natcompare3 ci a b < 0 \<longleftrightarrow> nat_key ci a < nat_key ci b" for ci
    using key [of ci] by (metis cmp_neg_iff(1) sgn_less)
  ultimately show ?thesis using key by (simp add: snatless_def inatless_def snatcompare3_def inatcompare3_def)
qed

end
