(* ===== verification/Stringconv.thy ===== *)
theory Stringconv
  imports Global Ctype
begin

text \<open>
  The integer conversions of \<^verbatim>\<open>arlib/stringconv.cpp\<close>: decimal and hexadecimal printing into a buffer
  sized beforehand, and the parsers with their overflow checks. On the modelled 64-bit platform every
  parser runs on \<^verbatim>\<open>uintptr_t\<close> and narrows its result, so the loops work on 64-bit words and the
  wrappers are polymorphic in the width of the output. A signed integer is its two's complement word.
  Parsers return the success flag and the value left in \<^verbatim>\<open>out\<close>.
\<close>

subsection \<open>Printing\<close>

definition tostring_len_unsigned :: "u64 \<Rightarrow> nat" where
  "tostring_len_unsigned val = ilog10 (val OR 1) + 1"

text \<open>\<^verbatim>\<open>abs\<close> and the negation of the smallest \<^verbatim>\<open>long long\<close> overflow, which C++ leaves undefined; the model wraps there.\<close>

definition abs64 :: "u64 \<Rightarrow> u64" where
  "abs64 val = (if sint val < 0 then - val else val)"

definition tostring_len_signed :: "u64 \<Rightarrow> nat" where
  "tostring_len_signed val = ilog10 (abs64 val OR 1) + (if sint val < 0 then 1 else 0) + 1"

text \<open>The buffer of the given length is filled from its end.\<close>

fun tostring_ptr_unsigned :: "nat \<Rightarrow> u64 \<Rightarrow> bytes" where
  "tostring_ptr_unsigned 0 val = []"
| "tostring_ptr_unsigned (Suc len) val = tostring_ptr_unsigned len (val div 10) @ [0x30 + ucast (val mod 10)]"

definition tostring_ptr_signed :: "nat \<Rightarrow> u64 \<Rightarrow> bytes" where
  "tostring_ptr_signed len val =
     (if sint val < 0 then (tostring_ptr_unsigned len (- val))[0 := 0x2D] else tostring_ptr_unsigned len val)"

definition tostring_unsigned :: "u64 \<Rightarrow> bytes" where
  "tostring_unsigned val = tostring_ptr_unsigned (tostring_len_unsigned val) val"

definition tostring_signed :: "u64 \<Rightarrow> bytes" where
  "tostring_signed val = tostring_ptr_signed (tostring_len_signed val) val"

definition tostring_bool :: "bool \<Rightarrow> bytes" where
  "tostring_bool val = (if val then [0x74, 0x72, 0x75, 0x65] else [0x66, 0x61, 0x6C, 0x73, 0x65])"

definition hexdigits :: bytes where
  "hexdigits = [0x30, 0x31, 0x32, 0x33, 0x34, 0x35, 0x36, 0x37, 0x38, 0x39, 0x41, 0x42, 0x43, 0x44, 0x45, 0x46]"

function hex_loop :: "u64 \<Rightarrow> bytes \<Rightarrow> bytes" where
  "hex_loop val acc =
     (let acc = hexdigits ! unat (val mod 16) # acc; val' = val div 16
      in if val' \<noteq> 0 then hex_loop val' acc else acc)"
  by pat_completeness auto
termination
proof (relation "measure (\<lambda>(val, acc). unat val)")
  fix val :: u64 and acc acc' :: bytes and val' :: u64
  assume "val' = val div 16" and "val' \<noteq> 0"
  moreover from this have "val \<noteq> 0" by auto
  ultimately have "unat val' = unat val div 16" and "0 < unat val" by (simp_all add: unat_div_distrib unat_gt_0)
  then show "((val', acc'), (val, acc)) \<in> measure (\<lambda>(val, acc). unat val)" by simp
qed simp

text \<open>
  The digits are written from the end of a buffer of 16 bytes on the stack. \<open>None\<close> is writing in front of it,
  which a \<open>mindigits\<close> above 16 does; the header allows two digits per byte of the type.
\<close>

definition tostringhex :: "u64 \<Rightarrow> nat \<Rightarrow> bytes option" where
  "tostringhex val mindigits =
     (let ds = hex_loop val [];
          ds = replicate (mindigits - length ds) 0x30 @ ds
      in if length ds \<le> 16 then Some ds else None)"

fun tostringhex_ptr :: "nat \<Rightarrow> u64 \<Rightarrow> bytes" where
  "tostringhex_ptr 0 val = []"
| "tostringhex_ptr (Suc len) val = tostringhex_ptr len (val div 16) @ [hexdigits ! unat (val mod 16)]"

definition tostringhex_bytes :: "bytes \<Rightarrow> bytes" where
  "tostringhex_bytes val = concat (map (\<lambda>b. [hexdigits ! unat (drop_bit 4 b), hexdigits ! unat (b AND 15)]) val)"

subsection \<open>Parsing\<close>

fun fromstring_int_loop :: "bytes \<Rightarrow> u64 \<Rightarrow> bool \<times> u64" where
  "fromstring_int_loop [] out = (True, out)"
| "fromstring_int_loop (c # cs) out =
     (if 0x30 \<le> c \<and> c \<le> 0x39 then
        if (- 1) div 10 \<le> out \<and> ((- 1) div 10 < out \<or> ucast ((- 1 :: u64) mod 10 + 0x30) < c)
        then (False, out)
        else fromstring_int_loop cs (out * 10 + ucast c - 0x30)
      else (False, out))"

definition fromstring_int_inner :: "bytes \<Rightarrow> bool \<times> u64" where
  "fromstring_int_inner s = (if s = [] then (False, 0) else fromstring_int_loop s 0)"

definition fromstring_int_real :: "bytes \<Rightarrow> bool \<times> u64" where
  "fromstring_int_real s =
     (if s = [] then (False, 0)
      else
        let neg = (s ! 0 = 0x2D); (ok, tmp) = fromstring_int_inner (if neg then drop 1 s else s)
        in if \<not> ok then (False, 0)
           else if neg then (sint (- tmp) \<le> 0, - tmp)
           else (0 \<le> sint tmp, tmp))"

definition is_hex_digit :: "byte \<Rightarrow> bool" where
  "is_hex_digit c = (0x30 \<le> c \<and> c \<le> 0x39 \<or> 0x41 \<le> c AND NOT 0x20 \<and> c AND NOT 0x20 \<le> 0x46)"

definition hex_digit :: "byte \<Rightarrow> u64" where
  "hex_digit c = (if 0x30 \<le> c \<and> c \<le> 0x39 then ucast c - 0x30 else ucast (c AND NOT 0x20) - 0x41 + 10)"

fun fromstring_hex_loop :: "bytes \<Rightarrow> u64 \<Rightarrow> bool \<times> u64" where
  "fromstring_hex_loop [] out = (True, out)"
| "fromstring_hex_loop (c # cs) out =
     (if is_hex_digit c then fromstring_hex_loop cs (push_bit 4 out + hex_digit c) else (False, push_bit 4 out))"

definition fromstring_hex_real :: "bytes \<Rightarrow> bool \<times> u64" where
  "fromstring_hex_real s =
     (if s = [] then (False, 0)
      else let s = dropWhile (\<lambda>c. c = 0x30) s in
        if 8 * 2 < length s then (False, 0) else fromstring_hex_loop s 0)"

definition fromstring_uint :: "bytes \<Rightarrow> bool \<times> 'a::len word" where
  "fromstring_uint s =
     (let (ret, tmp) = fromstring_int_inner s; out = ucast tmp in (ret \<and> tmp = ucast out, out))"

definition fromstring_int :: "bytes \<Rightarrow> bool \<times> 'a::len word" where
  "fromstring_int s =
     (let (ret, tmp) = fromstring_int_real s; out = ucast tmp in (ret \<and> tmp = scast out, out))"

definition fromstring_hex :: "bytes \<Rightarrow> bool \<times> 'a::len word" where
  "fromstring_hex s =
     (let (ret, tmp) = fromstring_hex_real s; out = ucast tmp in (ret \<and> tmp = ucast out, out))"

definition fromstring_bool :: "bytes \<Rightarrow> bool \<times> bool" where
  "fromstring_bool s =
     (if s = tostring_bool False \<or> s = [0x30] then (True, False)
      else if s = tostring_bool True \<or> s = [0x31] then (True, True)
      else (False, False))"

text \<open>The first form fills the view \<open>val\<close> of a given size, the other one resizes its array first.\<close>

definition fromstringhex_view :: "bytes \<Rightarrow> bytes \<Rightarrow> bool \<times> bytes" where
  "fromstringhex_view s val =
     (if length val * 2 \<noteq> length s then (False, val)
      else let rs = map (\<lambda>i. fromstring_hex (slice (2 * i) 2 s)) [0..<length val]
           in (list_all fst rs, map snd rs))"

definition fromstringhex_array :: "bytes \<Rightarrow> bytes \<Rightarrow> bool \<times> bytes" where
  "fromstringhex_array s val =
     (let n = length s div 2 in fromstringhex_view s (take n (val @ replicate n 0)))"

subsection \<open>Decimal numbers\<close>

definition dec_from :: "nat \<Rightarrow> bytes \<Rightarrow> nat" where
  "dec_from = foldl (\<lambda>n c. 10 * n + (unat c - 0x30))"

lemma dec_from_simps [simp]: "dec_from n [] = n" "dec_from n (c # cs) = dec_from (10 * n + (unat c - 0x30)) cs"
  "dec_from n (cs @ [c]) = 10 * dec_from n cs + (unat c - 0x30)"
  by (simp_all add: dec_from_def)

lemma dec_from_ge: "n \<le> dec_from n cs"
proof (induction cs arbitrary: n)
  case (Cons c cs)
  have "n \<le> 10 * n + (unat c - 0x30)" by simp
  also have "\<dots> \<le> dec_from (10 * n + (unat c - 0x30)) cs" by (rule Cons.IH)
  finally show ?case by simp
qed simp

lemma digit_byte: "isdigit c \<longleftrightarrow> 0x30 \<le> unat c \<and> unat c \<le> 0x39"
  by (simp add: isdigit_def word_le_nat_alt)

lemma minus_one_u64: "(- 1 :: u64) = 0xFFFFFFFFFFFFFFFF"
  by simp

lemma fromstring_limits:
  "unat ((- 1) div 10 :: u64) = 1844674407370955161" "ucast ((- 1 :: u64) mod 10 + 0x30) = (0x35 :: byte)"
  unfolding minus_one_u64 by (simp_all add: unat_div_distrib)

lemma overflow_check:
  fixes out :: u64
  assumes "isdigit c"
  shows "(- 1) div 10 \<le> out \<and> ((- 1) div 10 < out \<or> ucast ((- 1 :: u64) mod 10 + 0x30) < c) \<longleftrightarrow>
    2 ^ 64 \<le> 10 * unat out + (unat c - 0x30)"
proof -
  have c: "0x30 \<le> unat c" "unat c \<le> 0x39" using assms by (simp_all add: digit_byte)
  have "(0x35 :: byte) < c \<longleftrightarrow> 0x35 < unat c" by (simp add: word_less_nat_alt)
  then show ?thesis
    unfolding fromstring_limits(2) word_le_nat_alt [of "(- 1) div 10 :: u64"] word_less_nat_alt [of "(- 1) div 10 :: u64"] fromstring_limits(1)
    using c by auto
qed

lemma add_digit:
  assumes "isdigit c"
  shows "out * 10 + ucast c - 0x30 = (word_of_nat (10 * unat out + (unat c - 0x30)) :: u64)"
proof -
  have "(word_of_nat (unat c - 0x30) :: u64) = word_of_nat (unat c) - 0x30"
    using assms by (simp add: digit_byte of_nat_diff)
  then show ?thesis by simp
qed

lemma fromstring_int_loop_digit:
  assumes "isdigit c"
  shows "fromstring_int_loop (c # cs) out =
    (let n = 10 * unat out + (unat c - 0x30)
     in if 2 ^ 64 \<le> n then (False, out) else fromstring_int_loop cs (word_of_nat n))"
  unfolding fromstring_int_loop.simps overflow_check [OF assms] add_digit [OF assms] Let_def
  using assms by (simp add: isdigit_def)

lemma fromstring_int_loop_other: "\<not> isdigit c \<Longrightarrow> fromstring_int_loop (c # cs) out = (False, out)"
  by (auto simp: isdigit_def)

declare fromstring_int_loop.simps(2) [simp del]

lemma fromstring_int_loop_ok:
  "(fst (fromstring_int_loop cs out) \<longleftrightarrow> list_all isdigit cs \<and> dec_from (unat out) cs < 2 ^ 64) \<and>
   (fst (fromstring_int_loop cs out) \<longrightarrow> unat (snd (fromstring_int_loop cs out)) = dec_from (unat out) cs)"
proof (induction cs arbitrary: out)
  case Nil
  then show ?case using unsigned_less [of out] by simp
next
  case (Cons c cs)
  show ?case
  proof (cases "isdigit c")
    case True
    define n where "n = 10 * unat out + (unat c - 0x30)"
    note step = fromstring_int_loop_digit [OF True, of cs out, folded n_def, unfolded Let_def]
    show ?thesis
    proof (cases "2 ^ 64 \<le> n")
      case big: True
      then have "\<not> dec_from n cs < 2 ^ 64" using dec_from_ge [of n cs] by linarith
      then show ?thesis unfolding step using big True by (simp add: n_def)
    next
      case False
      then have "unat (word_of_nat n :: u64) = n" by (simp add: unat_of_nat take_bit_nat_eq_self)
      then show ?thesis unfolding step using Cons.IH [of "word_of_nat n"] False True by (simp add: n_def)
    qed
  qed (simp add: fromstring_int_loop_other)
qed

lemma fromstring_int_inner_ok:
  "fst (fromstring_int_inner s) \<longleftrightarrow> s \<noteq> [] \<and> list_all isdigit s \<and> dec_from 0 s < 2 ^ 64"
  "fst (fromstring_int_inner s) \<Longrightarrow> snd (fromstring_int_inner s) = word_of_nat (dec_from 0 s)"
proof -
  show "fst (fromstring_int_inner s) \<longleftrightarrow> s \<noteq> [] \<and> list_all isdigit s \<and> dec_from 0 s < 2 ^ 64"
    using fromstring_int_loop_ok [of s 0] by (auto simp: fromstring_int_inner_def)
  assume "fst (fromstring_int_inner s)"
  then have "unat (snd (fromstring_int_inner s)) = dec_from 0 s"
    using fromstring_int_loop_ok [of s 0] by (auto simp: fromstring_int_inner_def split: if_splits)
  from this [symmetric] show "snd (fromstring_int_inner s) = word_of_nat (dec_from 0 s)" by simp
qed

definition dec_value :: "bytes \<Rightarrow> int" where
  "dec_value s = (if take 1 s = [0x2D] then - int (dec_from 0 (drop 1 s)) else int (dec_from 0 s))"

definition dec_syntax :: "bytes \<Rightarrow> bool" where
  "dec_syntax s = (let ds = (if take 1 s = [0x2D] then drop 1 s else s) in ds \<noteq> [] \<and> list_all isdigit ds)"

lemma sint_word_of_nat:
  assumes "n < 2 ^ 64"
  shows "0 \<le> sint (word_of_nat n :: u64) \<longleftrightarrow> n < 2 ^ 63" "n < 2 ^ 63 \<Longrightarrow> sint (word_of_nat n :: u64) = int n"
    "sint (- word_of_nat n :: u64) \<le> 0 \<longleftrightarrow> n \<le> 2 ^ 63" "n \<le> 2 ^ 63 \<Longrightarrow> sint (- word_of_nat n :: u64) = - int n"
proof -
  have w: "word_of_nat n = (word_of_int (int n) :: u64)" "- word_of_nat n = (word_of_int (- int n) :: u64)" by simp_all
  have s: "sint (word_of_int k :: u64) = signed_take_bit 63 k" for k by (simp only: signed_of_int) simp
  have range: "signed_take_bit 63 k = k" if "- (2 ^ 63) \<le> k" "k < 2 ^ 63" for k :: int
    using that by (rule signed_take_bit_int_eq_self)
  have over: "signed_take_bit 63 k = k - 2 ^ 64" if "2 ^ 63 \<le> k" "k < 2 ^ 64" for k :: int
  proof -
    have "signed_take_bit 63 k = signed_take_bit 63 (k - 2 ^ 64)"
      using mod_add_self2 [of "k - 2 ^ 63" "2 ^ 64 :: int"]
      by (simp add: signed_take_bit_eq_take_bit_shift take_bit_eq_mod add.commute)
    then show ?thesis using range [of "k - 2 ^ 64"] that by simp
  qed
  have under: "signed_take_bit 63 k = k + 2 ^ 64" if "- (2 ^ 64) < k" "k < - (2 ^ 63)" for k :: int
  proof -
    have "signed_take_bit 63 k = signed_take_bit 63 (k + 2 ^ 64)"
      using mod_add_self2 [of "k + 2 ^ 63" "2 ^ 64 :: int"]
      by (simp add: signed_take_bit_eq_take_bit_shift take_bit_eq_mod)
    then show ?thesis using range [of "k + 2 ^ 64"] that by simp
  qed
  show "n < 2 ^ 63 \<Longrightarrow> sint (word_of_nat n :: u64) = int n" unfolding w(1) s by (rule range) simp_all
  show "n \<le> 2 ^ 63 \<Longrightarrow> sint (- word_of_nat n :: u64) = - int n" unfolding w(2) s by (rule range) simp_all
  show "0 \<le> sint (word_of_nat n :: u64) \<longleftrightarrow> n < 2 ^ 63"
    unfolding w(1) s using range [of "int n"] over [of "int n"] assms by (cases "n < 2 ^ 63") simp_all
  show "sint (- word_of_nat n :: u64) \<le> 0 \<longleftrightarrow> n \<le> 2 ^ 63"
    unfolding w(2) s using range [of "- int n"] under [of "- int n"] assms by (cases "n \<le> 2 ^ 63") simp_all
qed

lemma fromstring_int_real_ok:
  "fst (fromstring_int_real s) \<longleftrightarrow> dec_syntax s \<and> - (2 ^ 63) \<le> dec_value s \<and> dec_value s < 2 ^ 63"
  "fst (fromstring_int_real s) \<Longrightarrow> sint (snd (fromstring_int_real s)) = dec_value s"
proof -
  define neg where "neg = (take 1 s = [0x2D])"
  define ds where "ds = (if neg then drop 1 s else s)"
  define n where "n = dec_from 0 ds"
  have val: "dec_value s = (if neg then - int n else int n)" by (simp add: dec_value_def neg_def ds_def n_def)
  have synt: "dec_syntax s \<longleftrightarrow> ds \<noteq> [] \<and> list_all isdigit ds" by (simp add: dec_syntax_def ds_def neg_def Let_def)
  have real: "fromstring_int_real s = (if \<not> fst (fromstring_int_inner ds) then (False, 0)
    else if neg then (sint (- snd (fromstring_int_inner ds)) \<le> 0, - snd (fromstring_int_inner ds))
    else (0 \<le> sint (snd (fromstring_int_inner ds)), snd (fromstring_int_inner ds)))"
    by (cases s) (auto simp: fromstring_int_real_def ds_def neg_def fromstring_int_inner_def split: prod.splits)
  note inner = fromstring_int_inner_ok [of ds, folded n_def]
  have "(fst (fromstring_int_real s) \<longleftrightarrow> dec_syntax s \<and> - (2 ^ 63) \<le> dec_value s \<and> dec_value s < 2 ^ 63) \<and>
    (fst (fromstring_int_real s) \<longrightarrow> sint (snd (fromstring_int_real s)) = dec_value s)"
  proof (cases "fst (fromstring_int_inner ds)")
    case True
    then have ok: "dec_syntax s" and n: "n < 2 ^ 64" using inner(1) by (simp_all add: synt)
    show ?thesis using True ok inner(2) [OF True] sint_word_of_nat [OF n] by (auto simp: real val)
  next
    case False
    then have "\<not> (dec_syntax s \<and> n < 2 ^ 64)" using inner(1) by (auto simp: synt)
    then show ?thesis using False by (auto simp: real val split: if_splits)
  qed
  then show "fst (fromstring_int_real s) \<longleftrightarrow> dec_syntax s \<and> - (2 ^ 63) \<le> dec_value s \<and> dec_value s < 2 ^ 63"
    "fst (fromstring_int_real s) \<Longrightarrow> sint (snd (fromstring_int_real s)) = dec_value s" by blast+
qed

lemma scast_ucast_range:
  fixes w :: u64
  assumes "LENGTH('a::len) \<le> 64"
  shows "w = scast (ucast w :: 'a word) \<longleftrightarrow> - (2 ^ (LENGTH('a) - 1)) \<le> sint w \<and> sint w < 2 ^ (LENGTH('a) - 1)"
    and "w = scast (ucast w :: 'a word) \<Longrightarrow> sint (ucast w :: 'a word) = sint w"
proof -
  have u: "sint (ucast w :: 'a word) = signed_take_bit (LENGTH('a) - 1) (sint w)"
  proof -
    have "ucast w = (word_of_int (sint w) :: 'a word)"
    proof (rule bit_word_eqI)
      fix n assume "n < LENGTH('a)"
      then have "n < 64" "63 \<le> n \<Longrightarrow> n = 63" using assms by simp_all
      then show "bit (ucast w :: 'a word) n = bit (word_of_int (sint w) :: 'a word) n"
        using \<open>n < LENGTH('a)\<close> by (cases "n = 63") (auto simp: bit_simps min_def)
    qed
    then show ?thesis by (simp only: signed_of_int) simp
  qed
  have sc: "sint (scast (ucast w :: 'a word) :: u64) = sint (ucast w :: 'a word)"
  proof -
    have "signed_take_bit 63 (sint (ucast w :: 'a word)) = sint (ucast w :: 'a word)"
    proof (rule signed_take_bit_int_eq_self)
      have "(2::int) ^ (LENGTH('a) - Suc 0) \<le> 2 ^ 63" using assms by (intro power_increasing) auto
      then show "- (2 ^ 63) \<le> sint (ucast w :: 'a word)" "sint (ucast w :: 'a word) < 2 ^ 63"
        using sint_greater_eq [of "ucast w :: 'a word"] sint_less [of "ucast w :: 'a word"]
        unfolding One_nat_def by linarith+
    qed
    then show ?thesis by (simp only: scast_eq signed_of_int) simp
  qed
  have "w = scast (ucast w :: 'a word) \<longleftrightarrow> sint w = signed_take_bit (LENGTH('a) - 1) (sint w)"
    unfolding u [symmetric] sc [symmetric] by (rule word_eq_iff_signed)
  then show "w = scast (ucast w :: 'a word) \<longleftrightarrow> - (2 ^ (LENGTH('a) - 1)) \<le> sint w \<and> sint w < 2 ^ (LENGTH('a) - 1)"
    by (simp add: signed_take_bit_int_eq_self_iff eq_commute [of "sint w"])
  assume "w = scast (ucast w :: 'a word)"
  then show "sint (ucast w :: 'a word) = sint w" using sc by simp
qed

lemma fromstring_uint_ok:
  assumes "LENGTH('a::len) \<le> 64"
  shows "fst (fromstring_uint s :: bool \<times> 'a word) \<longleftrightarrow> s \<noteq> [] \<and> list_all isdigit s \<and> dec_from 0 s < 2 ^ LENGTH('a)"
    "fst (fromstring_uint s :: bool \<times> 'a word) \<Longrightarrow> unat (snd (fromstring_uint s :: bool \<times> 'a word)) = dec_from 0 s"
proof -
  define t where "t = snd (fromstring_int_inner s)"
  have le: "(2::nat) ^ LENGTH('a) \<le> 2 ^ 64" using power_increasing [of "LENGTH('a)" 64 "2::nat"] assms by simp
  have u: "(fromstring_uint s :: bool \<times> 'a word) = (fst (fromstring_int_inner s) \<and> t = ucast (ucast t :: 'a word), ucast t)"
    by (simp add: fromstring_uint_def t_def Let_def split_beta)
  have "t = ucast (ucast t :: 'a word) \<longleftrightarrow> unat t < 2 ^ LENGTH('a)"
    by (simp add: word_unat_eq_iff unsigned_ucast_eq take_bit_nat_eq_self_iff eq_commute [of "unat t"] min_def assms
      unsigned_take_bit_eq)
  then have fu: "fst (fromstring_uint s :: bool \<times> 'a word) \<longleftrightarrow> fst (fromstring_int_inner s) \<and> unat t < 2 ^ LENGTH('a)"
    by (simp add: u)
  have t: "unat t = dec_from 0 s" if "fst (fromstring_int_inner s)"
    using that fromstring_int_inner_ok [of s] by (simp add: t_def unat_of_nat take_bit_nat_eq_self)
  have tu: "unat (ucast t :: 'a word) = unat t" if "unat t < 2 ^ LENGTH('a)"
    using that by (simp add: unsigned_ucast_eq take_bit_nat_eq_self min_def unsigned_take_bit_eq)
  have "dec_from 0 s < 2 ^ 64" if "dec_from 0 s < 2 ^ LENGTH('a)" using that le by (rule less_le_trans)
  then show "fst (fromstring_uint s :: bool \<times> 'a word) \<longleftrightarrow> s \<noteq> [] \<and> list_all isdigit s \<and> dec_from 0 s < 2 ^ LENGTH('a)"
    using fu t fromstring_int_inner_ok(1) [of s] by metis
  show "fst (fromstring_uint s :: bool \<times> 'a word) \<Longrightarrow> unat (snd (fromstring_uint s :: bool \<times> 'a word)) = dec_from 0 s"
    using fu t tu by (simp add: u)
qed

lemma fromstring_int_ok:
  assumes "LENGTH('a::len) \<le> 64"
  shows "fst (fromstring_int s :: bool \<times> 'a word) \<longleftrightarrow>
      dec_syntax s \<and> - (2 ^ (LENGTH('a) - 1)) \<le> dec_value s \<and> dec_value s < 2 ^ (LENGTH('a) - 1)"
    "fst (fromstring_int s :: bool \<times> 'a word) \<Longrightarrow> sint (snd (fromstring_int s :: bool \<times> 'a word)) = dec_value s"
proof -
  define r where "r = snd (fromstring_int_real s)"
  have le: "(2::int) ^ (LENGTH('a) - 1) \<le> 2 ^ 63"
    using power_increasing [of "LENGTH('a) - 1" 63 "2::int"] assms by simp
  have i: "(fromstring_int s :: bool \<times> 'a word) = (fst (fromstring_int_real s) \<and> r = scast (ucast r :: 'a word), ucast r)"
    by (simp add: fromstring_int_def r_def Let_def split_beta)
  have fi: "fst (fromstring_int s :: bool \<times> 'a word) \<longleftrightarrow>
      fst (fromstring_int_real s) \<and> - (2 ^ (LENGTH('a) - 1)) \<le> sint r \<and> sint r < 2 ^ (LENGTH('a) - 1)"
    by (simp add: i scast_ucast_range [OF assms])
  have r: "sint r = dec_value s" if "fst (fromstring_int_real s)"
    using that fromstring_int_real_ok(2) by (simp add: r_def)
  have "- (2 ^ 63) \<le> dec_value s \<and> dec_value s < 2 ^ 63"
    if "- (2 ^ (LENGTH('a) - 1)) \<le> dec_value s" "dec_value s < 2 ^ (LENGTH('a) - 1)"
    using that le by linarith
  then show "fst (fromstring_int s :: bool \<times> 'a word) \<longleftrightarrow>
      dec_syntax s \<and> - (2 ^ (LENGTH('a) - 1)) \<le> dec_value s \<and> dec_value s < 2 ^ (LENGTH('a) - 1)"
    using fi r fromstring_int_real_ok(1) [of s] by metis
  show "fst (fromstring_int s :: bool \<times> 'a word) \<Longrightarrow> sint (snd (fromstring_int s :: bool \<times> 'a word)) = dec_value s"
    using fi r scast_ucast_range(2) [OF assms, of r] by (simp add: i)
qed

text \<open>
  C27. The decimal parsers accept exactly what they should, for every output width up to 64 bits: the
  unsigned one a nonempty string of digits whose value fits, the signed one an optional minus sign
  and digits whose value fits; no overflow is missed and nothing that fits is rejected. On success
  the output is the value.
\<close>

theorem fromstring_exact:
  assumes "LENGTH('a::len) \<le> 64"
  shows "(fst (fromstring_uint s :: bool \<times> 'a word) \<longleftrightarrow> s \<noteq> [] \<and> list_all isdigit s \<and> dec_from 0 s < 2 ^ LENGTH('a)) \<and>
    (fst (fromstring_uint s :: bool \<times> 'a word) \<longrightarrow> unat (snd (fromstring_uint s :: bool \<times> 'a word)) = dec_from 0 s) \<and>
    (fst (fromstring_int s :: bool \<times> 'a word) \<longleftrightarrow>
      dec_syntax s \<and> - (2 ^ (LENGTH('a) - 1)) \<le> dec_value s \<and> dec_value s < 2 ^ (LENGTH('a) - 1)) \<and>
    (fst (fromstring_int s :: bool \<times> 'a word) \<longrightarrow> sint (snd (fromstring_int s :: bool \<times> 'a word)) = dec_value s)"
  using fromstring_uint_ok [OF assms] fromstring_int_ok [OF assms] by blast

theorem fromstring_exact_witness:
  "\<not> fst (fromstring_uint [0x32, 0x35, 0x36] :: bool \<times> byte) \<and>
   fst (fromstring_int [0x2D, 0x31, 0x32, 0x38] :: bool \<times> byte)"
proof -
  have "LENGTH(8) \<le> 64" by simp
  from fromstring_exact [OF this, of "[0x32, 0x35, 0x36]"] fromstring_exact [OF this, of "[0x2D, 0x31, 0x32, 0x38]"]
  show ?thesis by (simp add: dec_syntax_def dec_value_def isdigit_def Let_def)
qed

subsection \<open>Round trips\<close>

lemma length_tostring_ptr_unsigned [simp]: "length (tostring_ptr_unsigned len val) = len"
  by (induction len arbitrary: val) simp_all

lemma last_digit:
  "isdigit (0x30 + ucast (val mod 10 :: u64))" "unat (0x30 + ucast (val mod 10 :: u64) :: byte) - 0x30 = unat val mod 10"
proof -
  define k where "k = unat val mod 10"
  have k: "k < 10" by (simp add: k_def)
  have "unat (ucast (val mod 10) :: byte) = k"
    using k by (simp add: unsigned_ucast_eq unsigned_take_bit_eq take_bit_nat_eq_self unat_mod_distrib k_def)
  then have "unat (0x30 + ucast (val mod 10) :: byte) = 0x30 + k"
    using k by (simp add: unat_word_ariths(1))
  then show "isdigit (0x30 + ucast (val mod 10))" "unat (0x30 + ucast (val mod 10) :: byte) - 0x30 = unat val mod 10"
    using k by (simp_all add: digit_byte k_def)
qed

lemma tostring_ptr_unsigned_ok:
  "list_all isdigit (tostring_ptr_unsigned len val) \<and> dec_from 0 (tostring_ptr_unsigned len val) = unat val mod 10 ^ len"
proof (induction len arbitrary: val)
  case (Suc len)
  have "unat val mod 10 ^ Suc len = 10 * (unat val div 10 mod 10 ^ len) + unat val mod 10"
    using mod_mult2_eq [of "unat val" 10 "10 ^ len"] by simp
  then show ?case using Suc.IH [of "val div 10"] last_digit [of val] by (simp add: unat_div_distrib)
qed simp

lemma tostring_ptr_unsigned_Suc: "\<exists>d. tostring_ptr_unsigned (Suc len) val = d # tostring_ptr_unsigned len val"
proof (induction len arbitrary: val)
  case (Suc len)
  from Suc.IH [of "val div 10"] obtain d where "tostring_ptr_unsigned (Suc len) (val div 10) = d # tostring_ptr_unsigned len (val div 10)" ..
  then show ?case by (subst tostring_ptr_unsigned.simps(2)) simp
qed simp

lemma or_1_bound: "unat val < 10 ^ (ilog10 (val OR 1) + 1)"
proof -
  have "bit (val OR 1) 0" by (simp add: bit_simps)
  then have "val OR 1 \<noteq> 0" by auto
  moreover have "unat (val OR 1) = unat val + of_bool (even (unat val))"
    using or_one_eq [of "unat val"] by (simp only: unsigned_or_eq unsigned_1)
  then have "unat val \<le> unat (val OR 1)" by simp
  ultimately have "unat val \<le> unat (val OR 1)" "val OR 1 \<noteq> 0" by simp_all
  then show ?thesis using ilog10_bounds(2) [of "val OR 1"] by linarith
qed

lemma tostring_unsigned_ok:
  "list_all isdigit (tostring_unsigned val) \<and> dec_from 0 (tostring_unsigned val) = unat val \<and> tostring_unsigned val \<noteq> []"
proof -
  have "length (tostring_unsigned val) \<noteq> 0" by (simp add: tostring_unsigned_def tostring_len_unsigned_def)
  then have "tostring_unsigned val \<noteq> []" by auto
  then show ?thesis
    using tostring_ptr_unsigned_ok [of "tostring_len_unsigned val" val] or_1_bound [of val]
    by (simp add: tostring_unsigned_def tostring_len_unsigned_def)
qed

lemma tostring_signed_ok: "dec_syntax (tostring_signed val) \<and> dec_value (tostring_signed val) = sint val"
proof (cases "sint val < 0")
  case True
  define n where "n = ilog10 (- val OR 1) + 1"
  obtain d where d: "tostring_ptr_unsigned (Suc n) (- val) = d # tostring_ptr_unsigned n (- val)"
    using tostring_ptr_unsigned_Suc by blast
  have "tostring_signed val = 0x2D # tostring_ptr_unsigned n (- val)"
    using True d by (simp add: tostring_signed_def tostring_ptr_signed_def tostring_len_signed_def abs64_def n_def
      del: tostring_ptr_unsigned.simps)
  moreover have "tostring_ptr_unsigned n (- val) \<noteq> []"
    using length_tostring_ptr_unsigned [of n "- val"] by (auto simp: n_def simp del: length_tostring_ptr_unsigned)
  moreover have "dec_from 0 (tostring_ptr_unsigned n (- val)) = unat (- val)"
    using tostring_ptr_unsigned_ok [of n "- val"] or_1_bound [of "- val"] by (simp add: n_def)
  moreover have "- int (unat (- val)) = sint val"
    using sint_word_of_nat(3,4) [of "unat (- val)"] unsigned_less [where 'a = nat and w = "- val"] True by simp
  ultimately show ?thesis
    using tostring_ptr_unsigned_ok [of n "- val"] by (simp add: dec_syntax_def dec_value_def)
next
  case False
  then have eq: "tostring_signed val = tostring_unsigned val"
    by (simp add: tostring_signed_def tostring_unsigned_def tostring_len_signed_def tostring_len_unsigned_def abs64_def
      tostring_ptr_signed_def)
  have "take 1 (tostring_unsigned val) \<noteq> [0x2D]"
    using tostring_unsigned_ok [of val] by (cases "tostring_unsigned val") (auto simp: isdigit_def)
  moreover have "int (unat val) = sint val"
    using sint_word_of_nat(1,2) [of "unat val"] unsigned_less [where 'a = nat and w = val] False by simp
  ultimately show ?thesis using tostring_unsigned_ok [of val] by (simp add: eq dec_syntax_def dec_value_def)
qed

lemma hexdigits_ok: "k < 16 \<Longrightarrow> is_hex_digit (hexdigits ! k) \<and> hex_digit (hexdigits ! k) = word_of_nat k"
proof -
  have "\<forall>k<16. is_hex_digit (hexdigits ! k) \<and> hex_digit (hexdigits ! k) = word_of_nat k"
    by (simp add: all_less_numeral hexdigits_def is_hex_digit_def hex_digit_def)
  then show "k < 16 \<Longrightarrow> ?thesis" by blast
qed

lemma hex_digit_nibble:
  fixes val :: "'a::len word"
  assumes "unat val < 16"
  shows "is_hex_digit (hexdigits ! unat val)" "hex_digit (hexdigits ! unat val) = word_of_nat (unat val)"
  using hexdigits_ok [OF assms] by simp_all

lemma push_nibble: "push_bit 4 (val div 16) + word_of_nat (unat (val mod 16)) = (val :: u64)"
proof -
  have "push_bit 4 (val div 16) = val div 16 * 16" by (simp add: push_bit_eq_mult)
  then show ?thesis by (simp add: div_mult_mod_eq)
qed

lemma nibble_less: "unat (val mod 16 :: u64) < 16"
  by (simp add: unat_mod_distrib)

lemma fromstring_hex_loop_hex: "fromstring_hex_loop (hex_loop val acc) 0 = fromstring_hex_loop acc val"
proof (induction val acc rule: hex_loop.induct)
  case (1 val acc)
  note step = hex_digit_nibble [OF nibble_less [of val]] push_nibble [of val]
  show ?case
  proof (cases "val div 16 = 0")
    case True
    then have "word_of_nat (unat (val mod 16)) = val" using step(3) by simp
    then show ?thesis using step True by (subst hex_loop.simps) (simp add: Let_def)
  next
    case False
    then show ?thesis using 1 step by (subst hex_loop.simps) (simp add: Let_def)
  qed
qed

lemma hex_loop_step: "hex_loop val acc =
    (if val div 16 \<noteq> 0 then hex_loop (val div 16) (hexdigits ! unat (val mod 16) # acc) else hexdigits ! unat (val mod 16) # acc)"
  by (subst hex_loop.simps) (simp only: Let_def)

declare hex_loop.simps [simp del]

lemma length_hex_loop: "unat val < 16 ^ Suc k \<Longrightarrow> length (hex_loop val acc) \<le> Suc k + length acc"
proof (induction k arbitrary: val acc)
  case 0
  then have "unat (val div 16) = 0" by (simp add: unat_div_distrib)
  then have "val div 16 = 0" by (simp only: unat_eq_0)
  then show ?case by (simp add: hex_loop_step [of val])
next
  case (Suc k)
  then have "unat (val div 16) < 16 ^ Suc k" by (simp add: unat_div_distrib less_mult_imp_div_less mult.commute)
  from Suc.IH [OF this, of "hexdigits ! unat (val mod 16) # acc"] show ?case by (subst hex_loop_step) simp
qed

lemma fromstring_hex_loop_zeros: "fromstring_hex_loop (dropWhile (\<lambda>c. c = 0x30) s) 0 = fromstring_hex_loop s 0"
  by (induction s) (simp_all add: is_hex_digit_def hex_digit_def)

lemma length_dropWhile_zeros: "length (dropWhile (\<lambda>c. c = 0x30) (replicate n 0x30 @ ds)) \<le> length ds"
  by (induction n) (simp_all add: length_dropWhile_le)

lemma hex_loop_nonempty: "hex_loop val acc \<noteq> []"
proof (induction val acc rule: hex_loop.induct)
  case (1 val acc)
  then show ?case by (subst hex_loop_step) (simp add: Let_def)
qed

lemma length_hex_digits: "length (hex_loop (val :: u64) []) \<le> 16"
  using length_hex_loop [of val 15 "[]"] unsigned_less [where 'a = nat and w = val] by simp

lemma tostringhex_writes: "tostringhex val mindigits = Some h \<Longrightarrow> h = replicate (mindigits - length (hex_loop val [])) 0x30 @ hex_loop val []"
  by (simp add: tostringhex_def Let_def split: if_splits)

lemma tostringhex_fits: "tostringhex val mindigits = None \<longleftrightarrow> 16 < mindigits"
  using length_hex_digits [of val] by (simp add: tostringhex_def Let_def) linarith

lemma tostringhex_ok: "tostringhex val mindigits = Some h \<Longrightarrow> fromstring_hex_real h = (True, val)"
proof -
  let ?ds = "hex_loop val []"
  assume h: "tostringhex val mindigits = Some h"
  have "length (dropWhile (\<lambda>c. c = 0x30) h) \<le> 16"
    using length_dropWhile_zeros [of "mindigits - length ?ds" ?ds] length_hex_digits [of val] tostringhex_writes [OF h] by simp
  moreover have "?ds \<noteq> []" by (rule hex_loop_nonempty)
  moreover have "fromstring_hex_loop h 0 = (True, val)"
  proof -
    have "fromstring_hex_loop (replicate n 0x30 @ ?ds) 0 = (True, val)" for n
      by (induction n) (simp_all add: is_hex_digit_def hex_digit_def fromstring_hex_loop_hex)
    then show ?thesis using tostringhex_writes [OF h] by simp
  qed
  ultimately show ?thesis
    using tostringhex_writes [OF h] by (auto simp: fromstring_hex_real_def Let_def fromstring_hex_loop_zeros)
qed

lemma slice_pairs:
  "i < length bs \<Longrightarrow> length (f (bs ! i)) = 2 \<Longrightarrow> (\<And>b. length (f b) = 2) \<Longrightarrow> slice (2 * i) 2 (concat (map f bs)) = f (bs ! i)"
proof (induction bs arbitrary: i)
  case (Cons b bs)
  then show ?case by (cases i) (simp_all add: slice_def)
qed simp

lemma fromstring_hex_pair:
  "fromstring_hex [hexdigits ! unat (drop_bit 4 b), hexdigits ! unat (b AND 15)] = (True, b :: byte)"
proof -
  have high: "unat (drop_bit 4 b) = unat b div 16" by (simp add: drop_bit_eq_div unat_div_distrib)
  have "b AND 15 = take_bit 4 b" by (simp add: take_bit_eq_mask mask_numeral)
  then have low: "unat (b AND 15) = unat b mod 16" by (simp add: take_bit_eq_mod unat_mod_distrib)
  have less: "unat b div 16 < 16" "unat b mod 16 < 16"
    using unsigned_less [where 'a = nat and w = b] by (simp_all add: less_mult_imp_div_less)
  have "push_bit 4 (word_of_nat (unat b div 16)) + word_of_nat (unat b mod 16) = (word_of_nat (unat b div 16 * 16 + unat b mod 16) :: u64)"
    unfolding of_nat_add of_nat_mult by (simp add: push_bit_eq_mult)
  then have v: "push_bit 4 (word_of_nat (unat b div 16)) + word_of_nat (unat b mod 16) = (ucast b :: u64)"
    by (simp only: div_mult_mod_eq unsigned_of_nat of_nat_unat)
  have "\<not> 16 < length (dropWhile (\<lambda>c. c = 0x30) [c, d])" for c d :: byte
    using length_dropWhile_le [of "\<lambda>c. c = 0x30" "[c, d]"] by simp
  then have "fromstring_hex_real [hexdigits ! unat (drop_bit 4 b), hexdigits ! unat (b AND 15)] = (True, ucast b)"
    using hexdigits_ok [OF less(1)] hexdigits_ok [OF less(2)] v
    by (simp add: fromstring_hex_real_def Let_def fromstring_hex_loop_zeros high low del: dropWhile.simps)
  moreover have "ucast (ucast b :: u64) = b" by (rule bit_word_eqI) (simp add: bit_simps)
  ultimately show ?thesis by (simp add: fromstring_hex_def Let_def)
qed

lemma decimal_roundtrip:
  "fromstring_uint (tostring_unsigned n) = (True, n)" "fromstring_int (tostring_signed m) = (True, m)"
proof -
  have "fst (fromstring_uint (tostring_unsigned n) :: bool \<times> u64)"
    using tostring_unsigned_ok [of n] unsigned_less [where 'a = nat and w = n] by (simp add: fromstring_uint_ok)
  moreover from this have "snd (fromstring_uint (tostring_unsigned n)) = n"
    using tostring_unsigned_ok [of n] fromstring_uint_ok(2) [where 'a = 64] by (simp add: word_unat_eq_iff)
  moreover have "fst (fromstring_int (tostring_signed m) :: bool \<times> u64)"
    using tostring_signed_ok [of m] sint_greater_eq [of m] sint_less [of m] by (simp add: fromstring_int_ok)
  moreover from this have "sint (snd (fromstring_int (tostring_signed m)) :: u64) = sint m"
    using tostring_signed_ok [of m] fromstring_int_ok(2) [where 'a = 64] by simp
  then have "snd (fromstring_int (tostring_signed m)) = m" by (rule word_eq_iff_signed [THEN iffD2])
  ultimately show "fromstring_uint (tostring_unsigned n) = (True, n)" "fromstring_int (tostring_signed m) = (True, m)"
    by (simp_all add: prod_eq_iff)
qed

text \<open>
  C28. Printing an integer and parsing the text gives the integer back: unsigned and signed decimal
  (the smallest \<^verbatim>\<open>long long\<close> under wrapping arithmetic), and hexadecimal, padded to any width up to the 16
  digits that fit the buffer (every call with a larger width, and no other, writes outside it), and byte sequences as
  pairs of hexadecimal digits.
\<close>

theorem integer_text_roundtrip:
  "fromstring_uint (tostring_unsigned n) = (True, n) \<and> fromstring_int (tostring_signed m) = (True, m) \<and>
   (case tostringhex n mindigits of
      None \<Rightarrow> 16 < mindigits
    | Some h \<Rightarrow> mindigits \<le> 16 \<and> mindigits \<le> length h \<and> fromstring_hex h = (True, n)) \<and>
   fromstringhex_array (tostringhex_bytes bs) old = (True, bs)"
proof -
  have "case tostringhex n mindigits of
      None \<Rightarrow> 16 < mindigits
    | Some h \<Rightarrow> mindigits \<le> 16 \<and> mindigits \<le> length h \<and> fromstring_hex h = (True, n)"
    using tostringhex_fits [of n mindigits] tostringhex_ok [of n mindigits] tostringhex_writes [of n mindigits]
    by (cases "tostringhex n mindigits") (auto simp: fromstring_hex_def)
  moreover have "fromstringhex_array (tostringhex_bytes bs) old = (True, bs)"
  proof -
    let ?f = "\<lambda>b. [hexdigits ! unat (drop_bit 4 b), hexdigits ! unat (b AND 15)]"
    have len: "length (tostringhex_bytes bs) = length bs * 2"
      by (induction bs) (simp_all add: tostringhex_bytes_def)
    have "fromstring_hex (slice (2 * i) 2 (tostringhex_bytes bs)) = (True, bs ! i)" if "i < length bs" for i
      using that slice_pairs [of i bs ?f] fromstring_hex_pair [of "bs ! i"] by (simp add: tostringhex_bytes_def)
    then have "map (\<lambda>i. fromstring_hex (slice (2 * i) 2 (tostringhex_bytes bs))) [0..<length bs] = map (\<lambda>b. (True, b)) bs"
      by (intro nth_equalityI) simp_all
    then have "fromstringhex_view (tostringhex_bytes bs) val = (True, bs)" if "length val = length bs" for val
      using that by (simp add: fromstringhex_view_def len Let_def list_all_iff del: map_map) (simp add: comp_def)
    then show ?thesis by (simp add: fromstringhex_array_def len)
  qed
  ultimately show ?thesis by (simp add: decimal_roundtrip)
qed

end
