(* ===== verification/Base64.thy ===== *)
theory Base64
  imports Endian Ctype
begin

text \<open>
  \<^verbatim>\<open>arlib/base64enc.cpp\<close> and \<^verbatim>\<open>arlib/base64dec.cpp\<close>. Pointers into the text are the rest of the text;
  \<open>host\<close> is the byte order of the machine. \<^verbatim>\<open>base64_dec_raw\<close> returns the bytes it wrote up to the
  returned length; its \<^verbatim>\<open>return 0\<close> on damaged input is \<open>[]\<close>, which is also its answer for an empty text.
\<close>

subsection \<open>Encoding\<close>

definition encode_table :: bytes where
  "encode_table =
     [0x41, 0x42, 0x43, 0x44, 0x45, 0x46, 0x47, 0x48, 0x49, 0x4A, 0x4B, 0x4C, 0x4D, 0x4E, 0x4F, 0x50, 0x51, 0x52, 0x53, 0x54,
      0x55, 0x56, 0x57, 0x58, 0x59, 0x5A,
      0x61, 0x62, 0x63, 0x64, 0x65, 0x66, 0x67, 0x68, 0x69, 0x6A, 0x6B, 0x6C, 0x6D, 0x6E, 0x6F, 0x70, 0x71, 0x72, 0x73, 0x74,
      0x75, 0x76, 0x77, 0x78, 0x79, 0x7A,
      0x30, 0x31, 0x32, 0x33, 0x34, 0x35, 0x36, 0x37, 0x38, 0x39, 0x2B, 0x2F]"

definition base64_dec_len :: "nat \<Rightarrow> nat" where "base64_dec_len len = (len + 3) div 4 * 3"
definition base64_enc_len :: "nat \<Rightarrow> nat" where "base64_enc_len len = (len + 2) div 3 * 4"

definition put_three :: "u32 \<Rightarrow> bytes" where
  "put_three three =
     [encode_table ! unat (drop_bit 18 three), encode_table ! unat (drop_bit 12 three AND 63),
      encode_table ! unat (drop_bit 6 three AND 63), encode_table ! unat (drop_bit 0 three AND 63)]"

definition enc_tail :: "bytes \<Rightarrow> bytes" where
  "enc_tail inp =
     (let three = push_bit 16 (ucast (inp ! 0));
          three = (if 1 < length inp then three OR push_bit 8 (ucast (inp ! 1)) else three);
          three = (if 2 < length inp then three OR push_bit 0 (ucast (inp ! 2)) else three);
          outp = put_three three;
          outp = (if length inp \<le> 1 then outp[2 := 0x3D] else outp);
          outp = (if length inp \<le> 2 then outp[3 := 0x3D] else outp)
      in outp)"

function base64_enc_loop :: "bool \<Rightarrow> bytes \<Rightarrow> bytes" where
  "base64_enc_loop host inp =
     (if 4 \<le> length inp
      then put_three (drop_bit 8 (readu_be32 host inp)) @ base64_enc_loop host (drop 3 inp)
      else enc_tail inp)"
  by pat_completeness auto
termination by (relation "measure (\<lambda>(host, inp). length inp)") auto

definition base64_enc :: "bool \<Rightarrow> bytes \<Rightarrow> bytes" where
  "base64_enc host inp = (if inp = [] then [] else base64_enc_loop host inp)"

subsection \<open>Decoding\<close>

definition INV :: byte where "INV = 0x80"
definition PA :: byte where "PA = 0x81"
definition SP :: byte where "SP = 0xFF"

definition decode_table :: bytes where
  "decode_table =
     [INV, INV, INV, INV, INV, INV, INV, INV, INV, SP, SP, INV, INV, SP, INV, INV] @
     [INV, INV, INV, INV, INV, INV, INV, INV, INV, INV, INV, INV, INV, INV, INV, INV] @
     [SP, INV, INV, INV, INV, INV, INV, INV, INV, INV, INV, 62, INV, 62, INV, 63] @
     [52, 53, 54, 55, 56, 57, 58, 59, 60, 61, INV, INV, INV, PA, INV, INV] @
     [INV, 0, 1, 2, 3, 4, 5, 6, 7, 8, 9, 10, 11, 12, 13, 14] @
     [15, 16, 17, 18, 19, 20, 21, 22, 23, 24, 25, INV, INV, INV, INV, 63] @
     [INV, 26, 27, 28, 29, 30, 31, 32, 33, 34, 35, 36, 37, 38, 39, 40] @
     [41, 42, 43, 44, 45, 46, 47, 48, 49, 50, 51, INV, INV, INV, INV, INV]"

definition decode_byte :: "byte \<Rightarrow> byte" where "decode_byte c = decode_table ! unat c"

type_synonym quad = "byte \<times> byte \<times> byte \<times> byte"

definition quad_or :: "quad \<Rightarrow> byte" where
  "quad_or q = (case q of (c1, c2, c3, c4) \<Rightarrow> c1 OR c2 OR c3 OR c4)"

text \<open>The three \<^verbatim>\<open>if\<close>s that move the first whitespace of the quad to its end.\<close>

definition shift_space :: "quad \<Rightarrow> byte \<times> byte \<times> byte" where
  "shift_space q =
     (case q of (c1, c2, c3, c4) \<Rightarrow>
        let (c1, c2) = (if c1 = SP then (c2, SP) else (c1, c2));
            (c2, c3) = (if c2 = SP then (c3, SP) else (c2, c3));
            c3 = (if c3 = SP then c4 else c3)
        in (c1, c2, c3))"

text \<open>The \<^verbatim>\<open>space_again\<close> loop: \<open>None\<close> is \<^verbatim>\<open>return 0\<close>.\<close>

fun quad_skip :: "quad \<Rightarrow> bytes \<Rightarrow> (quad \<times> bytes) option" where
  "quad_skip q inp =
     (if quad_or q = SP then
        (case inp of
           [] \<Rightarrow> None
         | c # inp' \<Rightarrow>
             if c AND 0x80 \<noteq> 0 then None
             else let (c1, c2, c3) = shift_space q in quad_skip (c1, c2, c3, decode_byte c) inp')
      else Some (q, inp))"

text \<open>Padding: the quad with zeros for the padding, and how many of its bytes are real.\<close>

definition finish_quad :: "quad \<Rightarrow> (quad \<times> nat) option" where
  "finish_quad q =
     (case q of (c1, c2, c3, c4) \<Rightarrow>
        if c4 = PA then
          let (c3', n) = (if c3 = PA then (0, 1) else (c3, 2)) in
          if c3 = PA \<and> c2 AND 15 \<noteq> 0 then None
          else if c3' AND 3 \<noteq> 0 then None
          else if 0x80 \<le> quad_or (c1, c2, c3', 0) then None
          else Some ((c1, c2, c3', 0), n)
        else if 0x80 \<le> quad_or q then None
        else Some (q, 3))"

definition quad_bytes :: "quad \<Rightarrow> bytes" where
  "quad_bytes q =
     (case q of (c1, c2, c3, c4) \<Rightarrow>
        let outraw = (push_bit 18 (ucast c1) OR push_bit 12 (ucast c2) OR push_bit 6 (ucast c3) OR push_bit 0 (ucast c4) :: u32)
        in [ucast (drop_bit 16 outraw), ucast (drop_bit 8 outraw), ucast (drop_bit 0 outraw)])"

definition only_spaces :: "bytes \<Rightarrow> bool" where
  "only_spaces inp = (dropWhile (\<lambda>c. c < 0x80 \<and> decode_byte c = SP) inp = [])"

lemma quad_skip_length: "quad_skip q inp = Some (q', rest) \<Longrightarrow> length rest \<le> length inp"
proof (induction q inp rule: quad_skip.induct)
  case (1 q inp)
  then show ?case by (cases inp) (fastforce split: if_splits prod.splits)+
qed

declare quad_skip.simps [simp del]

function base64_dec_loop :: "bytes \<Rightarrow> bytes \<Rightarrow> bytes" where
  "base64_dec_loop inp out =
     (case inp of
        c1 # c2 # c3 # c4 # inp' \<Rightarrow>
          if 0x80 \<le> c1 OR c2 OR c3 OR c4 then []
          else
            (case quad_skip (decode_byte c1, decode_byte c2, decode_byte c3, decode_byte c4) inp' of
               None \<Rightarrow> []
             | Some (q, inp'') \<Rightarrow>
                 (case finish_quad q of
                    None \<Rightarrow> []
                  | Some (q', n) \<Rightarrow>
                      let out = out @ take n (quad_bytes q') in
                      if n \<noteq> 3 then (if only_spaces inp'' then out else [])
                      else base64_dec_loop inp'' out))
      | _ \<Rightarrow> if only_spaces inp then out else [])"
  by pat_completeness auto
termination
  by (relation "measure (\<lambda>(inp, out). length inp)") (auto dest!: quad_skip_length)

definition base64_dec :: "bytes \<Rightarrow> bytes" where
  "base64_dec inp = base64_dec_loop inp []"


declare base64_dec_loop.simps [simp del] base64_enc_loop.simps [simp del]

subsection \<open>The tables\<close>

lemma decode_encode: "k < 64 \<Longrightarrow> encode_table ! k < 0x80 \<and> decode_byte (encode_table ! k) = word_of_nat k"
proof -
  have "list_all (\<lambda>k. encode_table ! k < 0x80 \<and> decode_byte (encode_table ! k) = word_of_nat k) [0..<64]"
    by code_simp
  then show "k < 64 \<Longrightarrow> ?thesis" by (simp add: list_all_iff)
qed

lemma decode_pad: "decode_byte 0x3D = PA"
  by code_simp

definition sextet :: "byte \<Rightarrow> bool" where "sextet c \<longleftrightarrow> c < 64"

lemma sextet_bits: "sextet c \<longleftrightarrow> \<not> bit c 6 \<and> \<not> bit c 7"
proof -
  have "list_all (\<lambda>c :: byte. c < 64 \<longleftrightarrow> \<not> bit c 6 \<and> \<not> bit c 7) (map word_of_nat [0..<256])" by code_simp
  then have "c < 64 \<longleftrightarrow> \<not> bit c 6 \<and> \<not> bit c 7" by (rule bytes_between [OF _ le0 unat_byte])
  then show ?thesis by (simp add: sextet_def)
qed

lemma sextet_or: "sextet a \<Longrightarrow> sextet b \<Longrightarrow> sextet (a OR b)"
  by (simp add: sextet_bits bit_simps)

lemma sextet_small: "sextet c \<Longrightarrow> c \<noteq> SP \<and> c \<noteq> PA \<and> \<not> 0x80 \<le> c"
  by (auto simp: sextet_def SP_def PA_def word_less_nat_alt word_le_nat_alt)


lemma no_space: "\<not> bit c1 6 \<Longrightarrow> \<not> bit c2 6 \<Longrightarrow> \<not> bit c3 6 \<Longrightarrow> \<not> bit c4 6 \<Longrightarrow>
  quad_skip (c1, c2, c3, c4) inp = Some ((c1, c2, c3, c4), inp)"
proof -
  assume "\<not> bit c1 6" "\<not> bit c2 6" "\<not> bit c3 6" "\<not> bit c4 6"
  then have "\<not> bit (quad_or (c1, c2, c3, c4)) 6" by (simp add: quad_or_def bit_simps)
  moreover have "bit SP 6" by (simp add: SP_def)
  ultimately have "quad_or (c1, c2, c3, c4) \<noteq> SP" by auto
  then show ?thesis by (subst quad_skip.simps) simp
qed

lemma ascii_or: "c1 < 0x80 \<Longrightarrow> c2 < 0x80 \<Longrightarrow> c3 < 0x80 \<Longrightarrow> c4 < 0x80 \<Longrightarrow> \<not> 0x80 \<le> (c1 OR c2 OR c3 OR c4 :: byte)"
proof -
  have "list_all (\<lambda>c :: byte. c < 0x80 \<longleftrightarrow> \<not> bit c 7) (map word_of_nat [0..<256])" by code_simp
  then have high: "c < 0x80 \<longleftrightarrow> \<not> bit c 7" for c :: byte by (rule bytes_between [OF _ le0 unat_byte])
  show "c1 < 0x80 \<Longrightarrow> c2 < 0x80 \<Longrightarrow> c3 < 0x80 \<Longrightarrow> c4 < 0x80 \<Longrightarrow> ?thesis"
    by (simp add: not_le high bit_simps)
qed

lemma finish_sextets:
  assumes "sextet c1" "sextet c2" "sextet c3" "sextet c4"
  shows "finish_quad (c1, c2, c3, c4) = Some ((c1, c2, c3, c4), 3)"
proof -
  have "sextet (quad_or (c1, c2, c3, c4))" using assms by (simp add: quad_or_def sextet_or)
  then show ?thesis using assms by (simp add: finish_quad_def sextet_small)
qed

definition three_bytes :: "byte \<Rightarrow> byte \<Rightarrow> byte \<Rightarrow> u32" where
  "three_bytes a b c = push_bit 16 (ucast a) OR push_bit 8 (ucast b) OR ucast c"

lemma three_bytes_bit: "bit (three_bytes a b c) n \<longleftrightarrow> n < 24 \<and>
    (if n < 8 then bit c n else if n < 16 then bit b (n - 8) else bit a (n - 16))"
  by (auto simp: three_bytes_def bit_simps dest: bit_imp_le_length)

definition sextets :: "u32 \<Rightarrow> quad" where
  "sextets t = (ucast (drop_bit 18 t), ucast (drop_bit 12 t AND 63), ucast (drop_bit 6 t AND 63), ucast (drop_bit 0 t AND 63))"

lemma quad_bytes_sextets: "quad_bytes (sextets (three_bytes a b c)) = [a, b, c]"
proof -
  let ?t = "three_bytes a b c"
  define raw where "raw = (case sextets ?t of (c1, c2, c3, c4) \<Rightarrow>
    push_bit 18 (ucast c1) OR push_bit 12 (ucast c2) OR push_bit 6 (ucast c3) OR (push_bit 0 (ucast c4) :: u32))"
  have "\<forall>n<32. bit raw n = bit ?t n"
    unfolding raw_def sextets_def by (simp add: all_less_numeral bit_simps three_bytes_bit flip: numeral_2_eq_2 numeral_3_eq_3)
  then have raw: "raw = ?t" by (intro bit_word_eqI) simp
  have "ucast (drop_bit 16 ?t) = a" "ucast (drop_bit 8 ?t) = b" "ucast ?t = c"
    by (rule bit_word_eqI; simp add: bit_simps three_bytes_bit)+
  moreover have "quad_bytes (sextets ?t) = [ucast (drop_bit 16 raw), ucast (drop_bit 8 raw), ucast (drop_bit 0 raw)]"
    by (simp only: quad_bytes_def raw_def sextets_def Let_def prod.case)
  ultimately show ?thesis by (simp add: raw)
qed


lemma unat_and_63: "unat (t AND 63 :: u32) < 64"
proof -
  have "t AND 63 = take_bit 6 t" by (simp add: take_bit_eq_mask mask_numeral)
  then show ?thesis by (simp add: take_bit_eq_mod unat_mod_distrib)
qed

lemma top_sextet: "unat (drop_bit 18 (three_bytes a b c)) < 64"
proof -
  have "\<forall>n<32. bit (drop_bit 18 (three_bytes a b c)) n = bit (drop_bit 18 (three_bytes a b c) AND 63) n"
    by (simp add: all_less_numeral bit_simps three_bytes_bit)
  then have "drop_bit 18 (three_bytes a b c) = drop_bit 18 (three_bytes a b c) AND 63"
    by (intro bit_word_eqI) simp
  then show ?thesis using unat_and_63 by metis
qed

lemma sextet_ucast: "unat (t :: u32) < 64 \<Longrightarrow> sextet (ucast t)"
  by (simp add: sextet_def word_less_nat_alt unsigned_ucast_eq unsigned_take_bit_eq take_bit_nat_eq_self)

lemma put_three_decode:
  "\<exists>e1 e2 e3 e4. put_three (three_bytes a b c) = [e1, e2, e3, e4] \<and> e1 < 0x80 \<and> e2 < 0x80 \<and> e3 < 0x80 \<and> e4 < 0x80 \<and>
    (decode_byte e1, decode_byte e2, decode_byte e3, decode_byte e4) = sextets (three_bytes a b c)"
  using decode_encode [OF top_sextet [of a b c]] decode_encode [OF unat_and_63]
  by (simp add: put_three_def sextets_def)

lemma dec_step:
  "base64_dec_loop (put_three (three_bytes a b c) @ rest) out = base64_dec_loop rest (out @ [a, b, c])"
proof -
  let ?t = "three_bytes a b c"
  obtain e1 e2 e3 e4 where e: "put_three ?t = [e1, e2, e3, e4]" "e1 < 0x80" "e2 < 0x80" "e3 < 0x80" "e4 < 0x80"
    "(decode_byte e1, decode_byte e2, decode_byte e3, decode_byte e4) = sextets ?t"
    using put_three_decode [of a b c] by blast
  obtain c1 c2 c3 c4 where c: "sextets ?t = (c1, c2, c3, c4)" by (cases "sextets ?t")
  then have s: "sextet c1" "sextet c2" "sextet c3" "sextet c4"
    using sextet_ucast [OF top_sextet [of a b c]] sextet_ucast [OF unat_and_63] by (auto simp: sextets_def)
  then have "quad_skip (c1, c2, c3, c4) rest = Some ((c1, c2, c3, c4), rest)"
    by (intro no_space) (simp_all add: sextet_bits)
  then show ?thesis
    using e(6) c ascii_or [OF e(2-5)] finish_sextets [OF s] quad_bytes_sextets [of a b c]
    by (subst base64_dec_loop.simps) (simp add: e(1))
qed

lemma dec_end: "only_spaces inp \<Longrightarrow> length inp < 4 \<Longrightarrow> base64_dec_loop inp out = out"
  by (subst base64_dec_loop.simps) (auto split: list.splits)

subsection \<open>Encoding in groups of three\<close>

lemma enc_loop_step:
  assumes "4 \<le> length inp"
  shows "base64_enc_loop host inp = put_three (three_bytes (inp ! 0) (inp ! 1) (inp ! 2)) @ base64_enc_loop host (drop 3 inp)"
proof -
  obtain a b c d rest where inp: "inp = a # b # c # d # rest"
    using assms by (auto simp: numeral_eq_Suc Suc_le_length_iff)
  have "\<forall>n<32. bit (drop_bit 8 (be_word [a, b, c, d] :: u32)) n = bit (three_bytes a b c) n"
    by (simp add: all_less_numeral bit_simps three_bytes_bit bit_be_word)
  then have "drop_bit 8 (be_word [a, b, c, d]) = three_bytes a b c" by (intro bit_word_eqI) simp
  moreover have "readu_be32 host inp = be_word [a, b, c, d]" using assms by (simp add: readu_words inp)
  ultimately have "drop_bit 8 (readu_be32 host inp) = three_bytes a b c" by simp
  then show ?thesis using assms by (subst base64_enc_loop.simps) (simp add: inp)
qed


lemma enc_tail_eq:
  "enc_tail [a] = (put_three (three_bytes a 0 0))[2 := 0x3D, 3 := 0x3D]"
  "enc_tail [a, b] = (put_three (three_bytes a b 0))[3 := 0x3D]"
  "enc_tail [a, b, c] = put_three (three_bytes a b c)"
  by (simp_all add: enc_tail_def three_bytes_def Let_def or.assoc)

lemma low_sextets:
  "case sextets (three_bytes a b 0) of (c1, c2, c3, c4) \<Rightarrow> c4 = 0 \<and> c3 AND 3 = 0"
  "case sextets (three_bytes a 0 0) of (c1, c2, c3, c4) \<Rightarrow> c4 = 0 \<and> c3 = 0 \<and> c2 AND 15 = 0"
proof -
  have "\<forall>n<8. bit (ucast (drop_bit 0 (three_bytes a b 0) AND 63) :: byte) n = bit (0 :: byte) n"
    "\<forall>n<8. bit (ucast (drop_bit 6 (three_bytes a b 0) AND 63) AND 3 :: byte) n = bit (0 :: byte) n"
    "\<forall>n<8. bit (ucast (drop_bit 6 (three_bytes a 0 0) AND 63) :: byte) n = bit (0 :: byte) n"
    "\<forall>n<8. bit (ucast (drop_bit 12 (three_bytes a 0 0) AND 63) AND 15 :: byte) n = bit (0 :: byte) n" for b
    by (simp_all add: all_less_numeral bit_simps three_bytes_bit)
  then have "ucast (drop_bit 0 (three_bytes a b 0) AND 63) = (0 :: byte)"
    "ucast (drop_bit 6 (three_bytes a b 0) AND 63) AND 3 = (0 :: byte)"
    "ucast (drop_bit 6 (three_bytes a 0 0) AND 63) = (0 :: byte)"
    "ucast (drop_bit 12 (three_bytes a 0 0) AND 63) AND 15 = (0 :: byte)" for b
    by (intro bit_word_eqI; simp)+
  then show "case sextets (three_bytes a b 0) of (c1, c2, c3, c4) \<Rightarrow> c4 = 0 \<and> c3 AND 3 = 0"
    "case sextets (three_bytes a 0 0) of (c1, c2, c3, c4) \<Rightarrow> c4 = 0 \<and> c3 = 0 \<and> c2 AND 15 = 0"
    by (simp_all only: sextets_def prod.case simp_thms)
qed

lemma dec_padded:
  "base64_dec_loop (enc_tail [a, b] @ rest) out = (if only_spaces rest then out @ [a, b] else [])"
  "base64_dec_loop (enc_tail [a] @ rest) out = (if only_spaces rest then out @ [a] else [])"
proof -
  have pad: "\<not> bit PA 6" "PA = 0x81" "(0x3D :: byte) < 0x80" by (simp_all add: PA_def)
  {
    fix b
    let ?t = "three_bytes a b 0"
    obtain e1 e2 e3 e4 where e: "put_three ?t = [e1, e2, e3, e4]" "e1 < 0x80" "e2 < 0x80" "e3 < 0x80" "e4 < 0x80"
      "(decode_byte e1, decode_byte e2, decode_byte e3, decode_byte e4) = sextets ?t"
      using put_three_decode [of a b 0] by blast
    obtain c1 c2 c3 c4 where c: "sextets ?t = (c1, c2, c3, c4)" by (cases "sextets ?t")
    then have s: "sextet c1" "sextet c2" "sextet c3" "sextet c4"
      using sextet_ucast [OF top_sextet [of a b 0]] sextet_ucast [OF unat_and_63] by (auto simp: sextets_def)
    have low: "c4 = 0" "c3 AND 3 = 0" "b = 0 \<Longrightarrow> c3 = 0 \<and> c2 AND 15 = 0"
      using low_sextets(1) [of a b] low_sextets(2) [of a] c by auto
    have q: "quad_bytes (c1, c2, c3, 0) = [a, b, 0]" using quad_bytes_sextets [of a b 0] c low(1) by simp
    have o: "\<not> 0x80 \<le> quad_or (c1, c2, c3, 0)"
      using s sextet_small [of "quad_or (c1, c2, c3, c4)"] low(1) by (simp add: quad_or_def sextet_or)
    have two: "finish_quad (c1, c2, c3, PA) = Some ((c1, c2, c3, 0), 2)"
      using o low(2) sextet_small [OF s(3)] by (simp add: finish_quad_def)
    have one: "finish_quad (c1, c2, PA, PA) = Some ((c1, c2, 0, 0), 1)" if "b = 0"
      using o low(3) [OF that] by (simp add: finish_quad_def)
    have b6: "\<not> bit c1 6" "\<not> bit c2 6" "\<not> bit c3 6" using s by (simp_all add: sextet_bits)
    have dec: "decode_byte e1 = c1" "decode_byte e2 = c2" "decode_byte e3 = c3" using e(6) c by simp_all
    have "base64_dec_loop ([e1, e2, e3, 0x3D] @ rest) out = (if only_spaces rest then out @ [a, b] else [])"
      using ascii_or [OF e(2,3,4) pad(3)] two q
      by (subst base64_dec_loop.simps) (simp add: dec decode_pad no_space [OF b6 pad(1)])
    moreover have "base64_dec_loop ([e1, e2, 0x3D, 0x3D] @ rest) out = (if only_spaces rest then out @ [a] else [])" if "b = 0"
      using ascii_or [OF e(2,3) pad(3) pad(3)] one [OF that] low(3) [OF that] q
      by (subst base64_dec_loop.simps) (simp add: dec decode_pad no_space [OF b6(1,2) pad(1) pad(1)])
    ultimately have "base64_dec_loop ((put_three ?t)[3 := 0x3D] @ rest) out = (if only_spaces rest then out @ [a, b] else [])"
      "b = 0 \<Longrightarrow> base64_dec_loop ((put_three ?t)[2 := 0x3D, 3 := 0x3D] @ rest) out = (if only_spaces rest then out @ [a] else [])"
      unfolding e(1) by simp_all
  }
  then show "base64_dec_loop (enc_tail [a, b] @ rest) out = (if only_spaces rest then out @ [a, b] else [])"
    "base64_dec_loop (enc_tail [a] @ rest) out = (if only_spaces rest then out @ [a] else [])"
    by (simp_all add: enc_tail_eq)
qed

lemma dec_enc_loop:
  "inp \<noteq> [] \<Longrightarrow> base64_dec_loop (base64_enc_loop host inp @ rest) out =
    (if length inp mod 3 = 0 then base64_dec_loop rest (out @ inp)
     else if only_spaces rest then out @ inp else [])"
proof (induction "length inp" arbitrary: inp out rule: less_induct)
  case less
  show ?case
  proof (cases "4 \<le> length inp")
    case True
    then have split: "inp = [inp ! 0, inp ! 1, inp ! 2] @ drop 3 inp"
      by (auto simp: numeral_eq_Suc Suc_le_length_iff)
    have "length (drop 3 inp) mod 3 = length inp mod 3"
      using True mod_add_self2 [of "length (drop 3 inp)" 3] by simp
    then show ?thesis
      using less.hyps [of "drop 3 inp" "out @ [inp ! 0, inp ! 1, inp ! 2]"] True split
      by (simp add: enc_loop_step dec_step)
  next
    case False
    then consider a where "inp = [a]" | a b where "inp = [a, b]" | a b c where "inp = [a, b, c]"
      using less.prems by (auto simp: numeral_eq_Suc not_le less_Suc_eq length_Suc_conv)
    then show ?thesis
      by cases (subst base64_enc_loop.simps; simp add: dec_padded; simp add: enc_tail_eq dec_step)+
  qed
qed


lemma length_put_three [simp]: "length (put_three t) = 4"
  by (simp add: put_three_def)

lemma length_base64_enc: "length (base64_enc host inp) = base64_enc_len (length inp)"
proof -
  have "length (base64_enc_loop host inp) = base64_enc_len (length inp)" if "inp \<noteq> []"
    using that
  proof (induction "length inp" arbitrary: inp rule: less_induct)
    case less
    show ?case
    proof (cases "4 \<le> length inp")
      case True
      then obtain n where n: "length inp = n + 4" by (metis add.commute le_add_diff_inverse)
      then have "length (base64_enc_loop host (drop 3 inp)) = base64_enc_len (n + 1)" using less.hyps [of "drop 3 inp"] by fastforce
      then show ?thesis
        using True n div_add_self2 [of 3 "3 + n"] by (subst enc_loop_step) (simp_all add: base64_enc_len_def)
    next
      case False
      then consider "length inp = 1" | "length inp = 2" | "length inp = 3" 
      proof -
        have "length inp \<noteq> 0" using less.prems by simp
        then have "length inp = 1 \<or> length inp = 2 \<or> length inp = 3" using False by linarith
        then show thesis using that by blast
      qed
      then show ?thesis by cases (subst base64_enc_loop.simps, simp add: base64_enc_len_def enc_tail_def Let_def)+
    qed
  qed
  then show ?thesis by (simp add: base64_enc_def base64_enc_len_def)
qed

subsection \<open>Whitespace in the text\<close>

definition whitespace :: "byte \<Rightarrow> bool" where "whitespace c \<longleftrightarrow> c < 0x80 \<and> decode_byte c = SP"

definition printed :: "byte \<Rightarrow> bool" where "printed c \<longleftrightarrow> c < 0x80 \<and> \<not> bit (decode_byte c) 6"

definition squeeze :: "bytes \<Rightarrow> bytes" where "squeeze = filter (\<lambda>c. \<not> whitespace c)"

definition trailing :: "bytes \<Rightarrow> bytes" where "trailing tx = rev (takeWhile whitespace (rev tx))"

lemma whitespace_not_printed: "whitespace c \<Longrightarrow> \<not> printed c"
  by (simp add: whitespace_def printed_def SP_def)

lemma only_spaces_iff: "only_spaces tx \<longleftrightarrow> squeeze tx = []"
  by (induction tx) (auto simp: only_spaces_def squeeze_def whitespace_def)

lemma squeeze_trailing [simp]: "squeeze (trailing tx) = []"
  by (auto simp: squeeze_def trailing_def filter_empty_conv dest: set_takeWhileD)

lemma squeeze_append: "squeeze (u @ v) = squeeze u @ squeeze v"
  by (simp add: squeeze_def)

lemma squeeze_squeeze [simp]: "squeeze (squeeze tx) = squeeze tx"
  by (simp add: squeeze_def)

lemma trailing_blank: "squeeze tx = [] \<Longrightarrow> trailing tx = tx"
  by (auto simp: squeeze_def trailing_def filter_empty_conv takeWhile_eq_all_conv rev_swap)

lemma trailing_append: "u = [] \<or> \<not> whitespace (last u) \<Longrightarrow> trailing (u @ v) = trailing v"
proof (cases u rule: rev_cases)
  case (snoc u' c)
  assume "u = [] \<or> \<not> whitespace (last u)"
  then have c: "\<not> whitespace c" using snoc by simp
  have "takeWhile whitespace (rev v @ c # rev u') = takeWhile whitespace (rev v)"
    by (cases "\<forall>x\<in>set v. whitespace x") (simp_all add: takeWhile_append c takeWhile_eq_all_conv [THEN iffD2])
  then show ?thesis using snoc by (simp add: trailing_def)
qed simp

lemma ascii_mask: "c < 0x80 \<Longrightarrow> c AND 0x80 = (0 :: byte)"
proof -
  have "list_all (\<lambda>c :: byte. c < 0x80 \<longrightarrow> c AND 0x80 = 0) (map word_of_nat [0..<256])" by code_simp
  then have "c < 0x80 \<longrightarrow> c AND 0x80 = 0" for c :: byte by (rule bytes_between [OF _ le0 unat_byte])
  then show "c < 0x80 \<Longrightarrow> ?thesis" by simp
qed

lemma or_SP: "SP OR c = SP" "c OR SP = SP"
proof -
  have "list_all (\<lambda>c :: byte. SP OR c = SP \<and> c OR SP = SP) (map word_of_nat [0..<256])" by code_simp
  then have "SP OR c = SP \<and> c OR SP = SP" by (rule bytes_between [OF _ le0 unat_byte])
  then show "SP OR c = SP" "c OR SP = SP" by simp_all
qed

lemma shift_space_first:
  "shift_space (c1, c2, c3, c4) =
     (if c1 = SP then (c2, c3, c4) else if c2 = SP then (c1, c3, c4) else if c3 = SP then (c1, c2, c4) else (c1, c2, c3))"
  by (simp add: shift_space_def)

lemma no_space_printed:
  "printed c1 \<Longrightarrow> printed c2 \<Longrightarrow> printed c3 \<Longrightarrow> printed c4 \<Longrightarrow>
   quad_skip (decode_byte c1, decode_byte c2, decode_byte c3, decode_byte c4) inp =
     Some ((decode_byte c1, decode_byte c2, decode_byte c3, decode_byte c4), inp)"
  by (rule no_space) (simp_all add: printed_def)

text \<open>The quad and the text behind it hold the next four digits, among any whitespace.\<close>

lemma quad_skip_finds:
  assumes "squeeze (c1 # c2 # c3 # c4 # inp) = e1 # e2 # e3 # e4 # r"
    "\<forall>c \<in> set (c1 # c2 # c3 # c4 # inp). whitespace c \<or> printed c"
  shows "\<exists>u inp'. quad_skip (decode_byte c1, decode_byte c2, decode_byte c3, decode_byte c4) inp =
       Some ((decode_byte e1, decode_byte e2, decode_byte e3, decode_byte e4), inp') \<and> inp = u @ inp' \<and>
     (u = [] \<or> \<not> whitespace (last u)) \<and> squeeze inp' = r"
  using assms
proof (induction inp arbitrary: c1 c2 c3 c4)
  case Nil
  then have "\<not> whitespace c1 \<and> \<not> whitespace c2 \<and> \<not> whitespace c3 \<and> \<not> whitespace c4"
    by (auto simp: squeeze_def split: if_splits)
  then show ?case using Nil by (auto simp: no_space_printed squeeze_def)
next
  case (Cons c inp)
  have sp: "decode_byte c = SP \<longleftrightarrow> whitespace c" if "c \<in> {c1, c2, c3, c4}" for c
    using Cons.prems(2) that by (auto simp: whitespace_def printed_def)
  show ?case
  proof (cases "whitespace c1 \<or> whitespace c2 \<or> whitespace c3 \<or> whitespace c4")
    case False
    then have "e1 = c1" "e2 = c2" "e3 = c3" "e4 = c4" "squeeze (c # inp) = r" "printed c1" "printed c2" "printed c3" "printed c4"
      using Cons.prems by (simp_all add: squeeze_def)
    then show ?thesis using no_space_printed [of c1 c2 c3 c4 "c # inp"] by auto
  next
    case True
    obtain b1 b2 b3 where b: "shift_space (decode_byte c1, decode_byte c2, decode_byte c3, decode_byte c4) =
        (decode_byte b1, decode_byte b2, decode_byte b3)" "squeeze [b1, b2, b3] = squeeze [c1, c2, c3, c4]" "{b1, b2, b3} \<subseteq> {c1, c2, c3, c4}"
    proof (cases "whitespace c1")
      case True
      then show ?thesis using that [of c2 c3 c4] sp by (auto simp: shift_space_first squeeze_def)
    next
      case w1: False
      show ?thesis
      proof (cases "whitespace c2")
        case True
        then show ?thesis using that [of c1 c3 c4] w1 sp by (auto simp: shift_space_first squeeze_def)
      next
        case w2: False
        show ?thesis
          using that [of c1 c2 c4] that [of c1 c2 c3] w1 w2 True sp
          by (cases "whitespace c3") (auto simp: shift_space_first squeeze_def)
      qed
    qed
    have "c < 0x80" using Cons.prems(2) by (auto simp: whitespace_def printed_def)
    moreover have "quad_or (decode_byte c1, decode_byte c2, decode_byte c3, decode_byte c4) = SP"
      using True by (auto simp: quad_or_def or_SP whitespace_def)
    ultimately have step: "quad_skip (decode_byte c1, decode_byte c2, decode_byte c3, decode_byte c4) (c # inp) =
        quad_skip (decode_byte b1, decode_byte b2, decode_byte b3, decode_byte c) inp"
      by (subst quad_skip.simps) (simp add: ascii_mask b(1))
    have full: "squeeze (b1 # b2 # b3 # c # inp) = e1 # e2 # e3 # e4 # r"
    proof -
      have "squeeze (b1 # b2 # b3 # c # inp) = squeeze [b1, b2, b3] @ squeeze (c # inp)"
        "squeeze (c1 # c2 # c3 # c4 # c # inp) = squeeze [c1, c2, c3, c4] @ squeeze (c # inp)"
        by (simp_all add: squeeze_def)
      then show ?thesis using Cons.prems(1) b(2) by argo
    qed
    moreover have "\<forall>x \<in> set (b1 # b2 # b3 # c # inp). whitespace x \<or> printed x" using b(3) Cons.prems(2) by auto
    ultimately obtain u inp' where IH:
      "quad_skip (decode_byte b1, decode_byte b2, decode_byte b3, decode_byte c) inp =
         Some ((decode_byte e1, decode_byte e2, decode_byte e3, decode_byte e4), inp')"
      "inp = u @ inp'" "u = [] \<or> \<not> whitespace (last u)" "squeeze inp' = r"
      using Cons.IH [of b1 b2 b3 c] by blast
    have "\<not> (u = [] \<and> whitespace c)"
    proof
      assume "u = [] \<and> whitespace c"
      then have "squeeze (b1 # b2 # b3 # c # inp) = squeeze [b1, b2, b3] @ r" using IH(2,4) by (simp add: squeeze_def)
      then have "squeeze [b1, b2, b3] = [e1, e2, e3, e4]" using full by simp
      then have "length (squeeze [b1, b2, b3]) = 4" by simp
      moreover have "length (squeeze [b1, b2, b3]) \<le> 3" unfolding squeeze_def by (rule order_trans [OF length_filter_le]) simp
      ultimately show False by simp
    qed
    then show ?thesis using IH step by (intro exI [of _ "c # u"] exI [of _ inp']) auto
  qed
qed

lemma dec_four: "base64_dec_loop (c1 # c2 # c3 # c4 # inp) out =
    (if 0x80 \<le> c1 OR c2 OR c3 OR c4 then []
     else (case quad_skip (decode_byte c1, decode_byte c2, decode_byte c3, decode_byte c4) inp of
             None \<Rightarrow> []
           | Some (q, inp') \<Rightarrow>
               (case finish_quad q of
                  None \<Rightarrow> []
                | Some (q', n) \<Rightarrow>
                    let out = out @ take n (quad_bytes q') in
                    if n \<noteq> 3 then (if only_spaces inp' then out else []) else base64_dec_loop inp' out)))"
  by (subst base64_dec_loop.simps) simp

lemma dec_squeeze:
  assumes "\<forall>c \<in> set tx. whitespace c \<or> printed c" "length (squeeze tx) mod 4 = 0"
  shows "base64_dec_loop tx out = base64_dec_loop (squeeze tx @ trailing tx) out"
  using assms
proof (induction "length tx" arbitrary: tx out rule: less_induct)
  case less
  show ?case
  proof (cases "squeeze tx = []")
    case True
    then show ?thesis by (simp add: trailing_blank)
  next
    case False
    then have "4 \<le> length (squeeze tx)" using less.prems(2) by (metis dvd_imp_le length_greater_0_conv mod_0_imp_dvd)
    then obtain e1 e2 e3 e4 r where sq: "squeeze tx = e1 # e2 # e3 # e4 # r"
      by (auto simp: numeral_eq_Suc Suc_le_length_iff)
    then have "length (squeeze tx) = length r + 4" by simp
    then have r: "length r mod 4 = 0" using less.prems(2) by simp
    have "length (squeeze tx) \<le> length tx" by (simp add: squeeze_def)
    then obtain c1 c2 c3 c4 inp where tx: "tx = c1 # c2 # c3 # c4 # inp"
      using sq by (auto simp: numeral_eq_Suc Suc_le_length_iff)
    have "set (squeeze tx) \<subseteq> Collect printed" using less.prems(1) by (auto simp: squeeze_def)
    then have e: "printed e1" "printed e2" "printed e3" "printed e4" using sq by auto
    obtain u inp' where q: "quad_skip (decode_byte c1, decode_byte c2, decode_byte c3, decode_byte c4) inp =
        Some ((decode_byte e1, decode_byte e2, decode_byte e3, decode_byte e4), inp')" "inp = u @ inp'" "u = [] \<or> \<not> whitespace (last u)"
      "squeeze inp' = r"
      using quad_skip_finds [of c1 c2 c3 c4 inp e1 e2 e3 e4 r] sq tx less.prems(1) by auto
    let ?q = "(decode_byte e1, decode_byte e2, decode_byte e3, decode_byte e4)"
    have shorter: "length inp' < length tx" using q(2) tx by simp
    have tail: "trailing inp' = trailing tx"
    proof -
      have "\<not> whitespace c4" if "u = []"
        using sq q(2,4) that unfolding tx by (auto simp: squeeze_def split: if_splits dest!: arg_cong [where f = length])
      then show ?thesis using trailing_append [of "c1 # c2 # c3 # c4 # u" inp'] q(2,3) tx by auto
    qed
    have IH: "base64_dec_loop inp' out' = base64_dec_loop (r @ trailing tx) out'" for out'
      using less.hyps [OF shorter] less.prems(1) q(2,4) r tx tail by auto
    have ascii: "\<not> 0x80 \<le> c1 OR c2 OR c3 OR c4" "\<not> 0x80 \<le> e1 OR e2 OR e3 OR e4"
      using less.prems(1) tx e by (simp_all only: ascii_or printed_def whitespace_def list.set insert_iff ball_simps conj_disj_distribL [symmetric] simp_thms)
    have spaces: "only_spaces inp' \<longleftrightarrow> only_spaces (r @ trailing tx)"
      using q(4) by (simp add: only_spaces_iff squeeze_append) (auto simp: squeeze_def)
    show ?thesis
      unfolding sq unfolding tx append_Cons dec_four
      by (simp add: ascii q(1) no_space_printed [OF e] split: option.split) (simp add: IH spaces tx Let_def split: option.split)
  qed
qed

lemma skip_all_spaces: "squeeze inp = [] \<Longrightarrow> quad_skip (SP, SP, SP, SP) inp = None"
proof (induction inp)
  case (Cons c inp)
  then have "c < 0x80" "decode_byte c = SP" "squeeze inp = []" by (auto simp: squeeze_def whitespace_def split: if_splits)
  then show ?case using Cons.IH by (subst quad_skip.simps) (simp add: quad_or_def or_SP shift_space_first ascii_mask)
qed (simp add: quad_skip.simps quad_or_def or_SP)

lemma dec_blank: "squeeze tx = [] \<Longrightarrow> base64_dec_loop tx out = (if length tx < 4 then out else [])"
proof (cases "length tx < 4")
  case False
  assume blank: "squeeze tx = []"
  obtain c1 c2 c3 c4 inp where tx: "tx = c1 # c2 # c3 # c4 # inp"
    using False by (auto simp: not_less numeral_eq_Suc Suc_le_length_iff)
  have ws: "whitespace c1" "whitespace c2" "whitespace c3" "whitespace c4" and inp: "squeeze inp = []"
    using blank by (auto simp: tx squeeze_def split: if_splits)
  then have "decode_byte c1 = SP" "decode_byte c2 = SP" "decode_byte c3 = SP" "decode_byte c4 = SP"
    by (simp_all add: whitespace_def)
  then show ?thesis using skip_all_spaces [OF inp] by (subst base64_dec_loop.simps) (simp add: tx)
qed (simp add: dec_end only_spaces_iff)

lemma encode_printed: "k < 64 \<Longrightarrow> printed (encode_table ! k)"
proof -
  have "list_all (\<lambda>k. printed (encode_table ! k)) [0..<64]" by code_simp
  then show "k < 64 \<Longrightarrow> ?thesis" by (simp add: list_all_iff)
qed

lemma put_three_printed: "\<forall>x \<in> set (put_three (three_bytes a b c)). printed x"
  by (simp add: put_three_def encode_printed top_sextet unat_and_63)

lemma enc_printed: "inp \<noteq> [] \<Longrightarrow> \<forall>x \<in> set (base64_enc_loop host inp). printed x"
proof (induction "length inp" arbitrary: inp rule: less_induct)
  case less
  have "printed 0x3D" by code_simp
  show ?case
  proof (cases "4 \<le> length inp")
    case True
    then have "\<forall>x \<in> set (base64_enc_loop host (drop 3 inp)). printed x" using less.hyps [of "drop 3 inp"] by fastforce
    then show ?thesis using put_three_printed by (auto simp: enc_loop_step [OF True])
  next
    case False
    then consider a where "inp = [a]" | a b where "inp = [a, b]" | a b c where "inp = [a, b, c]"
      using less.prems by (auto simp: numeral_eq_Suc not_le less_Suc_eq length_Suc_conv)
    then show ?thesis
      by cases (subst base64_enc_loop.simps;
        auto simp: enc_tail_eq \<open>printed 0x3D\<close> put_three_printed dest!: set_update_subset_insert [THEN subsetD])+
  qed
qed

lemma enc_printed': "x \<in> set (base64_enc host bs) \<Longrightarrow> printed x"
  using enc_printed [of bs host] by (auto simp: base64_enc_def split: if_splits)

lemma dec_spaced:
  assumes "squeeze tx = base64_enc host bs"
  shows "base64_dec tx = (if length bs mod 3 = 0 \<and> 4 \<le> length (trailing tx) then [] else bs)"
proof -
  have "whitespace c \<or> printed c" if "c \<in> set tx" for c
    using that assms enc_printed' [of c host bs] by (fastforce simp: squeeze_def dest: arg_cong [where f = set])
  moreover have "length (squeeze tx) mod 4 = 0" using assms by (simp add: length_base64_enc base64_enc_len_def)
  ultimately have dec: "base64_dec tx = base64_dec_loop (base64_enc host bs @ trailing tx) []"
    using dec_squeeze assms by (simp add: base64_dec_def)
  show ?thesis
  proof (cases "bs = []")
    case True
    then show ?thesis using dec by (simp add: base64_enc_def dec_blank)
  next
    case False
    then show ?thesis
      using dec dec_enc_loop [OF False, of host "trailing tx" "[]"] by (simp add: base64_enc_def dec_blank only_spaces_iff)
  qed
qed

lemma squeeze_enc [simp]: "squeeze (base64_enc host bs) = base64_enc host bs"
  unfolding squeeze_def using enc_printed' whitespace_not_printed by (auto intro!: filter_True)

lemma trailing_enc [simp]: "trailing (base64_enc host bs) = []"
proof (cases "base64_enc host bs = []")
  case False
  then have "\<not> whitespace (last (base64_enc host bs))" using enc_printed' [OF last_in_set] whitespace_not_printed by blast
  then show ?thesis using trailing_append [of "base64_enc host bs" "[]"] by (simp add: trailing_def)
qed (simp add: trailing_def)

text \<open>
  C17. Decoding an encoded buffer gives the buffer back, on machines of either byte order, and the encoder
  writes exactly \<^verbatim>\<open>base64_enc_len\<close> bytes. Tabs, line breaks and blanks may be put in front of the text,
  between any of its characters and behind it, any number of them, and the buffer is still decoded, with one
  exception that the documentation (all whitespace is ignored) does not make: if the text has no padding and four
  or more whitespace characters follow it, nothing is returned.
\<close>

theorem base64_roundtrip:
  "base64_dec (base64_enc host bs) = bs \<and> length (base64_enc host bs) = base64_enc_len (length bs) \<and>
   (\<forall>tx. filter (\<lambda>c. \<not> whitespace c) tx = base64_enc host bs \<longrightarrow>
      base64_dec tx = (if length bs mod 3 = 0 \<and> 4 \<le> length (takeWhile whitespace (rev tx)) then [] else bs))"
  using dec_spaced [of _ host bs] squeeze_enc [of host bs] trailing_enc [of host bs]
  by (auto simp: length_base64_enc trailing_def squeeze_def)

text \<open>A line of the test program: the text of \<^verbatim>\<open>easure.\<close> with blanks around every character.\<close>

theorem base64_roundtrip_witness:
  "base64_dec [0x20, 0x5A, 0x20, 0x57, 0x09, 0x46, 0x20, 0x7A, 0x20, 0x64, 0x0A, 0x58, 0x0D, 0x4A, 0x20, 0x6C,
     0x20, 0x4C, 0x20, 0x67, 0x20, 0x3D, 0x20, 0x3D, 0x20, 0x20, 0x20, 0x20, 0x20] =
     [0x65, 0x61, 0x73, 0x75, 0x72, 0x65, 0x2E]"
proof -
  have "filter (\<lambda>c. \<not> whitespace c) [0x20, 0x5A, 0x20, 0x57, 0x09, 0x46, 0x20, 0x7A, 0x20, 0x64, 0x0A, 0x58, 0x0D, 0x4A, 0x20, 0x6C,
     0x20, 0x4C, 0x20, 0x67, 0x20, 0x3D, 0x20, 0x3D, 0x20, 0x20, 0x20, 0x20, 0x20] =
     base64_enc False [0x65, 0x61, 0x73, 0x75, 0x72, 0x65, 0x2E]" by code_simp
  with base64_roundtrip [of False "[0x65, 0x61, 0x73, 0x75, 0x72, 0x65, 0x2E]"] show ?thesis by simp
qed

text \<open>What is written fits the buffer that \<^verbatim>\<open>base64_dec\<close> allocates, for every input text.\<close>

lemma finish_quad_count: "finish_quad q = Some (q', n) \<Longrightarrow> n \<le> 3"
  by (cases q) (auto simp: finish_quad_def Let_def split: if_splits)

lemma base64_dec_loop_bound: "length (base64_dec_loop inp out) \<le> length out + 3 * (length inp div 4)"
proof (induction "length inp" arbitrary: inp out rule: less_induct)
  case less
  show ?case
  proof (cases "4 \<le> length inp")
    case True
    then obtain c1 c2 c3 c4 inp' where inp: "inp = c1 # c2 # c3 # c4 # inp'" by (auto simp: numeral_eq_Suc Suc_le_length_iff)
    show ?thesis
    proof (cases "quad_skip (decode_byte c1, decode_byte c2, decode_byte c3, decode_byte c4) inp'")
      case None
      then show ?thesis by (subst base64_dec_loop.simps) (simp add: inp)
    next
      case (Some r)
      obtain q inp'' where r: "r = (q, inp'')" by (cases r)
      have len: "length inp'' \<le> length inp'" using quad_skip_length Some r by simp
      then have IH: "length (base64_dec_loop inp'' out') \<le> length out' + 3 * (length inp' div 4)" for out'
        using less.hyps [of inp'' out'] div_le_mono [OF len, of 4] inp by simp
      have q: "length (take n (quad_bytes q')) \<le> 3" for n q' by (cases q') (simp add: quad_bytes_def Let_def)
      show ?thesis
      proof (cases "finish_quad q")
        case None
        then show ?thesis using Some r by (subst base64_dec_loop.simps) (simp add: inp)
      next
        case (Some f)
        obtain q' n where f: "f = (q', n)" by (cases f)
        have "length (out @ take n (quad_bytes q')) \<le> length out + 3" using q [of n q'] by simp
        then show ?thesis
          using Some \<open>quad_skip _ _ = Some r\<close> r f IH [of "out @ take n (quad_bytes q')"]
            div_add_self1 [of 4 "length inp'"]
          by (subst base64_dec_loop.simps) (auto simp: inp Let_def)
      qed
    qed
  next
    case False
    then show ?thesis by (subst base64_dec_loop.simps) (auto split: list.splits)
  qed
qed

lemma base64_dec_fits: "length (base64_dec inp) \<le> base64_dec_len (length inp)"
  using base64_dec_loop_bound [of inp "[]"] div_le_mono [of "length inp" "length inp + 3" 4]
  by (simp add: base64_dec_def base64_dec_len_def)

end
