(* ===== verification/Js_Identifier.thy ===== *)
theory Js_Identifier
  imports Stringconv
begin

text \<open>
  \<^verbatim>\<open>js_identifier_name\<close> of \<^verbatim>\<open>arlib/js-identifier.cpp\<close>, which measures the JavaScript identifier name at
  the start of a NUL-terminated string. The string is its list of bytes; reading at its end gives
  the NUL. Behind the NUL \<open>rd\<close> answers 0 only to be total: the program reads memory there that is not its own,
  so no theorem here or in the theories of the JSON parser is about a text that leads it there. The tables map the upper bits of a character to a bitmap of 64 characters.
\<close>

definition rd :: "bytes \<Rightarrow> nat \<Rightarrow> byte" where
  "rd s i = (if i < length s then s ! i else 0)"

definition table_first :: "u64 list" where
  "table_first =
     [0x0000001000000000, 0x07FFFFFE87FFFFFE, 0x0420040000000000, 0xFF7FFFFFFF7FFFFF, 0xFFFFFFFFFFFFFFFF, 0x000FFFFCFFFFFFFF,
      0xFFFFFFFFFFFF0000, 0xF9FF3FFFFFFFFFFF, 0x0000401F00030003, 0x0000000000000000, 0x0400000000000000, 0xFFFFFFFBFFFFD740,
      0x000FFFFFFCFF7FFF, 0xFFFFFFFFFFFFF003, 0x033FFFFFFFFF199F, 0xFFFE000000000000, 0xFFFFFFFE027FFFFF, 0x00000000000000FF,
      0x000707FFFFFF0000, 0x07FFFFFE00000000, 0xFFFE0000000007FF, 0x1C000060002FFFFF, 0x00001FFFFFFD0000, 0x0000000000000000,
      0x0000003FFFFFFFFF, 0x0000000000000000, 0x23FFFFFFFFFFFFE0, 0x00000003FF010000, 0x03C5FDFFFFF99FE0, 0x00030003B0000000,
      0x036DFDFFFFF987E0, 0x001C00005E000000, 0x23EDFDFFFFFBAFE0, 0x0000000100010000, 0x23CDFDFFFFF99FE0, 0x00000003B0000000,
      0x03BFC718D63DC7E0, 0x0000000000000000, 0x03EFFDFFFFFDDFE0, 0x0000000300000000, 0x03EFFDFFFFFDDFE0, 0x0000000340000000,
      0x03FFFDFFFFFDDFE0, 0x0000000300000000, 0x2FFBFFFFFC7FFFE0, 0x000000000000007F, 0x000DFFFFFFFFFFFE, 0x000000000000007F,
      0x200DECAEFEF02596, 0x000000003000005F, 0x0000000000000001, 0x000007FFFFFFFEFF, 0x0000000000000F00, 0x0000000000000000,
      0x000006FBFFFFFFFF, 0x00000000003F0000, 0xFFFFFFFF00000000, 0x007FFFFFFFFF003F, 0xFFFFFFFF83FFFFFF, 0xFFFFFF07FFFFFFFF,
      0x03FFFFFFFFFFFFFF, 0xFFFFFFFFFFFFFF7F, 0xFFFFFFFF3D7F3D7F, 0x7F3D7FFFFFFF3D7F, 0xFFFF7FFFFF7F7F3D, 0xFFFFFFFF7F3D7FFF,
      0x0000000007FFFF7F, 0x001FFFFFFFFFFFFF, 0xFFFFFFFFFFFFFFFE, 0x007F9FFFFFFFFFFF, 0xFFFFFFFF07FFFFFE, 0x000007FFFFFFFFFF,
      0x000FFFFFFFFFFFFF, 0x0000000000000000, 0xFFFFFFFF00000000, 0x00FFFFFFFFFFFFFF, 0x000001FFFFFFFFFF, 0xFFFFFFFF0FFFFFFF,
      0xFFFFFFFF3F3FFFFF, 0x3FFFFFFFAAFF3F3F, 0x5FDFFFFFFFFFFFFF, 0x1FDC1FFF0FCF1FDC, 0x0000000000000000, 0x8000000000000000,
      0x0000000000000000, 0x03FBBD503E2FFC84, 0x000000000000000F, 0x073E03FE000000E0, 0xFFFFFFFE601FFFFF, 0x77FFFFFFFFFFFFFF,
      0xFFFE1FFFFFFFFFE0, 0x00FFFFFF00007FFF, 0x003FFFFFFFFFFFFF, 0x0000003FFFFFFFFF, 0x0000000000001FFF, 0x0000000000000001,
      0x0000000800000000, 0x00003FFFFFFFFFFF, 0x5F7FFDFFA0F8007F, 0xFFFFFFFFFFFFFFDB, 0x0003FFFFFFFFFFFF, 0xFFFFFFFFFFF80000,
      0x3FFFFFFFFFFFFFFF, 0xFFFFFFFFFFFCFFFF, 0x0FFF0000000000FF, 0x0000000000000000, 0xFFD7000000000000, 0x1FFFFFFFFFFFFFFF,
      0x07FFFFFE00000000, 0xFFFFFFC007FFFFFE, 0x7FFFFFFFFFFFFFFF, 0x000000001CFCFCFC]"

definition table_cont :: "u64 list" where
  "table_cont =
     [0x03FF001000000000, 0x07FFFFFE87FFFFFE, 0x0420040000000000, 0xFF7FFFFFFF7FFFFF, 0xFFFFFFFFFFFFFFFF, 0x000FFFFCFFFFFFFF,
      0xFFFFFFFFFFFF0000, 0xF9FF3FFFFFFFFFFF, 0x0000401F00030003, 0xFFFFFFFFFFFFFFFF, 0x0400000700007FFF, 0xFFFFFFFBFFFFD740,
      0x000FFFFFFCFF7FFF, 0xFFFFFFFFFFFFF07B, 0x033FFFFFFFFF199F, 0xFFFE000000000000, 0xFFFFFFFE027FFFFF, 0xBBFFFFFBFFFE00FF,
      0x000707FFFFFF0016, 0x07FFFFFE00000000, 0xFFFF03FF003FFFFF, 0x1FFF3DFF9FEFFFFF, 0xFFFF1FFFFFFF0000, 0x00000000000007FF,
      0x0001FFFFFFFFFFFF, 0x0000000000000000, 0xF3FFFFFFFFFFFFEE, 0x0000FFCFFF1F3FFF, 0xD3C5FDFFFFF99FEE, 0x0003FFCFB080399F,
      0xD36DFDFFFFF987E4, 0x001FFFC05E003987, 0xF3EDFDFFFFFBAFEE, 0x0000FFC100013BBF, 0xF3CDFDFFFFF99FEE, 0x0000FFC3B0C0398F,
      0xC3BFC718D63DC7EC, 0x0000FF8000803DC7, 0xC3EFFDFFFFFDDFEE, 0x0000FFC300603DDF, 0xC3EFFDFFFFFDDFEC, 0x0000FFC340603DDF,
      0xC3FFFDFFFFFDDFEC, 0x0000FFC300803DCF, 0x2FFBFFFFFC7FFFEC, 0x000C0000FF5F847F, 0x07FFFFFFFFFFFFFE, 0x0000000003FF7FFF,
      0x3BFFECAEFEF02596, 0x0000000033FF3F5F, 0xC2A003FF03000001, 0xFFFE07FFFFFFFEFF, 0x1FFFFFFFFEFF0FDF, 0x0000000000000040,
      0x03C7F6FBFFFFFFFF, 0x0000000003FF03FF, 0xFFFFFFFF00000000, 0x007FFFFFFFFF003F, 0xFFFFFFFF83FFFFFF, 0xFFFFFF07FFFFFFFF,
      0x03FFFFFFFFFFFFFF, 0xFFFFFFFFFFFFFF7F, 0xFFFFFFFF3D7F3D7F, 0x7F3D7FFFFFFF3D7F, 0xFFFF7FFFFF7F7F3D, 0xFFFFFFFF7F3D7FFF,
      0x0003FE0007FFFF7F, 0x001FFFFFFFFFFFFF, 0xFFFFFFFFFFFFFFFE, 0x007F9FFFFFFFFFFF, 0xFFFFFFFF07FFFFFE, 0x000007FFFFFFFFFF,
      0xFFFFFFFFFFFFFFFF, 0x000003FF000FFFFF, 0xFFFFFFFF03FF0000, 0x00FFFFFFFFFFFFFF, 0x000003FFFFFFFFFF, 0xFFFFFFFF0FFFFFFF,
      0xFFFFFFFF3F3FFFFF, 0x3FFFFFFFAAFF3F3F, 0x5FDFFFFFFFFFFFFF, 0x1FDC1FFF0FCF1FDC, 0x8000000000003000, 0x8000000000000001,
      0x000000021FFF0000, 0x03FBBD503E2FFC84, 0x000000000000000F, 0x073EFFFE000000E0, 0xFFFFFFFE661FFFFF, 0x7FFFFFFFFFFFFFFF,
      0xFFFE1FFFFFFFFFE0, 0x00FFFFFF00007FFF, 0x003FFFFFFFFFFFFF, 0x0000003FFFFFFFFF, 0x0000000000001FFF, 0x0000000000000001,
      0x0000000800000000, 0x00003FFFFFFFFFFF, 0x5F7FFDFFE0F8007F, 0xFFFFFFFFFFFFFFDB, 0x0003FFFFFFFFFFFF, 0xFFFFFFFFFFF80000,
      0x3FFFFFFFFFFFFFFF, 0xFFFFFFFFFFFCFFFF, 0x0FFF0000000000FF, 0x0018000F00000000, 0xFFD700000000E000, 0x1FFFFFFFFFFFFFFF,
      0x87FFFFFE03FF0000, 0xFFFFFFE007FFFFFE, 0x7FFFFFFFFFFFFFFF, 0x000000001CFCFCFC]"

definition table_2by :: "nat list" where
  "table_2by =
     [2, 3, 4, 4, 4, 4, 5, 6, 7, 8, 9, 10, 11, 12, 4, 4, 13, 14, 15, 16, 17, 18, 19, 20, 4, 21, 22, 23, 24, 25, 54, 55,
      56, 57, 4, 58, 59, 60, 61, 62, 63, 64, 65, 66, 56, 67, 68, 4, 4, 4, 4, 4, 4, 4, 4, 69, 70, 71, 25, 25, 72, 73, 74, 75,
      76, 25, 25, 25, 25, 25, 25, 25, 25, 25, 25, 25, 25, 25, 25, 25, 25, 25, 25, 25, 25, 25, 4, 4, 77, 60, 78, 79, 80, 81, 87, 68,
      88, 89, 90, 4, 91, 25, 25, 25, 25, 25, 25, 25, 25, 25, 4, 4, 4, 4, 4, 4, 4, 4, 4, 4, 4, 4, 4, 4, 4, 4, 4, 4,
      4, 4, 4, 4, 4, 4, 4, 4, 4, 4, 4, 4, 4, 4, 4, 4, 4, 4, 4, 4, 4, 4, 4, 4, 4, 4, 4, 4, 4, 4, 4, 4,
      4, 4, 4, 4, 92, 25, 4, 4, 4, 4, 4, 4, 4, 4, 4, 4, 4, 4, 4, 4, 4, 4, 4, 4, 4, 4, 4, 4, 4, 4, 4, 4,
      4, 4, 4, 4, 4, 4, 4, 4, 4, 4, 4, 4, 4, 4, 4, 4, 4, 4, 4, 4, 4, 4, 4, 4, 4, 4, 4, 4, 4, 4, 4, 4,
      4, 4, 4, 4, 4, 4, 93, 25, 82, 83, 25, 84, 85, 56, 86, 25, 25, 25, 25, 25, 25, 25, 25, 25, 25, 25, 25, 25, 25, 25, 25, 25,
      25, 25, 25, 25, 25, 25, 25, 25, 25, 25, 25, 25, 25, 25, 25, 25, 25, 25, 25, 25, 25, 25, 25, 25, 25, 25, 25, 25, 25, 25, 25, 25,
      25, 25, 25, 25, 25, 25, 25, 25, 25, 25, 25, 25, 25, 25, 25, 26, 27, 28, 29, 30, 31, 32, 33, 34, 35, 36, 37, 38, 39, 40, 41, 42,
      43, 44, 45, 46, 47, 48, 49, 50, 51, 52, 53, 4, 4, 4, 4, 4, 4, 4, 4, 4, 4, 4, 4, 4, 4, 4, 4, 4, 4, 94, 25, 25,
      25, 25, 25, 25, 25, 25, 25, 25, 25, 25, 25, 25, 25, 25, 25, 25, 25, 25, 25, 25, 25, 25, 25, 25, 25, 25, 25, 95, 25, 25, 25, 25,
      25, 25, 25, 25, 25, 25, 25, 25, 25, 25, 25, 25, 25, 25, 25, 25, 25, 25, 25, 25, 25, 25, 25, 25, 25, 25, 96, 25, 25, 25, 25, 25,
      25, 25, 25, 25, 25, 25, 25, 25, 25, 25, 25, 25, 25, 25, 25, 25, 25, 25, 25, 25, 25, 25, 25, 25, 25, 25, 25, 25, 25, 25, 25, 4,
      4, 4, 4, 97, 25, 25, 25, 98, 99, 100, 101, 4, 4, 4, 4, 102, 6, 103, 104, 105, 106, 4, 107, 108, 109, 110, 111]"

definition table_3by :: "nat list" where
  "table_3by = [267, 30, 232, 94, 110, 166, 166, 166, 166, 168, 331, 239, 239, 380, 239, 411]"

definition name_table :: "bool \<Rightarrow> u64 list" where
  "name_table first = (if first then table_first else table_cont)"

definition name_bit :: "bool \<Rightarrow> nat \<Rightarrow> nat \<Rightarrow> bool" where
  "name_bit first idx b = bit (name_table first ! idx) b"

definition codepoint_index :: "u16 \<Rightarrow> nat" where
  "codepoint_index codepoint =
     (if codepoint \<le> 0x7F then unat (drop_bit 6 codepoint)
      else if codepoint \<le> 0x07FF then table_2by ! (unat (drop_bit 6 codepoint) - 2)
      else table_2by ! (table_3by ! unat (drop_bit 12 codepoint) + unat (drop_bit 6 codepoint AND 0x3F)))"

text \<open>One character of a name: how many bytes it takes, or \<open>None\<close> where the loop breaks.\<close>

definition name_char :: "bool \<Rightarrow> bytes \<Rightarrow> nat \<Rightarrow> nat option" where
  "name_char first s at =
     (let head = rd s at in
      if head < 0x80 then
        if name_bit first (unat (drop_bit 6 head AND 1)) (unat (head AND 0x3F)) then Some 1
        else if head = 0x5C then
          if rd s (at + 1) \<noteq> 0x75 then None
          else
            (case fromstring_hex (map (rd s) [at + 2..<at + 6]) of (ok, codepoint) \<Rightarrow>
               if \<not> ok then None
               else if \<not> name_bit first (codepoint_index codepoint) (unat (codepoint AND 0x3F)) then None
               else Some 6)
        else None
      else if head < 0xC2 then None
      else if rd s (at + 1) AND 0xC0 \<noteq> 0x80 then None
      else if head \<le> 0xDF then
        if \<not> name_bit first (table_2by ! unat (head - 0xC2)) (unat (rd s (at + 1) AND 0x3F)) then None else Some 2
      else if rd s (at + 2) AND 0xC0 \<noteq> 0x80 then None
      else if head \<le> 0xEF then
        let idx1 = table_3by ! unat (head - 0xE0); idx2 = table_2by ! (idx1 + unat (rd s (at + 1)) - 0x80)
        in if \<not> name_bit first idx2 (unat (rd s (at + 2) AND 0x3F)) then None else Some 3
      else None)"

text \<open>A character that is accepted consists of bytes before the NUL.\<close>

lemma rd_end: "length s \<le> i \<Longrightarrow> rd s i = 0"
  by (simp add: rd_def)

lemma rd_nonzero: "rd s i \<noteq> 0 \<Longrightarrow> i < length s"
  by (auto simp: rd_def split: if_splits)

lemma nul_ends: "\<not> name_bit first 0 0"
  by (cases first) (simp_all add: name_bit_def name_table_def table_first_def table_cont_def)

lemma hex_digits_only:
  assumes "fst (fromstring_hex cs :: bool \<times> 'a::len word)"
  shows "list_all is_hex_digit cs"
proof -
  have loop: "fst (fromstring_hex_loop cs out) \<Longrightarrow> list_all is_hex_digit cs" for cs out
    by (induction cs out rule: fromstring_hex_loop.induct) (auto split: if_splits)
  have "fst (fromstring_hex_real cs)" using assms by (simp add: fromstring_hex_def Let_def split_beta)
  then have "list_all is_hex_digit (dropWhile (\<lambda>c. c = 0x30) cs)"
    using loop by (auto simp: fromstring_hex_real_def Let_def split: if_splits)
  moreover have "list_all is_hex_digit (takeWhile (\<lambda>c. c = 0x30) cs)"
    by (auto simp: list_all_iff is_hex_digit_def dest!: set_takeWhileD)
  ultimately show ?thesis using list_all_append takeWhile_dropWhile_id by metis
qed

lemma hex_not_nul: "\<not> is_hex_digit 0"
  by (simp add: is_hex_digit_def)

lemma hex_in_range:
  assumes "fst (fromstring_hex (map (rd s) [i..<j]) :: bool \<times> 'a::len word)" and "i < j"
  shows "j \<le> length s"
proof -
  have "rd s (j - 1) \<in> set (map (rd s) [i..<j])" using assms(2) by simp
  then have "is_hex_digit (rd s (j - 1))" using hex_digits_only [OF assms(1)] unfolding list_all_iff by blast
  then have "rd s (j - 1) \<noteq> 0" using hex_not_nul by metis
  then show ?thesis using rd_nonzero by fastforce
qed

lemma name_char_bound:
  assumes "name_char first s at = Some n"
  shows "0 < n \<and> at + n \<le> length s"
proof -
  have at: "at < length s"
  proof (rule ccontr)
    assume "\<not> at < length s"
    then have "rd s at = 0" by (simp add: rd_end)
    then show False using assms nul_ends by (simp add: name_char_def Let_def split: if_splits)
  qed
  have cont: "i < length s" if "rd s i AND 0xC0 = 0x80" for i
    using that rd_nonzero [of s i] by (cases "rd s i = 0") auto
  have hex: "at + 6 \<le> length s" if "fst (fromstring_hex (map (rd s) [at + 2..<at + 6]) :: bool \<times> u16)"
    using hex_in_range [OF that] by simp
  show ?thesis
    using assms at cont [of "at + 1"] cont [of "at + 2"] hex
    unfolding name_char_def Let_def by (auto split: if_splits prod.splits)
qed

function js_identifier_from :: "bool \<Rightarrow> bytes \<Rightarrow> nat \<Rightarrow> nat" where
  "js_identifier_from first s at =
     (case name_char first s at of None \<Rightarrow> at | Some n \<Rightarrow> js_identifier_from False s (at + n))"
  by pat_completeness auto
termination
  by (relation "measure (\<lambda>(first, s, at). length s - at)") (auto dest!: name_char_bound)

definition js_identifier_name :: "bytes \<Rightarrow> nat" where
  "js_identifier_name s = js_identifier_from True s 0"

declare js_identifier_from.simps [simp del]

lemma js_identifier_from_bound: "at \<le> length s \<Longrightarrow> at \<le> js_identifier_from first s at \<and> js_identifier_from first s at \<le> length s"
proof (induction first s at rule: js_identifier_from.induct)
  case (1 first s at)
  show ?case
  proof (cases "name_char first s at")
    case None
    then show ?thesis using 1 by (simp add: js_identifier_from.simps [of first])
  next
    case (Some n)
    then show ?thesis
      using 1 name_char_bound [OF Some] by (simp add: js_identifier_from.simps [of first])
  qed
qed

lemma js_identifier_name_bound: "js_identifier_name s \<le> length s"
  using js_identifier_from_bound [of 0 s True] by (simp add: js_identifier_name_def)

subsection \<open>The tables are never read out of bounds\<close>

lemma table_ranges:
  "length table_first = 112" "length table_cont = 112" "length table_2by = 475" "length table_3by = 16"
  "list_all (\<lambda>i. i < 112) table_2by" "list_all (\<lambda>i. i + 63 < 475) table_3by"
  by (simp_all add: table_first_def table_cont_def table_2by_def table_3by_def)

lemma three_byte_index:
  assumes "0xE0 \<le> head" "head \<le> (0xEF :: byte)" "c AND 0xC0 = (0x80 :: byte)"
  shows "unat (head - 0xE0) < length table_3by"
    "table_3by ! unat (head - 0xE0) + unat c - 0x80 < length table_2by"
    "table_2by ! (table_3by ! unat (head - 0xE0) + unat c - 0x80) < length (name_table first)"
proof -
  have "unat (head - 0xE0) = unat head - 0xE0" using assms(1) by (simp add: unat_sub)
  moreover have "unat head \<le> 0xEF" using assms(2) by (simp add: word_le_nat_alt)
  ultimately show i: "unat (head - 0xE0) < length table_3by" by (simp add: table_ranges)
  have "list_all (\<lambda>c :: byte. c AND 0xC0 = 0x80 \<longrightarrow> unat c - 0x80 < 64 \<and> 0x80 \<le> unat c) (map word_of_nat [0..<256])" by code_simp
  then have c: "unat c - 0x80 < 64 \<and> 0x80 \<le> unat c" using bytes_between [OF _ le0 unat_byte] assms(3) by blast
  have "table_3by ! unat (head - 0xE0) + 63 < 475" using table_ranges(6) i by (simp add: list_all_length)
  then show j: "table_3by ! unat (head - 0xE0) + unat c - 0x80 < length table_2by"
    using conjunct1 [OF c] conjunct2 [OF c] unfolding table_ranges by linarith
  then show "table_2by ! (table_3by ! unat (head - 0xE0) + unat c - 0x80) < length (name_table first)"
    using table_ranges(5) by (cases first) (simp_all add: list_all_length name_table_def table_ranges)
qed

end
