(* ===== verification/Json_Parser.thy ===== *)
theory Json_Parser
  imports Js_Identifier Utf8
begin

text \<open>
  The streaming parser \<^verbatim>\<open>jsonparser\<close> of \<^verbatim>\<open>arlib/json.h\<close> and \<^verbatim>\<open>arlib/json.cpp\<close>. The document is a
  NUL-terminated buffer that the parser owns and in which it decodes strings in place; \<open>m_at\<close> is an
  index into it and \<open>rd\<close> reads it, with the NUL at its end (its 0 behind that is no claim about the memory there;
  \<open>Json_Live\<close> shows which documents keep the parser inside). The template argument \<open>json5\<close> selects the
  dialect, \<open>host\<close> is the byte order of the machine. \<^verbatim>\<open>m_nesting\<close>, a \<^verbatim>\<open>bitarray\<close> in the source, is its
  list of bits. An event carries the bytes of its string at the time it is returned.
\<close>

subsection \<open>State and events\<close>

datatype event =
    Jtrue | Jfalse | Jnull | Jstr bytes | Jnum bytes
  | Enter_list | Exit_list | Enter_map | Map_key bytes | Exit_map
  | Jerror | Finish

record jsonparser =
  m_data :: bytes
  m_at :: nat
  m_want_key :: bool
  m_errored :: bool
  m_need_error :: bool
  m_nesting :: "bool list"

subsection \<open>Whitespace and comments\<close>

text \<open>
  A \<^verbatim>\<open>uint8_t\<close> compared with a \<^verbatim>\<open>char\<close> literal: both are promoted to \<^verbatim>\<open>int\<close>, and \<^verbatim>\<open>char\<close> is signed on
  the platforms Arlib targets.
\<close>

definition eq_char :: "byte \<Rightarrow> byte \<Rightarrow> bool" where
  "eq_char b c = (uint b = sint c)"

function line_comment_end :: "bytes \<Rightarrow> nat \<Rightarrow> nat" where
  "line_comment_end d i =
     (if rd d i = 0x0A \<or> rd d i = 0x0D \<or> rd d i = 0 then i
      else if eq_char (rd d i) 0xE2 \<and> eq_char (rd d (i + 1)) 0x80 \<and>
        (eq_char (rd d (i + 2)) 0xA8 \<or> eq_char (rd d (i + 2)) 0xA9) then i
      else line_comment_end d (i + 1))"
  by pat_completeness auto
termination by (relation "measure (\<lambda>(d, i). length d - i)") (auto dest!: rd_nonzero)

text \<open>\<^verbatim>\<open>strstr\<close> for the end of the comment, and \<^verbatim>\<open>strchr\<close> for the NUL if there is none.\<close>

function block_comment_end :: "bytes \<Rightarrow> nat \<Rightarrow> nat option" where
  "block_comment_end d i =
     (if rd d i = 0 then None
      else if rd d i = 0x2A \<and> rd d (i + 1) = 0x2F then Some (i + 2)
      else block_comment_end d (i + 1))"
  by pat_completeness auto
termination by (relation "measure (\<lambda>(d, i). length d - i)") (auto dest!: rd_nonzero)

definition span_end :: "(byte \<Rightarrow> bool) \<Rightarrow> bytes \<Rightarrow> nat \<Rightarrow> nat" where
  "span_end P d i = i + length (takeWhile P (drop i d))"

definition u2000_series_whitespace :: u64 where
  "u2000_series_whitespace = foldr (\<lambda>n w. push_bit n 1 OR w)
     [0x00, 0x01, 0x02, 0x03, 0x04, 0x05, 0x06, 0x07, 0x08, 0x09, 0x0A, 0x0B, 0x28, 0x29, 0x2F] 0"

definition three_byte_space :: "byte \<Rightarrow> byte \<Rightarrow> byte \<Rightarrow> bool" where
  "three_byte_space a b c =
     ([a, b, c] = [0xE1, 0x9A, 0x80] \<or> [a, b, c] = [0xE3, 0x80, 0x80] \<or> [a, b, c] = [0xEF, 0xBB, 0xBF] \<or>
      [a, b] = [0xE2, 0x80] \<and> 0x80 \<le> c \<and> c \<le> 0xBF \<and> bit u2000_series_whitespace (unat (c AND 0x3F)))"

declare line_comment_end.simps [simp del] block_comment_end.simps [simp del]

lemma line_comment_end_bound: "i \<le> length d \<Longrightarrow> i \<le> line_comment_end d i \<and> line_comment_end d i \<le> length d"
proof (induction d i rule: line_comment_end.induct)
  case (1 d i)
  let ?stop = "line_comment_end d i = i"
  show ?case
  proof (cases ?stop)
    case False
    then have eq: "line_comment_end d i = line_comment_end d (i + 1)" and "rd d i \<noteq> 0"
      by (simp_all add: line_comment_end.simps [of d i] split: if_splits)
    then have "i + 1 \<le> length d" using rd_nonzero [of d i] by simp
    moreover have "\<not> (rd d i = 0x0A \<or> rd d i = 0x0D \<or> rd d i = 0)"
      "\<not> (eq_char (rd d i) 0xE2 \<and> eq_char (rd d (i + 1)) 0x80 \<and> (eq_char (rd d (i + 2)) 0xA8 \<or> eq_char (rd d (i + 2)) 0xA9))"
      using False by (simp_all add: line_comment_end.simps [of d i] split: if_splits)
    ultimately have "i + 1 \<le> line_comment_end d (i + 1) \<and> line_comment_end d (i + 1) \<le> length d" using 1 by blast
    then show ?thesis using eq by simp
  qed (use 1 in simp)
qed

lemma block_comment_end_bound: "block_comment_end d i = Some e \<Longrightarrow> i < e \<and> e \<le> length d"
proof (induction d i rule: block_comment_end.induct)
  case (1 d i)
  have nz: "rd d i \<noteq> 0" using 1(2) by (simp add: block_comment_end.simps [of d i] split: if_splits)
  show ?case
  proof (cases "rd d i = 0x2A \<and> rd d (i + 1) = 0x2F")
    case True
    then have "i + 1 < length d" using rd_nonzero [of d "i + 1"] by simp
    then show ?thesis using True nz 1(2) by (simp add: block_comment_end.simps [of d i])
  next
    case False
    then have "block_comment_end d (i + 1) = Some e" using nz 1(2) by (auto simp: block_comment_end.simps [of d i])
    then show ?thesis using 1(1) [OF nz False] by simp
  qed
qed

lemma span_end_bound: "i \<le> length d \<Longrightarrow> i \<le> span_end P d i \<and> span_end P d i \<le> length d"
  using length_takeWhile_le [of P "drop i d"] by (simp add: span_end_def)

function skip_spaces :: "bool \<Rightarrow> bytes \<Rightarrow> nat \<Rightarrow> bool \<Rightarrow> nat \<times> bool" where
  "skip_spaces json5 d at need_error =
     (if rd d at < 0x80 then
        if isspace (rd d at) \<or> json5 \<and> (rd d at = 0x0C \<or> rd d at = 0x0B) then skip_spaces json5 d (at + 1) need_error
        else if json5 \<and> rd d at = 0x2F \<and> rd d (at + 1) = 0x2F
        then skip_spaces json5 d (line_comment_end d (at + 1)) need_error
        else if json5 \<and> rd d at = 0x2F \<and> rd d (at + 1) = 0x2A then
          (case block_comment_end d (at + 2) of
             Some e \<Rightarrow> skip_spaces json5 d e need_error
           | None \<Rightarrow> skip_spaces json5 d (span_end (\<lambda>c. c \<noteq> 0) d (at + 2)) True)
        else (at, need_error)
      else if \<not> json5 then (at, need_error)
      else if rd d at = 0xC2 \<and> rd d (at + 1) = 0xA0 then skip_spaces json5 d (at + 2) need_error
      else if rd d (at + 1) = 0 then (at, need_error)
      else if three_byte_space (rd d at) (rd d (at + 1)) (rd d (at + 2)) then skip_spaces json5 d (at + 3) need_error
      else (at, need_error))"
  by pat_completeness auto
termination
proof (relation "measure (\<lambda>(json5, d, at, need_error). length d - at)", goal_cases)
  case (2 json5 d at need_error)
  then have "rd d at \<noteq> 0" by (auto simp: isspace_iff)
  then show ?case using rd_nonzero [of d at] by auto
next
  case (3 json5 d at need_error)
  then have "at + 1 < length d" using rd_nonzero [of d "at + 1"] by simp
  then show ?case using line_comment_end_bound [of "at + 1" d] by auto
next
  case (4 json5 d at need_error)
  then have "at + 1 < length d" using rd_nonzero [of d "at + 1"] by simp
  then show ?case using span_end_bound [of "at + 2" d "\<lambda>c. c \<noteq> 0"] by auto
next
  case (5 json5 d at need_error e)
  then show ?case using block_comment_end_bound [of d "at + 2" e] by auto
next
  case (6 json5 d at need_error)
  then show ?case using rd_nonzero [of d at] by auto
next
  case (7 json5 d at need_error)
  then show ?case using rd_nonzero [of d "at + 1"] by auto
qed simp

declare skip_spaces.simps [simp del]

subsection \<open>Escapes\<close>

definition put_byte :: "bytes \<Rightarrow> nat \<Rightarrow> byte \<Rightarrow> bytes \<times> nat" where
  "put_byte d out b = (blit d out [b], out + 1)"

definition put_codepoint :: "bool \<Rightarrow> bytes \<Rightarrow> nat \<Rightarrow> u32 \<Rightarrow> bytes \<times> nat" where
  "put_codepoint host d out cp =
     (let (tail', n) = codepoint_put host (drop out d) cp in (take out d @ tail', out + n))"

text \<open>A \<^verbatim>\<open>\u\<close> or \<^verbatim>\<open>\x\<close> escape at \<open>slash\<close>, with the second half of a surrogate pair. Returns the index after it.\<close>

definition decode_unicode :: "bytes \<Rightarrow> nat \<Rightarrow> (u32 \<times> nat) option" where
  "decode_unicode d slash =
     (let n_digits = (if rd d (slash + 1) = 0x75 then 4 else 2); inp = slash + 2;
          (ok, cp) = fromstring_hex (map (rd d) [inp..<inp + n_digits]) in
      if \<not> ok then None
      else
        let inp = inp + n_digits in
        if 0xD800 \<le> cp \<and> cp \<le> 0xDCFF \<and> rd d inp = 0x5C \<and> rd d (inp + 1) = 0x75 then
          (case fromstring_hex (map (rd d) [inp + 2..<inp + 6]) of (ok, low_sur :: u16) \<Rightarrow>
             if ok then Some (0x10000 + push_bit 10 (cp - 0xD800) + (ucast low_sur - 0xDC00), inp + 6)
             else Some (cp, inp))
        else Some (cp, inp))"

text \<open>One escape: the buffer, the write index, the read index after it and the error flag.\<close>

definition decode_escape :: "bool \<Rightarrow> bool \<Rightarrow> bytes \<Rightarrow> nat \<Rightarrow> nat \<Rightarrow> bool \<Rightarrow> bytes \<times> nat \<times> nat \<times> bool" where
  "decode_escape json5 host d out slash need_error =
     (let c = rd d (slash + 1); inp = slash + 2;
          put = (\<lambda>b. let (d', out') = put_byte d out b in (d', out', inp, need_error)) in
      if json5 \<and> c = 0x0D then (d, out, if rd d (slash + 2) = 0x0A then inp + 1 else inp, need_error)
      else if json5 \<and> c = 0x0A then (d, out, inp, need_error)
      else if json5 \<and> (map (rd d) [slash + 1..<slash + 4] = [0xE2, 0x80, 0xA8] \<or>
        map (rd d) [slash + 1..<slash + 4] = [0xE2, 0x80, 0xA9]) then (d, out, slash + 4, need_error)
      else if c = 0x75 \<or> json5 \<and> c = 0x78 then
        (case decode_unicode d slash of
           None \<Rightarrow> (d, out, inp, True)
         | Some (cp, inp) \<Rightarrow>
             let (d', out') = put_codepoint host d out cp in (d', out', inp, need_error))
      else if json5 \<and> c = 0x30 \<and> \<not> isdigit (rd d (slash + 2)) then put 0
      else if isdigit c then (d, out, inp, True)
      else if c = 0x62 then put 0x08
      else if c = 0x66 then put 0x0C
      else if c = 0x6E then put 0x0A
      else if c = 0x72 then put 0x0D
      else if c = 0x74 then put 0x09
      else if json5 \<and> c = 0x76 then put 0x0B
      else if json5 then put c
      else if c = 0x22 \<or> c = 0x5C \<or> c = 0x2F then put c
      else (d, out, inp, True))"

lemma decode_unicode_forward: "decode_unicode d slash = Some (cp, inp) \<Longrightarrow> slash + 2 \<le> inp"
  by (auto simp: decode_unicode_def Let_def split: if_splits prod.splits)

lemma decode_escape_forward: "decode_escape json5 host d out slash err = (d', out', inp, err') \<Longrightarrow> slash + 2 \<le> inp"
  by (auto simp: decode_escape_def Let_def put_byte_def split: if_splits prod.splits option.splits
    dest: decode_unicode_forward)

function decode_loop :: "bool \<Rightarrow> bool \<Rightarrow> bytes \<Rightarrow> nat \<Rightarrow> nat \<Rightarrow> nat \<Rightarrow> bool \<Rightarrow> bytes \<times> nat \<times> bool" where
  "decode_loop json5 host d out inp fin need_error =
     (let run = takeWhile (\<lambda>c. c \<noteq> 0x5C) (slice inp (fin - inp) d); slash = inp + length run;
          d = blit d out run; out = out + length run in
      if fin \<le> slash then (d, out, need_error)
      else if rd d (slash + 1) = 0 then (d, out, True)
      else
        let (d, out, inp, need_error) = decode_escape json5 host d out slash need_error
        in decode_loop json5 host d out inp fin need_error)"
  by pat_completeness auto
termination
  by (relation "measure (\<lambda>(json5, host, d, out, inp, fin, need_error). fin - inp)")
    (auto dest!: decode_escape_forward [OF sym])

declare decode_loop.simps [simp del]

definition decode_backslashes :: "bool \<Rightarrow> bool \<Rightarrow> nat \<Rightarrow> nat \<Rightarrow> jsonparser \<Rightarrow> bytes \<times> jsonparser" where
  "decode_backslashes json5 host start len p =
     (let by = slice start len (m_data p) in
      if 0x5C \<notin> set by then (by, p)
      else
        let (d, out, need_error) = decode_loop json5 host (m_data p) start start (start + len) (m_need_error p)
        in (slice start (out - start) d, p\<lparr>m_data := d, m_need_error := need_error\<rparr>))"

subsection \<open>The parser\<close>

definition skip :: "bool \<Rightarrow> jsonparser \<Rightarrow> jsonparser" where
  "skip json5 p =
     (let (at, need_error) = skip_spaces json5 (m_data p) (m_at p) (m_need_error p)
      in p\<lparr>m_at := at, m_need_error := need_error\<rparr>)"

definition json_init :: "bool \<Rightarrow> bytes \<Rightarrow> jsonparser" where
  "json_init json5 json =
     (let p = skip json5 \<lparr>m_data = json, m_at = 0, m_want_key = False, m_errored = False, m_need_error = False,
        m_nesting = []\<rparr>
      in if rd (m_data p) (m_at p) = 0 then p\<lparr>m_need_error := True\<rparr> else p)"

definition end_event :: "jsonparser \<Rightarrow> event \<times> jsonparser" where
  "end_event p =
     (if m_nesting p \<noteq> [] then
        let p = p\<lparr>m_need_error := True\<rparr>; is_map = last (m_nesting p) in
        if is_map \<and> \<not> m_want_key p then (Jnull, p\<lparr>m_want_key := True\<rparr>)
        else
          let p = p\<lparr>m_nesting := butlast (m_nesting p)\<rparr>;
              next_map = (m_nesting p \<noteq> [] \<and> last (m_nesting p))
          in (if is_map then Exit_map else Exit_list, p\<lparr>m_want_key := next_map\<rparr>)
      else (Finish, p))"

definition prepare_next :: "bool \<Rightarrow> event \<Rightarrow> nat \<Rightarrow> jsonparser \<Rightarrow> event \<times> jsonparser" where
  "prepare_next json5 ev forward p =
     (let p = skip json5 (p\<lparr>m_at := m_at p + forward\<rparr>) in
      if m_nesting p = [] then
        (ev, if m_at p \<noteq> length (m_data p) then p\<lparr>m_need_error := True, m_at := length (m_data p)\<rparr> else p)
      else
        let c = rd (m_data p) (m_at p);
            p = (if c = 0x2C then
                   let p = skip json5 (p\<lparr>m_at := m_at p + 1\<rparr>); c = rd (m_data p) (m_at p)
                   in if \<not> json5 \<and> (c = 0x5D \<or> c = 0x7D) then p\<lparr>m_need_error := True\<rparr> else p
                 else if c \<noteq> 0x5D \<and> c \<noteq> 0x7D then p\<lparr>m_need_error := True\<rparr> else p)
        in (ev, p\<lparr>m_want_key := last (m_nesting p)\<rparr>))"

definition json_error :: "jsonparser \<Rightarrow> event \<times> jsonparser" where
  "json_error p = (Jerror, p\<lparr>m_errored := True\<rparr>)"

definition close_bracket :: "bool \<Rightarrow> bool \<Rightarrow> jsonparser \<Rightarrow> event \<times> jsonparser" where
  "close_bracket json5 is_brace p =
     (let p = p\<lparr>m_at := m_at p + 1\<rparr> in
      if m_nesting p = [] \<or> last (m_nesting p) \<noteq> is_brace then json_error p
      else prepare_next json5 (if is_brace then Exit_map else Exit_list) 0 (p\<lparr>m_nesting := butlast (m_nesting p)\<rparr>))"

text \<open>The end of a string: its terminator or the line break or NUL it runs into.\<close>

function scan_string :: "bool \<Rightarrow> bytes \<Rightarrow> byte \<Rightarrow> nat \<Rightarrow> bool \<Rightarrow> nat \<times> bool" where
  "scan_string json5 d term at need_error =
     (if rd d at = 0x5C \<and> rd d (at + 1) \<noteq> 0 then
        scan_string json5 d term (if rd d (at + 1) = 0x0D \<and> rd d (at + 2) = 0x0A then at + 3 else at + 2) need_error
      else
        let need_error = (need_error \<or> \<not> json5 \<and> rd d at < 0x20) in
        if rd d at = 0x0A \<or> rd d at = 0x0D \<or> rd d at = 0 then (at, True)
        else if rd d at = term then (at, need_error)
        else scan_string json5 d term (at + 1) need_error)"
  by pat_completeness auto
termination
  by (relation "measure (\<lambda>(json5, d, term, at, need_error). length d - at)") (auto dest!: rd_nonzero)

declare scan_string.simps [simp del]

definition parse_str :: "bool \<Rightarrow> jsonparser \<Rightarrow> nat \<times> nat \<times> jsonparser" where
  "parse_str json5 p =
     (let d = m_data p; term = rd d (m_at p); start = m_at p + 1;
          (at, need_error) = scan_string json5 d term start (m_need_error p)
      in (start, at - start, p\<lparr>m_at := (if rd d at = term then at + 1 else at), m_need_error := need_error\<rparr>))"

definition finish_key :: "bool \<Rightarrow> bool \<Rightarrow> nat \<Rightarrow> nat \<Rightarrow> jsonparser \<Rightarrow> event \<times> jsonparser" where
  "finish_key json5 host start len p =
     (let p = skip json5 p;
          p = (if rd (m_data p) (m_at p) = 0x3A then p\<lparr>m_at := m_at p + 1\<rparr> else p\<lparr>m_need_error := True\<rparr>);
          (str, p) = decode_backslashes json5 host start len (p\<lparr>m_want_key := False\<rparr>)
      in (Map_key str, p))"

definition next_key :: "bool \<Rightarrow> bool \<Rightarrow> jsonparser \<Rightarrow> event \<times> jsonparser" where
  "next_key json5 host p =
     (let d = m_data p; c = rd d (m_at p) in
      if c = 0x22 \<or> json5 \<and> c = 0x27 then
        let (start, len, p) = parse_str json5 p in finish_key json5 host start len p
      else if c = 0x7D then close_bracket json5 True p
      else if json5 then
        let ret_len = js_identifier_name (drop (m_at p) d) in
        if ret_len = 0 then json_error (p\<lparr>m_at := m_at p + 1\<rparr>)
        else finish_key json5 host (m_at p) ret_len (p\<lparr>m_at := m_at p + ret_len\<rparr>)
      else finish_key json5 host 0 0 (p\<lparr>m_need_error := True\<rparr>))"

text \<open>The digits of a decimal number from \<open>at\<close>: the index after it and the error flag.\<close>

definition decimal_end :: "bool \<Rightarrow> bytes \<Rightarrow> nat \<Rightarrow> bool \<Rightarrow> nat \<times> bool" where
  "decimal_end json5 d at need_error =
     (let need_error = (need_error \<or> rd d at = 0x30 \<and> isdigit (rd d (at + 1)));
          need_error = (need_error \<or> \<not> isdigit (rd d at) \<and> \<not> isdigit (rd d (at + 1)));
          at = span_end isdigit d at;
          (at, need_error) =
            (if rd d at = 0x2E then
               (span_end isdigit d (at + 1), need_error \<or> \<not> json5 \<and> \<not> isdigit (rd d (at + 1)))
             else (at, need_error))
      in if rd d at = 0x65 \<or> rd d at = 0x45 then
           let at = at + 1; at = (if rd d at = 0x2B \<or> rd d at = 0x2D then at + 1 else at)
           in (span_end isdigit d at, need_error \<or> \<not> isdigit (rd d at))
         else (at, need_error))"

definition parse_num :: "bool \<Rightarrow> bool \<Rightarrow> jsonparser \<Rightarrow> event \<times> jsonparser" where
  "parse_num json5 host p =
     (let d = m_data p; num_start = m_at p;
          at = (if json5 \<and> rd d num_start = 0x2B \<or> rd d num_start = 0x2D then num_start + 1 else num_start);
          done = (\<lambda>at need_error. prepare_next json5 (Jnum (slice num_start (at - num_start) d)) 0
            (p\<lparr>m_at := at, m_need_error := need_error\<rparr>)) in
      if json5 \<and> at + 8 \<le> length d \<and> readu_le64 host (drop at d) = 0x7974696E69666E49 then done (at + 8) (m_need_error p)
      else if json5 \<and> rd d at = 0x4E \<and> rd d (at + 1) = 0x61 \<and> rd d (at + 2) = 0x4E then done (at + 3) (m_need_error p)
      else if json5 \<and> rd d at = 0x30 \<and> (rd d (at + 1) = 0x78 \<or> rd d (at + 1) = 0x58) then
        done (span_end isxdigit d (at + 2)) (m_need_error p \<or> \<not> isxdigit (rd d (at + 2)))
      else if \<not> isdigit (rd d at) \<and> (\<not> json5 \<or> rd d at \<noteq> 0x2E) then json_error (p\<lparr>m_at := at + 1\<rparr>)
      else let (at, need_error) = decimal_end json5 d at (m_need_error p) in done at need_error)"

definition next_value :: "bool \<Rightarrow> bool \<Rightarrow> jsonparser \<Rightarrow> event \<times> jsonparser" where
  "next_value json5 host p =
     (let d = m_data p; at = m_at p; c = rd d at in
      if c = 0x7B then (Enter_map, p\<lparr>m_at := at + 1, m_want_key := True, m_nesting := m_nesting p @ [True]\<rparr>)
      else if c = 0x5B then (Enter_list, p\<lparr>m_at := at + 1, m_nesting := m_nesting p @ [False]\<rparr>)
      else if c = 0x5D then close_bracket json5 False p
      else if c = 0x22 \<or> json5 \<and> c = 0x27 then
        let (start, len, p) = parse_str json5 p; (str, p) = decode_backslashes json5 host start len p
        in prepare_next json5 (Jstr str) 0 p
      else if at + 4 \<le> length d \<and> readu_le32 host (drop at d) = 0x65757274 then prepare_next json5 Jtrue 4 p
      else if at + 5 \<le> length d \<and> readu_le32 host (drop (at + 1) d) = 0x65736C61 then prepare_next json5 Jfalse 5 p
      else if at + 4 \<le> length d \<and> readu_le32 host (drop at d) = 0x6C6C756E then prepare_next json5 Jnull 4 p
      else parse_num json5 host p)"

definition next_inner :: "bool \<Rightarrow> bool \<Rightarrow> jsonparser \<Rightarrow> event \<times> jsonparser" where
  "next_inner json5 host p =
     (let p = skip json5 p in
      if m_need_error p then (Jerror, p\<lparr>m_need_error := False, m_errored := True\<rparr>)
      else if m_at p = length (m_data p) then end_event p
      else if m_want_key p then next_key json5 host p
      else next_value json5 host p)"

fun json_events :: "nat \<Rightarrow> bool \<Rightarrow> bool \<Rightarrow> jsonparser \<Rightarrow> event list" where
  "json_events 0 json5 host p = []"
| "json_events (Suc n) json5 host p =
     (let (ev, p) = next_inner json5 host p in ev # (if ev = Finish then [] else json_events n json5 host p))"

end
