(* ===== verification/Json_Live.thy ===== *)
theory Json_Live
  imports Json_Parser
begin

text \<open>
  What the JSON parser guarantees for every document: events that enter and leave are paired, the
  parser stays inside its buffer and reaches the end of the document after a bounded number of calls,
  except for documents that end in a minus sign, where it steps over the terminating NUL.
\<close>

subsection \<open>Nesting\<close>

lemma skip_fields [simp]:
  "m_nesting (skip json5 p) = m_nesting p" "m_data (skip json5 p) = m_data p" "m_want_key (skip json5 p) = m_want_key p"
  "m_errored (skip json5 p) = m_errored p"
  by (simp_all add: skip_def split: prod.splits)

lemma decode_backslashes_nesting:
  "decode_backslashes json5 host start len p = (s, p') \<Longrightarrow>
    m_nesting p' = m_nesting p \<and> m_at p' = m_at p \<and> m_want_key p' = m_want_key p"
  by (auto simp: decode_backslashes_def Let_def split: if_splits prod.splits)

lemma prepare_next_nesting: "prepare_next json5 ev n p = (ev', p') \<Longrightarrow> ev' = ev \<and> m_nesting p' = m_nesting p"
  by (auto simp: prepare_next_def Let_def split: if_splits)

fun nest :: "bool list \<Rightarrow> event \<Rightarrow> bool list option" where
  "nest st Enter_list = Some (st @ [False])"
| "nest st Enter_map = Some (st @ [True])"
| "nest st Exit_list = (if st \<noteq> [] \<and> \<not> last st then Some (butlast st) else None)"
| "nest st Exit_map = (if st \<noteq> [] \<and> last st then Some (butlast st) else None)"
| "nest st Finish = (if st = [] then Some [] else None)"
| "nest st _ = Some st"

definition nest_step :: "jsonparser \<Rightarrow> event \<times> jsonparser \<Rightarrow> bool" where
  "nest_step p r \<longleftrightarrow> nest (m_nesting p) (fst r) = Some (m_nesting (snd r))"

lemma if_step: "nest_step p r \<Longrightarrow> nest_step p r' \<Longrightarrow> nest_step p (if c then r else r')"
  by simp

lemma prepare_next_step:
  assumes "nest (m_nesting p) ev = Some (m_nesting q)"
  shows "nest_step p (prepare_next json5 ev n q)"
  using assms prepare_next_nesting [of json5 ev n q] by (cases "prepare_next json5 ev n q") (simp add: nest_step_def)

lemma close_bracket_step: "nest_step p (close_bracket json5 b p)"
  unfolding close_bracket_def Let_def json_error_def
  by (auto simp: nest_step_def intro!: prepare_next_step [unfolded nest_step_def])

lemma finish_key_step: "m_nesting q = m_nesting p \<Longrightarrow> nest_step p (finish_key json5 host start len q)"
  by (auto simp: finish_key_def nest_step_def Let_def split: prod.splits dest!: decode_backslashes_nesting)

lemma parse_str_nesting: "parse_str json5 p = (start, len, p') \<Longrightarrow> m_nesting p' = m_nesting p \<and> m_want_key p' = m_want_key p"
  by (auto simp: parse_str_def Let_def split: prod.splits)

lemma next_key_step: "nest_step p (next_key json5 host p)"
  unfolding next_key_def Let_def
  by (auto simp: json_error_def nest_step_def intro!: finish_key_step [unfolded nest_step_def] close_bracket_step [unfolded nest_step_def]
    split: prod.splits dest: parse_str_nesting)

lemma json_error_step: "m_nesting q = m_nesting p \<Longrightarrow> nest_step p (json_error q)"
  by (simp add: nest_step_def json_error_def)

lemma plain_step: "m_nesting q = m_nesting p \<Longrightarrow> nest (m_nesting p) ev = Some (m_nesting p) \<Longrightarrow> nest_step p (prepare_next json5 ev n q)"
  by (rule prepare_next_step) simp

lemma parse_num_step: "nest_step p (parse_num json5 host p)"
proof -
  have num: "nest_step p (prepare_next json5 (Jnum v) n q)" if "m_nesting q = m_nesting p" for v n q
    using that by (rule plain_step) simp
  show ?thesis
    unfolding parse_num_def Let_def prod.case_eq_if
    by (intro if_step num json_error_step; simp)
qed

lemma next_value_step: "nest_step p (next_value json5 host p)"
proof -
  obtain start len q where q: "parse_str json5 p = (start, len, q)" using prod_cases3 by blast
  obtain s q' where q': "decode_backslashes json5 host start len q = (s, q')" by fastforce
  have nest: "m_nesting q' = m_nesting p" using parse_str_nesting [OF q] decode_backslashes_nesting [OF q'] by simp
  have enter: "nest_step p (Enter_map, p\<lparr>m_at := k, m_want_key := True, m_nesting := m_nesting p @ [True]\<rparr>)"
    "nest_step p (Enter_list, p\<lparr>m_at := k, m_nesting := m_nesting p @ [False]\<rparr>)" for k
    by (simp_all add: nest_step_def)
  have lit: "nest_step p (prepare_next json5 Jtrue n p)" "nest_step p (prepare_next json5 Jfalse n p)"
    "nest_step p (prepare_next json5 Jnull n p)" "nest_step p (prepare_next json5 (Jstr s) 0 q')" for n
    using nest by (auto intro: plain_step)
  show ?thesis
    unfolding next_value_def Let_def q q' prod.case
    by (simp only: enter lit close_bracket_step parse_num_step split: if_split) simp
qed

lemma end_event_step: "nest_step p (end_event p)"
  by (auto simp: end_event_def nest_step_def Let_def)

lemma next_inner_nest: "nest (m_nesting p) (fst (next_inner json5 host p)) = Some (m_nesting (snd (next_inner json5 host p)))"
proof -
  have "nest_step p (next_inner json5 host p)"
    using next_key_step [of "skip json5 p" json5 host] next_value_step [of "skip json5 p" json5 host] end_event_step [of "skip json5 p"]
    by (auto simp: next_inner_def Let_def nest_step_def)
  then show ?thesis by (simp add: nest_step_def)
qed

subsection \<open>Decoding in place\<close>

text \<open>
  \<open>reach d i fin\<close>: walking from \<open>i\<close> by single bytes and escape pairs, as the scan for the end of the
  string does, arrives at \<open>fin\<close>.
\<close>

function reach :: "bytes \<Rightarrow> nat \<Rightarrow> nat \<Rightarrow> bool" where
  "reach d i fin =
     (if fin \<le> i then i = fin
      else if rd d i = 0x5C \<and> rd d (i + 1) \<noteq> 0
      then reach d (if rd d (i + 1) = 0x0D \<and> rd d (i + 2) = 0x0A then i + 3 else i + 2) fin
      else reach d (i + 1) fin)"
  by pat_completeness auto
termination by (relation "measure (\<lambda>(d, i, fin). fin - i)") auto

declare reach.simps [simp del]

lemma reach_le: "reach d i fin \<Longrightarrow> i \<le> fin"
  by (cases "fin \<le> i") (auto simp: reach.simps [of d i])

lemma reach_refl: "reach d fin fin"
  by (simp add: reach.simps)

lemma rd_drop: "i \<le> j \<Longrightarrow> drop i d = drop i d' \<Longrightarrow> rd d j = rd d' j"
proof -
  assume "i \<le> j" and eq: "drop i d = drop i d'"
  have rd: "rd e j = rd (drop i e) (j - i)" for e using \<open>i \<le> j\<close> by (auto simp: rd_def)
  show "rd d j = rd d' j" using rd [of d] rd [of d'] eq by simp
qed

lemma reach_cong: "drop i d = drop i d' \<Longrightarrow> reach d i fin = reach d' i fin"
proof (induction d i fin rule: reach.induct)
  case (1 d i fin)
  have r: "rd d i = rd d' i" "rd d (i + 1) = rd d' (i + 1)" "rd d (i + 2) = rd d' (i + 2)"
    using rd_drop [OF _ 1(3)] by simp_all
  have dr: "drop (i + k) d = drop (i + k) d'" for k using 1(3) by (metis add.commute drop_drop)
  let ?next = "if rd d (i + 1) = 0x0D \<and> rd d (i + 2) = 0x0A then i + 3 else i + 2"
  have "drop ?next d = drop ?next d'" using dr [of 2] dr [of 3] by (simp only: split: if_split) simp
  then have "\<not> fin \<le> i \<Longrightarrow> rd d i = 0x5C \<and> rd d (i + 1) \<noteq> 0 \<Longrightarrow> reach d ?next fin = reach d' ?next fin"
    "\<not> fin \<le> i \<Longrightarrow> \<not> (rd d i = 0x5C \<and> rd d (i + 1) \<noteq> 0) \<Longrightarrow> reach d (i + 1) fin = reach d' (i + 1) fin"
    using 1(1,2) dr [of 1] by blast+
  then show ?case
    unfolding reach.simps [of d i] reach.simps [of d' i] r [symmetric] by (intro if_cong refl) blast+
qed

lemma reach_step: "reach d i fin \<Longrightarrow> rd d i \<noteq> 0x5C \<Longrightarrow> i \<noteq> fin \<Longrightarrow> reach d (i + 1) fin"
  by (auto simp: reach.simps [of d i] split: if_splits)

lemma reach_span:
  assumes "reach d a fin" and "\<And>k. a \<le> k \<Longrightarrow> k < a + n \<Longrightarrow> k < fin \<Longrightarrow> rd d k \<noteq> 0x5C" and "a + n \<le> fin"
  shows "reach d (a + n) fin"
  using assms
proof (induction n)
  case (Suc n)
  then have "reach d (a + n) fin" by simp
  then show ?case using Suc.prems(2) [of "a + n"] Suc.prems(3) reach_step [of d "a + n" fin] by simp
qed simp

lemma reach_escape:
  assumes "reach d i fin" and "rd d i = 0x5C" and "rd d (i + 1) \<noteq> 0" and "i \<noteq> fin"
  shows "reach d (i + 2) fin"
proof -
  have lt: "i < fin" using reach_le [OF assms(1)] assms(4) by simp
  show ?thesis
  proof (cases "rd d (i + 1) = 0x0D \<and> rd d (i + 2) = 0x0A")
    case True
    then have r: "reach d (i + 3) fin" using assms lt by (simp add: reach.simps [of d i])
    have "i + 2 + 1 = i + 3" by simp
    then show ?thesis using r True reach_le [OF r] by (subst reach.simps) (simp only: split: if_split, simp)
  next
    case False
    then show ?thesis using assms lt by (auto simp: reach.simps [of d i])
  qed
qed

text \<open>The byte a string ends at.\<close>

definition string_end :: "bytes \<Rightarrow> nat \<Rightarrow> bool" where
  "string_end d fin \<longleftrightarrow> rd d fin \<in> {0x0A, 0x0D, 0, 0x22, 0x27}"

lemma string_end_facts: "string_end d fin \<Longrightarrow> \<not> is_hex_digit (rd d fin) \<and> rd d fin \<noteq> 0x5C \<and> rd d fin \<noteq> 0x75"
  by (auto simp: string_end_def is_hex_digit_def)

lemma scan_string_ok:
  assumes "scan_string json5 d term at err = (fin, err')" and "at \<le> length d"
  shows "reach d at fin \<and> fin \<le> length d \<and> (rd d fin = term \<or> rd d fin \<in> {0x0A, 0x0D, 0})"
  using assms
proof (induction json5 d "term" at err rule: scan_string.induct)
  case (1 json5 d "term" at err)
  let ?esc = "rd d at = 0x5C \<and> rd d (at + 1) \<noteq> 0"
  show ?case
  proof (cases ?esc)
    case True
    let ?next = "if rd d (at + 1) = 0x0D \<and> rd d (at + 2) = 0x0A then at + 3 else at + 2"
    have "at + 1 < length d" using True rd_nonzero [of d "at + 1"] by simp
    moreover have "at + 2 < length d" if "rd d (at + 2) = 0x0A" using that rd_nonzero [of d "at + 2"] by simp
    ultimately have "?next \<le> length d" by auto
    moreover have "scan_string json5 d term ?next err = (fin, err')"
      using 1(3) True by (simp add: scan_string.simps [of json5 d "term" at])
    ultimately have IH: "reach d ?next fin \<and> fin \<le> length d \<and> (rd d fin = term \<or> rd d fin \<in> {0x0A, 0x0D, 0})"
      using 1(1) [OF True] by blast
    then have "reach d at fin" using True reach_le [of d ?next fin] by (simp add: reach.simps [of d at] split: if_splits)
    then show ?thesis using IH by blast
  next
    case False
    let ?stop = "rd d at = 0x0A \<or> rd d at = 0x0D \<or> rd d at = 0 \<or> rd d at = term"
    show ?thesis
    proof (cases ?stop)
      case True
      then have "fin = at" using 1(3) False by (auto simp: scan_string.simps [of json5 d "term" at] Let_def split: if_splits)
      then show ?thesis using True 1(4) by (auto simp: reach_refl)
    next
      case go: False
      then have "at + 1 \<le> length d" using rd_nonzero [of d at] by simp
      moreover have "scan_string json5 d term (at + 1) (err \<or> \<not> json5 \<and> rd d at < 0x20) = (fin, err')"
        using 1(3) False go by (auto simp: scan_string.simps [of json5 d "term" at] Let_def)
      ultimately have IH: "reach d (at + 1) fin \<and> fin \<le> length d \<and> (rd d fin = term \<or> rd d fin \<in> {0x0A, 0x0D, 0})"
        using 1(2) [OF False] go by auto
      then have "reach d at fin" using False reach_le [of d "at + 1" fin] by (auto simp: reach.simps [of d at])
      then show ?thesis using IH by blast
    qed
  qed
qed

lemma codepoint_put_frame:
  assumes "codepoint_put host out cp = (out', n)" and "4 \<le> length out"
  shows "length out' = length out \<and> drop 4 out' = drop 4 out \<and> n \<le> 4"
  using assms
  by (auto simp: codepoint_put_def Let_def writeu_bytes blit_def split: if_splits)

lemma put_codepoint_frame:
  assumes "put_codepoint host d out cp = (d', out')" and "out + 4 \<le> inp" and "inp \<le> length d"
  shows "length d' = length d \<and> drop inp d' = drop inp d \<and> take out d' = take out d \<and> out \<le> out' \<and> out' \<le> inp"
proof -
  obtain rest n where c: "codepoint_put host (drop out d) cp = (rest, n)" by fastforce
  then have f: "length rest = length d - out" "drop 4 rest = drop (out + 4) d" "n \<le> 4"
    using codepoint_put_frame [OF c] assms by (simp_all add: add.commute)
  have d': "d' = take out d @ rest" "out' = out + n" using assms(1) c by (simp_all add: put_codepoint_def)
  have "drop (inp - out) rest = drop (inp - out - 4) (drop 4 rest)" using assms by simp
  also have "\<dots> = drop inp d" using assms by (simp add: f(2))
  finally have "drop inp d' = drop inp d" using assms by (simp add: d' min_def)
  then show ?thesis using f assms by (simp add: d' min_def)
qed

lemma put_byte_frame:
  assumes "put_byte d out b = (d', out')" and "out < inp" and "inp \<le> length d"
  shows "length d' = length d \<and> drop inp d' = drop inp d \<and> take out d' = take out d \<and> out \<le> out' \<and> out' \<le> inp"
proof -
  have d': "d' = blit d out [b]" "out' = out + 1" using assms(1) by (simp_all add: put_byte_def)
  obtain k where k: "inp = out + 1 + k" using assms(2) by (metis Suc_eq_plus1 Suc_leI le_add_diff_inverse)
  have "drop inp d' = drop inp d"
    using assms by (simp add: d' blit_def min_def k add.commute)
  then show ?thesis using assms by (simp add: d' blit_def min_def)
qed

lemma hex_digit_escape: "is_hex_digit (0x5C :: byte) = False"
  by (simp add: is_hex_digit_def)

lemma hex_run:
  assumes "fst (fromstring_hex (map (rd d) [a..<a + n]) :: bool \<times> 'a::len word)" and "reach d a fin" and "string_end d fin"
  shows "reach d (a + n) fin"
proof -
  have hex: "is_hex_digit (rd d k)" if "a \<le> k" "k < a + n" for k
    using hex_digits_only [OF assms(1)] that by (simp add: list_all_iff)
  have "a + n \<le> fin"
  proof (rule ccontr)
    assume "\<not> a + n \<le> fin"
    then have "is_hex_digit (rd d fin)" using reach_le [OF assms(2)] by (intro hex) simp_all
    then show False using string_end_facts [OF assms(3)] by simp
  qed
  then show ?thesis using assms(2) hex hex_digit_escape by (intro reach_span) metis+
qed

lemma decode_unicode_reach:
  assumes "decode_unicode d slash = Some (cp, inp)" and "reach d (slash + 2) fin" and "string_end d fin"
    and "rd d (slash + 1) = 0x75"
  shows "reach d inp fin \<and> slash + 4 \<le> inp"
proof -
  let ?i = "slash + 2 + 4"
  obtain ok c where A: "fromstring_hex (map (rd d) [slash + 2..<slash + 2 + 4]) = (ok, c :: u32)" by fastforce
  obtain ok' low where B: "fromstring_hex (map (rd d) [?i + 2..<?i + 6]) = (ok', low :: u16)" by fastforce
  have four: "reach d ?i fin" if ok
    using hex_run [where 'a = 32, of d "slash + 2" 4, OF _ assms(2,3)] A that by simp
  have pair: "reach d (?i + 6) fin" if "reach d ?i fin" "rd d ?i = 0x5C" "rd d (?i + 1) = 0x75" ok'
  proof -
    have "rd d (?i + 1) \<noteq> 0" unfolding that(3) by simp
    moreover have "?i \<noteq> fin" using that(2) string_end_facts [OF assms(3)] by metis
    ultimately have r: "reach d (?i + 2) fin" using reach_escape [OF that(1,2)] by blast
    have "?i + 2 + 4 = ?i + 6" by simp
    then show ?thesis using hex_run [where 'a = 16, of d "?i + 2" 4 fin, OF _ r assms(3)] B that(4) by (metis fst_conv)
  qed
  have "(if \<not> ok then None
     else if 0xD800 \<le> c \<and> c \<le> 0xDCFF \<and> rd d ?i = 0x5C \<and> rd d (?i + 1) = 0x75
     then if ok' then Some (0x10000 + push_bit 10 (c - 0xD800) + (ucast low - 0xDC00), ?i + 6) else Some (c, ?i)
     else Some (c, ?i)) = Some (cp, inp)"
    using assms(1) unfolding decode_unicode_def Let_def assms(4) if_P [OF refl] A B prod.case .
  then have "inp = ?i \<and> ok \<or> inp = ?i + 6 \<and> ok \<and> rd d ?i = 0x5C \<and> rd d (?i + 1) = 0x75 \<and> ok'"
    by (auto split: if_splits)
  then show ?thesis using four pair by auto
qed

lemma decode_escape_frame:
  assumes "decode_escape False host d out slash err = (d', out', inp, err')"
    and "reach d slash fin" and "string_end d fin" and "slash < fin" and "fin \<le> length d"
    and "rd d slash = 0x5C" and "rd d (slash + 1) \<noteq> 0" and "out \<le> slash"
  shows "reach d inp fin \<and> slash < inp \<and> out' \<le> inp \<and> out \<le> out' \<and> length d' = length d \<and>
    drop inp d' = drop inp d \<and> take out d' = take out d"
proof -
  have two: "reach d (slash + 2) fin" using assms by (intro reach_escape) simp_all
  then have le: "slash + 2 \<le> fin" by (rule reach_le)
  show ?thesis
  proof (cases "rd d (slash + 1) = 0x75")
    case True
    show ?thesis
    proof (cases "decode_unicode d slash")
      case None
      then show ?thesis using assms True two by (auto simp: decode_escape_def Let_def)
    next
      case (Some r)
      obtain cp inp' where r: "r = (cp, inp')" by (cases r)
      have u: "reach d inp' fin" "slash + 4 \<le> inp'" using decode_unicode_reach [OF _ two assms(3) True] Some r by auto
      have "put_codepoint host d out cp = (d', out')" "inp = inp'"
        using assms(1) True Some r by (auto simp: decode_escape_def Let_def split: prod.splits)
      then show ?thesis using put_codepoint_frame [of host d out cp d' out' inp] u assms(5,8) reach_le [OF u(1)] by simp
    qed
  next
    case False
    have put: "put_byte d out b = (d', out') \<and> inp = slash + 2 \<or> d' = d \<and> out' = out \<and> inp = slash + 2"
      if "b = snd (d, (if rd d (slash + 1) = 0x62 then 0x08 else if rd d (slash + 1) = 0x66 then 0x0C
        else if rd d (slash + 1) = 0x6E then 0x0A else if rd d (slash + 1) = 0x72 then 0x0D
        else if rd d (slash + 1) = 0x74 then 0x09 else rd d (slash + 1)))" for b
      using assms(1) False that by (auto simp: decode_escape_def Let_def split: if_splits prod.splits)
    then show ?thesis
      using put_byte_frame [of d out _ d' out' "slash + 2"] two le assms(5,8) by fastforce
  qed
qed

lemma blit_frame:
  assumes "out \<le> inp" and "inp + length run \<le> length d"
  shows "length (blit d out run) = length d \<and> take out (blit d out run) = take out d \<and>
    drop (inp + length run) (blit d out run) = drop (inp + length run) d"
proof -
  obtain k where k: "inp = out + k" using assms(1) le_iff_add by blast
  have "length d \<le> out \<Longrightarrow> run = []" using assms(2) by (cases run) (simp_all add: k)
  then show ?thesis using assms by (auto simp: blit_def min_def k add.commute add.left_commute)
qed

lemma decode_loop_frame:
  assumes "decode_loop False host d out inp fin err = (d', out', err')"
    and "reach d inp fin" and "string_end d fin" and "fin \<le> length d" and "out \<le> inp"
  shows "length d' = length d \<and> take out d' = take out d \<and> drop fin d' = drop fin d \<and> out \<le> out' \<and> out' \<le> fin"
  using assms
proof (induction "fin - inp" arbitrary: d out inp err rule: less_induct)
  case less
  define run where "run = takeWhile (\<lambda>c. c \<noteq> 0x5C) (slice inp (fin - inp) d)"
  define slash where "slash = inp + length run"
  define d1 where "d1 = blit d out run"
  have inp: "inp \<le> fin" using less.prems(2) by (rule reach_le)
  have len: "length (slice inp (fin - inp) d) = fin - inp" using inp less.prems(4) by (simp add: slice_def)
  have run: "length run \<le> fin - inp" using length_takeWhile_le [of _ "slice inp (fin - inp) d"] len by (simp add: run_def)
  then have slash: "slash \<le> fin" using inp by (simp add: slash_def)
  have f1: "length d1 = length d" "take out d1 = take out d" "drop slash d1 = drop slash d"
    using blit_frame [OF less.prems(5), of run d] slash less.prems(4) by (simp_all add: d1_def slash_def)
  have after: "drop e d1 = drop e d" if "slash \<le> e" for e
    using f1(3) that by (metis drop_drop le_add_diff_inverse2)
  have out1: "out + length run \<le> slash" using less.prems(5) by (simp add: slash_def)
  have prefix: "take out e = take out d" if "take (out + length run) e = take (out + length run) d1" for e
    using that f1(2) by (metis min.absorb1 le_add1 take_take)
  have reach1: "reach d slash fin"
    unfolding slash_def
  proof (rule reach_span [OF less.prems(2)])
    fix k assume k: "inp \<le> k" "k < inp + length run"
    then have "run ! (k - inp) \<in> set run" by simp
    then have "run ! (k - inp) \<noteq> 0x5C" using set_takeWhileD unfolding run_def by metis
    moreover have "k < length d" using k run inp less.prems(4) by linarith
    then have "run ! (k - inp) = rd d k"
      using k run len less.prems(4) inp by (simp add: run_def takeWhile_nth slice_def rd_def)
    ultimately show "rd d k \<noteq> 0x5C" by simp
  qed (use slash in \<open>simp add: slash_def\<close>)
  have loop: "(if fin \<le> slash then (d1, out + length run, err)
      else if rd d1 (slash + 1) = 0 then (d1, out + length run, True)
      else let (d, out, inp, err) = decode_escape False host d1 (out + length run) slash err
        in decode_loop False host d out inp fin err) = (d', out', err')"
    using less.prems(1) by (simp only: decode_loop.simps [of False host d] run_def [symmetric] slash_def [symmetric] d1_def [symmetric] Let_def)
  show ?case
  proof (cases "fin \<le> slash \<or> rd d1 (slash + 1) = 0")
    case True
    then have "d' = d1" "out' = out + length run" using loop by (auto split: if_splits)
    then show ?thesis using f1 after [OF slash] out1 slash by simp
  next
    case False
    then have lt: "slash < fin" by simp
    obtain d2 out2 inp2 err2 where e: "decode_escape False host d1 (out + length run) slash err = (d2, out2, inp2, err2)"
      by (metis prod_cases4)
    have "rd d1 slash = rd d slash" using rd_drop [OF _ f1(3)] by simp
    moreover have "rd d slash = 0x5C"
    proof -
      have "length run < length (slice inp (fin - inp) d)" using lt len by (simp add: slash_def)
      then have "slice inp (fin - inp) d ! length run = 0x5C"
        using nth_length_takeWhile [of "\<lambda>c. c \<noteq> 0x5C" "slice inp (fin - inp) d"] by (simp add: run_def)
      then show ?thesis using lt less.prems(4) by (simp add: slice_def rd_def slash_def)
    qed
    moreover have "string_end d1 fin"
      using less.prems(3) rd_drop [OF slash f1(3)] by (simp add: string_end_def)
    ultimately have f2: "reach d1 inp2 fin" "slash < inp2" "out2 \<le> inp2" "out + length run \<le> out2" "length d2 = length d1"
      "drop inp2 d2 = drop inp2 d1" "take (out + length run) d2 = take (out + length run) d1" "string_end d1 fin"
      using decode_escape_frame [OF e, of fin] False lt reach1 reach_cong [OF f1(3), of fin] less.prems(4) f1(1) out1 by auto
    have inp2: "inp2 \<le> fin" using f2(1) by (rule reach_le)
    have after2: "drop fin d2 = drop fin d1" using f2(6) inp2 by (metis drop_drop le_add_diff_inverse2)
    have r2: "reach d2 inp2 fin" using f2(1) reach_cong [OF f2(6)] by simp
    have s2: "string_end d2 fin" using f2(8) rd_drop [OF inp2 f2(6)] by (simp add: string_end_def)
    have "decode_loop False host d2 out2 inp2 fin err2 = (d', out', err')" using loop False e by simp
    moreover have "fin - inp2 < fin - inp" using f2(2) inp2 by (simp add: slash_def)
    ultimately have IH: "length d' = length d2 \<and> take out2 d' = take out2 d2 \<and> drop fin d' = drop fin d2 \<and> out2 \<le> out' \<and> out' \<le> fin"
      using less.hyps [of inp2 d2 out2 err2] r2 s2 less.prems(4) f1(1) f2(3,5) by simp
    have "take (out + length run) d' = take (out + length run) d2"
      using IH f2(4) by (metis min.absorb1 take_take)
    then show ?thesis using IH f1(1) f2(4,5,7) after2 after [OF slash] prefix [of d'] by simp
  qed
qed

lemma decode_backslashes_frame:
  assumes "decode_backslashes False host start len p = (s, p')" and "reach (m_data p) start (start + len)"
    and "string_end (m_data p) (start + len)" and "start + len \<le> length (m_data p)"
  shows "length (m_data p') = length (m_data p) \<and> drop (start + len) (m_data p') = drop (start + len) (m_data p) \<and>
    m_at p' = m_at p \<and> m_want_key p' = m_want_key p \<and> m_nesting p' = m_nesting p"
proof (cases "0x5C \<in> set (slice start len (m_data p))")
  case True
  obtain d out err where l: "decode_loop False host (m_data p) start start (start + len) (m_need_error p) = (d, out, err)"
    by (metis prod_cases3)
  then have "p' = p\<lparr>m_data := d, m_need_error := err\<rparr>" using True assms(1) by (simp add: decode_backslashes_def Let_def)
  then show ?thesis using decode_loop_frame [OF l assms(2,3,4)] by simp
next
  case False
  then show ?thesis using assms(1) by (simp add: decode_backslashes_def Let_def)
qed

subsection \<open>Progress\<close>

lemma isspace_rd: "isspace (rd d at) \<Longrightarrow> at < length d \<and> rd d at < 0x80"
  using rd_nonzero [of d at] by (auto simp: isspace_iff)

lemma span_end_step:
  "span_end P d at = (if at < length d \<and> P (d ! at) then span_end P d (at + 1) else at)"
proof (cases "at < length d")
  case True
  then show ?thesis by (simp add: span_end_def Cons_nth_drop_Suc [symmetric])
qed (simp add: span_end_def)

lemma skip_spaces_strict: "skip_spaces False d at err = (span_end isspace d at, err)"
proof (induction "length d - at" arbitrary: at rule: less_induct)
  case less
  show ?case
  proof (cases "isspace (rd d at)")
    case True
    then have at: "at < length d" "rd d at < 0x80" using isspace_rd by simp_all
    then show ?thesis
      using less [of "at + 1"] True span_end_step [of isspace d at] by (simp add: skip_spaces.simps [of False d at] rd_def)
  next
    case False
    then have "span_end isspace d at = at" by (subst span_end_step) (auto simp: rd_def)
    then show ?thesis using False by (simp add: skip_spaces.simps [of False d at])
  qed
qed

lemma skip_strict: "skip False p = p\<lparr>m_at := span_end isspace (m_data p) (m_at p)\<rparr>"
  by (simp add: skip_def skip_spaces_strict)

text \<open>\<open>q\<close> is at least \<open>k\<close> bytes further than \<open>p\<close>, inside the buffer, and what is left is unchanged.\<close>

definition adv :: "nat \<Rightarrow> jsonparser \<Rightarrow> jsonparser \<Rightarrow> bool" where
  "adv k p q \<longleftrightarrow> length (m_data q) = length (m_data p) \<and> drop (m_at q) (m_data q) = drop (m_at q) (m_data p) \<and>
     m_at p + k \<le> m_at q \<and> m_at q \<le> length (m_data q)"

lemma adv_trans: "adv j p q \<Longrightarrow> adv k q r \<Longrightarrow> adv (j + k) p r"
proof -
  assume a: "adv j p q" and b: "adv k q r"
  then have "m_at q \<le> m_at r" by (simp add: adv_def)
  then have "drop (m_at r) (m_data q) = drop (m_at r) (m_data p)"
    using a unfolding adv_def by (metis drop_drop le_add_diff_inverse2)
  then show ?thesis using a b by (simp add: adv_def)
qed

lemma adv_weaken: "adv j p q \<Longrightarrow> k \<le> j \<Longrightarrow> adv k p q"
  by (simp add: adv_def)

lemma adv_move: "m_data q = m_data p \<Longrightarrow> m_at p + k \<le> m_at q \<Longrightarrow> m_at q \<le> length (m_data p) \<Longrightarrow> adv k p q"
  by (simp add: adv_def)

lemma adv_skip: "m_at p \<le> length (m_data p) \<Longrightarrow> adv 0 p (skip False p)"
  using span_end_bound [of "m_at p" "m_data p" isspace] by (intro adv_move) (simp_all add: skip_strict)

lemma adv_prepare_next:
  assumes "m_at p + n \<le> length (m_data p)"
  shows "adv n p (snd (prepare_next False ev n p))"
proof -
  define q where "q = skip False (p\<lparr>m_at := m_at p + n\<rparr>)"
  have q: "m_data q = m_data p" "m_at p + n \<le> m_at q" "m_at q \<le> length (m_data p)"
    using adv_skip [of "p\<lparr>m_at := m_at p + n\<rparr>"] assms by (simp_all add: q_def adv_def)
  define r where "r = skip False (q\<lparr>m_at := m_at q + 1\<rparr>)"
  have r: "m_data r = m_data p" "m_at q + 1 \<le> m_at r \<and> m_at r \<le> length (m_data p)" if "rd (m_data q) (m_at q) = 0x2C"
    using adv_skip [of "q\<lparr>m_at := m_at q + 1\<rparr>"] q that rd_nonzero [of "m_data q" "m_at q"] by (simp_all add: r_def adv_def)
  show ?thesis
    unfolding prepare_next_def Let_def q_def [symmetric] r_def [symmetric]
    using q r assms by (auto intro!: adv_move)
qed

lemma adv_close_bracket:
  assumes "m_at p < length (m_data p)"
  shows "adv 1 p (snd (close_bracket False b p))"
proof -
  let ?q = "p\<lparr>m_at := m_at p + 1\<rparr>"
  let ?r = "?q\<lparr>m_nesting := butlast (m_nesting ?q)\<rparr>"
  have "adv 1 p (?q\<lparr>m_errored := True\<rparr>)" and r: "adv 1 p ?r" using assms by (auto intro!: adv_move)
  moreover have "adv 1 p (snd (prepare_next False ev 0 ?r))" for ev
    using adv_trans [OF r, of 0] adv_prepare_next [of ?r 0 ev] assms by simp
  ultimately show ?thesis by (simp add: close_bracket_def json_error_def Let_def)
qed

lemma parse_str_ok:
  assumes "parse_str json5 p = (start, len, q)" and "m_at p < length (m_data p)" and "rd (m_data p) (m_at p) \<in> {0x22, 0x27}"
  shows "m_data q = m_data p \<and> m_at p + 1 = start \<and> start + len \<le> m_at q \<and> m_at q \<le> length (m_data p) \<and>
    reach (m_data p) start (start + len) \<and> string_end (m_data p) (start + len) \<and> m_nesting q = m_nesting p \<and> m_want_key q = m_want_key p"
proof -
  let ?d = "m_data p" and ?t = "rd (m_data p) (m_at p)"
  obtain fin err where s: "scan_string json5 ?d ?t (m_at p + 1) (m_need_error p) = (fin, err)" by fastforce
  then have ok: "reach ?d (m_at p + 1) fin" "fin \<le> length ?d" "rd ?d fin = ?t \<or> rd ?d fin \<in> {0x0A, 0x0D, 0}"
    using scan_string_ok [OF s] assms(2) by simp_all
  have "start = m_at p + 1" "len = fin - start" "q = p\<lparr>m_at := (if rd ?d fin = ?t then fin + 1 else fin), m_need_error := err\<rparr>"
    using assms(1) s by (auto simp: parse_str_def Let_def)
  moreover have "start + (fin - start) = fin" using reach_le [OF ok(1)] calculation(1) by simp
  moreover have "fin + 1 \<le> length ?d" if "rd ?d fin = ?t" using that assms(3) rd_nonzero [of ?d fin] by auto
  moreover have "string_end ?d fin" using ok(3) assms(3) by (auto simp: string_end_def)
  ultimately show ?thesis using ok by auto
qed

lemma decode_ok:
  assumes "decode_backslashes False host start len q = (s, r)" and "m_at q \<le> length (m_data q)"
    and "reach (m_data q) start (start + len) \<and> string_end (m_data q) (start + len) \<and> start + len \<le> m_at q"
  shows "adv 0 q r \<and> m_at r = m_at q \<and> m_nesting r = m_nesting q \<and> m_want_key r = m_want_key q"
proof -
  have f: "length (m_data r) = length (m_data q)" "drop (start + len) (m_data r) = drop (start + len) (m_data q)"
    "m_at r = m_at q" "m_nesting r = m_nesting q" "m_want_key r = m_want_key q"
    using decode_backslashes_frame [OF assms(1)] assms by simp_all
  have "drop (m_at q) (m_data r) = drop (m_at q) (m_data q)"
    using f(2) assms(3) by (metis drop_drop le_add_diff_inverse2)
  then show ?thesis using f assms(2) by (simp add: adv_def)
qed

lemma adv_finish_key:
  assumes "finish_key False host start len p = (ev, r)" and "m_at p \<le> length (m_data p)"
    and "reach (m_data p) start (start + len) \<and> string_end (m_data p) (start + len) \<and> start + len \<le> m_at p \<or> len = 0"
  shows "adv 0 p r \<and> \<not> m_want_key r"
proof -
  define q where "q = skip False p"
  define q1 where "q1 = (if rd (m_data q) (m_at q) = 0x3A then q\<lparr>m_at := m_at q + 1\<rparr> else q\<lparr>m_need_error := True\<rparr>)"
  obtain s r' where d: "decode_backslashes False host start len (q1\<lparr>m_want_key := False\<rparr>) = (s, r')" by fastforce
  then have r': "r = r'" using assms(1) by (simp add: finish_key_def Let_def q_def [symmetric] q1_def [symmetric])
  have q: "adv 0 p q" "m_data q = m_data p" using adv_skip [of p] assms(2) by (simp_all add: q_def)
  have "m_data q1 = m_data p" "m_at q \<le> m_at q1" "m_at q1 \<le> length (m_data p)"
    using q rd_nonzero [of "m_data q" "m_at q"] by (auto simp: q1_def adv_def)
  then have q1: "adv 0 p (q1\<lparr>m_want_key := False\<rparr>)" "m_data q1 = m_data p" "m_at p \<le> m_at q1"
    using q by (auto intro!: adv_move simp: adv_def)
  show ?thesis
  proof (cases "len = 0")
    case True
    then have "r = q1\<lparr>m_want_key := False\<rparr>" using d r' by (simp add: decode_backslashes_def slice_def)
    then show ?thesis using q1 by simp
  next
    case False
    have "m_at q1 \<le> length (m_data q1)" using q1(1,2) by (simp add: adv_def)
    then have "adv 0 (q1\<lparr>m_want_key := False\<rparr>) r \<and> m_want_key r = False"
      using decode_ok [OF d [folded r']] assms(3) q1(2,3) False by simp
    then show ?thesis using adv_trans [OF q1(1), of 0 r] by simp
  qed
qed

lemma adv_next_key:
  assumes "next_key False host p = (ev, q)" and "m_at p < length (m_data p)"
  shows "adv 0 p q \<and> (adv 1 p q \<or> \<not> m_want_key q)"
proof -
  let ?c = "rd (m_data p) (m_at p)"
  consider "?c = 0x22" | "?c = 0x7D" | "?c \<noteq> 0x22" "?c \<noteq> 0x7D" by blast
  then show ?thesis
  proof cases
    case 1
    obtain start len r where s: "parse_str False p = (start, len, r)" using prod_cases3 by blast
    then have f: "finish_key False host start len r = (ev, q)" using assms(1) 1 by (simp add: next_key_def)
    have ok: "m_data r = m_data p" "m_at p \<le> m_at r" "m_at r \<le> length (m_data p)"
      "reach (m_data r) start (start + len) \<and> string_end (m_data r) (start + len) \<and> start + len \<le> m_at r"
      using parse_str_ok [OF s assms(2)] 1 by auto
    have "adv 0 p r" using ok by (intro adv_move) auto
    then show ?thesis using adv_finish_key [OF f] ok adv_trans [of 0 p r 0 q] by simp
  next
    case 2
    then have "q = snd (close_bracket False True p)" using assms(1) by (simp add: next_key_def)
    then have "adv 1 p q" using adv_close_bracket [OF assms(2)] by simp
    then show ?thesis using adv_weaken [of 1 p q 0] by simp
  next
    case 3
    then have f: "finish_key False host 0 0 (p\<lparr>m_need_error := True\<rparr>) = (ev, q)" using assms(1) by (simp add: next_key_def)
    show ?thesis using adv_finish_key [OF f] assms(2) by (simp add: adv_def)
  qed
qed

lemma decimal_end_bound:
  assumes "decimal_end False d at err = (at', err')" and "isdigit (rd d at)"
  shows "at < at' \<and> at' \<le> length d"
proof -
  have at: "at < length d" using assms(2) rd_nonzero [of d at] by (cases "rd d at = 0") (simp_all add: isdigit_def)
  define b where "b = span_end isdigit d at"
  have b: "at < b" "b \<le> length d"
    using at assms(2) span_end_step [of isdigit d at] span_end_bound [of "at + 1" d isdigit] by (auto simp: b_def rd_def)
  define c where "c = (if rd d b = 0x2E then span_end isdigit d (b + 1) else b)"
  have c: "b \<le> c" "c \<le> length d"
    using b span_end_bound [of "b + 1" d isdigit] rd_nonzero [of d b] by (auto simp: c_def)
  define e where "e = (if rd d (c + 1) = 0x2B \<or> rd d (c + 1) = 0x2D then c + 1 + 1 else c + 1)"
  have e: "c \<le> e" by (auto simp: e_def)
  have fin: "c < span_end isdigit d e" "span_end isdigit d e \<le> length d" if "rd d c = 0x65 \<or> rd d c = 0x45"
  proof -
    have "c + 1 \<le> length d" using that rd_nonzero [of d c] by auto
    moreover have "c + 1 + 1 \<le> length d" if "rd d (c + 1) = 0x2B \<or> rd d (c + 1) = 0x2D"
      using that rd_nonzero [of d "c + 1"] by auto
    ultimately have "c < e" "e \<le> length d" by (auto simp: e_def)
    then show "c < span_end isdigit d e" "span_end isdigit d e \<le> length d"
      using span_end_bound [of e d isdigit] by auto
  qed
  have "at' = (if rd d c = 0x65 \<or> rd d c = 0x45 then span_end isdigit d e else c)"
    using assms(1) unfolding decimal_end_def Let_def b_def [symmetric] by (auto simp: c_def e_def split: if_splits prod.splits)
  then show ?thesis using fin b c by auto
qed

lemma next_key_nesting:
  assumes "next_key False host p = (ev, q)" and "m_at p < length (m_data p)"
  shows "length (m_nesting q) = length (m_nesting p) \<or> adv 1 p q"
proof (cases "rd (m_data p) (m_at p) = 0x7D")
  case True
  then have "q = snd (close_bracket False True p)" using assms(1) by (simp add: next_key_def)
  then show ?thesis using adv_close_bracket [OF assms(2)] by simp
next
  case False
  have "m_nesting q = m_nesting p"
    using assms(1) False
    by (auto simp: next_key_def finish_key_def Let_def split: prod.splits if_splits dest!: parse_str_nesting decode_backslashes_nesting)
  then show ?thesis by simp
qed

text \<open>The last byte of what is left of the document is not a minus sign.\<close>

definition inside :: "jsonparser \<Rightarrow> bool" where
  "inside p \<longleftrightarrow> m_at p \<le> length (m_data p) \<and> (m_at p < length (m_data p) \<longrightarrow> last (m_data p) \<noteq> 0x2D)"

lemma inside_adv:
  assumes "adv k p q" and "inside p"
  shows "inside q"
proof -
  have "last (m_data q) = last (m_data p)" if "m_at q < length (m_data q)"
    using assms(1) that last_drop [of "m_at q" "m_data q"] last_drop [of "m_at q" "m_data p"] by (simp add: adv_def)
  then show ?thesis using assms by (auto simp: inside_def adv_def)
qed

lemma adv_parse_num:
  assumes "inside p" and "m_at p < length (m_data p)"
  shows "adv 1 p (snd (parse_num False host p))"
proof -
  let ?d = "m_data p"
  define at where "at = (if rd ?d (m_at p) = 0x2D then m_at p + 1 else m_at p)"
  have minus: "m_at p + 1 < length ?d" if "rd ?d (m_at p) = 0x2D"
  proof (rule ccontr)
    assume "\<not> m_at p + 1 < length ?d"
    then have "m_at p = length ?d - 1" using assms(2) by simp
    moreover have "?d \<noteq> []" using assms(2) by auto
    ultimately have "last ?d = rd ?d (m_at p)" using assms(2) last_conv_nth [of ?d] by (simp add: rd_def)
    then show False using that assms by (simp add: inside_def)
  qed
  have at: "m_at p \<le> at" "at < length ?d" using minus assms(2) by (auto simp: at_def)
  show ?thesis
  proof (cases "isdigit (rd ?d at)")
    case True
    obtain at' err where e: "decimal_end False ?d at (m_need_error p) = (at', err)" by fastforce
    let ?q = "p\<lparr>m_at := at', m_need_error := err\<rparr>"
    have q: "adv 1 p ?q" using decimal_end_bound [OF e True] at by (intro adv_move) simp_all
    then have "adv 1 p (snd (prepare_next False ev 0 ?q))" for ev
      using adv_trans [OF q, of 0] adv_prepare_next [of ?q 0 ev] by (simp add: adv_def)
    then show ?thesis using True e by (simp add: parse_num_def Let_def at_def [symmetric])
  next
    case False
    then show ?thesis using at by (auto simp: parse_num_def Let_def at_def [symmetric] json_error_def intro!: adv_move)
  qed
qed

lemma adv_next_value:
  assumes "inside p" and "m_at p < length (m_data p)"
  shows "adv 1 p (snd (next_value False host p))"
proof -
  let ?c = "rd (m_data p) (m_at p)"
  obtain start len q where q: "parse_str False p = (start, len, q)" using prod_cases3 by blast
  obtain s r where r: "decode_backslashes False host start len q = (s, r)" by fastforce
  have str: "adv 1 p (snd (prepare_next False (Jstr s) 0 r))" if "?c = 0x22"
  proof -
    have ok: "m_data q = m_data p" "m_at p + 1 \<le> m_at q" "m_at q \<le> length (m_data p)"
      "reach (m_data q) start (start + len) \<and> string_end (m_data q) (start + len) \<and> start + len \<le> m_at q"
      using parse_str_ok [OF q assms(2)] that by auto
    have pq: "adv 1 p q" using ok by (intro adv_move) auto
    have qr: "adv 0 q r" using decode_ok [OF r] ok by simp
    have "adv 0 r (snd (prepare_next False (Jstr s) 0 r))" using adv_prepare_next [of r 0 "Jstr s"] qr by (simp add: adv_def)
    then show ?thesis using adv_trans [OF adv_trans [OF pq qr]] by fastforce
  qed
  have lit: "adv 1 p (snd (prepare_next False ev n p))" if "m_at p + n \<le> length (m_data p)" "1 \<le> n" for ev n
    using adv_prepare_next [OF that(1)] that(2) by (rule adv_weaken)
  have enter: "adv 1 p (p\<lparr>m_at := m_at p + 1, m_want_key := w, m_nesting := n\<rparr>)"
    "adv 1 p (p\<lparr>m_at := m_at p + 1, m_nesting := n\<rparr>)" for w n
    using assms(2) by (auto intro!: adv_move)
  show ?thesis
    using str lit [of 4 Jtrue] lit [of 5 Jfalse] lit [of 4 Jnull] enter adv_close_bracket [OF assms(2), of False]
      adv_parse_num [OF assms, of host]
    unfolding next_value_def Let_def q r prod.case by (simp split: if_split)
qed

subsection \<open>Every document is parsed in a bounded number of steps\<close>

text \<open>What the parser has left to do: bytes to read, brackets to close, a value to supply for a key, an error to report.\<close>

definition todo :: "jsonparser \<Rightarrow> nat" where
  "todo p =
     8 * (length (m_data p) - m_at p) + 4 * length (m_nesting p) +
     (if (m_at p < length (m_data p)) = m_want_key p then 2 else 0) + of_bool (m_need_error p)"

lemma todo_adv:
  assumes "adv 1 p q" and "length (m_nesting q) \<le> length (m_nesting p) + 1"
  shows "todo q < todo p"
proof -
  have "8 * (length (m_data q) - m_at q) + 8 \<le> 8 * (length (m_data p) - m_at p)" using assms(1) by (auto simp: adv_def)
  then show ?thesis using assms(2) by (simp add: todo_def of_bool_def split: if_splits)
qed

lemma next_inner_length: "length (m_nesting (snd (next_inner json5 host p))) \<le> length (m_nesting p) + 1"
proof -
  have "nest st ev = Some st' \<Longrightarrow> length st' \<le> length st + 1" for st ev st'
    by (cases ev) (auto split: if_splits)
  then show ?thesis using next_inner_nest by blast
qed

lemma todo_end_event:
  assumes "m_at p = length (m_data p)" and "end_event p = (ev, q)" and "ev \<noteq> Finish" and "\<not> m_need_error p"
  shows "todo q < todo p"
proof (cases "m_nesting p" rule: rev_cases)
  case Nil
  then show ?thesis using assms by (simp add: end_event_def)
next
  case (snoc st b)
  then show ?thesis using assms by (auto simp: end_event_def todo_def Let_def split: if_splits)
qed

lemma next_inner_progress:
  assumes "next_inner False host p = (ev, q)" and "inside p"
  shows "adv 0 p q \<and> (ev \<noteq> Finish \<longrightarrow> todo q < todo p)"
proof -
  define s where "s = skip False p"
  have ps: "adv 0 p s" "m_want_key s = m_want_key p" "m_nesting s = m_nesting p" "m_need_error s = m_need_error p"
    using adv_skip [of p] assms(2) by (simp_all add: s_def inside_def skip_strict)
  have ins: "inside s" using inside_adv [OF ps(1) assms(2)] .
  have len: "length (m_nesting q) \<le> length (m_nesting p) + 1"
    using next_inner_length [of False host p] assms(1) by simp
  have far: ?thesis if "adv 1 s q"
    using adv_trans [OF ps(1) that] adv_weaken [of 1 p q 0] todo_adv [of p q] len by simp
  have moved: ?thesis if "adv 0 s q" "m_at s \<noteq> m_at p"
  proof -
    have "adv 1 p s" using ps(1) that(2) by (simp add: adv_def)
    then have "adv 1 p q" using adv_trans [of 1 p s 0 q] that(1) by simp
    then show ?thesis using adv_weaken [of 1 p q 0] todo_adv [of p q] len by simp
  qed
  have same: "todo s = todo p" if "m_at s = m_at p"
    using that ps by (simp add: todo_def adv_def)
  have near: ?thesis if "adv 0 s q" "ev \<noteq> Finish \<longrightarrow> todo q < todo s"
    using moved [OF that(1)] same that(2) adv_trans [OF ps(1) that(1)] by fastforce
  consider "m_need_error s" | "\<not> m_need_error s" "m_at s = length (m_data s)"
    | "\<not> m_need_error s" "m_at s < length (m_data s)" "m_want_key s"
    | "\<not> m_need_error s" "m_at s < length (m_data s)" "\<not> m_want_key s"
    using ins le_neq_implies_less unfolding inside_def by blast
  then show ?thesis
  proof cases
    case 1
    then have "q = s\<lparr>m_need_error := False, m_errored := True\<rparr>"
      using assms(1) by (simp add: next_inner_def s_def [symmetric])
    then show ?thesis using ins 1 by (intro near) (simp_all add: todo_def adv_def inside_def)
  next
    case 2
    then have e: "end_event s = (ev, q)" using assms(1) by (simp add: next_inner_def s_def [symmetric])
    then have "m_data q = m_data s \<and> m_at q = m_at s" by (auto simp: end_event_def Let_def split: if_splits)
    then show ?thesis using todo_end_event [OF 2(2) e] 2 by (intro near) (simp_all add: adv_def)
  next
    case 3
    then have k: "next_key False host s = (ev, q)" using assms(1) by (simp add: next_inner_def s_def [symmetric])
    from adv_next_key [OF k 3(2)] show ?thesis
    proof (elim conjE disjE)
      assume q: "adv 0 s q" "\<not> m_want_key q"
      have nest: "length (m_nesting q) = length (m_nesting s) \<or> adv 1 s q"
        using next_key_nesting [OF k 3(2)] by blast
      show ?thesis
      proof (cases "adv 1 s q")
        case False
        then have "m_at q = m_at s" using q(1) by (simp add: adv_def)
        then show ?thesis using q nest False 3 by (intro near) (auto simp: todo_def adv_def)
      qed (rule far)
    qed (rule far)
  next
    case 4
    then have "next_value False host s = (ev, q)" using assms(1) by (simp add: next_inner_def s_def [symmetric])
    then show ?thesis using adv_next_value [OF ins 4(2), of host] by (intro far) simp
  qed
qed

fun parser_run :: "nat \<Rightarrow> bool \<Rightarrow> bool \<Rightarrow> jsonparser \<Rightarrow> jsonparser" where
  "parser_run 0 json5 host p = p"
| "parser_run (Suc n) json5 host p = parser_run n json5 host (snd (next_inner json5 host p))"

fun nest_all :: "bool list \<Rightarrow> event list \<Rightarrow> bool list option" where
  "nest_all st [] = Some st"
| "nest_all st (e # es) = (case nest st e of None \<Rightarrow> None | Some st' \<Rightarrow> nest_all st' es)"

lemma parser_run_adv: "inside p \<Longrightarrow> adv 0 p (parser_run n False host p)"
proof (induction n arbitrary: p)
  case 0
  then show ?case by (simp add: adv_def inside_def)
next
  case (Suc n)
  obtain ev q where q: "next_inner False host p = (ev, q)" by fastforce
  then have pq: "adv 0 p q" using next_inner_progress Suc.prems by blast
  then show ?case using Suc.IH [OF inside_adv [OF pq Suc.prems]] adv_trans [OF pq, of 0] q by simp
qed

lemma json_events_finish:
  assumes "inside p" and "todo p < n"
  shows "\<exists>es. json_events n False host p = es @ [Finish] \<and> Finish \<notin> set es \<and> nest_all (m_nesting p) (es @ [Finish]) = Some []"
  using assms
proof (induction n arbitrary: p)
  case (Suc n)
  obtain ev q where q: "next_inner False host p = (ev, q)" by fastforce
  have nest: "nest (m_nesting p) ev = Some (m_nesting q)" using next_inner_nest [of p False host] q by simp
  have step: "adv 0 p q \<and> (ev \<noteq> Finish \<longrightarrow> todo q < todo p)" using next_inner_progress [OF q Suc.prems(1)] .
  show ?case
  proof (cases "ev = Finish")
    case True
    then have "json_events (Suc n) False host p = [] @ [Finish]" using q by simp
    moreover have "nest_all (m_nesting p) ([] @ [Finish]) = Some []" using nest True by (auto split: if_splits)
    ultimately show ?thesis using list.set_intros by (metis empty_iff list.set(1))
  next
    case False
    then obtain es where es: "json_events n False host q = es @ [Finish]" "Finish \<notin> set es"
      "nest_all (m_nesting q) (es @ [Finish]) = Some []"
      using Suc.IH [of q] step Suc.prems inside_adv by fastforce
    then have "json_events (Suc n) False host p = (ev # es) @ [Finish]" using q False by simp
    moreover have "nest_all (m_nesting p) ((ev # es) @ [Finish]) = Some []" using es(3) nest by simp
    ultimately show ?thesis using False es(2) by (metis list.set_intros(1) set_ConsD)
  qed
qed simp

lemma json_init_inside:
  assumes "json = [] \<or> last json \<noteq> 0x2D"
  shows "inside (json_init False json) \<and> m_data (json_init False json) = json \<and> m_nesting (json_init False json) = [] \<and>
    todo (json_init False json) < 8 * length json + 4"
  using span_end_bound [of 0 json isspace] assms
  by (auto simp: json_init_def skip_strict inside_def todo_def Let_def)

text \<open>
  C11. Liveness: for every document that does not end in a minus sign, however malformed, calling the parser
  at most \<open>8 n + 4\<close> times, \<open>n\<close> the length of the document, returns \<open>Finish\<close>, and the events up to it are
  balanced: every list and map entered is exited, in the right order, and nothing else is exited.
\<close>

theorem json_finishes:
  assumes "json = [] \<or> last json \<noteq> 0x2D"
  shows "\<exists>es. json_events (8 * length json + 4) False host (json_init False json) = es @ [Finish] \<and> Finish \<notin> set es \<and>
    nest_all [] (es @ [Finish]) = Some []"
  using json_events_finish json_init_inside [OF assms] by metis

lemma json_finishes_witness:
  "last [0x7B, 0x22, 0x61, 0x22, 0x3A, 0x5B, 0x2D, 0x31, 0x2C :: byte] \<noteq> 0x2D \<and>
   (\<exists>es. json_events 76 False False (json_init False [0x7B, 0x22, 0x61, 0x22, 0x3A, 0x5B, 0x2D, 0x31, 0x2C]) = es @ [Finish] \<and>
     Finish \<notin> set es \<and> nest_all [] (es @ [Finish]) = Some [])"
  using json_finishes [of "[0x7B, 0x22, 0x61, 0x22, 0x3A, 0x5B, 0x2D, 0x31, 0x2C]" False] by simp

text \<open>
  C16. Safety: for every document that does not end in a minus sign, after any number of calls the parser's
  position is inside the document or on the NUL that ends it, and never moves backwards; the buffer keeps its
  length, and what has not been parsed yet is the document, whatever strings have been decoded in place.
\<close>

theorem json_stays_inside:
  assumes "json = [] \<or> last json \<noteq> 0x2D" and "q = parser_run m False host (json_init False json)"
    and "r = parser_run n False host q"
  shows "m_at q \<le> m_at r \<and> m_at r \<le> length json \<and> length (m_data r) = length json \<and> drop (m_at r) (m_data r) = drop (m_at r) json"
proof -
  have i: "inside (json_init False json)" "m_data (json_init False json) = json" using json_init_inside [OF assms(1)] by simp_all
  have q: "adv 0 (json_init False json) q" using parser_run_adv [OF i(1)] assms(2) by simp
  have "adv 0 q r" using parser_run_adv [OF inside_adv [OF q i(1)]] assms(3) by simp
  then show ?thesis using adv_trans [OF q, of 0 r] i(2) by (simp add: adv_def)
qed

lemma json_stays_inside_witness:
  "let d = [0x5B, 0x22, 0x5C, 0x6E, 0x22, 0x5D]; q = parser_run 2 False False (json_init False d); r = parser_run 3 False False q
   in m_at q \<le> m_at r \<and> m_at r \<le> length d \<and> length (m_data r) = length d \<and> drop (m_at r) (m_data r) = drop (m_at r) d"
  unfolding Let_def by (rule json_stays_inside [OF _ refl refl]) simp

text \<open>
  A document that is a minus sign, alone or after spaces, is reported as an error, but the parser
  steps over the NUL behind it: its position is then outside the buffer, where the next call reads.
\<close>

lemma json_minus_overrun:
  assumes "\<forall>c\<in>set spaces. isspace c"
  shows "next_inner False host (json_init False (spaces @ [0x2D])) =
    (Jerror, \<lparr>m_data = spaces @ [0x2D], m_at = length spaces + 2, m_want_key = False, m_errored = True,
      m_need_error = False, m_nesting = []\<rparr>)"
proof -
  let ?d = "spaces @ [0x2D]"
  have "takeWhile isspace ?d = spaces" using assms by (simp add: isspace_iff)
  then have init: "json_init False ?d = \<lparr>m_data = ?d, m_at = length spaces, m_want_key = False, m_errored = False,
      m_need_error = False, m_nesting = []\<rparr>" (is "_ = ?p")
    by (simp add: json_init_def skip_strict span_end_def rd_def)
  have rd: "rd ?d (length spaces) = 0x2D" "rd ?d (length spaces + 1) = 0" by (simp_all add: rd_def)
  have skip: "skip False ?p = ?p" by (simp add: skip_strict span_end_def isspace_iff)
  have "parse_num False host ?p = json_error (?p\<lparr>m_at := length spaces + 1 + 1\<rparr>)"
    using rd by (simp add: parse_num_def Let_def isdigit_def)
  then have "next_value False host ?p = json_error (?p\<lparr>m_at := length spaces + 1 + 1\<rparr>)"
    using rd by (simp add: next_value_def Let_def)
  then show ?thesis
    unfolding init by (simp add: next_inner_def skip json_error_def)
qed

text \<open>
  Two texts that are no JSON and are accepted: the first letter of \<^verbatim>\<open>false\<close> is never looked at, and the second
  half of a surrogate pair may be any \<^verbatim>\<open>\u\<close> escape, here the letter A.
\<close>

lemma json_accepts_1alse:
  "json_events 10 False False (json_init False [0x31, 0x61, 0x6C, 0x73, 0x65]) = [Jfalse, Finish]"
  by code_simp

lemma json_half_surrogate:
  "json_events 10 False False (json_init False [0x22, 0x5C, 0x75, 0x64, 0x38, 0x30, 0x30, 0x5C, 0x75, 0x30, 0x30, 0x34, 0x31, 0x22]) =
    [Jstr [0xE2, 0x91, 0x81], Finish]"
  by code_simp

end
