(* ===== verification/Json_Writer.thy ===== *)
theory Json_Writer
  imports Stringconv
begin

text \<open>
  The streaming writer \<^verbatim>\<open>jsonwriter\<close> of \<^verbatim>\<open>arlib/json.h\<close> and \<^verbatim>\<open>arlib/json.cpp\<close>. \<open>sse\<close> tells whether the
  program is built with SSE2, where \<^verbatim>\<open>strwrap\<close> looks at sixteen bytes at a time; both builds write the
  same text.
\<close>

subsection \<open>Counting trailing zeros\<close>

definition ctz_step :: "nat \<Rightarrow> u32 \<times> nat \<Rightarrow> u32 \<times> nat" where
  "ctz_step k = (\<lambda>(x, ret). if x AND mask k = 0 then (drop_bit k x, ret + k) else (x, ret))"

definition ctz32 :: "u32 \<Rightarrow> nat" where
  "ctz32 x = snd (ctz_step 1 (ctz_step 2 (ctz_step 4 (ctz_step 8 (ctz_step 16 (x, 0))))))"

lemma ctz_step_ok:
  assumes "ctz_step k (drop_bit ret x, ret) = (y, ret')" and "take_bit (2 * k) (drop_bit ret x) \<noteq> 0" and "take_bit ret x = 0"
  shows "y = drop_bit ret' x \<and> take_bit k (drop_bit ret' x) \<noteq> 0 \<and> take_bit ret' x = 0"
proof (cases "take_bit k (drop_bit ret x) = 0")
  case True
  then have y: "y = drop_bit (ret + k) x" "ret' = ret + k"
    using assms(1) by (auto simp: ctz_step_def take_bit_eq_mask drop_bit_drop_bit add.commute)
  have low: "\<not> bit x n" if "n < ret + k" for n
  proof (cases "n < ret")
    case True
    then show ?thesis using assms(3) by (metis bit_0_eq bit_take_bit_iff bot_apply bot_bool_def)
  next
    case False
    then have "bit (take_bit k (drop_bit ret x)) (n - ret) = bit x n"
      using that by (auto simp: bit_take_bit_iff bit_drop_bit_eq)
    then show ?thesis using True by simp
  qed
  have "take_bit ret' x = 0" by (rule bit_eqI) (use low y in \<open>auto simp: bit_take_bit_iff\<close>)
  moreover have "take_bit k y \<noteq> 0"
  proof
    assume zero: "take_bit k y = 0"
    have "take_bit (2 * k) (drop_bit ret x) = 0"
    proof (rule bit_eqI)
      fix n
      show "bit (take_bit (2 * k) (drop_bit ret x)) n = bit (0 :: u32) n"
      proof (cases "n < k")
        case True
        then show ?thesis using low [of "ret + n"] by (simp add: bit_take_bit_iff bit_drop_bit_eq)
      next
        case False
        have "bit (take_bit k y) (n - k) = (n - k < k \<and> bit x (ret + k + (n - k)))"
          by (simp add: y bit_take_bit_iff bit_drop_bit_eq)
        then show ?thesis using False zero by (auto simp: bit_take_bit_iff bit_drop_bit_eq)
      qed
    qed
    then show False using assms(2) by simp
  qed
  ultimately show ?thesis using y by simp
next
  case False
  then show ?thesis using assms by (auto simp: ctz_step_def take_bit_eq_mask)
qed

lemma ctz32_ok:
  assumes "x \<noteq> 0"
  shows "bit x (ctz32 x) \<and> (\<forall>k < ctz32 x. \<not> bit x k)"
proof -
  obtain a ra where a: "ctz_step 16 (drop_bit 0 x, 0) = (a, ra)" by fastforce
  have "take_bit (2 * 16) (drop_bit 0 x) \<noteq> 0" using assms by (simp add: take_bit_word_eq_self)
  then have a': "a = drop_bit ra x \<and> take_bit (2 * 8) (drop_bit ra x) \<noteq> 0 \<and> take_bit ra x = 0"
    using ctz_step_ok [OF a] by simp
  obtain b rb where b: "ctz_step 8 (drop_bit ra x, ra) = (b, rb)" by fastforce
  have b': "b = drop_bit rb x \<and> take_bit (2 * 4) (drop_bit rb x) \<noteq> 0 \<and> take_bit rb x = 0"
    using ctz_step_ok [OF b] a' by simp
  obtain c rc where c: "ctz_step 4 (drop_bit rb x, rb) = (c, rc)" by fastforce
  have c': "c = drop_bit rc x \<and> take_bit (2 * 2) (drop_bit rc x) \<noteq> 0 \<and> take_bit rc x = 0"
    using ctz_step_ok [OF c] b' by simp
  obtain d rd where d: "ctz_step 2 (drop_bit rc x, rc) = (d, rd)" by fastforce
  have d': "d = drop_bit rd x \<and> take_bit (2 * 1) (drop_bit rd x) \<noteq> 0 \<and> take_bit rd x = 0"
    using ctz_step_ok [OF d] c' by simp
  obtain e re where e: "ctz_step 1 (drop_bit rd x, rd) = (e, re)" by fastforce
  have e': "e = drop_bit re x \<and> take_bit 1 (drop_bit re x) \<noteq> 0 \<and> take_bit re x = 0"
    using ctz_step_ok [OF e] d' by blast
  have "ctz32 x = re" using a b c d e a' b' c' d' by (simp add: ctz32_def)
  moreover have "odd (drop_bit re x)" using e' by (simp add: take_bit_Suc odd_iff_mod_2_eq_one)
  then have "bit x re" by (simp add: bit_iff_odd_drop_bit)
  moreover have "\<not> bit x k" if "k < re" for k using e' that by (metis bit_0_eq bit_take_bit_iff bot_apply bot_bool_def)
  ultimately show ?thesis by simp
qed

subsection \<open>Strings\<close>

text \<open>The vector comparison: \<^verbatim>\<open>_mm_cmplt_epi8\<close> is signed, \<^verbatim>\<open>_mm_movemask_epi8\<close> collects the sixteen results.\<close>

definition vector_bad :: "byte \<Rightarrow> bool" where
  "vector_bad c = (sint (c XOR 0x82) < sint (0x21 XOR 0x80 :: byte) \<or> c = 0x7F \<or> c = 0x5C)"

definition bad_mask :: "bytes \<Rightarrow> u32" where
  "bad_mask chs = horner_sum of_bool 2 (map vector_bad chs)"

definition must_escape :: "byte \<Rightarrow> bool" where
  "must_escape c = (c XOR 2 \<le> 32 \<or> c = 0x5C \<or> c = 0x7F)"

definition escape_seq :: "byte \<Rightarrow> bytes" where
  "escape_seq c =
     (if c = 0x0A then [0x5C, 0x6E] else if c = 0x0D then [0x5C, 0x72] else if c = 0x09 then [0x5C, 0x74]
      else if c = 0x08 then [0x5C, 0x62] else if c = 0x0C then [0x5C, 0x66] else if c = 0x22 then [0x5C, 0x22]
      else if c = 0x5C then [0x5C, 0x5C] else [0x5C, 0x75] @ the (tostringhex (ucast c) 4))"

function strwrap_loop :: "bool \<Rightarrow> bytes \<Rightarrow> nat \<Rightarrow> nat \<Rightarrow> bytes \<Rightarrow> bytes" where
  "strwrap_loop sse s it previt out =
     (if length s \<le> it then out @ slice previt (length s - previt) s
      else
        let wide = (sse \<and> 16 \<le> length s - it); bits = bad_mask (slice it 16 s) in
        if wide \<and> bits = 0 then strwrap_loop sse s (it + 16) previt out
        else
          let it = (if wide then it + ctz32 bits else it); c = s ! it in
          if must_escape c then strwrap_loop sse s (it + 1) (it + 1) (out @ slice previt (it - previt) s @ escape_seq c)
          else strwrap_loop sse s (it + 1) previt out)"
  by pat_completeness auto
termination by (relation "measure (\<lambda>(sse, s, it, previt, out). length s - it)") auto

definition strwrap :: "bool \<Rightarrow> bytes \<Rightarrow> bytes" where
  "strwrap sse s = strwrap_loop sse s 0 0 [0x22] @ [0x22]"

definition escape_byte :: "byte \<Rightarrow> bytes" where
  "escape_byte c = (if must_escape c then escape_seq c else [c])"

lemma vector_bad_iff: "vector_bad c = must_escape c"
proof -
  have "list_all (\<lambda>c. vector_bad c = must_escape c) (map word_of_nat [0..<256])"
    unfolding vector_bad_def must_escape_def by code_simp
  then show ?thesis using bytes_between [OF _ le0 unat_byte] by blast
qed

lemma bad_mask_bit: "length chs \<le> 32 \<Longrightarrow> bit (bad_mask chs) k = (k < length chs \<and> must_escape (chs ! k))"
  by (auto simp: bad_mask_def bit_horner_sum_bit_word_iff vector_bad_iff)

declare strwrap_loop.simps [simp del]

lemma concat_plain: "\<forall>c \<in> set cs. \<not> must_escape c \<Longrightarrow> concat (map escape_byte cs) = cs"
  by (induction cs) (simp_all add: escape_byte_def)

lemma strwrap_loop_eq:
  assumes "previt \<le> it" and "it \<le> length s" and "\<And>k. previt \<le> k \<Longrightarrow> k < it \<Longrightarrow> \<not> must_escape (s ! k)"
  shows "strwrap_loop sse s it previt out = out @ concat (map escape_byte (drop previt s))"
  using assms
proof (induction sse s it previt out rule: strwrap_loop.induct)
  case (1 sse s it previt out)
  have bad: "bit (bad_mask (slice it 16 s)) k = (k < 16 \<and> must_escape (s ! (it + k)))" if "16 \<le> length s - it" for k
    using that by (auto simp: bad_mask_bit slice_def)
  consider (fin) "length s \<le> it" | (wide) "it < length s" "sse \<and> 16 \<le> length s - it \<and> bad_mask (slice it 16 s) = 0"
    | (one) "it < length s" "\<not> (sse \<and> 16 \<le> length s - it \<and> bad_mask (slice it 16 s) = 0)"
    by linarith
  then show ?case
  proof cases
    case fin
    then have "\<forall>c \<in> set (drop previt s). \<not> must_escape c" using 1(6) by (auto simp: in_set_conv_nth)
    then show ?thesis using fin 1(4,5) by (simp add: strwrap_loop.simps [of sse s it] concat_plain slice_def)
  next
    case wide
    have "\<not> must_escape (s ! k)" if "previt \<le> k" "k < it + 16" for k
    proof (cases "k < it")
      case False
      then show ?thesis using bad [of "k - it"] wide that by simp
    qed (use 1(6) that in blast)
    moreover have in_range: "it + 16 \<le> length s" using wide by arith
    ultimately have "strwrap_loop sse s (it + 16) previt out = out @ concat (map escape_byte (drop previt s))"
      using 1(1) [OF _ refl refl] wide 1(4,5) in_range by (simp add: Suc_le_eq)
    then show ?thesis using wide by (subst strwrap_loop.simps) (simp add: Let_def)
  next
    case one
    define it' where "it' = (if sse \<and> 16 \<le> length s - it then it + ctz32 (bad_mask (slice it 16 s)) else it)"
    have it': "it \<le> it'" "it' < length s" "\<And>k. previt \<le> k \<Longrightarrow> k < it' \<Longrightarrow> \<not> must_escape (s ! k)"
    proof -
      have "it \<le> it' \<and> it' < length s \<and> (\<forall>k. previt \<le> k \<longrightarrow> k < it' \<longrightarrow> \<not> must_escape (s ! k))"
      proof (cases "sse \<and> 16 \<le> length s - it")
        case True
        then have b: "bit (bad_mask (slice it 16 s)) (it' - it)" "\<forall>k < it' - it. \<not> bit (bad_mask (slice it 16 s)) k"
          using ctz32_ok one by (simp_all add: it'_def)
        have "\<not> must_escape (s ! k)" if "previt \<le> k" "k < it'" for k
        proof (cases "k < it")
          case False
          then have "\<not> bit (bad_mask (slice it 16 s)) (k - it)" "k - it < 16"
            using b bad [of "it' - it"] True that by (auto simp: diff_less_mono)
          then show ?thesis using bad [of "k - it"] True False by simp
        qed (use 1(6) that in blast)
        moreover have "it \<le> it'" "it' - it < 16" using b(1) bad [of "it' - it"] True by (simp_all add: it'_def)
        ultimately show ?thesis using True by auto
      next
        case False
        then show ?thesis using one(1) 1(6) by (auto simp: it'_def)
      qed
      then show "it \<le> it'" "it' < length s" "\<And>k. previt \<le> k \<Longrightarrow> k < it' \<Longrightarrow> \<not> must_escape (s ! k)" by auto
    qed
    have eq: "strwrap_loop sse s it previt out =
      (if must_escape (s ! it') then strwrap_loop sse s (it' + 1) (it' + 1) (out @ slice previt (it' - previt) s @ escape_seq (s ! it'))
       else strwrap_loop sse s (it' + 1) previt out)"
      using one by (subst strwrap_loop.simps) (auto simp: Let_def it'_def)
    have split: "drop previt s = slice previt (it' - previt) s @ s ! it' # drop (it' + 1) s"
    proof -
      have "drop previt s = take (it' - previt) (drop previt s) @ drop (it' - previt) (drop previt s)"
        by (rule append_take_drop_id [symmetric])
      also have "drop (it' - previt) (drop previt s) = drop it' s" using it'(1) 1(4) by simp
      also have "\<dots> = s ! it' # drop (it' + 1) s" using it'(2) by (simp add: Cons_nth_drop_Suc)
      finally show ?thesis by (simp add: slice_def)
    qed
    have plain: "concat (map escape_byte (slice previt (it' - previt) s)) = slice previt (it' - previt) s"
      by (rule concat_plain) (use it' in \<open>auto simp: slice_def in_set_conv_nth\<close>)
    show ?thesis
    proof (cases "must_escape (s ! it')")
      case True
      have "strwrap_loop sse s (it' + 1) (it' + 1) out' = out' @ concat (map escape_byte (drop (it' + 1) s))"
        if "out' = out @ slice previt (it' - previt) s @ escape_seq (s ! it')" for out'
        using 1(2) [of _ "bad_mask (slice it 16 s)" it' "s ! it'"] one it' True that by (simp add: it'_def)
      moreover have "escape_byte (s ! it') = escape_seq (s ! it')" using True by (simp add: escape_byte_def)
      ultimately show ?thesis using True by (simp add: eq split plain)
    next
      case False
      have "\<not> must_escape (s ! k)" if "previt \<le> k" "k < it' + 1" for k
        using it'(3) [of k] that False by (cases "k = it'") auto
      then show ?thesis
        using 1(3) [of _ "bad_mask (slice it 16 s)" it' "s ! it'"] one it' 1(4) False eq by (simp add: it'_def)
    qed
  qed
qed

lemma strwrap_eq: "strwrap sse s = [0x22] @ concat (map escape_byte s) @ [0x22]"
  by (simp add: strwrap_def strwrap_loop_eq)

subsection \<open>The writer\<close>

record jsonwriter =
  w_data :: bytes
  m_comma :: bool
  m_indent_is_value :: bool
  m_indent_disable :: bool
  m_indent_size :: byte
  m_indent_depth :: u16

text \<open>The default constructor, and the one with an indentation width of at most 8.\<close>

definition jsonwriter_new :: jsonwriter where
  "jsonwriter_new =
     \<lparr>w_data = [], m_comma = False, m_indent_is_value = False, m_indent_disable = False, m_indent_size = 0, m_indent_depth = 0\<rparr>"

definition jsonwriter_indent :: "int \<Rightarrow> jsonwriter" where
  "jsonwriter_indent n = jsonwriter_new\<lparr>m_indent_disable := (n = 0), m_indent_size := word_of_int n\<rparr>"

definition w_append :: "bytes \<Rightarrow> jsonwriter \<Rightarrow> jsonwriter" where
  "w_append s w = w\<lparr>w_data := w_data w @ s\<rparr>"

definition comma :: "jsonwriter \<Rightarrow> jsonwriter" where
  "comma w =
     (let w = (if m_comma w then w_append [0x2C] w else w); w = w\<lparr>m_comma := True\<rparr> in
      if \<not> m_indent_disable w then
        if m_indent_is_value w then (w_append [0x20] w)\<lparr>m_indent_is_value := False\<rparr>
        else if m_indent_depth w \<noteq> 0 then
          let indent_str = drop (8 - unat (m_indent_size w)) (replicate 8 0x20)
          in w_append (0x0A # concat (replicate (unat (m_indent_depth w)) indent_str)) w
        else w
      else w)"

definition w_null :: "jsonwriter \<Rightarrow> jsonwriter" where
  "w_null w = w_append [0x6E, 0x75, 0x6C, 0x6C] (comma w)"

definition w_boolean :: "bool \<Rightarrow> jsonwriter \<Rightarrow> jsonwriter" where
  "w_boolean b w = w_append (if b then [0x74, 0x72, 0x75, 0x65] else [0x66, 0x61, 0x6C, 0x73, 0x65]) (comma w)"

definition w_str :: "bool \<Rightarrow> bytes \<Rightarrow> jsonwriter \<Rightarrow> jsonwriter" where
  "w_str sse s w = w_append (strwrap sse s) (comma w)"

definition num_unsafe :: "bytes \<Rightarrow> jsonwriter \<Rightarrow> jsonwriter" where
  "num_unsafe n w = w_append n (comma w)"

definition num_unsigned :: "u64 \<Rightarrow> jsonwriter \<Rightarrow> jsonwriter" where
  "num_unsigned n w = w_append (tostring_unsigned n) (comma w)"

definition num_signed :: "u64 \<Rightarrow> jsonwriter \<Rightarrow> jsonwriter" where
  "num_signed n w = w_append (tostring_signed n) (comma w)"

definition list_enter :: "jsonwriter \<Rightarrow> jsonwriter" where
  "list_enter w = (let w = w_append [0x5B] (comma w) in w\<lparr>m_comma := False, m_indent_depth := m_indent_depth w + 1\<rparr>)"

definition list_exit :: "jsonwriter \<Rightarrow> jsonwriter" where
  "list_exit w = (let w = w_append [0x5D] w in w\<lparr>m_comma := True, m_indent_depth := m_indent_depth w - 1\<rparr>)"

definition map_enter :: "jsonwriter \<Rightarrow> jsonwriter" where
  "map_enter w = (let w = w_append [0x7B] (comma w) in w\<lparr>m_comma := False, m_indent_depth := m_indent_depth w + 1\<rparr>)"

definition map_key :: "bool \<Rightarrow> bytes \<Rightarrow> jsonwriter \<Rightarrow> jsonwriter" where
  "map_key sse s w = (w_append [0x3A] (w_str sse s w))\<lparr>m_comma := False, m_indent_is_value := True\<rparr>"

definition map_exit :: "jsonwriter \<Rightarrow> jsonwriter" where
  "map_exit w = (let w = w_append [0x7D] w in w\<lparr>m_comma := True, m_indent_depth := m_indent_depth w - 1\<rparr>)"

definition compress :: "jsonwriter \<Rightarrow> jsonwriter" where
  "compress w = w\<lparr>m_indent_disable := True\<rparr>"

definition uncompress :: "jsonwriter \<Rightarrow> jsonwriter" where
  "uncompress w = w\<lparr>m_indent_disable := False, m_indent_is_value := False\<rparr>"

definition w_finish :: "jsonwriter \<Rightarrow> bytes" where
  "w_finish w = w_data w"

text \<open>What \<open>comma\<close> puts in front of a value: a comma if one is due, then only whitespace.\<close>

lemma comma_data:
  "\<exists>ws. w_data (comma w) = w_data w @ (if m_comma w then [0x2C] else []) @ ws \<and> (\<forall>c \<in> set ws. c = 0x20 \<or> c = 0x0A)"
  by (auto simp: comma_def w_append_def Let_def set_replicate_conv_if dest!: in_set_dropD)

lemma comma_fields [simp]:
  "m_comma (comma w)" "m_indent_disable (comma w) = m_indent_disable w"
  by (simp_all add: comma_def w_append_def Let_def)

text \<open>
  \<open>compress\<close> and \<open>uncompress\<close> do nothing, says the header, when no indentation was asked for; but \<open>uncompress\<close>
  turns line breaks on.
\<close>

lemma uncompress_indents:
  "w_finish (list_exit (w_null (list_enter (jsonwriter_indent 0)))) = [0x5B, 0x6E, 0x75, 0x6C, 0x6C, 0x5D] \<and>
   w_finish (list_exit (w_null (list_enter (uncompress (compress (jsonwriter_indent 0)))))) = [0x5B, 0x0A, 0x6E, 0x75, 0x6C, 0x6C, 0x5D]"
  by code_simp

end
