(* ===== verification/Json_Value.thy ===== *)
theory Json_Value
  imports Json_Live Json_Writer Array_Sort Str_Compare "HOL-Library.AList"
begin

text \<open>
  The document tree \<^verbatim>\<open>JSONw\<close> of \<^verbatim>\<open>arlib/json.h\<close> and \<^verbatim>\<open>arlib/json.cpp\<close>: built from the events of the
  parser, read and changed through accessors, and written back. A map is the list of its nodes in
  the order in which its iterator visits them; the parser adds new nodes at the end of the list, where the
  hash table would put them somewhere between, and every statement is about node lists in any order.
  Recursion and loops that follow the events have fuel; \<open>Json_Live\<close> bounds what they need.
\<close>

subsection \<open>Values\<close>

datatype jsonw =
    JUnset | JTrue | JFalse | JNull | JStr bytes | JNum bytes | JList "jsonw list" | JMap "(bytes \<times> jsonw) list" | JError

lemma elem_size: "v \<in> set vs \<Longrightarrow> size v < Suc (size_list size vs)"
  by (induction vs) auto

lemma snd_size: "e \<in> set m \<Longrightarrow> size (snd e) < Suc (size_list (size_prod (\<lambda>_. 0) size) m)"
  by (induction m) auto

subsection \<open>Building a value\<close>

text \<open>The loop that drops a list or map nested too deeply.\<close>

fun skip_tree :: "nat \<Rightarrow> bool \<Rightarrow> nat \<Rightarrow> jsonparser \<Rightarrow> jsonparser option" where
  "skip_tree n host 0 p = Some p"
| "skip_tree 0 host xdepth p = None"
| "skip_tree (Suc n) host xdepth p =
     (let (ev, p) = next_inner False host p;
          xdepth = (if ev = Enter_list \<or> ev = Enter_map then xdepth + 1 else xdepth);
          xdepth = (if ev = Exit_list \<or> ev = Exit_map then xdepth - 1 else xdepth)
      in skip_tree n host xdepth p)"

text \<open>The events that are a value of their own, and the key of a member.\<close>

definition simple_value :: "event \<Rightarrow> jsonw option" where
  "simple_value ev =
     (case ev of Jtrue \<Rightarrow> Some JTrue | Jfalse \<Rightarrow> Some JFalse | Jnull \<Rightarrow> Some JNull | Jstr s \<Rightarrow> Some (JStr s)
      | Jnum s \<Rightarrow> Some (JNum s) | Jerror \<Rightarrow> Some JError | _ \<Rightarrow> None)"

definition key_of :: "event \<Rightarrow> bytes option" where
  "key_of ev = (case ev of Map_key k \<Rightarrow> Some k | _ \<Rightarrow> None)"

text \<open>
  The loops over the elements of a list and the members of a map call \<open>f\<close>, the \<^verbatim>\<open>construct\<close> of the next
  smaller depth, on the object that receives the value. \<^verbatim>\<open>construct\<close> recurses on \<^verbatim>\<open>maxdepth\<close>; \<open>old\<close> is what
  the object held before, which stays when the event cannot start a value.
\<close>

type_synonym 'a step = "('a \<times> bool \<times> jsonparser) option"

fun list_items :: "(event \<Rightarrow> bool \<Rightarrow> jsonparser \<Rightarrow> jsonw step) \<Rightarrow> nat \<Rightarrow> bool \<Rightarrow> jsonw list \<Rightarrow> bool \<Rightarrow> jsonparser \<Rightarrow> jsonw list step"
where
  "list_items f 0 host vs ok p = None"
| "list_items f (Suc n) host vs ok p =
     (let (next, p) = next_inner False host p in
      if next = Exit_list then Some (vs, ok, p)
      else
        (case f next (ok \<and> next \<noteq> Jerror) p of
           None \<Rightarrow> None
         | Some (v, ok, p) \<Rightarrow> list_items f n host (vs @ [v]) ok p))"

fun map_items ::
  "(jsonw \<Rightarrow> event \<Rightarrow> bool \<Rightarrow> jsonparser \<Rightarrow> jsonw step) \<Rightarrow> nat \<Rightarrow> bool \<Rightarrow> (bytes \<times> jsonw) list \<Rightarrow> bool \<Rightarrow> jsonparser \<Rightarrow>
    (bytes \<times> jsonw) list step"
where
  "map_items f 0 host m ok p = None"
| "map_items f (Suc n) host m ok p =
     (let (next, p) = next_inner False host p in
      if next = Exit_map then Some (m, ok, p)
      else
        (case key_of next of
           None \<Rightarrow> map_items f n host m (ok \<and> next \<noteq> Jerror) p
         | Some key \<Rightarrow>
             let (ev, p) = next_inner False host p in
             (case f (case map_of m key of Some v \<Rightarrow> v | None \<Rightarrow> JUnset) ev ok p of
                None \<Rightarrow> None
              | Some (v, ok, p) \<Rightarrow> map_items f n host (AList.update key v m) ok p)))"

fun construct :: "nat \<Rightarrow> nat \<Rightarrow> bool \<Rightarrow> jsonw \<Rightarrow> event \<Rightarrow> bool \<Rightarrow> jsonparser \<Rightarrow> jsonw step" where
  "construct 0 n host old ev ok p =
     (case simple_value ev of
        Some v \<Rightarrow> Some (v, ok \<and> ev \<noteq> Jerror, p)
      | None \<Rightarrow>
          if ev = Enter_list \<or> ev = Enter_map then map_option (\<lambda>p. (JError, False, p)) (skip_tree n host 1 p)
          else Some (JError, False, p))"
| "construct (Suc maxdepth) n host old ev ok p =
     (case simple_value ev of
        Some v \<Rightarrow> Some (v, ok \<and> ev \<noteq> Jerror, p)
      | None \<Rightarrow>
          if ev = Enter_list then
            map_option (\<lambda>(vs, ok, p). (JList vs, ok, p)) (list_items (construct maxdepth n host JUnset) n host [] ok p)
          else if ev = Enter_map then
            map_option (\<lambda>(m, ok, p). (JMap m, ok, p)) (map_items (construct maxdepth n host) n host [] ok p)
          else Some (old, ok, p))"

text \<open>
  \<^verbatim>\<open>parse\<close> on an object that holds \<open>old\<close>: the return value and the new contents. (It aborts on the
  shared null object, which no caller can name.)
\<close>

definition json_parse :: "nat \<Rightarrow> bool \<Rightarrow> jsonw \<Rightarrow> bytes \<Rightarrow> (bool \<times> jsonw) option" where
  "json_parse n host old s =
     (let (ev, p) = next_inner False host (json_init False s) in
      map_option (\<lambda>(v, ok, p).
          let (ev, p) = next_inner False host p in if \<not> ok \<or> ev \<noteq> Finish then (False, JError) else (True, v))
        (construct 1000 n host old ev True p))"

subsection \<open>Writing a value\<close>

text \<open>
  Serializing a value is an operation on a writer. The sorted form collects the nodes of a map and sorts
  them with \<^verbatim>\<open>ssort\<close> by \<^verbatim>\<open>string::less\<close> of their keys.
\<close>

definition node_less :: "bytes \<times> 'a \<Rightarrow> bytes \<times> 'a \<Rightarrow> bool" where
  "node_less a b = string_less (fst a) (fst b)"

definition visit_nodes :: "bool \<Rightarrow> (bytes \<times> 'a) list \<Rightarrow> (bytes \<times> 'a) list" where
  "visit_nodes srt m = (if srt then ssort node_less m else m)"

function serialize :: "bool \<Rightarrow> bool \<Rightarrow> jsonw \<Rightarrow> jsonwriter \<Rightarrow> jsonwriter" where
  "serialize srt sse JUnset = w_null"
| "serialize srt sse JError = w_null"
| "serialize srt sse JNull = w_null"
| "serialize srt sse JTrue = w_boolean True"
| "serialize srt sse JFalse = w_boolean False"
| "serialize srt sse (JStr s) = w_str sse s"
| "serialize srt sse (JNum s) = num_unsafe s"
| "serialize srt sse (JList vs) = (\<lambda>w. list_exit (fold (\<lambda>f. f) (map (serialize srt sse) vs) (list_enter w)))"
| "serialize srt sse (JMap m) =
     (\<lambda>w. map_exit (fold (\<lambda>(key, f) w. f (map_key sse key w))
        (visit_nodes srt (map (\<lambda>e. (fst e, serialize srt sse (snd e))) m)) (map_enter w)))"
  by pat_completeness auto
termination
  by (relation "measure (\<lambda>(srt, sse, v). size v)") (auto dest: elem_size snd_size)

definition serialize_text :: "bool \<Rightarrow> jsonw \<Rightarrow> int \<Rightarrow> bytes" where
  "serialize_text sse v n = w_finish (serialize False sse v (jsonwriter_indent n))"

definition serialize_sorted :: "bool \<Rightarrow> jsonw \<Rightarrow> int \<Rightarrow> bytes" where
  "serialize_sorted sse v n = w_finish (serialize True sse v (jsonwriter_indent n))"

subsection \<open>Accessors\<close>

text \<open>The default template argument of \<^verbatim>\<open>num\<close> is a floating point type; this is \<^verbatim>\<open>num\<close> for the integer types.\<close>

definition num_unsigned_value :: "jsonw \<Rightarrow> 'a::len word" where
  "num_unsigned_value v = (case v of JNum s \<Rightarrow> snd (fromstring_uint s) | _ \<Rightarrow> 0)"

definition num_signed_value :: "jsonw \<Rightarrow> 'a::len word" where
  "num_signed_value v = (case v of JNum s \<Rightarrow> snd (fromstring_int s) | _ \<Rightarrow> 0)"

definition str_value :: "jsonw \<Rightarrow> bytes" where
  "str_value v = (case v of JStr s \<Rightarrow> s | _ \<Rightarrow> [])"

definition list_value :: "jsonw \<Rightarrow> jsonw list" where
  "list_value v = (case v of JList vs \<Rightarrow> vs | _ \<Rightarrow> [])"

definition assoc_value :: "jsonw \<Rightarrow> (bytes \<times> jsonw) list" where
  "assoc_value v = (case v of JMap m \<Rightarrow> m | _ \<Rightarrow> [])"

text \<open>\<open>nonzero\<close> stands for the floating point conversion of the text of a number, compared with zero.\<close>

definition boolean_value :: "(bytes \<Rightarrow> bool) \<Rightarrow> jsonw \<Rightarrow> bool" where
  "boolean_value nonzero v =
     (case v of JUnset \<Rightarrow> False | JTrue \<Rightarrow> True | JFalse \<Rightarrow> False | JNull \<Rightarrow> False | JStr s \<Rightarrow> s \<noteq> []
      | JNum s \<Rightarrow> nonzero s | JList vs \<Rightarrow> vs \<noteq> [] | JMap m \<Rightarrow> m \<noteq> [] | JError \<Rightarrow> False)"

definition eq_str :: "jsonw \<Rightarrow> bytes \<Rightarrow> bool" where
  "eq_str v s = (str_value v = s)"

text \<open>Reading \<open>v[idx]\<close> and \<open>v[key]\<close> of a constant object; the shared null object is unset.\<close>

definition at_index :: "jsonw \<Rightarrow> nat \<Rightarrow> jsonw" where
  "at_index v idx = (case v of JList vs \<Rightarrow> if idx < length vs then vs ! idx else JUnset | _ \<Rightarrow> JUnset)"

definition at_key :: "jsonw \<Rightarrow> bytes \<Rightarrow> jsonw" where
  "at_key v key = (case map_of (assoc_value v) key of Some x \<Rightarrow> x | None \<Rightarrow> JUnset)"

text \<open>\<^verbatim>\<open>list()\<close> and \<^verbatim>\<open>assoc()\<close> of an object that may change: it becomes a list or map if it is none.\<close>

definition become_list :: "jsonw \<Rightarrow> jsonw" where
  "become_list v = (case v of JList vs \<Rightarrow> v | _ \<Rightarrow> JList [])"

definition become_map :: "jsonw \<Rightarrow> jsonw" where
  "become_map v = (case v of JMap m \<Rightarrow> v | _ \<Rightarrow> JMap [])"

text \<open>
  \<open>v[idx]\<close> and \<open>v[key]\<close> return references; the model applies what the caller does with the reference to
  the element. An index beyond the end of the list aborts.
\<close>

definition with_index :: "nat \<Rightarrow> (jsonw \<Rightarrow> jsonw) \<Rightarrow> jsonw \<Rightarrow> jsonw option" where
  "with_index idx f v =
     (let children = list_value (become_list v) in
      if idx = length children then Some (JList (children @ [f JUnset]))
      else if idx < length children then Some (JList (children[idx := f (children ! idx)]))
      else None)"

definition with_key :: "bytes \<Rightarrow> (jsonw \<Rightarrow> jsonw) \<Rightarrow> jsonw \<Rightarrow> jsonw" where
  "with_key key f v =
     (let children = assoc_value (become_map v); old = (case map_of children key of Some x \<Rightarrow> x | None \<Rightarrow> JUnset)
      in JMap (AList.update key (f old) children))"

text \<open>The assignments.\<close>

definition of_null :: jsonw where "of_null = JNull"
definition of_bool_value :: "bool \<Rightarrow> jsonw" where "of_bool_value b = (if b then JTrue else JFalse)"
definition of_str :: "bytes \<Rightarrow> jsonw" where "of_str s = JStr s"
definition of_unsigned :: "u64 \<Rightarrow> jsonw" where "of_unsigned n = JNum (tostring_unsigned n)"
definition of_signed :: "u64 \<Rightarrow> jsonw" where "of_signed n = JNum (tostring_signed n)"

subsection \<open>Parsing always returns\<close>

text \<open>A key is wanted only inside a map, or when nothing is left to read.\<close>

definition key_inv :: "jsonparser \<Rightarrow> bool" where
  "key_inv p \<longleftrightarrow> (m_want_key p \<longrightarrow> m_nesting p \<noteq> [] \<and> last (m_nesting p) \<or> m_nesting p = [] \<and> m_at p = length (m_data p))"

definition good :: "jsonparser \<Rightarrow> bool" where
  "good p \<longleftrightarrow> inside p \<and> key_inv p"

lemma key_inv_prepare_next [simp]: "key_inv (snd (prepare_next False ev n p))"
  by (auto simp: prepare_next_def Let_def key_inv_def)

lemma key_inv_close_bracket:
  assumes "key_inv p" and "m_at p < length (m_data p)"
  shows "key_inv (snd (close_bracket False b p))"
proof -
  have "key_inv (snd (json_error (p\<lparr>m_at := m_at p + 1\<rparr>)))" using assms by (auto simp: key_inv_def json_error_def)
  then show ?thesis by (simp add: close_bracket_def Let_def)
qed

lemma key_inv_next_value:
  assumes "\<not> m_want_key p"
  shows "key_inv (snd (next_value False host p))"
proof -
  have err: "key_inv (snd (json_error (p\<lparr>m_at := k\<rparr>)))" for k using assms by (simp add: key_inv_def json_error_def)
  have close: "key_inv (snd (close_bracket False False p))"
    using err [of "m_at p + 1"] by (simp add: close_bracket_def Let_def)
  have num: "key_inv (snd (parse_num False host p))"
    using err by (simp add: parse_num_def Let_def split: prod.split)
  have enter: "key_inv (p\<lparr>m_at := k, m_want_key := True, m_nesting := st @ [True]\<rparr>)" "key_inv (p\<lparr>m_at := k, m_nesting := st\<rparr>)" for k st
    using assms by (simp_all add: key_inv_def)
  show ?thesis using close num enter by (simp add: next_value_def Let_def split: prod.split)
qed

lemma finish_key_result:
  assumes "finish_key False host start len p = (ev, q)"
  shows "m_nesting q = m_nesting p \<and> \<not> m_want_key q \<and> (\<exists>k. ev = Map_key k)"
  using assms by (auto simp: finish_key_def Let_def split: prod.splits if_splits dest!: decode_backslashes_nesting)

lemma next_key_result:
  assumes "next_key False host p = (ev, q)" and "rd (m_data p) (m_at p) \<noteq> 0x7D"
  shows "m_nesting q = m_nesting p \<and> \<not> m_want_key q \<and> (\<exists>k. ev = Map_key k)"
proof (cases "rd (m_data p) (m_at p) = 0x22")
  case True
  obtain start len r where s: "parse_str False p = (start, len, r)" using prod_cases3 by blast
  then have "finish_key False host start len r = (ev, q)" using assms True by (simp add: next_key_def)
  then show ?thesis using finish_key_result parse_str_nesting [OF s] by metis
next
  case False
  then have "finish_key False host 0 0 (p\<lparr>m_need_error := True\<rparr>) = (ev, q)" using assms by (simp add: next_key_def)
  then show ?thesis using finish_key_result by fastforce
qed

lemma close_bracket_event:
  "close_bracket False b p = (ev, q) \<Longrightarrow> ev \<in> {Jerror, Exit_list, Exit_map}"
  by (auto simp: close_bracket_def json_error_def Let_def split: if_splits dest!: prepare_next_nesting)

lemma next_value_event:
  assumes "next_value False host p = (ev, q)"
  shows "key_of ev = None \<and> ev \<noteq> Exit_map \<and> (ev = Exit_list \<longrightarrow> m_nesting p \<noteq> [] \<and> \<not> last (m_nesting p))"
  using assms
  by (auto simp: next_value_def parse_num_def close_bracket_def json_error_def key_of_def Let_def
    split: if_splits prod.splits dest!: prepare_next_nesting)

lemma next_inner_key:
  assumes "next_inner False host p = (ev, q)" and "key_inv p" and "inside p"
  shows "key_inv q"
    and "key_of ev \<noteq> None \<Longrightarrow> \<not> m_want_key q \<and> m_nesting q = m_nesting p \<and> m_nesting p \<noteq> [] \<and> last (m_nesting p)"
    and "\<not> m_want_key p \<Longrightarrow> m_nesting p \<noteq> [] \<Longrightarrow> last (m_nesting p) \<Longrightarrow> ev \<noteq> Exit_list \<and> ev \<noteq> Exit_map"
proof -
  define s where "s = skip False p"
  have s: "m_nesting s = m_nesting p" "m_want_key s = m_want_key p" "m_data s = m_data p" "m_at s \<le> length (m_data s)"
    "m_at p = length (m_data p) \<Longrightarrow> m_at s = length (m_data s)"
    using adv_skip [of p] assms(3) by (simp_all add: s_def inside_def adv_def)
  have ks: "key_inv s" using assms(2) s by (auto simp: key_inv_def)
  have "key_inv q \<and> (key_of ev \<noteq> None \<longrightarrow> \<not> m_want_key q \<and> m_nesting q = m_nesting p \<and> m_nesting p \<noteq> [] \<and> last (m_nesting p)) \<and>
    (\<not> m_want_key p \<and> m_nesting p \<noteq> [] \<and> last (m_nesting p) \<longrightarrow> ev \<noteq> Exit_list \<and> ev \<noteq> Exit_map)"
  proof -
    consider (err) "m_need_error s" | (fin) "\<not> m_need_error s" "m_at s = length (m_data s)"
      | (key) "\<not> m_need_error s" "m_at s < length (m_data s)" "m_want_key s"
      | (val) "\<not> m_need_error s" "m_at s < length (m_data s)" "\<not> m_want_key s"
      using s(4) le_neq_implies_less by blast
    then show ?thesis
    proof cases
      case err
      then show ?thesis using assms(1) ks by (auto simp: next_inner_def s_def [symmetric] key_inv_def key_of_def)
    next
      case fin
      then have "end_event s = (ev, q)" using assms(1) by (simp add: next_inner_def s_def [symmetric])
      then show ?thesis using ks s fin by (auto simp: end_event_def key_inv_def key_of_def Let_def split: if_splits)
    next
      case key
      then have k: "next_key False host s = (ev, q)" using assms(1) by (simp add: next_inner_def s_def [symmetric])
      show ?thesis
      proof (cases "rd (m_data s) (m_at s) = 0x7D")
        case True
        then have c: "close_bracket False True s = (ev, q)" using k by (simp add: next_key_def)
        then have "key_inv q" using key_inv_close_bracket [OF ks key(2), of True] by simp
        then show ?thesis using close_bracket_event [OF c] key s by (auto simp: key_of_def)
      next
        case False
        then show ?thesis using next_key_result [OF k] key ks s by (auto simp: key_inv_def)
      qed
    next
      case val
      then have v: "next_value False host s = (ev, q)" using assms(1) by (simp add: next_inner_def s_def [symmetric])
      then show ?thesis using key_inv_next_value [of s host] next_value_event [OF v] val s by auto
    qed
  qed
  then show "key_inv q"
    and "key_of ev \<noteq> None \<Longrightarrow> \<not> m_want_key q \<and> m_nesting q = m_nesting p \<and> m_nesting p \<noteq> [] \<and> last (m_nesting p)"
    and "\<not> m_want_key p \<Longrightarrow> m_nesting p \<noteq> [] \<Longrightarrow> last (m_nesting p) \<Longrightarrow> ev \<noteq> Exit_list \<and> ev \<noteq> Exit_map"
    by blast+
qed

lemma next_event:
  assumes "next_inner False host p = (ev, q)" and "good p"
  shows "good q \<and> (ev \<noteq> Finish \<longrightarrow> todo q < todo p) \<and> nest (m_nesting p) ev = Some (m_nesting q)"
proof -
  have p: "inside p" "key_inv p" using assms(2) by (simp_all add: good_def)
  show ?thesis
    using next_inner_progress [OF assms(1) p(1)] inside_adv [of 0 p q] next_inner_key(1) [OF assms(1) p(2,1)] p
      next_inner_nest [of p False host] assms(1) by (auto simp: good_def)
qed

text \<open>
  After a damaged member a loop may take the exit of something nested deeper for its own, so it leaves
  with at least the brackets open that were open before its own: \<open>st\<close> is a prefix of the nesting.
\<close>

definition entered :: "bool list \<Rightarrow> event \<Rightarrow> jsonparser \<Rightarrow> bool" where
  "entered st ev p \<longleftrightarrow> m_nesting p = st @ (if ev = Enter_list then [False] else if ev = Enter_map then [True] else [])"

lemma entered_next:
  assumes "nest (st @ b # us) ev = Some (m_nesting q)" and "ev = Exit_list \<or> ev = Exit_map \<Longrightarrow> us \<noteq> []"
  shows "\<exists>us'. entered (st @ b # us') ev q"
proof (cases us rule: rev_cases)
  case Nil
  then show ?thesis using assms(1) [symmetric] assms(2) by (cases ev) (auto simp: entered_def split: if_splits)
next
  case (snoc ms c)
  then have "butlast (st @ b # us) = st @ b # ms" by (simp add: butlast_append)
  then show ?thesis using assms(1) [symmetric] assms(2) by (cases ev) (auto simp: entered_def split: if_splits)
qed

lemma exit_next:
  assumes "nest (st @ b # us) ev = Some (m_nesting q)" and "ev = (if b then Exit_map else Exit_list) \<or> us \<noteq> [] \<or> ev \<noteq> Exit_map \<and> ev \<noteq> Exit_list"
  shows "\<exists>us'. m_nesting q = st @ us'"
  using assms(1) [symmetric] assms(2) by (cases ev) (auto simp: butlast_append split: if_splits)

definition returns :: "bool list \<Rightarrow> jsonparser \<Rightarrow> 'a step \<Rightarrow> bool" where
  "returns st p r \<longleftrightarrow> (\<exists>v ok q us. r = Some (v, ok, q) \<and> good q \<and> m_nesting q = st @ us \<and> todo q \<le> todo p)"

lemma returns_later: "returns st q r \<Longrightarrow> todo q \<le> todo p \<Longrightarrow> returns st p r"
  by (force simp: returns_def)

lemma returnsE:
  assumes "returns st p r"
  obtains v ok q us where "r = Some (v, ok, q)" "good q" "m_nesting q = st @ us" "todo q \<le> todo p"
  using assms by (auto simp: returns_def)

lemma skip_tree_returns:
  "good p \<Longrightarrow> m_nesting p = st @ ys \<Longrightarrow> todo p < n \<Longrightarrow>
    \<exists>q. skip_tree n host (length ys) p = Some q \<and> good q \<and> m_nesting q = st \<and> todo q \<le> todo p"
proof (induction n arbitrary: p ys)
  case (Suc n)
  show ?case
  proof (cases ys rule: rev_cases)
    case Nil
    then show ?thesis using Suc.prems by simp
  next
    case (snoc zs b)
    obtain ev q where q: "next_inner False host p = (ev, q)" by fastforce
    note e = next_event [OF q Suc.prems(1)]
    have fin: "ev \<noteq> Finish" using e Suc.prems(2) snoc by auto
    define zs' where "zs' = (if ev = Enter_list then ys @ [False] else if ev = Enter_map then ys @ [True]
      else if ev = Exit_list \<or> ev = Exit_map then zs else ys)"
    have "m_nesting q = st @ zs'"
      using e Suc.prems(2) snoc by (cases ev) (auto simp: zs'_def butlast_append split: if_splits)
    then have "\<exists>r. skip_tree n host (length zs') q = Some r \<and> good r \<and> m_nesting r = st \<and> todo r \<le> todo q"
      using Suc.IH [of q zs'] e fin Suc.prems(3) by simp
    moreover have "skip_tree (Suc n) host (length ys) p = skip_tree n host (length zs') q"
      using q snoc by (auto simp: zs'_def)
    ultimately show ?thesis using e fin by (metis less_imp_le order_trans)
  qed
qed simp

lemma list_items_returns:
  assumes f: "\<And>st ev ok p. good p \<Longrightarrow> entered st ev p \<Longrightarrow> todo p < N \<Longrightarrow> returns st p (f ev ok p)"
  shows "good p \<Longrightarrow> m_nesting p = st @ False # us \<Longrightarrow> todo p < n \<Longrightarrow> n \<le> N \<Longrightarrow> returns st p (list_items f n host vs ok p)"
proof (induction n arbitrary: p vs ok us)
  case (Suc n)
  obtain ev q where q: "next_inner False host p = (ev, q)" by fastforce
  note e = next_event [OF q Suc.prems(1)]
  have nest: "nest (st @ False # us) ev = Some (m_nesting q)" using e Suc.prems(2) by simp
  then have ev: "ev \<noteq> Finish" "ev = Exit_map \<Longrightarrow> us \<noteq> []" by auto
  show ?case
  proof (cases "ev = Exit_list")
    case True
    then obtain us' where "m_nesting q = st @ us'" using exit_next [OF nest] by auto
    then show ?thesis using True e q by (auto simp: returns_def)
  next
    case False
    then obtain us' where "entered (st @ False # us') ev q" using entered_next [OF nest] ev by blast
    then have "returns (st @ False # us') q (f ev (ok \<and> ev \<noteq> Jerror) q)" using f e ev Suc.prems(3,4) by simp
    then obtain v ok' r us'' where r: "f ev (ok \<and> ev \<noteq> Jerror) q = Some (v, ok', r)" "good r"
      "m_nesting r = (st @ False # us') @ us''" "todo r \<le> todo q"
      by (rule returnsE)
    then have "returns st r (list_items f n host (vs @ [v]) ok' r)" using Suc.IH e ev Suc.prems(3,4) by simp
    then show ?thesis using q False r e ev by (auto intro: returns_later)
  qed
qed simp

lemma map_items_returns:
  assumes f: "\<And>st old ev ok p. good p \<Longrightarrow> entered st ev p \<Longrightarrow> todo p < N \<Longrightarrow> returns st p (f old ev ok p)"
  shows "good p \<Longrightarrow> m_nesting p = st @ True # us \<Longrightarrow> todo p < n \<Longrightarrow> n \<le> N \<Longrightarrow> returns st p (map_items f n host m ok p)"
proof (induction n arbitrary: p m ok us)
  case (Suc n)
  obtain ev q where q: "next_inner False host p = (ev, q)" by fastforce
  note e = next_event [OF q Suc.prems(1)]
  have nest: "nest (st @ True # us) ev = Some (m_nesting q)" using e Suc.prems(2) by simp
  then have ev: "ev \<noteq> Finish" "ev = Exit_list \<Longrightarrow> us \<noteq> []" by auto
  show ?case
  proof (cases "ev = Exit_map")
    case True
    then obtain us' where "m_nesting q = st @ us'" using exit_next [OF nest] by auto
    then show ?thesis using True e q by (auto simp: returns_def)
  next
    case False
    then obtain us' where "entered (st @ True # us') ev q" using entered_next [OF nest] ev by blast
    then obtain us1 where nest1: "m_nesting q = st @ True # us1" by (auto simp: entered_def)
    show ?thesis
    proof (cases "key_of ev")
      case None
      have "returns st q (map_items f n host m (ok \<and> ev \<noteq> Jerror) q)"
        using Suc.IH [OF _ nest1] e ev Suc.prems(3,4) by simp
      then show ?thesis using q False None e ev by (auto intro: returns_later)
    next
      case (Some key)
      obtain ev1 q1 where q1: "next_inner False host q = (ev1, q1)" by fastforce
      have "good q" using e by simp
      note e1 = next_event [OF q1 this]
      have key: "\<not> m_want_key q" "last (m_nesting q)" "m_nesting q \<noteq> []"
        using next_inner_key(2) [OF q] Suc.prems(1) Some by (auto simp: good_def)
      then have ev1: "ev1 \<noteq> Exit_list" "ev1 \<noteq> Exit_map" "ev1 \<noteq> Finish"
        using next_inner_key(3) [OF q1] e e1 by (auto simp: good_def)
      then obtain us2 where "entered (st @ True # us2) ev1 q1" using entered_next [of st True us1] e1 nest1 by auto
      moreover have "todo q1 < N" using e e1 ev ev1 Suc.prems(3,4) by simp
      ultimately have "returns (st @ True # us2) q1 (f old ev1 ok q1)" for old using f e1 by blast
      then obtain v ok' r us3 where r: "f (case map_of m key of Some v \<Rightarrow> v | None \<Rightarrow> JUnset) ev1 ok q1 = Some (v, ok', r)"
        "good r" "m_nesting r = (st @ True # us2) @ us3" "todo r \<le> todo q1"
        by (rule returnsE)
      then have "returns st r (map_items f n host (AList.update key v m) ok' r)" using Suc.IH e e1 ev ev1 Suc.prems(3,4) by simp
      then show ?thesis using q q1 False Some r e e1 ev ev1 by (auto intro: returns_later)
    qed
  qed
qed simp

lemma construct_returns:
  "good p \<Longrightarrow> entered st ev p \<Longrightarrow> todo p < n \<Longrightarrow> returns st p (construct d n host old ev ok p)"
proof (induction d arbitrary: st old ev ok p)
  case 0
  have simple: "simple_value ev \<noteq> None \<or> ev \<noteq> Enter_list \<and> ev \<noteq> Enter_map \<Longrightarrow> m_nesting p = st"
    using 0(2) by (cases ev) (auto simp: entered_def simple_value_def)
  have deep: "\<exists>b. m_nesting p = st @ [b]" if "ev = Enter_list \<or> ev = Enter_map" using 0(2) that by (auto simp: entered_def)
  show ?case
  proof (cases "ev = Enter_list \<or> ev = Enter_map")
    case True
    then obtain b where "m_nesting p = st @ [b]" using deep by blast
    then obtain q where "skip_tree n host 1 p = Some q" "good q" "m_nesting q = st" "todo q \<le> todo p"
      using skip_tree_returns [of p st "[b]" n host] 0 by auto
    then show ?thesis using True by (auto simp: returns_def simple_value_def)
  next
    case False
    then show ?thesis using simple 0(1) by (auto simp: returns_def split: option.split)
  qed
next
  case (Suc d)
  have f: "returns st p (construct d n host old ev ok p)" if "good p" "entered st ev p" "todo p < n" for st old ev ok p
    using Suc.IH that by blast
  consider "ev = Enter_list" | "ev = Enter_map" | "ev \<noteq> Enter_list" "ev \<noteq> Enter_map" by blast
  then show ?case
  proof cases
    case 1
    then have "m_nesting p = st @ False # []" using Suc.prems(2) by (simp add: entered_def)
    then have "returns st p (list_items (construct d n host JUnset) n host [] ok p)"
      using list_items_returns [of n "construct d n host JUnset" p st "[]" n host "[]" ok] f Suc.prems by blast
    then show ?thesis using 1 by (auto simp: returns_def simple_value_def)
  next
    case 2
    then have "m_nesting p = st @ True # []" using Suc.prems(2) by (simp add: entered_def)
    then have "returns st p (map_items (construct d n host) n host [] ok p)"
      using map_items_returns [of n "construct d n host" p st "[]" n host "[]" ok] f Suc.prems by blast
    then show ?thesis using 2 by (auto simp: returns_def simple_value_def)
  next
    case 3
    then have "m_nesting p = st" using Suc.prems(2) by (simp add: entered_def)
    then show ?thesis using 3 Suc.prems(1) by (auto simp: returns_def split: option.split)
  qed
qed

lemma json_init_good:
  assumes "json = [] \<or> last json \<noteq> 0x2D"
  shows "good (json_init False json)"
proof -
  have "key_inv (json_init False json)" by (simp add: key_inv_def json_init_def skip_strict Let_def)
  then show ?thesis using json_init_inside [OF assms] by (simp add: good_def)
qed

lemma parse_total:
  assumes "s = [] \<or> last s \<noteq> 0x2D"
  shows "\<exists>ret v. json_parse (8 * length s + 4) host old s = Some (ret, v) \<and> (\<not> ret \<longrightarrow> v = JError)"
proof -
  let ?n = "8 * length s + 4" and ?p = "json_init False s"
  have p: "good ?p" "m_nesting ?p = []" "todo ?p < ?n" using json_init_good [OF assms] json_init_inside [OF assms] by simp_all
  obtain ev q where q: "next_inner False host ?p = (ev, q)" by fastforce
  note e = next_event [OF q p(1)]
  have "todo q < ?n"
  proof (cases "ev = Finish")
    case True
    then have "m_nesting q = []" "length (m_data q) = length s"
      using e p next_inner_progress [OF q] json_init_inside [OF assms] by (auto simp: good_def adv_def split: if_splits)
    moreover have "8 * (length s - m_at q) \<le> 8 * length s" by simp
    ultimately show ?thesis by (auto simp: todo_def simp del: mult_le_mono2 intro: le_less_trans)
  qed (use e p(3) in simp)
  moreover have "entered [] ev q" using e p(2) by (cases ev) (auto simp: entered_def split: if_splits)
  ultimately have "returns [] q (construct 1000 ?n host old ev True q)" using construct_returns e by blast
  then obtain v ok r us where "construct 1000 ?n host old ev True q = Some (v, ok, r)" by (rule returnsE)
  then show ?thesis using q by (auto simp: json_parse_def split: prod.split)
qed

text \<open>
  C15. Parsing a document into a tree always returns: unless the document ends in a minus sign, each of its
  loops is left after at most \<open>8 n + 4\<close> events, \<open>n\<close> the length of the document, however damaged
  and however deeply nested the document is. A refused document leaves the error value behind.
\<close>

theorem json_parse_returns:
  assumes "s = [] \<or> last s \<noteq> 0x2D"
  shows "\<exists>ret v. json_parse (8 * length s + 4) host old s = Some (ret, v) \<and> (\<not> ret \<longrightarrow> v = JError)"
  using parse_total [OF assms] .

lemma json_parse_returns_witness:
  "last [0x5B, 0x2D, 0x2C :: byte] \<noteq> 0x2D \<and> (\<exists>ret v. json_parse 28 False JUnset [0x5B, 0x2D, 0x2C] = Some (ret, v) \<and> (\<not> ret \<longrightarrow> v = JError))"
  using json_parse_returns [of "[0x5B, 0x2D, 0x2C]" False JUnset] by simp

text \<open>
  C33. The accessors of a value agree with each other whatever the value holds: what is put at a key or an index is
  what is found there, everything else at other keys and indices stays as it was, a value of another type reads as empty and
  becomes an empty list or map when it is indexed for writing, an index beyond the end of the list
  aborts; and integers assigned to a value are read back, over the whole range of their type.
\<close>

theorem json_accessors:
  "at_key (with_key k f v) k' = (if k' = k then f (at_key v k) else at_key v k') \<and>
   (case with_index i f v of
      None \<Rightarrow> length (list_value v) < i
    | Some v' \<Rightarrow> i \<le> length (list_value v) \<and> at_index v' j = (if j = i then f (at_index v i) else at_index v j)) \<and>
   num_unsigned_value (of_unsigned n) = n \<and> num_signed_value (of_signed m) = m \<and> eq_str (of_str s) s"
proof -
  have list: "list_value (become_list v) = list_value v" "at_index v a = (if a < length (list_value v) then list_value v ! a else JUnset)" for a
    by (simp_all add: become_list_def list_value_def at_index_def split: jsonw.split)
  have "at_key (with_key k f v) k' = (if k' = k then f (at_key v k) else at_key v k')"
    by (simp add: with_key_def at_key_def become_map_def assoc_value_def update_conv split: jsonw.split)
  moreover have "case with_index i f v of
      None \<Rightarrow> length (list_value v) < i
    | Some v' \<Rightarrow> i \<le> length (list_value v) \<and> at_index v' j = (if j = i then f (at_index v i) else at_index v j)"
    by (auto simp: with_index_def list Let_def at_index_def [of "JList _"] nth_append)
  moreover have "num_unsigned_value (of_unsigned n) = n" "num_signed_value (of_signed m) = m" "eq_str (of_str s) s"
    by (simp_all add: num_unsigned_value_def of_unsigned_def num_signed_value_def of_signed_def decimal_roundtrip
      eq_str_def str_value_def of_str_def)
  ultimately show ?thesis by blast
qed

end
