(* ===== verification/Json_Text.thy ===== *)
theory Json_Text
  imports Json_Value
begin

text \<open>
  The parser on the texts the writer produces: what strings, numbers and brackets that are still to be read do
  to its state. This is the part of the round trip proof that deals with bytes.
\<close>

subsection \<open>Strings\<close>

lemma rd_shift: "rd d (i + k) = rd (drop i d) k"
  by (auto simp: rd_def add.commute)

lemma rd_Cons [simp]: "rd (c # r) 0 = c" "rd (c # r) (Suc k) = rd r k"
  by (simp_all add: rd_def)

lemma rd_0: "drop i d = c # r \<Longrightarrow> rd d i = c"
  using rd_shift [of d i 0] by simp

lemma drop_step: "drop i d = xs @ r \<Longrightarrow> drop (i + length xs) d = r"
  by (metis append_eq_conv_conj drop_drop add.commute)

lemma drop_step1: "drop i d = c # r \<Longrightarrow> drop (i + 1) d = r"
  using drop_step [of i d "[c]" r] by simp

lemma plain_byte: "\<not> must_escape c \<Longrightarrow> 0x20 \<le> c \<and> c \<noteq> 0x22 \<and> c \<noteq> 0x5C"
proof -
  have "list_all (\<lambda>c. \<not> must_escape c \<longrightarrow> 0x20 \<le> c \<and> c \<noteq> 0x22 \<and> c \<noteq> 0x5C) (map word_of_nat [0..<256])"
    unfolding must_escape_def by code_simp
  then show "\<not> must_escape c \<Longrightarrow> ?thesis" using bytes_between [OF _ le0 unat_byte] by blast
qed

text \<open>What the parser makes of a two byte escape.\<close>

definition unescape :: "byte \<Rightarrow> byte" where
  "unescape x = (if x = 0x62 then 0x08 else if x = 0x66 then 0x0C else if x = 0x6E then 0x0A
     else if x = 0x72 then 0x0D else if x = 0x74 then 0x09 else x)"

definition two_byte_escape :: "byte \<Rightarrow> bool" where
  "two_byte_escape x = (x = 0x62 \<or> x = 0x66 \<or> x = 0x6E \<or> x = 0x72 \<or> x = 0x74 \<or> x = 0x22 \<or> x = 0x5C)"

definition escapes_ok :: "byte \<Rightarrow> bool" where
  "escapes_ok c =
     (case escape_seq c of
        [s, x] \<Rightarrow> s = 0x5C \<and> two_byte_escape x \<and> unescape x = c
      | [s, u, h1, h2, h3, h4] \<Rightarrow> s = 0x5C \<and> u = 0x75 \<and> c \<le> 0x7F \<and>
          fromstring_hex [h1, h2, h3, h4] = (True, ucast c :: u32) \<and> \<not> must_escape h1 \<and> \<not> must_escape h2 \<and>
          \<not> must_escape h3 \<and> \<not> must_escape h4
      | _ \<Rightarrow> False)"

lemma must_escape_cases: "must_escape c \<Longrightarrow> unat c < 32 \<or> c = 0x22 \<or> c = 0x5C \<or> c = 0x7F"
proof -
  have "list_all (\<lambda>c. must_escape c \<longrightarrow> c < 32 \<or> c = 0x22 \<or> c = 0x5C \<or> c = 0x7F) (map word_of_nat [0..<256])"
    unfolding must_escape_def by code_simp
  then have "must_escape c \<Longrightarrow> c < 32 \<or> c = 0x22 \<or> c = 0x5C \<or> c = 0x7F" using bytes_between [OF _ le0 unat_byte] by blast
  then show "must_escape c \<Longrightarrow> ?thesis" by (simp add: word_less_nat_alt)
qed

lemma escapes_ok:
  assumes "must_escape c"
  shows "escapes_ok c"
proof -
  have "list_all escapes_ok (map word_of_nat [0..<32])" by code_simp
  then have "unat c < 32 \<Longrightarrow> escapes_ok c" by (rule bytes_between [OF _ le0])
  moreover have "escapes_ok 0x22 \<and> escapes_ok 0x5C \<and> escapes_ok 0x7F" by code_simp
  ultimately show ?thesis using must_escape_cases [OF assms] by blast
qed

lemma escape_seq_cases:
  assumes "must_escape c"
  obtains (two) x where "escape_seq c = [0x5C, x]" "two_byte_escape x" "unescape x = c"
  | (unicode) h1 h2 h3 h4 where "escape_seq c = [0x5C, 0x75, h1, h2, h3, h4]" "c \<le> 0x7F"
    "fromstring_hex [h1, h2, h3, h4] = (True, ucast c :: u32)"
    "\<not> must_escape h1" "\<not> must_escape h2" "\<not> must_escape h3" "\<not> must_escape h4"
  using escapes_ok [OF assms] unfolding escapes_ok_def
  by (auto split: list.splits)

abbreviation escaped :: "bytes \<Rightarrow> bytes" where
  "escaped s \<equiv> concat (map escape_byte s)"

lemma escape_byte_cases:
  "\<not> must_escape c \<Longrightarrow> escape_byte c = [c]" "must_escape c \<Longrightarrow> escape_byte c = escape_seq c"
  by (simp_all add: escape_byte_def)

lemma scan_plain:
  assumes "drop at d = c # r" and "\<not> must_escape c"
  shows "scan_string False d 0x22 at err = scan_string False d 0x22 (at + 1) err"
proof -
  have "0x20 \<le> c" "c \<noteq> 0x22" "c \<noteq> 0x5C" using plain_byte [OF assms(2)] by simp_all
  moreover from this(1) have "\<not> c < 0x20" "c \<noteq> 0x0A" "c \<noteq> 0x0D" "c \<noteq> 0" by auto
  ultimately show ?thesis using rd_0 [OF assms(1)] by (subst scan_string.simps) (simp add: Let_def)
qed

lemma scan_pair:
  assumes "drop at d = 0x5C # x # r" and "x \<noteq> 0" and "x \<noteq> 0x0D"
  shows "scan_string False d 0x22 at err = scan_string False d 0x22 (at + 2) err"
  using rd_shift [of d at 0] rd_shift [of d at 1] assms by (subst scan_string.simps) (simp add: Let_def)

lemma scan_escaped:
  "drop at d = escaped s @ 0x22 # r \<Longrightarrow> scan_string False d 0x22 at err = (at + length (escaped s), err)"
proof (induction s arbitrary: at)
  case Nil
  then have "rd d at = 0x22" by (simp add: rd_0)
  then show ?case by (subst scan_string.simps) (simp add: Let_def)
next
  case (Cons c s)
  show ?case
  proof (cases "must_escape c")
    case False
    then have d: "drop at d = c # escaped s @ 0x22 # r" using Cons.prems by (simp add: escape_byte_cases)
    then show ?thesis using scan_plain [OF d False] Cons.IH [OF drop_step1 [OF d]] False by (simp add: escape_byte_cases)
  next
    case True
    then show ?thesis
    proof (cases rule: escape_seq_cases)
      case (two x)
      then have d: "drop at d = 0x5C # x # escaped s @ 0x22 # r" using Cons.prems True by (simp add: escape_byte_cases)
      have "x \<noteq> 0" "x \<noteq> 0x0D" using two(2) by (auto simp: two_byte_escape_def)
      then show ?thesis
        using scan_pair [OF d] Cons.IH [of "at + 2"] drop_step [of at d "[0x5C, x]"] d two(1) True by (simp add: escape_byte_cases)
    next
      case (unicode h1 h2 h3 h4)
      then have d: "drop at d = 0x5C # 0x75 # h1 # h2 # h3 # h4 # escaped s @ 0x22 # r" using Cons.prems True by (simp add: escape_byte_cases)
      have d2: "drop (at + 2) d = h1 # h2 # h3 # h4 # escaped s @ 0x22 # r" using drop_step [of at d "[0x5C, 0x75]"] d by simp
      note d3 = drop_step1 [OF d2] note d4 = drop_step1 [OF d3] note d5 = drop_step1 [OF d4] note d6 = drop_step1 [OF d5]
      have "scan_string False d 0x22 at err = scan_string False d 0x22 (at + 2 + 1 + 1 + 1 + 1) err"
        using scan_pair [OF d] scan_plain [OF d2] scan_plain [OF d3] scan_plain [OF d4] scan_plain [OF d5] unicode by simp
      then show ?thesis using Cons.IH [OF d6] unicode(1) True by (simp add: escape_byte_cases)
    qed
  qed
qed

lemma decode_escape_seq:
  assumes "must_escape c" and "drop slash d = escape_seq c @ t" and "out \<le> slash"
  shows "decode_escape False host d out slash err = (blit d out [c], out + 1, slash + length (escape_seq c), err)"
  using assms(1)
proof (cases rule: escape_seq_cases)
  case (two x)
  then have "rd d (slash + 1) = x" using rd_shift [of d slash 1] assms(2) by simp
  moreover have "x \<noteq> 0x75" "\<not> isdigit x" using two(2) by (auto simp: two_byte_escape_def isdigit_def)
  ultimately show ?thesis
    using two by (auto simp: decode_escape_def put_byte_def Let_def two_byte_escape_def unescape_def)
next
  case (unicode h1 h2 h3 h4)
  have rd: "rd d (slash + k) = rd (0x5C # 0x75 # h1 # h2 # h3 # h4 # t) k" for k
    using rd_shift [of d slash k] assms(2) unicode by simp
  have "[slash + 2..<slash + 2 + 4] = [slash + 2, slash + 3, slash + 4, slash + 5]" by (simp add: upt_rec)
  then have digits: "map (rd d) [slash + 2..<slash + 2 + 4] = [h1, h2, h3, h4]"
    using rd [of 2] rd [of 3] rd [of 4] rd [of 5] by (simp add: numeral_eq_Suc)
  have "list_all (\<lambda>c. (ucast c :: u32) \<le> 0x7F \<and> \<not> 0xD800 \<le> (ucast c :: u32) \<and> ucast (ucast c :: u32) = c)
    (map word_of_nat [0..<128] :: bytes)" by code_simp
  moreover have "unat c < 128" using unicode(2) by (simp add: word_le_nat_alt)
  ultimately have c: "(ucast c :: u32) \<le> 0x7F" "\<not> 0xD800 \<le> (ucast c :: u32)" "ucast (ucast c :: u32) = c" using bytes_between [OF _ le0] by blast+
  have u: "rd d (slash + 1) = 0x75" using rd [of 1] by simp
  have uni: "decode_unicode d slash = Some (ucast c, slash + 6)"
    unfolding decode_unicode_def Let_def u if_P [OF refl] digits unicode(3) prod.case using c by simp
  have "slash < length d" using assms(2) unicode(1) by (cases "slash < length d") simp_all
  then have out: "out < length d" using assms(3) by simp
  have "drop out d = d ! out # drop (out + 1) d" using out by (simp add: Cons_nth_drop_Suc)
  then have "codepoint_put host (drop out d) (ucast c) = (c # drop (out + 1) d, 1)" using c(1,3) by (simp add: codepoint_put_def)
  then have "put_codepoint host d out (ucast c) = (blit d out [c], out + 1)" by (simp add: put_codepoint_def blit_def)
  then show ?thesis using uni unicode(1) u by (simp add: decode_escape_def Let_def)
qed

lemma escaped_run: "takeWhile (\<lambda>b. b \<noteq> 0x5C) (escaped s) = takeWhile (\<lambda>c. \<not> must_escape c) s"
proof (induction s)
  case (Cons c s)
  show ?case
  proof (cases "must_escape c")
    case True
    then show ?thesis by (cases rule: escape_seq_cases) (simp_all add: escape_byte_cases True)
  next
    case False
    then show ?thesis using Cons plain_byte [OF False] by (simp add: escape_byte_cases)
  qed
qed simp

lemma escaped_split: "escaped s = takeWhile (\<lambda>c. \<not> must_escape c) s @ escaped (dropWhile (\<lambda>c. \<not> must_escape c) s)"
  by (induction s) (simp_all add: escape_byte_cases)

lemma take_blit_end: "out + length xs \<le> length d \<Longrightarrow> take (out + length xs) (blit d out xs) = take out d @ xs"
  by (simp add: blit_def)

lemma decode_escaped:
  assumes "drop inp d = escaped s @ t" and "t \<noteq> []" and "out \<le> inp"
  shows "\<exists>d'. decode_loop False host d out inp (inp + length (escaped s)) err = (d', out + length s, err) \<and>
    take (out + length s) d' = take out d @ s"
  using assms
proof (induction "length s" arbitrary: s inp out d rule: less_induct)
  case less
  let ?fin = "inp + length (escaped s)"
  define run where "run = takeWhile (\<lambda>c. \<not> must_escape c) s"
  define rest where "rest = dropWhile (\<lambda>c. \<not> must_escape c) s"
  define slash where "slash = inp + length run"
  define d1 where "d1 = blit d out run"
  have split: "escaped s = run @ escaped rest" "s = run @ rest" by (simp_all add: run_def rest_def flip: escaped_split)
  have slice: "slice inp (?fin - inp) d = escaped s" using less.prems(1) by (simp add: slice_def)
  have run: "takeWhile (\<lambda>c. c \<noteq> 0x5C) (slice inp (?fin - inp) d) = run" unfolding slice escaped_run run_def ..
  have len: "length d = inp + length (escaped s) + length t"
  proof -
    have "inp \<le> length d" using less.prems(1,2) by (metis append_is_Nil_conv drop_all linear)
    then show ?thesis using arg_cong [OF less.prems(1), of length] by simp
  qed
  have frame: "length d1 = length d" "drop slash d1 = drop slash d"
    using blit_frame [of out inp run d] less.prems(3) len split(1) by (simp_all add: d1_def slash_def)
  have drop: "drop slash d1 = escaped rest @ t"
    using drop_step [of inp d run "escaped rest @ t"] less.prems(1) split frame(2) by (simp add: slash_def)
  have take: "take (out + length run) d1 = take out d @ run"
    unfolding d1_def by (rule take_blit_end) (use less.prems(3) len split in simp)
  have loop: "decode_loop False host d out inp ?fin err =
     (if ?fin \<le> slash then (d1, out + length run, err)
      else if rd d1 (slash + 1) = 0 then (d1, out + length run, True)
      else let (d, out, inp, err) = decode_escape False host d1 (out + length run) slash err
        in decode_loop False host d out inp ?fin err)"
    by (simp only: decode_loop.simps [of False host d] run slash_def [symmetric] d1_def [symmetric] Let_def)
  show ?case
  proof (cases rest)
    case Nil
    then have "?fin \<le> slash" "s = run" using split by (simp_all add: slash_def)
    then show ?thesis using loop take by auto
  next
    case (Cons c s')
    then have c: "must_escape c" using hd_dropWhile [of "\<lambda>c. \<not> must_escape c" s] by (auto simp: rest_def)
    have fin: "?fin = slash + length (escape_seq c) + length (escaped s')"
      using split Cons c by (simp add: slash_def escape_byte_cases)
    have d1: "drop slash d1 = escape_seq c @ escaped s' @ t" using drop Cons c by (simp add: escape_byte_cases)
    have two: "2 \<le> length (escape_seq c)" "rd d1 (slash + 1) \<noteq> 0"
      using c rd_shift [of d1 slash 1] d1 by (cases rule: escape_seq_cases; auto simp: two_byte_escape_def)+
    have out1: "out + length run \<le> slash" using less.prems(3) by (simp add: slash_def)
    define d2 where "d2 = blit d1 (out + length run) [c]"
    have esc: "decode_escape False host d1 (out + length run) slash err = (d2, out + length run + 1, slash + length (escape_seq c), err)"
      unfolding d2_def by (rule decode_escape_seq [OF c d1 out1])
    have lens: "slash + 2 \<le> length d1" using frame(1) len fin two(1) by simp
    have "drop (slash + 1) d2 = drop (slash + 1) d1"
      using blit_frame [of "out + length run" slash "[c]" d1] out1 lens by (simp add: d2_def)
    then have "drop (slash + length (escape_seq c)) d2 = drop (slash + length (escape_seq c)) d1"
      using two(1) by (metis Suc_1 Suc_le_lessD add.commute add_le_cancel_left drop_drop le_add_diff_inverse2 less_imp_le_nat)
    then have drop2: "drop (slash + length (escape_seq c)) d2 = escaped s' @ t" using drop_step [OF d1] by simp
    have take2: "take (out + length run + 1) d2 = take out d @ run @ [c]"
      using take_blit_end [of "out + length run" "[c]" d1] take out1 lens by (simp add: d2_def)
    have "length s' < length s" using split(2) Cons by simp
    from less.hyps [OF this drop2 less.prems(2), of "out + length run + 1"] obtain d' where
      d': "decode_loop False host d2 (out + length run + 1) (slash + length (escape_seq c)) ?fin err =
          (d', out + length run + 1 + length s', err)"
        "take (out + length run + 1 + length s') d' = take (out + length run + 1) d2 @ s'"
      using out1 two(1) by (auto simp: fin)
    have "decode_loop False host d out inp ?fin err = (d', out + length run + 1 + length s', err)"
    proof -
      have "\<not> ?fin \<le> slash" using fin two(1) by linarith
      then show ?thesis using loop esc d'(1) two(2) by simp
    qed
    moreover have "out + length s = out + length run + 1 + length s'" using split(2) Cons by simp
    moreover have "take (out + length run + 1 + length s') d' = take out d @ s" using d'(2) take2 split(2) Cons by simp
    ultimately show ?thesis by metis
  qed
qed

lemma decode_string:
  assumes "drop start (m_data p) = escaped s @ t" and "t \<noteq> []"
  shows "\<exists>p'. decode_backslashes False host start (length (escaped s)) p = (s, p') \<and> m_need_error p' = m_need_error p"
proof -
  have slice: "slice start (length (escaped s)) (m_data p) = escaped s" using assms(1) by (simp add: slice_def)
  show ?thesis
  proof (cases "0x5C \<in> set (escaped s)")
    case True
    obtain d' where d: "decode_loop False host (m_data p) start start (start + length (escaped s)) (m_need_error p) =
        (d', start + length s, m_need_error p)" "take (start + length s) d' = take start (m_data p) @ s"
      using decode_escaped [OF assms order_refl] by blast
    have "start \<le> length (m_data p)" using assms by (metis append_is_Nil_conv drop_all linear)
    then have "slice start (length s) d' = s"
      using arg_cong [OF d(2), of "drop start"] by (simp add: slice_def drop_take)
    then show ?thesis using True d(1) by (simp add: decode_backslashes_def slice Let_def)
  next
    case False
    then have "takeWhile (\<lambda>b. b \<noteq> 0x5C) (escaped s) = escaped s" by (auto simp: takeWhile_eq_all_conv)
    then have "escaped s = takeWhile (\<lambda>c. \<not> must_escape c) s" by (simp add: escaped_run)
    moreover from this have "escaped s = s"
    proof (cases "dropWhile (\<lambda>c. \<not> must_escape c) s")
      case Nil
      then show ?thesis using concat_plain [of s] by (simp add: dropWhile_eq_Nil_conv)
    next
      case (Cons c r)
      then have m: "must_escape c" using hd_dropWhile [of "\<lambda>c. \<not> must_escape c" s] by auto
      then have "0x5C \<in> set (escape_byte c)" by (cases rule: escape_seq_cases) (simp_all add: escape_byte_cases m)
      then show ?thesis using escaped_split [of s] False Cons by auto
    qed
    ultimately show ?thesis using False slice by (simp add: decode_backslashes_def)
  qed
qed

subsection \<open>The parser on what is left of the text\<close>

definition remaining :: "jsonparser \<Rightarrow> bytes" where
  "remaining p = drop (m_at p) (m_data p)"

definition ready :: "jsonparser \<Rightarrow> bytes \<Rightarrow> bool list \<Rightarrow> bool" where
  "ready p r st \<longleftrightarrow> remaining p = r \<and> m_at p \<le> length (m_data p) \<and> m_nesting p = st \<and> \<not> m_need_error p"

definition spaces :: "bytes \<Rightarrow> bool" where
  "spaces ws \<longleftrightarrow> (\<forall>c \<in> set ws. isspace c)"

text \<open>What may follow a value inside the brackets \<open>st\<close>, and what is left when it has been skipped.\<close>

definition follow :: "bool list \<Rightarrow> bytes \<Rightarrow> bytes \<Rightarrow> bool" where
  "follow st r r' \<longleftrightarrow>
     (if st = [] then r = [] \<and> r' = []
      else rd r 0 \<in> {0x5D, 0x7D} \<and> r' = r \<or>
        (\<exists>ws. r = 0x2C # ws @ r' \<and> spaces ws \<and> r' \<noteq> [] \<and> \<not> isspace (hd r') \<and> hd r' \<notin> {0x5D, 0x7D}))"

lemma rd_remaining: "rd (m_data p) (m_at p + k) = rd (remaining p) k" "rd (m_data p) (m_at p) = rd (remaining p) 0"
  using rd_shift [of "m_data p" "m_at p" k] rd_shift [of "m_data p" "m_at p" 0] by (simp_all add: remaining_def)

lemma remaining_move: "remaining (p\<lparr>m_at := m_at p + k\<rparr>) = drop k (remaining p)"
  by (simp add: remaining_def add.commute)

lemma ready_move:
  assumes "ready p (xs @ r) st" and "m_at q = m_at p + length xs" and "m_data q = m_data p" and "m_nesting q = st'" and "\<not> m_need_error q"
  shows "ready q r st'"
proof -
  have "length (m_data p) - m_at p = length xs + length r" using assms(1) by (metis length_append length_drop ready_def remaining_def)
  then have "m_at p + length xs \<le> length (m_data p)" using assms(1) by (auto simp: ready_def)
  then show ?thesis using assms drop_step [of "m_at p" "m_data p" xs r] by (simp add: ready_def remaining_def)
qed

lemma takeWhile_spaces: "spaces ws \<Longrightarrow> \<not> isspace (rd r 0) \<Longrightarrow> takeWhile isspace (ws @ r) = ws"
  by (induction ws) (auto simp: spaces_def rd_def takeWhile_eq_Nil_iff hd_conv_nth split: if_splits)

lemma skip_ready:
  assumes "ready p (ws @ r) st" and "spaces ws" and "\<not> isspace (rd r 0)"
  shows "skip False p = p\<lparr>m_at := m_at p + length ws\<rparr> \<and> ready (skip False p) r st"
proof -
  have "skip False p = p\<lparr>m_at := m_at p + length ws\<rparr>"
    using assms takeWhile_spaces [OF assms(2,3)] by (simp add: skip_strict span_end_def ready_def remaining_def)
  then show ?thesis using ready_move [OF assms(1), of "p\<lparr>m_at := m_at p + length ws\<rparr>" st] assms(1) by (simp add: ready_def)
qed

lemma isspace_values: "isspace 0x20" "isspace 0x0A" "\<not> isspace 0" "\<not> isspace 0x2C" "\<not> isspace 0x5D" "\<not> isspace 0x7D" "\<not> isspace 0x3A"
  by (simp_all add: isspace_iff)

lemma skip_nothing: "ready p r st \<Longrightarrow> \<not> isspace (rd r 0) \<Longrightarrow> skip False p = p"
  using skip_ready [of p "[]" r st] by (simp add: spaces_def)

lemma at_end: "ready p r st \<Longrightarrow> (m_at p = length (m_data p)) = (r = [])"
  by (auto simp: ready_def remaining_def)

text \<open>Behind the outermost value nothing is wanted, whatever the flag says.\<close>

definition wants :: "bool list \<Rightarrow> jsonparser \<Rightarrow> bool" where
  "wants st p \<longleftrightarrow> (st \<noteq> [] \<longrightarrow> m_want_key p = last st)"

lemma prepare_follow:
  assumes "ready p r st" and "follow st r r'"
  shows "\<exists>q. prepare_next False ev 0 p = (ev, q) \<and> ready q r' st \<and> wants st q"
proof (cases "st = []")
  case True
  then have r: "r = []" "r' = []" using assms(2) by (simp_all add: follow_def)
  then have "skip False p = p" using skip_nothing [OF assms(1)] by (simp add: rd_def isspace_values)
  moreover have "m_at p = length (m_data p)" using at_end [OF assms(1)] r by simp
  moreover have "p\<lparr>m_at := m_at p + 0\<rparr> = p" by simp
  ultimately have "prepare_next False ev 0 p = (ev, p)"
    using assms(1) True unfolding prepare_next_def Let_def ready_def by (simp only: split: if_split) simp
  then show ?thesis using assms r True by (simp add: wants_def)
next
  case False
  show ?thesis
  proof (cases "rd r 0 \<in> {0x5D, 0x7D}")
    case True
    then have skip: "skip False p = p" using skip_nothing [OF assms(1)] by (auto simp: isspace_values)
    have "r' = r" using assms(2) False True by (auto simp: follow_def)
    moreover have "rd (m_data p) (m_at p) \<in> {0x5D, 0x7D}" using True assms(1) by (simp add: rd_remaining ready_def)
    ultimately show ?thesis
      using skip assms(1) False by (auto simp: prepare_next_def Let_def ready_def remaining_def wants_def)
  next
    case no: False
    then obtain ws where ws: "r = 0x2C # ws @ r'" "spaces ws" "r' \<noteq> []" "\<not> isspace (hd r')" "hd r' \<notin> {0x5D, 0x7D}"
      using assms(2) False by (auto simp: follow_def)
    then have hd: "rd r' 0 = hd r'" by (cases r') simp_all
    have skip: "skip False p = p" using skip_nothing [OF assms(1)] ws(1) by (simp add: isspace_values)
    have comma: "rd (m_data p) (m_at p) = 0x2C" using assms(1) ws(1) by (simp add: rd_remaining ready_def)
    let ?p1 = "p\<lparr>m_at := m_at p + 1\<rparr>"
    have p1: "ready ?p1 (ws @ r') st"
      using ready_move [of p "[0x2C]" "ws @ r'" st ?p1 st] assms(1) ws(1) by (simp add: ready_def)
    let ?q = "skip False ?p1"
    have q: "ready ?q r' st" using skip_ready [OF p1 ws(2)] ws(4) hd by metis
    then have "rd (m_data ?q) (m_at ?q) = hd r'" using hd unfolding ready_def rd_remaining(2) by simp
    then have "prepare_next False ev 0 p = (ev, ?q\<lparr>m_want_key := last st\<rparr>)"
      using skip comma False ws(5) assms(1) by (simp add: prepare_next_def Let_def ready_def)
    then show ?thesis using q False by (simp add: ready_def remaining_def wants_def)
  qed
qed

lemma word4:
  assumes "length bs = 4" and "le_word bs = (x :: u32)"
  shows "(i + 4 \<le> length d \<and> readu_le32 host (drop i d) = x) = (take 4 (drop i d) = bs)"
proof
  assume a: "i + 4 \<le> length d \<and> readu_le32 host (drop i d) = x"
  then have "4 \<le> length (drop i d)" by auto
  then have "le_word (take 4 (drop i d)) = (le_word bs :: u32)" using a assms(2) readu_words(3) [of "drop i d" host] by simp
  then have "le_bytes 4 (le_word (take 4 (drop i d)) :: u32) = le_bytes 4 (le_word bs :: u32)" by simp
  moreover have "length (take 4 (drop i d)) = 4" using a by auto
  ultimately show "take 4 (drop i d) = bs"
    using assms(1) le_bytes_le_word [where 'a = 32 and k = 4 and bs = "take 4 (drop i d)"]
      le_bytes_le_word [where 'a = 32 and k = 4 and bs = bs] by simp
next
  assume t: "take 4 (drop i d) = bs"
  then have "4 \<le> length d - i" using assms(1) by (metis length_drop length_take min.absorb_iff2)
  then show "i + 4 \<le> length d \<and> readu_le32 host (drop i d) = x" using t assms(2) by (simp add: readu_words)
qed

lemma literal_words:
  "le_word [0x74, 0x72, 0x75, 0x65] = (0x65757274 :: u32)" "le_word [0x61, 0x6C, 0x73, 0x65] = (0x65736C61 :: u32)"
  "le_word [0x6E, 0x75, 0x6C, 0x6C] = (0x6C6C756E :: u32)"
  by code_simp+

text \<open>\<open>next_value\<close> where the text is known.\<close>

lemma next_value_text:
  "next_value False host p =
     (let r = remaining p; c = rd r 0 in
      if c = 0x7B then (Enter_map, p\<lparr>m_at := m_at p + 1, m_want_key := True, m_nesting := m_nesting p @ [True]\<rparr>)
      else if c = 0x5B then (Enter_list, p\<lparr>m_at := m_at p + 1, m_nesting := m_nesting p @ [False]\<rparr>)
      else if c = 0x5D then close_bracket False False p
      else if c = 0x22 then
        let (start, len, p) = parse_str False p; (str, p) = decode_backslashes False host start len p
        in prepare_next False (Jstr str) 0 p
      else if take 4 r = [0x74, 0x72, 0x75, 0x65] then prepare_next False Jtrue 4 p
      else if take 4 (drop 1 r) = [0x61, 0x6C, 0x73, 0x65] then prepare_next False Jfalse 5 p
      else if take 4 r = [0x6E, 0x75, 0x6C, 0x6C] then prepare_next False Jnull 4 p
      else parse_num False host p)"
proof -
  let ?d = "m_data p" and ?r = "remaining p"
  have a: "(m_at p + 4 \<le> length ?d \<and> readu_le32 host (drop (m_at p) ?d) = 0x65757274) = (take 4 ?r = [0x74, 0x72, 0x75, 0x65])"
    unfolding remaining_def by (rule word4 [OF _ literal_words(1)]) simp
  have "(m_at p + 1 + 4 \<le> length ?d \<and> readu_le32 host (drop (m_at p + 1) ?d) = 0x65736C61) =
      (take 4 (drop (m_at p + 1) ?d) = [0x61, 0x6C, 0x73, 0x65])"
    by (rule word4 [OF _ literal_words(2)]) simp
  moreover have "m_at p + 1 + 4 = m_at p + 5" by simp
  moreover have "drop (m_at p + 1) ?d = drop 1 ?r" by (simp add: remaining_def)
  ultimately have b: "(m_at p + 5 \<le> length ?d \<and> readu_le32 host (drop (m_at p + 1) ?d) = 0x65736C61) =
      (take 4 (drop 1 ?r) = [0x61, 0x6C, 0x73, 0x65])"
    by metis
  have c: "(m_at p + 4 \<le> length ?d \<and> readu_le32 host (drop (m_at p) ?d) = 0x6C6C756E) = (take 4 ?r = [0x6E, 0x75, 0x6C, 0x6C])"
    unfolding remaining_def by (rule word4 [OF _ literal_words(3)]) simp
  show ?thesis unfolding next_value_def Let_def a b c rd_remaining(2) by simp
qed

lemma follow_first: "follow st r r' \<Longrightarrow> rd r 0 \<in> {0, 0x2C, 0x5D, 0x7D}"
  by (auto simp: follow_def rd_def split: if_splits)

lemma first_none: "c \<in> {0, 0x2C, 0x5D, 0x7D :: byte} \<Longrightarrow> \<not> isdigit c \<and> c \<noteq> 0x2E \<and> c \<noteq> 0x65 \<and> c \<noteq> 0x45"
  by (auto simp: isdigit_def)

subsection \<open>Numbers\<close>

definition digits :: "bytes \<Rightarrow> bool" where
  "digits ds \<longleftrightarrow> ds \<noteq> [] \<and> (\<forall>c \<in> set ds. isdigit c)"

definition json_fraction :: "bytes \<Rightarrow> bool" where
  "json_fraction f \<longleftrightarrow> f = [] \<or> (\<exists>ds. f = 0x2E # ds \<and> digits ds)"

definition json_exponent :: "bytes \<Rightarrow> bool" where
  "json_exponent e \<longleftrightarrow> e = [] \<or>
     (\<exists>x sg ds. e = x # sg @ ds \<and> x \<in> {0x65, 0x45} \<and> sg \<in> {[], [0x2B], [0x2D]} \<and> digits ds)"

text \<open>The numbers of RFC 8259.\<close>

definition json_number :: "bytes \<Rightarrow> bool" where
  "json_number s \<longleftrightarrow>
     (\<exists>sg i f e. s = sg @ i @ f @ e \<and> sg \<in> {[], [0x2D]} \<and> digits i \<and> (hd i = 0x30 \<longrightarrow> i = [0x30]) \<and>
       json_fraction f \<and> json_exponent e)"

lemma span_digits:
  "drop i d = ds @ r \<Longrightarrow> \<forall>c \<in> set ds. isdigit c \<Longrightarrow> \<not> isdigit (rd r 0) \<Longrightarrow> span_end isdigit d i = i + length ds"
proof -
  assume "drop i d = ds @ r" and ds: "\<forall>c \<in> set ds. isdigit c" and r: "\<not> isdigit (rd r 0)"
  have "takeWhile isdigit (ds @ r) = ds" using ds r by (cases r) (simp_all add: takeWhile_append2)
  then show ?thesis using \<open>drop i d = ds @ r\<close> by (simp add: span_end_def)
qed

lemma digits_first: "digits ds \<Longrightarrow> \<exists>c cs. ds = c # cs \<and> isdigit c"
  by (cases ds) (auto simp: digits_def)

lemma fraction_first: "json_fraction f \<Longrightarrow> f \<noteq> [] \<Longrightarrow> rd (f @ t) 0 = 0x2E"
  by (auto simp: json_fraction_def)

lemma exponent_first: "json_exponent e \<Longrightarrow> e \<noteq> [] \<Longrightarrow> rd (e @ t) 0 \<in> {0x65, 0x45}"
  by (auto simp: json_exponent_def)

lemma decimal_end_number:
  assumes "drop at d = i @ f @ e @ r" and "digits i" and "hd i = 0x30 \<longrightarrow> i = [0x30]" and "json_fraction f" and "json_exponent e"
    and r: "rd r 0 \<in> {0, 0x2C, 0x5D, 0x7D}"
  shows "decimal_end False d at err = (at + length (i @ f @ e), err)"
proof -
  have r0: "\<not> isdigit (rd r 0)" "rd r 0 \<noteq> 0x2E" "rd r 0 \<noteq> 0x65" "rd r 0 \<noteq> 0x45" using first_none [OF r] by simp_all
  have er: "\<not> isdigit (rd (e @ r) 0)" "rd (e @ r) 0 \<noteq> 0x2E"
    using exponent_first [OF assms(5), of r] r0 by (cases "e = []"; auto simp: isdigit_def)+
  have fer: "\<not> isdigit (rd (f @ e @ r) 0)"
    using fraction_first [OF assms(4), of "e @ r"] er by (cases "f = []") (simp_all add: isdigit_def)
  obtain c cs where i: "i = c # cs" "isdigit c" using digits_first [OF assms(2)] by blast
  have rd0: "rd d at = c" using rd_0 assms(1) i by simp
  have zero: "\<not> (rd d at = 0x30 \<and> isdigit (rd d (at + 1)))"
  proof
    assume a: "rd d at = 0x30 \<and> isdigit (rd d (at + 1))"
    then have "i = [0x30]" using assms(3) i rd0 by simp
    then have "rd d (at + 1) = rd (f @ e @ r) 0" using rd_shift [of d at 1] assms(1) by simp
    then show False using a fer by simp
  qed
  define b where "b = at + length i"
  have sb: "span_end isdigit d at = b"
    unfolding b_def by (rule span_digits [OF assms(1)]) (use assms(2) fer in \<open>simp_all add: digits_def\<close>)
  have db: "drop b d = f @ e @ r" unfolding b_def by (rule drop_step [OF assms(1)])
  define m where "m = b + length f"
  have dm: "drop m d = e @ r" unfolding m_def by (rule drop_step [OF db])
  have frac: "(if rd d b = 0x2E then (span_end isdigit d (b + 1), err \<or> \<not> False \<and> \<not> isdigit (rd d (b + 1))) else (b, err)) = (m, err)"
  proof (cases "f = []")
    case True
    then have "rd d b = rd (e @ r) 0" using rd_shift [of d b 0] db by simp
    then show ?thesis using True er by (simp add: m_def)
  next
    case False
    then obtain ds where ds: "f = 0x2E # ds" "digits ds" using assms(4) by (auto simp: json_fraction_def)
    then obtain x xs where x: "ds = x # xs" "isdigit x" using digits_first by blast
    have d1: "drop (b + 1) d = ds @ e @ r" using drop_step1 [of b d "0x2E" "ds @ e @ r"] db ds by simp
    have "span_end isdigit d (b + 1) = b + 1 + length ds"
      by (rule span_digits [OF d1]) (use ds er in \<open>simp_all add: digits_def\<close>)
    moreover have "rd d b = 0x2E" "rd d (b + 1) = x" using rd_0 [of b d] rd_0 [OF d1 [unfolded x append_Cons]] db ds by simp_all
    ultimately show ?thesis using ds x by (simp add: m_def)
  qed
  have expo: "(if rd d m = 0x65 \<or> rd d m = 0x45 then
      (span_end isdigit d (if rd d (m + 1) = 0x2B \<or> rd d (m + 1) = 0x2D then m + 1 + 1 else m + 1),
       err \<or> \<not> isdigit (rd d (if rd d (m + 1) = 0x2B \<or> rd d (m + 1) = 0x2D then m + 1 + 1 else m + 1)))
     else (m, err)) = (m + length e, err)"
  proof (cases "e = []")
    case True
    then have "rd d m = rd r 0" using rd_shift [of d m 0] dm by simp
    then show ?thesis using True r0 by simp
  next
    case False
    then obtain x sg ds where e: "e = x # sg @ ds" "x \<in> {0x65, 0x45}" "sg \<in> {[], [0x2B], [0x2D]}" "digits ds"
      using assms(5) by (auto simp: json_exponent_def)
    obtain y ys where y: "ds = y # ys" "isdigit y" using digits_first [OF e(4)] by blast
    have d1: "drop (m + 1) d = sg @ ds @ r" using drop_step1 [of m d x "sg @ ds @ r"] dm e by simp
    have d2: "drop (m + 1 + length sg) d = ds @ r" by (rule drop_step [OF d1])
    have y0: "y \<noteq> 0x2B" "y \<noteq> 0x2D" using y(2) by (auto simp: isdigit_def)
    have "rd d (m + 1) = (if sg = [] then y else hd sg)" using rd_shift [of d "m + 1" 0] d1 e(3) y by auto
    then have at: "(if rd d (m + 1) = 0x2B \<or> rd d (m + 1) = 0x2D then m + 1 + 1 else m + 1) = m + 1 + length sg"
      using e(3) y0 by auto
    have "span_end isdigit d (m + 1 + length sg) = m + 1 + length sg + length ds"
      by (rule span_digits [OF d2]) (use e(4) r0 in \<open>simp_all add: digits_def\<close>)
    moreover have "rd d m = x" "rd d (m + 1 + length sg) = y" using rd_0 [of m d] rd_0 [OF d2 [unfolded y append_Cons]] dm e by simp_all
    ultimately show ?thesis unfolding at using e y by auto
  qed
  have err: "((err \<or> rd d at = 0x30 \<and> isdigit (rd d (at + 1))) \<or> \<not> isdigit (rd d at) \<and> \<not> isdigit (rd d (at + 1))) = err"
    using zero rd0 i(2) by auto
  show ?thesis
    unfolding decimal_end_def Let_def sb err frac prod.case expo by (simp add: b_def m_def)
qed

lemma number_first: "json_number s \<Longrightarrow> \<exists>c cs. s = c # cs \<and> (c = 0x2D \<or> isdigit c)"
  by (auto simp: json_number_def dest!: digits_first)

lemma parse_number:
  assumes "json_number s" and p: "ready p (s @ r) st" and f: "follow st r r'"
  shows "\<exists>q. parse_num False host p = (Jnum s, q) \<and> ready q r' st \<and> wants st q"
proof -
  let ?d = "m_data p" and ?at = "m_at p"
  obtain sg i f e where s: "s = sg @ i @ f @ e" "sg \<in> {[], [0x2D]}" "digits i" "hd i = 0x30 \<longrightarrow> i = [0x30]" "json_fraction f"
    "json_exponent e" using assms(1) by (auto simp: json_number_def)
  have d: "drop ?at ?d = s @ r" using p by (simp add: ready_def remaining_def)
  obtain c cs where i: "i = c # cs" "isdigit c" using digits_first [OF s(3)] by blast
  have c: "c \<noteq> 0x2D" using i(2) by (auto simp: isdigit_def)
  define at where "at = ?at + length sg"
  have at: "(if False \<and> rd ?d ?at = 0x2B \<or> rd ?d ?at = 0x2D then ?at + 1 else ?at) = at"
    using s(2) rd_shift [of ?d ?at 0] d s(1) i c by (auto simp: at_def)
  have da: "drop at ?d = i @ f @ e @ r" unfolding at_def by (rule drop_step) (use d s(1) in simp)
  have digit: "isdigit (rd ?d at)" using rd_0 [of at ?d c] da i by simp
  have e: "decimal_end False ?d at (m_need_error p) = (?at + length s, m_need_error p)"
    using decimal_end_number [OF da s(3-6) follow_first [OF f]] s(1) by (simp add: at_def add.assoc)
  let ?q = "p\<lparr>m_at := ?at + length s, m_need_error := m_need_error p\<rparr>"
  have q: "ready ?q r st" using ready_move [OF p, of ?q st] p by (simp add: ready_def)
  have "slice ?at (?at + length s - ?at) ?d = s" using d by (simp add: slice_def)
  then have "parse_num False host p = prepare_next False (Jnum s) 0 ?q"
    unfolding parse_num_def Let_def at e using digit by simp
  then show ?thesis using prepare_follow [OF q f, of "Jnum s"] by simp
qed

lemma digits_no_a: "digits ds \<Longrightarrow> 0x61 \<notin> set ds"
proof
  assume "digits ds" and "0x61 \<in> set ds"
  then have "isdigit 0x61" unfolding digits_def by blast
  then show False by (simp add: isdigit_def)
qed

lemma fraction_no_a: "json_fraction f \<Longrightarrow> 0x61 \<notin> set f"
  using digits_no_a by (auto simp: json_fraction_def)

lemma exponent_no_a: "json_exponent e \<Longrightarrow> 0x61 \<notin> set e"
  using digits_no_a by (auto simp: json_exponent_def)

lemma take4_first: "take 4 l = c # cs \<Longrightarrow> rd l 0 = c"
  by (cases l) simp_all

lemma number_no_literal:
  assumes "json_number s" and "follow st r r'"
  shows "take 4 (drop 1 (s @ r)) \<noteq> [0x61, 0x6C, 0x73, 0x65]"
proof
  assume a: "take 4 (drop 1 (s @ r)) = [0x61, 0x6C, 0x73, 0x65]"
  then have "rd (drop 1 (s @ r)) 0 = 0x61" by (rule take4_first)
  then have "rd (s @ r) 1 = 0x61" using rd_shift [of "s @ r" 1 0] by simp
  moreover have "rd (s @ r) 1 \<noteq> 0x61"
  proof (cases "1 < length s")
    case True
    have "0x61 \<notin> set s"
      using assms(1) digits_no_a fraction_no_a exponent_no_a by (auto simp: json_number_def)
    then have "\<forall>c \<in> set s. c \<noteq> 0x61" by blast
    then show ?thesis using True by (simp add: rd_def nth_append)
  next
    case False
    then have "length s = 1" using number_first [OF assms(1)] by (cases s) auto
    then have "rd (s @ r) 1 = rd r 0" by (simp add: rd_def nth_append)
    then show ?thesis using follow_first [OF assms(2)] by auto
  qed
  ultimately show False by simp
qed

subsection \<open>One event at a time\<close>

lemma next_inner_skips:
  assumes p: "ready p (ws @ r) st" and ws: "spaces ws" and r: "r \<noteq> []" "\<not> isspace (rd r 0)"
  shows "\<exists>q. next_inner False host p = (if m_want_key p then next_key False host q else next_value False host q) \<and>
    ready q r st \<and> m_want_key q = m_want_key p"
proof -
  let ?q = "skip False p"
  have q: "ready ?q r st" using skip_ready [OF p ws r(2)] ..
  then have "\<not> m_need_error ?q" "m_at ?q \<noteq> length (m_data ?q)" using at_end [OF q] r(1) by (simp_all add: ready_def)
  then have "next_inner False host p = (if m_want_key p then next_key False host ?q else next_value False host ?q)"
    by (simp add: next_inner_def Let_def)
  then show ?thesis using q by auto
qed

lemma close_ready:
  assumes p: "ready p ((if b then 0x7D else 0x5D) # r) (st @ [b])" and f: "follow st r r'"
  shows "\<exists>q. close_bracket False b p = ((if b then Exit_map else Exit_list), q) \<and> ready q r' st \<and> wants st q"
proof -
  let ?q = "p\<lparr>m_at := m_at p + 1, m_nesting := st\<rparr>"
  have "ready ?q r st" using ready_move [of p "[if b then 0x7D else 0x5D]" r "st @ [b]" ?q st] p by (simp add: ready_def)
  then obtain q where "prepare_next False (if b then Exit_map else Exit_list) 0 ?q = ((if b then Exit_map else Exit_list), q)"
    "ready q r' st" "wants st q" using prepare_follow [OF _ f] by blast
  moreover have "m_nesting p = st @ [b]" using p by (simp add: ready_def)
  ultimately show ?thesis by (auto simp: close_bracket_def Let_def)
qed

lemma exit_list_event:
  assumes p: "ready p (0x5D # r) (st @ [False])" and "\<not> m_want_key p" and f: "follow st r r'"
  shows "\<exists>q. next_inner False host p = (Exit_list, q) \<and> ready q r' st \<and> wants st q"
proof -
  obtain q where q: "next_inner False host p = next_value False host q" "ready q (0x5D # r) (st @ [False])"
    using next_inner_skips [of p "[]" "0x5D # r" "st @ [False]" host] assms by (auto simp: spaces_def isspace_values)
  then have "next_value False host q = close_bracket False False q" by (simp add: next_value_text ready_def Let_def)
  then show ?thesis using close_ready [of q False r st r'] q f by auto
qed

lemma exit_map_event:
  assumes p: "ready p (0x7D # r) (st @ [True])" and "m_want_key p" and f: "follow st r r'"
  shows "\<exists>q. next_inner False host p = (Exit_map, q) \<and> ready q r' st \<and> wants st q"
proof -
  obtain q where q: "next_inner False host p = next_key False host q" "ready q (0x7D # r) (st @ [True])"
    using next_inner_skips [of p "[]" "0x7D # r" "st @ [True]" host] assms by (auto simp: spaces_def isspace_values)
  then have "next_key False host q = close_bracket False True q" by (simp add: next_key_def ready_def rd_remaining Let_def)
  then show ?thesis using close_ready [of q True r st r'] q f by auto
qed

text \<open>A string at the position of the parser, and its later decoding, which leaves the rest of the text alone.\<close>

lemma string_ready:
  assumes p: "ready p (0x22 # escaped s @ 0x22 # r) st"
  shows "\<exists>q. parse_str False p = (m_at p + 1, length (escaped s), q) \<and> ready q r st \<and> m_want_key q = m_want_key p \<and>
    m_data q = m_data p \<and>
    (\<forall>u. m_data u = m_data p \<longrightarrow> m_at q \<le> m_at u \<longrightarrow> m_at u \<le> length (m_data u) \<longrightarrow>
      (\<exists>v. decode_backslashes False host (m_at p + 1) (length (escaped s)) u = (s, v) \<and> remaining v = remaining u \<and>
        m_at v = m_at u \<and> length (m_data v) = length (m_data u) \<and> m_nesting v = m_nesting u \<and>
        m_want_key v = m_want_key u \<and> m_need_error v = m_need_error u))"
proof -
  let ?d = "m_data p" and ?start = "m_at p + 1" and ?n = "length (escaped s)"
  have d: "drop (m_at p) ?d = 0x22 # escaped s @ 0x22 # r" using p by (simp add: ready_def remaining_def)
  have ds: "drop ?start ?d = escaped s @ 0x22 # r" using drop_step1 [OF d] .
  have de: "drop (?start + ?n) ?d = 0x22 # r" using drop_step [OF ds] .
  have rd: "rd ?d (m_at p) = 0x22" "rd ?d (?start + ?n) = 0x22" using rd_0 [OF d] rd_0 [OF de] .
  define q where "q = p\<lparr>m_at := ?start + ?n + 1, m_need_error := m_need_error p\<rparr>"
  have scan: "scan_string False ?d 0x22 ?start (m_need_error p) = (?start + ?n, m_need_error p)" by (rule scan_escaped [OF ds])
  then have str: "parse_str False p = (?start, ?n, q)" using rd by (simp add: parse_str_def Let_def q_def)
  have "ready q r st" using ready_move [of p "0x22 # escaped s @ [0x22]" r st q st] p by (simp add: q_def ready_def)
  moreover have "\<exists>v. decode_backslashes False host ?start ?n u = (s, v) \<and> remaining v = remaining u \<and>
      m_at v = m_at u \<and> length (m_data v) = length (m_data u) \<and> m_nesting v = m_nesting u \<and>
      m_want_key v = m_want_key u \<and> m_need_error v = m_need_error u"
    if u: "m_data u = ?d" "m_at q \<le> m_at u" "m_at u \<le> length (m_data u)" for u
  proof -
    obtain v where v: "decode_backslashes False host ?start ?n u = (s, v)" "m_need_error v = m_need_error u"
      using decode_string [of ?start u s "0x22 # r" host] ds u(1) by auto
    have "m_at p < length ?d" using d by (metis drop_all leI list.distinct(1))
    then have "reach ?d ?start (?start + ?n) \<and> string_end ?d (?start + ?n) \<and> ?start + ?n \<le> m_at q"
      using parse_str_ok [OF str] rd by simp
    then have "adv 0 u v \<and> m_at v = m_at u \<and> m_nesting v = m_nesting u \<and> m_want_key v = m_want_key u"
      using decode_ok [OF v(1) u(3)] u by simp
    then show ?thesis using v by (auto simp: adv_def remaining_def)
  qed
  ultimately show ?thesis using str by (auto simp: q_def)
qed

lemma key_event:
  assumes p: "ready p (ws @ 0x22 # escaped k @ 0x22 # 0x3A # r) st" and "spaces ws" and "m_want_key p"
  shows "\<exists>q. next_inner False host p = (Map_key k, q) \<and> ready q r st \<and> \<not> m_want_key q"
proof -
  have quote: "\<not> isspace 0x22" by (simp add: isspace_iff)
  obtain q where q: "next_inner False host p = next_key False host q" "ready q (0x22 # escaped k @ 0x22 # 0x3A # r) st"
    using next_inner_skips [OF p] assms quote by auto
  obtain u where u: "parse_str False q = (m_at q + 1, length (escaped k), u)" "ready u (0x3A # r) st" "m_data u = m_data q"
    and dec: "\<And>w. m_data w = m_data q \<Longrightarrow> m_at u \<le> m_at w \<Longrightarrow> m_at w \<le> length (m_data w) \<Longrightarrow>
      (\<exists>v. decode_backslashes False host (m_at q + 1) (length (escaped k)) w = (k, v) \<and> remaining v = remaining w \<and>
        m_at v = m_at w \<and> length (m_data v) = length (m_data w) \<and> m_nesting v = m_nesting w \<and>
        m_want_key v = m_want_key w \<and> m_need_error v = m_need_error w)"
    using string_ready [OF q(2), of host] by blast
  let ?w = "u\<lparr>m_at := m_at u + 1, m_want_key := False\<rparr>"
  have w: "ready ?w r st" using ready_move [of u "[0x3A]" r st ?w st] u(2) by (simp add: ready_def)
  then obtain v where v: "decode_backslashes False host (m_at q + 1) (length (escaped k)) ?w = (k, v)" "remaining v = remaining ?w"
    "m_at v = m_at ?w" "length (m_data v) = length (m_data ?w)" "m_nesting v = m_nesting ?w" "m_want_key v = m_want_key ?w"
    "m_need_error v = m_need_error ?w"
    using dec [of ?w] u(3) by (auto simp: ready_def)
  have "ready v r st" using v(2-5,7) w unfolding ready_def by simp
  moreover have "skip False u = u" using skip_nothing [OF u(2)] by (simp add: isspace_values)
  moreover have "rd (m_data u) (m_at u) = 0x3A" using u(2) by (simp add: rd_remaining ready_def)
  moreover have "rd (m_data q) (m_at q) = 0x22" using q(2) by (simp add: rd_remaining ready_def)
  ultimately show ?thesis using q(1) u(1) v by (auto simp: next_key_def finish_key_def Let_def)
qed

end
