(* ===== verification/Json_Roundtrip.thy ===== *)
theory Json_Roundtrip
  imports Json_Text
begin

text \<open>
  Parsing what the writer has written gives the value back. \<open>spell\<close> relates a value to every text the writer may
  produce for it; the parser reads such texts back, and the writer produces nothing else.
\<close>

subsection \<open>Texts of a value\<close>

text \<open>
  \<open>spell d v t\<close>: \<open>t\<close> is a text of the value \<open>v\<close>, nested at most \<open>d\<close> deep, with the strings escaped
  as the writer does and with whitespace only where the writer may put it.
\<close>

inductive spell :: "nat \<Rightarrow> jsonw \<Rightarrow> bytes \<Rightarrow> bool"
  and items :: "nat \<Rightarrow> jsonw list \<Rightarrow> bytes \<Rightarrow> bool"
  and members :: "nat \<Rightarrow> (bytes \<times> jsonw) list \<Rightarrow> bytes \<Rightarrow> bool"
where
  sp_true: "spell d JTrue [0x74, 0x72, 0x75, 0x65]"
| sp_false: "spell d JFalse [0x66, 0x61, 0x6C, 0x73, 0x65]"
| sp_null: "spell d JNull [0x6E, 0x75, 0x6C, 0x6C]"
| sp_str: "spell d (JStr s) (0x22 # escaped s @ [0x22])"
| sp_num: "json_number s \<Longrightarrow> spell d (JNum s) s"
| sp_nil: "spell (Suc d) (JList []) [0x5B, 0x5D]"
| sp_list: "spaces ws \<Longrightarrow> items d vs t \<Longrightarrow> spell (Suc d) (JList vs) (0x5B # ws @ t @ [0x5D])"
| sp_empty: "spell (Suc d) (JMap []) [0x7B, 0x7D]"
| sp_map: "spaces ws \<Longrightarrow> members d m t \<Longrightarrow> distinct (map fst m) \<Longrightarrow> spell (Suc d) (JMap m) (0x7B # ws @ t @ [0x7D])"
| it_one: "spell d v t \<Longrightarrow> items d [v] t"
| it_more: "spell d v t \<Longrightarrow> spaces ws \<Longrightarrow> items d vs t' \<Longrightarrow> items d (v # vs) (t @ 0x2C # ws @ t')"
| mb_one: "spaces ws \<Longrightarrow> spell d v t \<Longrightarrow> members d [(k, v)] (0x22 # escaped k @ 0x22 # 0x3A # ws @ t)"
| mb_more: "spaces ws \<Longrightarrow> spell d v t \<Longrightarrow> spaces ws' \<Longrightarrow> members d m t' \<Longrightarrow>
    members d ((k, v) # m) (0x22 # escaped k @ 0x22 # 0x3A # ws @ t @ 0x2C # ws' @ t')"

text \<open>No text starts with whitespace, NUL or a closing bracket.\<close>

definition opens :: "bytes \<Rightarrow> bool" where
  "opens t \<longleftrightarrow> t \<noteq> [] \<and> \<not> isspace (hd t) \<and> hd t \<notin> {0x5D, 0x7D, 0}"

lemma opens_append: "opens t \<Longrightarrow> opens (t @ r)"
  by (simp add: opens_def)

lemma number_opens: "json_number s \<Longrightarrow> opens s"
  by (auto simp: opens_def isspace_iff isdigit_def dest!: number_first)

lemma spell_opens:
  "spell d v t \<Longrightarrow> opens t" "items d vs t \<Longrightarrow> opens t" "members d m t \<Longrightarrow> opens t"
  by (induction rule: spell_items_members.inducts) (auto simp: number_opens opens_append, simp_all add: opens_def isspace_iff)

lemma opens_rd: "opens t \<Longrightarrow> t \<noteq> [] \<and> \<not> isspace (rd t 0)"
  by (cases t) (simp_all add: opens_def)

lemma follow_comma: "st \<noteq> [] \<Longrightarrow> spaces ws \<Longrightarrow> opens t \<Longrightarrow> follow st (0x2C # ws @ t) t"
  by (auto simp: follow_def opens_def)

lemma follow_close: "st \<noteq> [] \<Longrightarrow> c \<in> {0x5D, 0x7D} \<Longrightarrow> follow st (c # r) (c # r)"
  by (auto simp: follow_def)

definition reads_value :: "nat \<Rightarrow> jsonw \<Rightarrow> bytes \<Rightarrow> bool" where
  "reads_value d v t \<longleftrightarrow>
     (\<forall>host p ws r r' st. ready p (ws @ t @ r) st \<longrightarrow> spaces ws \<longrightarrow> follow st r r' \<longrightarrow> \<not> m_want_key p \<longrightarrow>
       (\<exists>ev p1 q n0. next_inner False host p = (ev, p1) \<and> ev \<noteq> Exit_list \<and> ev \<noteq> Jerror \<and> ready q r' st \<and> wants st q \<and>
         (\<forall>n\<ge>n0. \<forall>old ok. construct d n host old ev ok p1 = Some (v, ok, q))))"

definition reads_items :: "nat \<Rightarrow> jsonw list \<Rightarrow> bytes \<Rightarrow> bool" where
  "reads_items d vs t \<longleftrightarrow>
     (\<forall>host p ws r r' st. ready p (ws @ t @ 0x5D # r) (st @ [False]) \<longrightarrow> spaces ws \<longrightarrow> follow st r r' \<longrightarrow> \<not> m_want_key p \<longrightarrow>
       (\<exists>q n0. ready q r' st \<and> wants st q \<and>
         (\<forall>n\<ge>n0. \<forall>n'\<ge>n0. \<forall>acc ok. list_items (construct d n' host JUnset) n host acc ok p = Some (acc @ vs, ok, q))))"

definition reads_members :: "nat \<Rightarrow> (bytes \<times> jsonw) list \<Rightarrow> bytes \<Rightarrow> bool" where
  "reads_members d m t \<longleftrightarrow>
     (\<forall>host p ws r r' st. ready p (ws @ t @ 0x7D # r) (st @ [True]) \<longrightarrow> spaces ws \<longrightarrow> follow st r r' \<longrightarrow> m_want_key p \<longrightarrow>
       (\<exists>q n0. ready q r' st \<and> wants st q \<and>
         (\<forall>n\<ge>n0. \<forall>n'\<ge>n0. \<forall>acc ok. distinct (map fst (acc @ m)) \<longrightarrow>
           map_items (construct d n' host) n host acc ok p = Some (acc @ m, ok, q))))"

lemma simple_reads:
  assumes "\<And>host p r r' st. ready p (t @ r) st \<Longrightarrow> follow st r r' \<Longrightarrow> \<not> m_want_key p \<Longrightarrow>
      \<exists>q. next_value False host p = (ev, q) \<and> ready q r' st \<and> wants st q"
    and "simple_value ev = Some v" and "ev \<noteq> Jerror" and "opens t"
  shows "reads_value d v t"
  unfolding reads_value_def
proof (intro allI impI)
  fix host p ws r r' st
  assume p: "ready p (ws @ t @ r) st" "spaces ws" "follow st r r'" "\<not> m_want_key p"
  have "t @ r \<noteq> [] \<and> \<not> isspace (rd (t @ r) 0)" using opens_rd opens_append [OF assms(4)] by blast
  then obtain p0 where p0: "next_inner False host p = next_value False host p0" "ready p0 (t @ r) st" "\<not> m_want_key p0"
    using next_inner_skips [OF p(1,2), of host] p(4) by auto
  then obtain q where q: "next_inner False host p = (ev, q)" "ready q r' st" "wants st q"
    using assms(1) [OF p0(2) p(3) p0(3), of host] by auto
  moreover have "construct d n host old ev ok q = Some (v, ok, q)" for n old ok
    using assms(2,3) by (cases d) simp_all
  moreover have "ev \<noteq> Exit_list" using assms(2) by (auto simp: simple_value_def)
  ultimately show "\<exists>ev p1 q n0. next_inner False host p = (ev, p1) \<and> ev \<noteq> Exit_list \<and> ev \<noteq> Jerror \<and> ready q r' st \<and> wants st q \<and>
      (\<forall>n\<ge>n0. \<forall>old ok. construct d n host old ev ok p1 = Some (v, ok, q))"
    using assms(3) by blast
qed

lemma literal_reads:
  assumes "ready p (t @ r) st" and "follow st r r'" and "next_value False host p = prepare_next False ev n p" and "n = length t"
  shows "\<exists>q. next_value False host p = (ev, q) \<and> ready q r' st \<and> wants st q"
proof -
  let ?q = "p\<lparr>m_at := m_at p + length t\<rparr>"
  have "ready ?q r st" using ready_move [OF assms(1), of ?q st] assms(1) by (simp add: ready_def)
  moreover have "prepare_next False ev n p = prepare_next False ev 0 ?q" by (simp add: prepare_next_def assms(4))
  ultimately show ?thesis using prepare_follow [OF _ assms(2), of ?q ev] assms(3) by simp
qed

lemma scalar_reads:
  "reads_value d JTrue [0x74, 0x72, 0x75, 0x65]" "reads_value d JFalse [0x66, 0x61, 0x6C, 0x73, 0x65]"
  "reads_value d JNull [0x6E, 0x75, 0x6C, 0x6C]" "json_number s \<Longrightarrow> reads_value d (JNum s) s"
  "reads_value d (JStr s) (0x22 # escaped s @ [0x22])"
proof -
  have o: "opens [0x74, 0x72, 0x75, 0x65]" "opens [0x66, 0x61, 0x6C, 0x73, 0x65]" "opens [0x6E, 0x75, 0x6C, 0x6C]"
    "opens (0x22 # escaped s @ [0x22])"
    by (simp_all add: opens_def isspace_iff)
  show "reads_value d JTrue [0x74, 0x72, 0x75, 0x65]"
    by (rule simple_reads [of _ Jtrue, OF _ _ _ o(1)], rule literal_reads [where n = 4], assumption+)
      (simp_all add: simple_value_def next_value_text ready_def Let_def)
  show "reads_value d JFalse [0x66, 0x61, 0x6C, 0x73, 0x65]"
    by (rule simple_reads [of _ Jfalse, OF _ _ _ o(2)], rule literal_reads [where n = 5], assumption+)
      (simp_all add: simple_value_def next_value_text ready_def Let_def)
  show "reads_value d JNull [0x6E, 0x75, 0x6C, 0x6C]"
    by (rule simple_reads [of _ Jnull, OF _ _ _ o(3)], rule literal_reads [where n = 4], assumption+)
      (simp_all add: simple_value_def next_value_text ready_def Let_def)
  show "reads_value d (JNum s) s" if num: "json_number s"
  proof (rule simple_reads [of _ "Jnum s"])
    fix host p r r' st
    assume p: "ready p (s @ r) st" "follow st r r'"
    obtain c cs where c: "s = c # cs" "c = 0x2D \<or> isdigit c" using number_first [OF num] by blast
    have "rd (s @ r) 0 = c" "take 4 (s @ r) = [0x74, 0x72, 0x75, 0x65] \<Longrightarrow> c = 0x74" "take 4 (s @ r) = [0x6E, 0x75, 0x6C, 0x6C] \<Longrightarrow> c = 0x6E"
      using c(1) by (simp_all add: numeral_eq_Suc)
    moreover have "c \<noteq> 0x7B" "c \<noteq> 0x5B" "c \<noteq> 0x5D" "c \<noteq> 0x22" "c \<noteq> 0x74" "c \<noteq> 0x6E" using c(2) by (auto simp: isdigit_def)
    ultimately have "next_value False host p = parse_num False host p"
      using p(1) number_no_literal [OF num p(2)] by (auto simp: next_value_text ready_def Let_def)
    then show "\<exists>q. next_value False host p = (Jnum s, q) \<and> ready q r' st \<and> wants st q" using parse_number [OF num p] by simp
  qed (simp_all add: simple_value_def number_opens [OF num])
  show "reads_value d (JStr s) (0x22 # escaped s @ [0x22])"
  proof (rule simple_reads [of _ "Jstr s"])
    fix host p r r' st
    assume "ready p ((0x22 # escaped s @ [0x22]) @ r) st" and f: "follow st r r'"
    then have p: "ready p (0x22 # escaped s @ 0x22 # r) st" by simp
    obtain q where q: "parse_str False p = (m_at p + 1, length (escaped s), q)" "ready q r st" "m_data q = m_data p"
      and dec: "\<And>u. m_data u = m_data p \<Longrightarrow> m_at q \<le> m_at u \<Longrightarrow> m_at u \<le> length (m_data u) \<Longrightarrow>
        (\<exists>v. decode_backslashes False host (m_at p + 1) (length (escaped s)) u = (s, v) \<and> remaining v = remaining u \<and>
          m_at v = m_at u \<and> length (m_data v) = length (m_data u) \<and> m_nesting v = m_nesting u \<and>
          m_want_key v = m_want_key u \<and> m_need_error v = m_need_error u)"
      using string_ready [OF p, of host] by blast
    obtain v where v: "decode_backslashes False host (m_at p + 1) (length (escaped s)) q = (s, v)" "remaining v = remaining q"
      "m_at v = m_at q" "length (m_data v) = length (m_data q)" "m_nesting v = m_nesting q" "m_need_error v = m_need_error q"
      using dec [of q] q by (auto simp: ready_def)
    have "ready v r st" using v(2-6) q(2) unfolding ready_def by simp
    moreover have "next_value False host p = prepare_next False (Jstr s) 0 v"
      using p q(1) v(1) by (simp add: next_value_text ready_def Let_def)
    ultimately show "\<exists>q. next_value False host p = (Jstr s, q) \<and> ready q r' st \<and> wants st q" using prepare_follow [OF _ f] by simp
  qed (use o(4) in \<open>simp_all add: simple_value_def\<close>)
qed

text \<open>Entering a list or map.\<close>

lemma enter_event:
  assumes p: "ready p (ws @ (if b then 0x7B else 0x5B) # r) st" and "spaces ws" and "\<not> m_want_key p"
  shows "\<exists>q. next_inner False host p = ((if b then Enter_map else Enter_list), q) \<and> ready q r (st @ [b]) \<and> m_want_key q = b"
proof -
  have "\<not> isspace (if b then 0x7B else 0x5B)" by (simp add: isspace_iff)
  then obtain q where q: "next_inner False host p = next_value False host q" "ready q ((if b then 0x7B else 0x5B) # r) st" "\<not> m_want_key q"
    using next_inner_skips [OF p assms(2), of host] assms(3) by auto
  let ?l = "q\<lparr>m_at := m_at q + 1, m_nesting := m_nesting q @ [False]\<rparr>"
  let ?m = "q\<lparr>m_at := m_at q + 1, m_want_key := True, m_nesting := m_nesting q @ [True]\<rparr>"
  have "ready ?l r (st @ [False]) \<and> \<not> m_want_key ?l" if "\<not> b"
    using ready_move [of q "[0x5B]" r st ?l "st @ [False]"] q that by (simp add: ready_def)
  moreover have "ready ?m r (st @ [True]) \<and> m_want_key ?m" if b
    using ready_move [of q "[0x7B]" r st ?m "st @ [True]"] q that by (simp add: ready_def)
  moreover have "next_value False host q = (if b then (Enter_map, ?m) else (Enter_list, ?l))"
    using q(2) by (simp add: next_value_text ready_def Let_def)
  ultimately show ?thesis using q(1) by auto
qed

lemma update_new: "k \<notin> fst ` set m \<Longrightarrow> AList.update k v m = m @ [(k, v)]"
  by (induction m) auto

lemma list_end:
  assumes "ready p (0x5D # r) (st @ [False])" and "follow st r r'" and "\<not> m_want_key p"
  shows "\<exists>q n0. ready q r' st \<and> wants st q \<and>
    (\<forall>n\<ge>n0. \<forall>n'\<ge>n0. \<forall>acc ok. list_items (construct d n' host JUnset) n host acc ok p = Some (acc @ [], ok, q))"
proof -
  obtain q where q: "next_inner False host p = (Exit_list, q)" "ready q r' st" "wants st q"
    using exit_list_event [OF assms(1,3,2)] by blast
  have "list_items (construct d n' host JUnset) n host acc ok p = Some (acc @ [], ok, q)" if "1 \<le> n" for n n' acc ok
    using that q(1) by (cases n) simp_all
  then show ?thesis using q(2,3) by blast
qed

lemma map_end:
  assumes "ready p (0x7D # r) (st @ [True])" and "follow st r r'" and "m_want_key p"
  shows "\<exists>q n0. ready q r' st \<and> wants st q \<and>
    (\<forall>n\<ge>n0. \<forall>n'\<ge>n0. \<forall>acc ok. distinct (map fst (acc @ [])) \<longrightarrow>
      map_items (construct d n' host) n host acc ok p = Some (acc @ [], ok, q))"
proof -
  obtain q where q: "next_inner False host p = (Exit_map, q)" "ready q r' st" "wants st q"
    using exit_map_event [OF assms(1,3,2)] by blast
  have "map_items (construct d n' host) n host acc ok p = Some (acc @ [], ok, q)" if "1 \<le> n" for n n' acc ok
    using that q(1) by (cases n) simp_all
  then show ?thesis using q(2,3) by blast
qed

text \<open>A list or map as a value, from what its elements do.\<close>

lemma list_reads:
  assumes "\<And>host p r r' st. ready p (k r) (st @ [False]) \<Longrightarrow> follow st r r' \<Longrightarrow> \<not> m_want_key p \<Longrightarrow>
      \<exists>q n0. ready q r' st \<and> wants st q \<and>
        (\<forall>n\<ge>n0. \<forall>n'\<ge>n0. \<forall>acc ok. list_items (construct d n' host JUnset) n host acc ok p = Some (acc @ vs, ok, q))"
    and "\<And>r. t @ r = 0x5B # k r"
  shows "reads_value (Suc d) (JList vs) t"
  unfolding reads_value_def
proof (intro allI impI)
  fix host p ws r r' st
  assume p: "ready p (ws @ t @ r) st" "spaces ws" "follow st r r'" "\<not> m_want_key p"
  obtain u where u: "next_inner False host p = (Enter_list, u)" "ready u (k r) (st @ [False])" "\<not> m_want_key u"
    using enter_event [of p ws False "k r" st] p assms(2) by auto
  obtain q n0 where q: "ready q r' st" "wants st q"
    and l: "\<And>n n' acc ok. n0 \<le> n \<Longrightarrow> n0 \<le> n' \<Longrightarrow> list_items (construct d n' host JUnset) n host acc ok u = Some (acc @ vs, ok, q)"
    using assms(1) [OF u(2) p(3) u(3), of host] by blast
  have "construct (Suc d) n host old Enter_list ok u = Some (JList vs, ok, q)" if "n0 \<le> n" for n old ok
    using l [OF that that, of "[]" ok] by (simp add: simple_value_def)
  then show "\<exists>ev p1 q n0. next_inner False host p = (ev, p1) \<and> ev \<noteq> Exit_list \<and> ev \<noteq> Jerror \<and> ready q r' st \<and> wants st q \<and>
      (\<forall>n\<ge>n0. \<forall>old ok. construct (Suc d) n host old ev ok p1 = Some (JList vs, ok, q))"
    using u(1) q by blast
qed

lemma map_reads:
  assumes "\<And>host p r r' st. ready p (k r) (st @ [True]) \<Longrightarrow> follow st r r' \<Longrightarrow> m_want_key p \<Longrightarrow>
      \<exists>q n0. ready q r' st \<and> wants st q \<and>
        (\<forall>n\<ge>n0. \<forall>n'\<ge>n0. \<forall>acc ok. distinct (map fst (acc @ m)) \<longrightarrow>
          map_items (construct d n' host) n host acc ok p = Some (acc @ m, ok, q))"
    and "\<And>r. t @ r = 0x7B # k r" and "distinct (map fst m)"
  shows "reads_value (Suc d) (JMap m) t"
  unfolding reads_value_def
proof (intro allI impI)
  fix host p ws r r' st
  assume p: "ready p (ws @ t @ r) st" "spaces ws" "follow st r r'" "\<not> m_want_key p"
  obtain u where u: "next_inner False host p = (Enter_map, u)" "ready u (k r) (st @ [True])" "m_want_key u"
    using enter_event [of p ws True "k r" st] p assms(2) by auto
  obtain q n0 where q: "ready q r' st" "wants st q"
    and l: "\<And>n n' acc ok. n0 \<le> n \<Longrightarrow> n0 \<le> n' \<Longrightarrow> distinct (map fst (acc @ m)) \<Longrightarrow>
      map_items (construct d n' host) n host acc ok u = Some (acc @ m, ok, q)"
    using assms(1) [OF u(2) p(3) u(3), of host] by blast
  have "construct (Suc d) n host old Enter_map ok u = Some (JMap m, ok, q)" if "n0 \<le> n" for n old ok
    using l [OF that that, of "[]" ok] assms(3) by (simp add: simple_value_def)
  then show "\<exists>ev p1 q n0. next_inner False host p = (ev, p1) \<and> ev \<noteq> Exit_list \<and> ev \<noteq> Jerror \<and> ready q r' st \<and> wants st q \<and>
      (\<forall>n\<ge>n0. \<forall>old ok. construct (Suc d) n host old ev ok p1 = Some (JMap m, ok, q))"
    using u(1) q by blast
qed

lemma items_step:
  assumes v: "reads_value d v t" and rest: "\<And>host p r r' st. ready p (k r) (st @ [False]) \<Longrightarrow> follow st r r' \<Longrightarrow> \<not> m_want_key p \<Longrightarrow>
      \<exists>q n0. ready q r' st \<and> wants st q \<and>
        (\<forall>n\<ge>n0. \<forall>n'\<ge>n0. \<forall>acc ok. list_items (construct d n' host JUnset) n host acc ok p = Some (acc @ vs, ok, q))"
    and k: "\<And>r st. follow (st @ [False]) (j r) (k r)"
    and p: "ready p (ws @ t @ j r) (st @ [False])" "spaces ws" "follow st r r'" "\<not> m_want_key p"
  shows "\<exists>q n0. ready q r' st \<and> wants st q \<and>
      (\<forall>n\<ge>n0. \<forall>n'\<ge>n0. \<forall>acc ok. list_items (construct d n' host JUnset) n host acc ok p = Some (acc @ v # vs, ok, q))"
proof -
  obtain ev p1 u n1 where ev: "next_inner False host p = (ev, p1)" "ev \<noteq> Exit_list" "ev \<noteq> Jerror"
      "ready u (k r) (st @ [False])" "wants (st @ [False]) u"
    and c: "\<And>n old ok. n1 \<le> n \<Longrightarrow> construct d n host old ev ok p1 = Some (v, ok, u)"
    using v [unfolded reads_value_def, rule_format, OF p(1,2) k p(4), of host] by blast
  have "\<not> m_want_key u" using ev(5) by (simp add: wants_def)
  from rest [OF ev(4) p(3) this, of host] obtain q n2 where q: "ready q r' st" "wants st q"
    and l: "\<And>n n' acc ok. n2 \<le> n \<Longrightarrow> n2 \<le> n' \<Longrightarrow> list_items (construct d n' host JUnset) n host acc ok u = Some (acc @ vs, ok, q)"
    by blast
  have "list_items (construct d n' host JUnset) n host acc ok p = Some (acc @ v # vs, ok, q)"
    if n: "Suc (max n1 n2) \<le> n" "Suc (max n1 n2) \<le> n'" for n n' acc ok
  proof -
    obtain m where m: "n = Suc m" "n2 \<le> m" using n(1) by (cases n) auto
    show ?thesis using m ev c [of n' JUnset ok] l [of m n' "acc @ [v]" ok] n(2) by simp
  qed
  then show ?thesis using q by blast
qed

lemma members_step:
  assumes v: "reads_value d v t" and rest: "\<And>host p r r' st. ready p (k r) (st @ [True]) \<Longrightarrow> follow st r r' \<Longrightarrow> m_want_key p \<Longrightarrow>
      \<exists>q n0. ready q r' st \<and> wants st q \<and>
        (\<forall>n\<ge>n0. \<forall>n'\<ge>n0. \<forall>acc ok. distinct (map fst (acc @ m)) \<longrightarrow>
          map_items (construct d n' host) n host acc ok p = Some (acc @ m, ok, q))"
    and k: "\<And>r st. follow (st @ [True]) (j r) (k r)"
    and p: "ready p (ws @ 0x22 # escaped key @ 0x22 # 0x3A # ws' @ t @ j r) (st @ [True])" "spaces ws" "spaces ws'" "follow st r r'" "m_want_key p"
  shows "\<exists>q n0. ready q r' st \<and> wants st q \<and>
      (\<forall>n\<ge>n0. \<forall>n'\<ge>n0. \<forall>acc ok. distinct (map fst (acc @ (key, v) # m)) \<longrightarrow>
        map_items (construct d n' host) n host acc ok p = Some (acc @ (key, v) # m, ok, q))"
proof -
  obtain p0 where p0: "next_inner False host p = (Map_key key, p0)" "ready p0 (ws' @ t @ j r) (st @ [True])" "\<not> m_want_key p0"
    using key_event [OF p(1,2,5)] by blast
  obtain ev p1 u n1 where ev: "next_inner False host p0 = (ev, p1)" "ready u (k r) (st @ [True])" "wants (st @ [True]) u"
    and c: "\<And>n old ok. n1 \<le> n \<Longrightarrow> construct d n host old ev ok p1 = Some (v, ok, u)"
    using v [unfolded reads_value_def, rule_format, OF p0(2) p(3) k p0(3), of host] by blast
  have "m_want_key u" using ev(3) by (simp add: wants_def)
  from rest [OF ev(2) p(4) this, of host] obtain q n2 where q: "ready q r' st" "wants st q"
    and l: "\<And>n n' acc ok. n2 \<le> n \<Longrightarrow> n2 \<le> n' \<Longrightarrow> distinct (map fst (acc @ m)) \<Longrightarrow>
        map_items (construct d n' host) n host acc ok u = Some (acc @ m, ok, q)"
    by blast
  have "map_items (construct d n' host) n host acc ok p = Some (acc @ (key, v) # m, ok, q)"
    if n: "Suc (max n1 n2) \<le> n" "Suc (max n1 n2) \<le> n'" and dist: "distinct (map fst (acc @ (key, v) # m))" for n n' acc ok
  proof -
    obtain i where i: "n = Suc i" "n2 \<le> i" using n(1) by (cases n) auto
    have "AList.update key v acc = acc @ [(key, v)]" using dist by (intro update_new) auto
    moreover have "distinct (map fst ((acc @ [(key, v)]) @ m))" using dist by simp
    ultimately show ?thesis
      using i p0(1) ev(1) c [of n' _ ok] l [of i n' "acc @ [(key, v)]" ok] n(2) by (simp add: key_of_def)
  qed
  then show ?thesis using q by blast
qed

lemma reads_itemsD:
  "reads_items d vs t \<Longrightarrow> spaces ws \<Longrightarrow> ready p (ws @ t @ 0x5D # r) (st @ [False]) \<Longrightarrow> follow st r r' \<Longrightarrow> \<not> m_want_key p \<Longrightarrow>
    \<exists>q n0. ready q r' st \<and> wants st q \<and>
      (\<forall>n\<ge>n0. \<forall>n'\<ge>n0. \<forall>acc ok. list_items (construct d n' host JUnset) n host acc ok p = Some (acc @ vs, ok, q))"
  unfolding reads_items_def by blast

lemma reads_membersD:
  "reads_members d m t \<Longrightarrow> spaces ws \<Longrightarrow> ready p (ws @ t @ 0x7D # r) (st @ [True]) \<Longrightarrow> follow st r r' \<Longrightarrow> m_want_key p \<Longrightarrow>
    \<exists>q n0. ready q r' st \<and> wants st q \<and>
      (\<forall>n\<ge>n0. \<forall>n'\<ge>n0. \<forall>acc ok. distinct (map fst (acc @ m)) \<longrightarrow>
        map_items (construct d n' host) n host acc ok p = Some (acc @ m, ok, q))"
  unfolding reads_members_def by blast

lemma no_spaces: "spaces []"
  by (simp add: spaces_def)

lemma spell_reads:
  "spell d v t \<Longrightarrow> reads_value d v t" "items d vs t \<Longrightarrow> reads_items d vs t" "members d m t \<Longrightarrow> reads_members d m t"
proof (induction rule: spell_items_members.inducts)
  case (sp_nil d)
  show ?case by (rule list_reads [OF list_end]) simp_all
next
  case (sp_list ws d vs t)
  show ?case by (rule list_reads [OF reads_itemsD [OF sp_list(3,1)]]) simp_all
next
  case (sp_empty d)
  show ?case by (rule map_reads [OF map_end]) simp_all
next
  case (sp_map ws d m t)
  show ?case by (rule map_reads [OF reads_membersD [OF sp_map(4,1)]]) (simp_all add: sp_map(3))
next
  case (it_one d v t)
  show ?case
    unfolding reads_items_def by (intro allI impI, rule items_step [OF it_one(2) list_end follow_close]) simp_all
next
  case (it_more d v t ws vs t')
  have "opens (t' @ r)" for r using spell_opens(2) [OF it_more(3)] by (rule opens_append)
  then have comma: "follow (st @ [False]) (0x2C # ws @ t' @ r) (t' @ r)" for st r
    using it_more(2) by (intro follow_comma) simp_all
  show ?case
    unfolding reads_items_def
    by (intro allI impI, rule items_step [OF it_more(4) reads_itemsD [OF it_more(5) no_spaces], where k = "\<lambda>r. t' @ 0x5D # r"])
      (simp_all add: comma)
next
  case (mb_one ws d v t k)
  show ?case
    unfolding reads_members_def by (intro allI impI, rule members_step [OF mb_one(3) map_end follow_close, where ws' = ws]) (simp_all add: mb_one(1))
next
  case (mb_more ws d v t ws' m t' k)
  have "opens (t' @ r)" for r using spell_opens(3) [OF mb_more(4)] by (rule opens_append)
  then have comma: "follow (st @ [True]) (0x2C # ws' @ t' @ r) (t' @ r)" for st r
    using mb_more(3) by (intro follow_comma) simp_all
  show ?case
    unfolding reads_members_def
    by (intro allI impI, rule members_step [OF mb_more(5) reads_membersD [OF mb_more(6) no_spaces], where k = "\<lambda>r. t' @ 0x7D # r" and ws' = ws])
      (simp_all add: comma mb_more(1))
qed (use scalar_reads in blast)+

subsection \<open>The writer spells the value\<close>

text \<open>
  The value that is read back: unset and error values are written as null, and the nodes of a map come in the
  order in which they were visited.
\<close>

function written :: "bool \<Rightarrow> jsonw \<Rightarrow> jsonw" where
  "written srt JUnset = JNull"
| "written srt JError = JNull"
| "written srt JNull = JNull"
| "written srt JTrue = JTrue"
| "written srt JFalse = JFalse"
| "written srt (JStr s) = JStr s"
| "written srt (JNum s) = JNum s"
| "written srt (JList vs) = JList (map (written srt) vs)"
| "written srt (JMap m) = JMap (visit_nodes srt (map (\<lambda>e. (fst e, written srt (snd e))) m))"
  by pat_completeness auto
termination
  by (relation "measure (\<lambda>(srt, v). size v)") (auto dest: elem_size snd_size)

function json_depth :: "jsonw \<Rightarrow> nat" where
  "json_depth JUnset = 0"
| "json_depth JError = 0"
| "json_depth JNull = 0"
| "json_depth JTrue = 0"
| "json_depth JFalse = 0"
| "json_depth (JStr s) = 0"
| "json_depth (JNum s) = 0"
| "json_depth (JList vs) = Suc (foldr max (map json_depth vs) 0)"
| "json_depth (JMap m) = Suc (foldr max (map (\<lambda>e. json_depth (snd e)) m) 0)"
  by pat_completeness auto
termination
  by (relation "measure size") (auto dest: elem_size snd_size)

text \<open>Numbers in JSON syntax, keys that are different and shorter than 2 GiB.\<close>

function json_ok :: "jsonw \<Rightarrow> bool" where
  "json_ok JUnset = True"
| "json_ok JError = True"
| "json_ok JNull = True"
| "json_ok JTrue = True"
| "json_ok JFalse = True"
| "json_ok (JStr s) = True"
| "json_ok (JNum s) = json_number s"
| "json_ok (JList vs) = (\<forall>v \<in> set vs. json_ok v)"
| "json_ok (JMap m) = (distinct (map fst m) \<and> (\<forall>e \<in> set m. length (fst e) < 2 ^ 31 \<and> json_ok (snd e)))"
  by pat_completeness auto
termination
  by (relation "measure size") (auto dest: elem_size snd_size)

definition short :: "(bytes \<times> 'a) list \<Rightarrow> bool" where
  "short m \<longleftrightarrow> (\<forall>e \<in> set m. length (fst e) < 2 ^ 31)"

lemma node_less_short: "length (fst a) < 2 ^ 31 \<Longrightarrow> length (fst b) < 2 ^ 31 \<Longrightarrow> node_less a b = fst_less a b"
  using sgn_compare3 [of "fst a" "fst b"] unfolding node_less_def string_less_def fst_less_def default_less_def
  by (auto simp: cmp_def sgn_if split: if_splits)

lemma visit_nodes_ok:
  assumes "short m"
  shows "mset (visit_nodes srt m) = mset m" "srt \<Longrightarrow> visit_nodes srt m = ssort fst_less m"
proof -
  have "agrees fst_less node_less id m" using assms node_less_short unfolding agrees_def short_def id_apply by blast
  then have "ssort node_less m = ssort fst_less m" using by_fst.ssort_map [of node_less id m] by simp
  then show "mset (visit_nodes srt m) = mset m" "srt \<Longrightarrow> visit_nodes srt m = ssort fst_less m"
    using by_fst.ssort_ok [of m] by (simp_all add: visit_nodes_def)
qed

lemma visit_nodes_map:
  assumes "short m" and "\<And>e. fst (h e) = fst e"
  shows "visit_nodes srt (map h m) = map h (visit_nodes srt m)"
proof (cases srt)
  case True
  have "agrees fst_less fst_less h m" using assms(2) by (simp add: agrees_def fst_less_def)
  then have "map h (ssort fst_less m) = ssort fst_less (map h m)" using by_fst.ssort_map by blast
  moreover have "short (map h m)" using assms by (simp add: short_def)
  ultimately show ?thesis using visit_nodes_ok(2) [OF _ True] assms(1) by metis
qed (simp add: visit_nodes_def)

definition emits :: "nat \<Rightarrow> jsonw \<Rightarrow> (jsonwriter \<Rightarrow> jsonwriter) \<Rightarrow> bool" where
  "emits d v f \<longleftrightarrow>
     (\<forall>w. \<exists>ws t. spell d v t \<and> spaces ws \<and> w_data (f w) = w_data w @ (if m_comma w then [0x2C] else []) @ ws @ t \<and> m_comma (f w))"

lemma comma_spaces:
  obtains ws where "w_data (comma w) = w_data w @ (if m_comma w then [0x2C] else []) @ ws" "spaces ws"
proof -
  obtain ws where "w_data (comma w) = w_data w @ (if m_comma w then [0x2C] else []) @ ws" "\<forall>c \<in> set ws. c = 0x20 \<or> c = 0x0A"
    using comma_data by blast
  moreover from this(2) have "spaces ws" by (auto simp: spaces_def isspace_values)
  ultimately show thesis using that by blast
qed

lemma emits_scalar:
  assumes "\<And>w. f w = w_append t (comma w)" and "spell d v t"
  shows "emits d v f"
  unfolding emits_def
proof
  fix w
  obtain ws where "w_data (comma w) = w_data w @ (if m_comma w then [0x2C] else []) @ ws" "spaces ws" by (rule comma_spaces)
  then show "\<exists>ws t. spell d v t \<and> spaces ws \<and> w_data (f w) = w_data w @ (if m_comma w then [0x2C] else []) @ ws @ t \<and> m_comma (f w)"
    using assms by - (rule exI [where x = ws], rule exI [where x = t], simp add: w_append_def)
qed

lemma fold_items:
  "list_all2 (emits d) vs fs \<Longrightarrow> vs \<noteq> [] \<Longrightarrow>
    \<exists>ws t. items d vs t \<and> spaces ws \<and>
      w_data (fold (\<lambda>f. f) fs w) = w_data w @ (if m_comma w then [0x2C] else []) @ ws @ t \<and> m_comma (fold (\<lambda>f. f) fs w)"
proof (induction arbitrary: w rule: list_all2_induct)
  case (Cons v vs f fs)
  obtain ws t where 1: "spell d v t" "spaces ws" "w_data (f w) = w_data w @ (if m_comma w then [0x2C] else []) @ ws @ t" "m_comma (f w)"
    using Cons(1) unfolding emits_def by blast
  show ?case
  proof (cases "vs = []")
    case True
    then have "fs = []" using Cons(2) by simp
    then show ?thesis using True 1 it_one [OF 1(1)] by auto
  next
    case False
    then obtain ws' t' where 2: "items d vs t'" "spaces ws'" "w_data (fold (\<lambda>f. f) fs (f w)) = w_data (f w) @ [0x2C] @ ws' @ t'"
      "m_comma (fold (\<lambda>f. f) fs (f w))" using Cons.IH [of "f w"] 1(4) by auto
    show ?thesis
      using it_more [OF 1(1) 2(2,1)] 1(2,3) 2(3,4) by (intro exI [of _ ws] exI [of _ "t @ 0x2C # ws' @ t'"]) simp
  qed
qed simp

lemma fold_members:
  "list_all2 (\<lambda>e f. fst e = fst f \<and> emits d (snd e) (snd f)) m fs \<Longrightarrow> m \<noteq> [] \<Longrightarrow>
    \<exists>ws t. members d m t \<and> spaces ws \<and>
      w_data (fold (\<lambda>(key, f) w. f (map_key sse key w)) fs w) = w_data w @ (if m_comma w then [0x2C] else []) @ ws @ t \<and>
      m_comma (fold (\<lambda>(key, f) w. f (map_key sse key w)) fs w)"
proof (induction arbitrary: w rule: list_all2_induct)
  case (Cons e m f fs)
  obtain k v where e: "e = (k, v)" by (cases e)
  obtain g where f: "f = (k, g)" using Cons(1) e by (cases f) simp
  obtain ws where 0: "w_data (comma w) = w_data w @ (if m_comma w then [0x2C] else []) @ ws" "spaces ws" by (rule comma_spaces)
  have key: "w_data (map_key sse k w) = w_data (comma w) @ 0x22 # escaped k @ [0x22, 0x3A]" "\<not> m_comma (map_key sse k w)"
    by (simp_all add: map_key_def w_str_def w_append_def strwrap_eq)
  obtain ws' t where 1: "spell d v t" "spaces ws'" "w_data (g (map_key sse k w)) = w_data (map_key sse k w) @ ws' @ t"
    "m_comma (g (map_key sse k w))"
  proof -
    have "emits d v g" using Cons(1) by (simp add: e f)
    from this [unfolded emits_def, rule_format, of "map_key sse k w"] show ?thesis using key(2) that by auto
  qed
  show ?case
  proof (cases "m = []")
    case True
    then have "fs = []" using Cons(2) by simp
    then show ?thesis using True 0 1 key mb_one [OF 1(2,1), of k] unfolding e f
      by (intro exI [of _ ws] exI [of _ "0x22 # escaped k @ 0x22 # 0x3A # ws' @ t"]) simp
  next
    case False
    let ?w = "g (map_key sse k w)"
    obtain ws'' t' where 2: "members d m t'" "spaces ws''"
      "w_data (fold (\<lambda>(key, f) w. f (map_key sse key w)) fs ?w) = w_data ?w @ [0x2C] @ ws'' @ t'"
      "m_comma (fold (\<lambda>(key, f) w. f (map_key sse key w)) fs ?w)" using Cons.IH [OF False, of ?w] 1(4) by auto
    show ?thesis using 0 1(3) 2(3,4) key mb_more [OF 1(2,1) 2(2,1), of k] unfolding e f
      by (intro exI [of _ ws] exI [of _ "0x22 # escaped k @ 0x22 # 0x3A # ws' @ t @ 0x2C # ws'' @ t'"]) simp
  qed
qed simp

lemma depth_max: "x \<in> set xs \<Longrightarrow> f x \<le> foldr max (map f xs) (0 :: nat)"
  by (induction xs) auto

lemma emits_list:
  assumes "list_all2 (emits d) vs fs"
  shows "emits (Suc d) (JList vs) (\<lambda>w. list_exit (fold (\<lambda>f. f) fs (list_enter w)))"
  unfolding emits_def
proof
  fix w
  obtain ws where ws: "w_data (comma w) = w_data w @ (if m_comma w then [0x2C] else []) @ ws" "spaces ws" by (rule comma_spaces)
  have enter: "w_data (list_enter w) = w_data (comma w) @ [0x5B]" "\<not> m_comma (list_enter w)"
    by (simp_all add: list_enter_def w_append_def Let_def)
  have exit: "w_data (list_exit u) = w_data u @ [0x5D]" "m_comma (list_exit u)" for u
    by (simp_all add: list_exit_def w_append_def Let_def)
  obtain t where "spell (Suc d) (JList vs) t" "w_data (list_exit (fold (\<lambda>f. f) fs (list_enter w))) = w_data (comma w) @ t"
  proof (cases "vs = []")
    case True
    then have "fs = []" using assms by simp
    then show thesis using that [of "[0x5B, 0x5D]"] True sp_nil enter exit by simp
  next
    case False
    obtain ws' t where t: "items d vs t" "spaces ws'" "w_data (fold (\<lambda>f. f) fs (list_enter w)) = w_data (list_enter w) @ ws' @ t"
      using fold_items [OF assms False, of "list_enter w"] enter(2) by auto
    show thesis using that [OF sp_list [OF t(2,1)]] t(3) enter exit by simp
  qed
  then show "\<exists>ws t. spell (Suc d) (JList vs) t \<and> spaces ws \<and>
      w_data (list_exit (fold (\<lambda>f. f) fs (list_enter w))) = w_data w @ (if m_comma w then [0x2C] else []) @ ws @ t \<and>
      m_comma (list_exit (fold (\<lambda>f. f) fs (list_enter w)))"
    using ws exit by - (rule exI [where x = ws], rule exI [where x = t], simp)
qed

lemma emits_map:
  assumes "list_all2 (\<lambda>e f. fst e = fst f \<and> emits d (snd e) (snd f)) m fs" and "distinct (map fst m)"
  shows "emits (Suc d) (JMap m) (\<lambda>w. map_exit (fold (\<lambda>(key, f) w. f (map_key sse key w)) fs (map_enter w)))"
  unfolding emits_def
proof
  fix w
  obtain ws where ws: "w_data (comma w) = w_data w @ (if m_comma w then [0x2C] else []) @ ws" "spaces ws" by (rule comma_spaces)
  let ?fold = "\<lambda>w. fold (\<lambda>(key, f) w. f (map_key sse key w)) fs w"
  have enter: "w_data (map_enter w) = w_data (comma w) @ [0x7B]" "\<not> m_comma (map_enter w)"
    by (simp_all add: map_enter_def w_append_def Let_def)
  have exit: "w_data (map_exit u) = w_data u @ [0x7D]" "m_comma (map_exit u)" for u
    by (simp_all add: map_exit_def w_append_def Let_def)
  obtain t where "spell (Suc d) (JMap m) t" "w_data (map_exit (?fold (map_enter w))) = w_data (comma w) @ t"
  proof (cases "m = []")
    case True
    then have "fs = []" using assms(1) by simp
    then show thesis using that [of "[0x7B, 0x7D]"] True sp_empty enter exit by simp
  next
    case False
    obtain ws' t where t: "members d m t" "spaces ws'" "w_data (?fold (map_enter w)) = w_data (map_enter w) @ ws' @ t"
      using fold_members [OF assms(1) False, of sse "map_enter w"] enter(2) by auto
    show thesis using that [OF sp_map [OF t(2,1) assms(2)]] t(3) enter exit by simp
  qed
  then show "\<exists>ws t. spell (Suc d) (JMap m) t \<and> spaces ws \<and>
      w_data (map_exit (?fold (map_enter w))) = w_data w @ (if m_comma w then [0x2C] else []) @ ws @ t \<and>
      m_comma (map_exit (?fold (map_enter w)))"
    using ws exit by - (rule exI [where x = ws], rule exI [where x = t], simp)
qed

lemma serialize_emits: "json_ok v \<Longrightarrow> json_depth v \<le> d \<Longrightarrow> emits d (written srt v) (serialize srt sse v)"
proof (induction v arbitrary: d)
  case (JList vs)
  then obtain d' where d: "d = Suc d'" "foldr max (map json_depth vs) 0 \<le> d'" by (cases d) auto
  have "emits d' (written srt v) (serialize srt sse v)" if "v \<in> set vs" for v
    using JList.IH [OF that] JList.prems(1) that depth_max [OF that, of json_depth] d(2) by simp
  then have "list_all2 (emits d') (map (written srt) vs) (map (serialize srt sse) vs)"
    by (simp add: list_all2_conv_all_nth)
  then show ?case using emits_list d(1) by simp
next
  case (JMap m)
  let ?w = "\<lambda>e. (fst e, written srt (snd e))" and ?s = "\<lambda>e. (fst e, serialize srt sse (snd e))"
  obtain d' where d: "d = Suc d'" "foldr max (map (\<lambda>e. json_depth (snd e)) m) 0 \<le> d'" using JMap.prems(2) by (cases d) auto
  have short: "short m" "distinct (map fst m)" using JMap.prems(1) by (simp_all add: short_def)
  have emit: "emits d' (written srt (snd e)) (serialize srt sse (snd e))" if "e \<in> set m" for e
    using JMap.IH [OF that, of "snd e"] JMap.prems(1) that depth_max [OF that, of "\<lambda>e. json_depth (snd e)"] d(2)
    by (cases e) (auto simp: snds.simps)
  define n where "n = visit_nodes srt m"
  have n: "mset n = mset m" using visit_nodes_ok(1) [OF short(1)] by (simp add: n_def)
  have visit: "visit_nodes srt (map ?w m) = map ?w n" "visit_nodes srt (map ?s m) = map ?s n"
    unfolding n_def by (rule visit_nodes_map [OF short(1)], simp)+
  have "e \<in> set m" if "e \<in> set n" for e using n that mset_eq_setD by blast
  then have "list_all2 (\<lambda>e f. fst e = fst f \<and> emits d' (snd e) (snd f)) (map ?w n) (map ?s n)"
    using emit by (auto simp: list_all2_conv_all_nth)
  moreover have "distinct (map fst (map ?w n))"
  proof -
    have "mset (map fst n) = mset (map fst m)" using n by simp
    then have "distinct (map fst n)" using short(2) mset_eq_imp_distinct_iff by blast
    then show ?thesis by (simp add: comp_def)
  qed
  ultimately show ?case using emits_map d(1) visit by simp
qed (auto intro!: emits_scalar simp: w_null_def w_boolean_def w_str_def num_unsafe_def strwrap_eq
  sp_true sp_false sp_null sp_num intro: sp_str)

text \<open>A text never ends in a minus sign.\<close>

lemma digits_last: "digits ds \<Longrightarrow> last ds \<noteq> 0x2D"
proof
  assume "digits ds" and "last ds = 0x2D"
  then have "isdigit 0x2D" unfolding digits_def using last_in_set by metis
  then show False by (simp add: isdigit_def)
qed

lemma number_last:
  assumes "json_number s"
  shows "last s \<noteq> 0x2D"
proof -
  obtain sg i f e where s: "s = sg @ i @ f @ e" "digits i" "json_fraction f" "json_exponent e"
    using assms by (auto simp: json_number_def)
  have i: "i \<noteq> []" "last i \<noteq> 0x2D" using s(2) digits_last by (auto simp: digits_def)
  have f: "last f \<noteq> 0x2D" if "f \<noteq> []"
    using s(3) that digits_last by (auto simp: json_fraction_def digits_def)
  have e: "last e \<noteq> 0x2D" if "e \<noteq> []"
    using s(4) that digits_last by (auto simp: json_exponent_def digits_def)
  show ?thesis using i f e by (auto simp: s(1) last_append)
qed

lemma spell_last: "spell d v t \<Longrightarrow> last t \<noteq> 0x2D"
  by (erule spell.cases) (simp_all add: number_last)

subsection \<open>Fuel\<close>

lemma skip_tree_mono: "skip_tree n host x p = Some q \<Longrightarrow> n \<le> n' \<Longrightarrow> skip_tree n' host x p = Some q"
proof (induction n arbitrary: n' x p)
  case 0
  then show ?case by (cases x) simp_all
next
  case (Suc n)
  then obtain k where k: "n' = Suc k" "n \<le> k" by (cases n') auto
  obtain ev u where u: "next_inner False host p = (ev, u)" by fastforce
  show ?case
  proof (cases x)
    case (Suc y)
    have "skip_tree n host z u = Some q \<Longrightarrow> skip_tree k host z u = Some q" for z using Suc.IH k(2) by blast
    then show ?thesis using Suc.prems(1) unfolding Suc k(1) skip_tree.simps u Let_def prod.case by blast
  qed (use Suc.prems in simp)
qed

lemma list_items_mono:
  assumes "\<And>ev ok p r. f ev ok p = Some r \<Longrightarrow> f' ev ok p = Some r"
  shows "list_items f n host vs ok p = Some r \<Longrightarrow> n \<le> n' \<Longrightarrow> list_items f' n' host vs ok p = Some r"
proof (induction n arbitrary: n' vs ok p)
  case (Suc n)
  then obtain k where "n' = Suc k" "n \<le> k" by (cases n') auto
  then show ?case using Suc assms by (auto split: prod.splits option.splits if_splits)
qed simp

lemma map_items_mono:
  assumes "\<And>old ev ok p r. f old ev ok p = Some r \<Longrightarrow> f' old ev ok p = Some r"
  shows "map_items f n host m ok p = Some r \<Longrightarrow> n \<le> n' \<Longrightarrow> map_items f' n' host m ok p = Some r"
proof (induction n arbitrary: n' m ok p)
  case (Suc n)
  then obtain k where k: "n' = Suc k" "n \<le> k" by (cases n') auto
  obtain ev u where u: "next_inner False host p = (ev, u)" by fastforce
  obtain ev1 u1 where u1: "next_inner False host u = (ev1, u1)" by fastforce
  have IH: "map_items f n host m ok p = Some r \<Longrightarrow> map_items f' k host m ok p = Some r" for m ok p using Suc.IH k(2) by blast
  show ?case
  proof (cases "ev = Exit_map \<or> key_of ev = None")
    case True
    then show ?thesis using Suc.prems(1) IH by (auto simp: k(1) u)
  next
    case False
    then obtain key where key: "key_of ev = Some key" by auto
    define old where "old = (case map_of m key of Some v \<Rightarrow> v | None \<Rightarrow> JUnset)"
    have step: "map_items g (Suc i) host m ok p =
      (case g old ev1 ok u1 of None \<Rightarrow> None | Some (v, ok, p) \<Rightarrow> map_items g i host (AList.update key v m) ok p)" for g i
      using False by (simp add: u u1 key old_def)
    obtain v ok' u2 where v: "f old ev1 ok u1 = Some (v, ok', u2)"
      using Suc.prems(1) unfolding step by (cases "f old ev1 ok u1") auto
    then have "f' old ev1 ok u1 = Some (v, ok', u2)" by (rule assms)
    then show ?thesis using Suc.prems(1) IH v unfolding k(1) step by simp
  qed
qed simp

lemma construct_mono: "construct d n host old ev ok p = Some r \<Longrightarrow> n \<le> n' \<Longrightarrow> construct d n' host old ev ok p = Some r"
proof (induction d arbitrary: old ev ok p r)
  case 0
  then show ?case using skip_tree_mono [of n host 1 p _ n'] by (auto split: option.splits if_splits)
next
  case (Suc d)
  have f: "construct d n host old ev ok p = Some r \<Longrightarrow> construct d n' host old ev ok p = Some r" for old ev ok p r
    using Suc.IH Suc.prems(2) by blast
  show ?case
  proof (cases "simple_value ev")
    case None
    have "list_items (construct d n host JUnset) n host [] ok p = Some r \<Longrightarrow>
        list_items (construct d n' host JUnset) n' host [] ok p = Some r" for r
      using list_items_mono [of "construct d n host JUnset" "construct d n' host JUnset"] f Suc.prems(2) by blast
    moreover have "map_items (construct d n host) n host [] ok p = Some r \<Longrightarrow>
        map_items (construct d n' host) n' host [] ok p = Some r" for r
      using map_items_mono [of "construct d n host" "construct d n' host"] f Suc.prems(2) by blast
    ultimately show ?thesis using Suc.prems(1) None by (auto split: if_splits)
  qed (use Suc.prems in simp)
qed

lemma json_parse_mono:
  assumes r: "json_parse n host old s = Some r" and le: "n \<le> n'"
  shows "json_parse n' host old s = Some r"
proof -
  obtain ev u where u: "next_inner False host (json_init False s) = (ev, u)" by fastforce
  define F where "F = (\<lambda>(v, ok, p). let (ev, p) = next_inner False host p in if \<not> ok \<or> ev \<noteq> Finish then (False, JError) else (True, v))"
  have eq: "json_parse k host old s = map_option F (construct 1000 k host old ev True u)" for k
    by (simp only: json_parse_def u F_def Let_def prod.case)
  show ?thesis
  proof (cases "construct 1000 n host old ev True u")
    case (Some x)
    then show ?thesis using r construct_mono [OF Some le] by (simp add: eq)
  qed (use r in \<open>simp add: eq\<close>)
qed

subsection \<open>Properties\<close>

lemma parse_spelled:
  assumes "spell 1000 v t" and "spaces ws"
  shows "json_parse (8 * length (ws @ t) + 4) host old (ws @ t) = Some (True, v)"
proof -
  let ?p = "\<lparr>m_data = ws @ t, m_at = 0, m_want_key = False, m_errored = False, m_need_error = False, m_nesting = []\<rparr>"
  have o: "opens t" using spell_opens(1) [OF assms(1)] .
  then have first: "\<not> isspace (rd t 0)" "rd t 0 \<noteq> 0" "t \<noteq> []" by (cases t; simp add: opens_def)+
  have p: "ready ?p (ws @ t) []" by (simp add: ready_def remaining_def)
  then have skip: "ready (skip False ?p) t []" using skip_ready [OF _ assms(2) first(1)] by blast
  then have "rd (m_data (skip False ?p)) (m_at (skip False ?p)) \<noteq> 0" using first(2) unfolding ready_def rd_remaining(2) by metis
  then have init: "json_init False (ws @ t) = skip False ?p" by (simp add: json_init_def Let_def)
  have A: "ready (skip False ?p) ([] @ t @ []) []" and B: "\<not> m_want_key (skip False ?p)" using skip by simp_all
  have "follow [] [] []" by (simp add: follow_def)
  from spell_reads(1) [OF assms(1), unfolded reads_value_def, rule_format, OF A no_spaces this B, of host]
  obtain ev p1 q n0 where ev: "next_inner False host (skip False ?p) = (ev, p1)" "ready q [] []"
    and c: "\<And>n old ok. n0 \<le> n \<Longrightarrow> construct 1000 n host old ev ok p1 = Some (v, ok, q)"
    by blast
  have "skip False q = q" using skip_nothing [OF ev(2)] by (simp add: rd_def isspace_values)
  then have fin: "next_inner False host q = (Finish, q)"
    using ev(2) at_end [OF ev(2)] by (simp add: next_inner_def end_event_def ready_def)
  define n where "n = max n0 (8 * length (ws @ t) + 4)"
  have "json_parse n host old (ws @ t) = Some (True, v)"
    using init ev(1) c [of n old True] fin by (simp add: json_parse_def n_def)
  moreover have "last (ws @ t) \<noteq> 0x2D" using spell_last [OF assms(1)] first(3) by simp
  then obtain r where r: "json_parse (8 * length (ws @ t) + 4) host old (ws @ t) = Some r"
    using parse_total [of "ws @ t" host old] by auto
  ultimately show ?thesis using json_parse_mono [OF r, of n] by (simp add: n_def)
qed

text \<open>
  C6. Round trip: a value whose numbers are in JSON syntax, whose maps have different keys (shorter than 2 GiB) and
  which is nested at most 1000 deep is read back from its text, plain or sorted, with any indentation the writer supports
  and on machines with and without SSE2: the parser accepts the text within its bound on events and yields the
  same strings, numbers, lists and maps, with unset and error values as null and the nodes of maps in the order in
  which they were written.
\<close>

theorem json_roundtrip:
  assumes "json_ok v" and "json_depth v \<le> 1000" and "0 \<le> n" and "n \<le> 8"
  shows "(let s = serialize_text sse v n in json_parse (8 * length s + 4) host old s = Some (True, written False v)) \<and>
    (let s = serialize_sorted sse v n in json_parse (8 * length s + 4) host old s = Some (True, written True v))"
proof -
  have "json_parse (8 * length s + 4) host old s = Some (True, written srt v)"
    if s: "s = w_data (serialize srt sse v (jsonwriter_indent n))" for srt s
  proof -
    have "w_data (jsonwriter_indent n) = []" "\<not> m_comma (jsonwriter_indent n)" by (simp_all add: jsonwriter_indent_def jsonwriter_new_def)
    then obtain ws t where "spell 1000 (written srt v) t" "spaces ws" "s = ws @ t"
      using serialize_emits [OF assms(1,2), of srt sse, unfolded emits_def, rule_format, of "jsonwriter_indent n"] s by auto
    then show ?thesis using parse_spelled by blast
  qed
  then show ?thesis by (simp add: serialize_text_def serialize_sorted_def w_finish_def Let_def)
qed

definition sample :: jsonw where
  "sample = JMap [([0x62], JList [JTrue, JNum [0x2D, 0x31], JStr [0x0A]]), ([0x61], JUnset)]"

lemma json_roundtrip_witness:
  "json_ok sample \<and> json_depth sample \<le> 1000 \<and>
   (let s = serialize_text True sample 2 in json_parse (8 * length s + 4) False JUnset s = Some (True, written False sample)) \<and>
   (let s = serialize_sorted True sample 2 in json_parse (8 * length s + 4) False JUnset s = Some (True, written True sample))"
proof -
  have "json_number [0x2D, 0x31]"
    unfolding json_number_def
    by (rule exI [of _ "[0x2D]"], rule exI [of _ "[0x31]"], rule exI [of _ "[]"], rule exI [of _ "[]"])
      (simp add: digits_def isdigit_def json_fraction_def json_exponent_def)
  then have "json_ok sample" "json_depth sample \<le> 1000" by (simp_all add: sample_def)
  then show ?thesis using json_roundtrip [of sample 2 True False JUnset] by simp
qed

end
