(* ===== verification/Json_Events.thy ===== *)
theory Json_Events
  imports Json_Roundtrip
begin

text \<open>
  The events of a value, and the proof that the parser delivers exactly them for every text the writer may have
  produced. The streaming deserializers are verified against this stream.
\<close>

fun yields :: "bool \<Rightarrow> jsonparser \<Rightarrow> event list \<Rightarrow> jsonparser \<Rightarrow> bool" where
  "yields host p [] q \<longleftrightarrow> p = q"
| "yields host p (e # es) q \<longleftrightarrow> fst (next_inner False host p) = e \<and> yields host (snd (next_inner False host p)) es q"

lemma yields_append: "yields host p (es @ fs) q \<longleftrightarrow> (\<exists>u. yields host p es u \<and> yields host u fs q)"
  by (induction es arbitrary: p) auto

lemma yields_Cons: "next_inner False host p = (e, u) \<Longrightarrow> yields host p (e # es) q \<longleftrightarrow> yields host u es q"
  by simp

function events_of :: "jsonw \<Rightarrow> event list" where
  "events_of JUnset = [Jnull]"
| "events_of JError = [Jnull]"
| "events_of JNull = [Jnull]"
| "events_of JTrue = [Jtrue]"
| "events_of JFalse = [Jfalse]"
| "events_of (JStr s) = [Jstr s]"
| "events_of (JNum s) = [Jnum s]"
| "events_of (JList vs) = Enter_list # concat (map events_of vs) @ [Exit_list]"
| "events_of (JMap m) = Enter_map # concat (map (\<lambda>e. Map_key (fst e) # events_of (snd e)) m) @ [Exit_map]"
  by pat_completeness auto
termination
  by (relation "measure size") (auto dest: elem_size snd_size)

abbreviation items_events :: "jsonw list \<Rightarrow> event list" where
  "items_events vs \<equiv> concat (map events_of vs) @ [Exit_list]"

abbreviation members_events :: "(bytes \<times> jsonw) list \<Rightarrow> event list" where
  "members_events m \<equiv> concat (map (\<lambda>e. Map_key (fst e) # events_of (snd e)) m) @ [Exit_map]"

text \<open>What reading the rest of a text yields, when the parser expects a value, list elements or map members.\<close>

definition delivers :: "event list \<Rightarrow> (bytes \<Rightarrow> bytes) \<Rightarrow> bool list \<Rightarrow> bool \<Rightarrow> bool" where
  "delivers es k inner key \<longleftrightarrow>
     (\<forall>host p ws r r' st. ready p (ws @ k r) (st @ inner) \<longrightarrow> spaces ws \<longrightarrow> follow st r r' \<longrightarrow> m_want_key p = key \<longrightarrow>
       (\<exists>q. yields host p es q \<and> ready q r' st \<and> wants st q))"

lemma deliversD:
  "delivers es k inner key \<Longrightarrow> ready p (ws @ k r) (st @ inner) \<Longrightarrow> spaces ws \<Longrightarrow> follow st r r' \<Longrightarrow> m_want_key p = key \<Longrightarrow>
    \<exists>q. yields host p es q \<and> ready q r' st \<and> wants st q"
  unfolding delivers_def by blast

text \<open>Scalars: the event that builds the value is the one that is delivered.\<close>

lemma scalar_delivers:
  assumes "reads_value 0 v t" and "simple_value ev = Some v" and "ev \<noteq> Jerror" and "v \<noteq> JError"
  shows "delivers [ev] (\<lambda>r. t @ r) [] False"
  unfolding delivers_def
proof (intro allI impI)
  fix host p ws r r' st
  assume p: "ready p (ws @ t @ r) (st @ [])" "spaces ws" "follow st r r'" "m_want_key p = False"
  have p': "ready p (ws @ t @ r) st" "\<not> m_want_key p" using p by simp_all
  obtain ev' p1 q n0 where ev: "next_inner False host p = (ev', p1)" "ready q r' st" "wants st q"
    and c: "\<And>n old ok. n0 \<le> n \<Longrightarrow> construct 0 n host old ev' ok p1 = Some (v, ok, q)"
    using assms(1) [unfolded reads_value_def, rule_format, OF p'(1) p(2,3) p'(2), of host] by blast
  have "construct 0 n0 host JUnset ev' True p1 = Some (v, True, q)" using c by simp
  then have "simple_value ev' = Some v \<and> p1 = q" using assms(4) by (auto split: option.splits if_splits)
  moreover from this have "ev' = ev" using assms(2-4) by (cases ev; cases ev') (auto simp: simple_value_def)
  ultimately show "\<exists>q. yields host p [ev] q \<and> ready q r' st \<and> wants st q" using ev by auto
qed

lemma scalars_deliver:
  "delivers [Jtrue] (\<lambda>r. [0x74, 0x72, 0x75, 0x65] @ r) [] False"
  "delivers [Jfalse] (\<lambda>r. [0x66, 0x61, 0x6C, 0x73, 0x65] @ r) [] False"
  "delivers [Jnull] (\<lambda>r. [0x6E, 0x75, 0x6C, 0x6C] @ r) [] False"
  "delivers [Jstr s] (\<lambda>r. (0x22 # escaped s @ [0x22]) @ r) [] False"
  "json_number n \<Longrightarrow> delivers [Jnum n] (\<lambda>r. n @ r) [] False"
  by (rule scalar_delivers [OF scalar_reads(1)] scalar_delivers [OF scalar_reads(2)] scalar_delivers [OF scalar_reads(3)]
      scalar_delivers [OF scalar_reads(5)] scalar_delivers [OF scalar_reads(4)]; simp add: simple_value_def)+

lemma close_list: "delivers [Exit_list] (\<lambda>r. 0x5D # r) [False] False"
  unfolding delivers_def
proof (intro allI impI)
  fix host p ws r r' st
  assume p: "ready p (ws @ 0x5D # r) (st @ [False])" "spaces ws" "follow st r r'" "m_want_key p = False"
  have "\<not> isspace 0x5D" by (simp add: isspace_iff)
  then obtain u where u: "next_inner False host p = next_value False host u" "ready u (0x5D # r) (st @ [False])"
    using next_inner_skips [OF p(1,2), of host] p(4) by auto
  then have "next_value False host u = close_bracket False False u" by (simp add: next_value_text ready_def Let_def)
  then show "\<exists>q. yields host p [Exit_list] q \<and> ready q r' st \<and> wants st q"
    using close_ready [of u False r st r'] u p(3) by auto
qed

lemma close_map: "delivers [Exit_map] (\<lambda>r. 0x7D # r) [True] True"
  unfolding delivers_def
proof (intro allI impI)
  fix host p ws r r' st
  assume p: "ready p (ws @ 0x7D # r) (st @ [True])" "spaces ws" "follow st r r'" "m_want_key p = True"
  have "\<not> isspace 0x7D" by (simp add: isspace_iff)
  then obtain u where u: "next_inner False host p = next_key False host u" "ready u (0x7D # r) (st @ [True])"
    using next_inner_skips [OF p(1,2), of host] p(4) by auto
  then have "next_key False host u = close_bracket False True u" by (simp add: next_key_def ready_def rd_remaining Let_def)
  then show "\<exists>q. yields host p [Exit_map] q \<and> ready q r' st \<and> wants st q"
    using close_ready [of u True r st r'] u p(3) by auto
qed

text \<open>A bracket and what comes after it.\<close>

lemma enter_delivers:
  assumes "delivers es k [b] b" and "spaces ws0" and "\<And>r. t @ r = (if b then 0x7B else 0x5B) # ws0 @ k r"
  shows "delivers ((if b then Enter_map else Enter_list) # es) (\<lambda>r. t @ r) [] False"
  unfolding delivers_def
proof (intro allI impI)
  fix host p ws r r' st
  assume p: "ready p (ws @ t @ r) (st @ [])" "spaces ws" "follow st r r'" "m_want_key p = False"
  obtain u where u: "next_inner False host p = ((if b then Enter_map else Enter_list), u)" "ready u (ws0 @ k r) (st @ [b])" "m_want_key u = b"
    using enter_event [of p ws b "ws0 @ k r" st host] p assms(3) by auto
  then show "\<exists>q. yields host p ((if b then Enter_map else Enter_list) # es) q \<and> ready q r' st \<and> wants st q"
    using deliversD [OF assms(1) u(2) assms(2) p(3), of host] by simp
qed

text \<open>One element, and what comes after it.\<close>

lemma item_delivers:
  assumes "delivers es (\<lambda>r. t @ r) [] False" and "delivers fs k [False] False"
    and "\<And>r st. follow (st @ [False]) (j r) (k r)"
  shows "delivers (es @ fs) (\<lambda>r. t @ j r) [False] False"
  unfolding delivers_def
proof (intro allI impI)
  fix host p ws r r' st
  assume p: "ready p (ws @ t @ j r) (st @ [False])" "spaces ws" "follow st r r'" "m_want_key p = False"
  obtain u where u: "yields host p es u" "ready u (k r) (st @ [False])" "wants (st @ [False]) u"
    using deliversD [OF assms(1), of p ws "j r" "st @ [False]" "k r" host] p assms(3) by auto
  have "\<not> m_want_key u" using u(3) by (simp add: wants_def)
  then show "\<exists>q. yields host p (es @ fs) q \<and> ready q r' st \<and> wants st q"
    using deliversD [OF assms(2), of u "[]" r st r' host] u p(3) no_spaces by (auto simp: yields_append)
qed

lemma member_delivers:
  assumes "delivers es (\<lambda>r. t @ r) [] False" and "delivers fs k [True] True" and "spaces ws0"
    and "\<And>r st. follow (st @ [True]) (j r) (k r)"
  shows "delivers (Map_key key # es @ fs) (\<lambda>r. 0x22 # escaped key @ 0x22 # 0x3A # ws0 @ t @ j r) [True] True"
  unfolding delivers_def
proof (intro allI impI)
  fix host p ws r r' st
  assume p: "ready p (ws @ 0x22 # escaped key @ 0x22 # 0x3A # ws0 @ t @ j r) (st @ [True])" "spaces ws" "follow st r r'" "m_want_key p = True"
  have "m_want_key p" using p(4) by simp
  from key_event [OF p(1,2) this, of host] obtain p0 where p0: "next_inner False host p = (Map_key key, p0)"
    "ready p0 (ws0 @ t @ j r) (st @ [True])" "\<not> m_want_key p0" by blast
  obtain u where u: "yields host p0 es u" "ready u (k r) (st @ [True])" "wants (st @ [True]) u"
    using deliversD [OF assms(1), of p0 ws0 "j r" "st @ [True]" "k r" host] p0 assms(3,4) by auto
  have "m_want_key u" using u(3) by (simp add: wants_def)
  then show "\<exists>q. yields host p (Map_key key # es @ fs) q \<and> ready q r' st \<and> wants st q"
    using deliversD [OF assms(2), of u "[]" r st r' host] u p(3) p0(1) no_spaces by (auto simp: yields_append)
qed

lemma spell_delivers:
  "spell d v t \<Longrightarrow> delivers (events_of v) (\<lambda>r. t @ r) [] False"
  "items d vs t \<Longrightarrow> delivers (items_events vs) (\<lambda>r. t @ 0x5D # r) [False] False"
  "members d m t \<Longrightarrow> delivers (members_events m) (\<lambda>r. t @ 0x7D # r) [True] True"
proof (induction rule: spell_items_members.inducts)
  case (sp_nil d)
  show ?case using enter_delivers [OF close_list no_spaces, of "[0x5B, 0x5D]"] by simp
next
  case (sp_list ws d vs t)
  show ?case using enter_delivers [OF sp_list(3,1), of "0x5B # ws @ t @ [0x5D]"] by simp
next
  case (sp_empty d)
  show ?case using enter_delivers [OF close_map no_spaces, of "[0x7B, 0x7D]"] by simp
next
  case (sp_map ws d m t)
  show ?case using enter_delivers [OF sp_map(4,1), of "0x7B # ws @ t @ [0x7D]"] by simp
next
  case (it_one d v t)
  show ?case using item_delivers [OF it_one(2) close_list follow_close] by simp
next
  case (it_more d v t ws vs t')
  have "opens (t' @ r)" for r using spell_opens(2) [OF it_more(3)] by (rule opens_append)
  then have "follow (st @ [False]) (0x2C # ws @ t' @ r) (t' @ r)" for st r
    using it_more(2) by (intro follow_comma) simp_all
  then show ?case using item_delivers [OF it_more(4,5), of "\<lambda>r. 0x2C # ws @ t' @ 0x5D # r"] by simp
next
  case (mb_one ws d v t k)
  show ?case using member_delivers [OF mb_one(3) close_map mb_one(1) follow_close, of k] by simp
next
  case (mb_more ws d v t ws' m t' k)
  have "opens (t' @ r)" for r using spell_opens(3) [OF mb_more(4)] by (rule opens_append)
  then have "follow (st @ [True]) (0x2C # ws' @ t' @ r) (t' @ r)" for st r
    using mb_more(3) by (intro follow_comma) simp_all
  then show ?case using member_delivers [OF mb_more(5,6,1), of "\<lambda>r. 0x2C # ws' @ t' @ 0x7D # r" k] by simp
qed (simp_all only: events_of.simps scalars_deliver)

text \<open>A whole document: the events of its value, then the end for ever.\<close>

theorem document_events:
  assumes "spell d v t" and "spaces ws"
  shows "\<exists>q. yields host (json_init False (ws @ t)) (events_of v) q \<and> next_inner False host q = (Finish, q)"
proof -
  let ?p = "\<lparr>m_data = ws @ t, m_at = 0, m_want_key = False, m_errored = False, m_need_error = False, m_nesting = []\<rparr>"
  have o: "opens t" using spell_opens(1) [OF assms(1)] .
  then have first: "\<not> isspace (rd t 0)" "rd t 0 \<noteq> 0" by (cases t; simp add: opens_def)+
  have p: "ready ?p (ws @ t) []" by (simp add: ready_def remaining_def)
  then have skip: "ready (skip False ?p) t []" using skip_ready [OF _ assms(2) first(1)] by blast
  then have "rd (m_data (skip False ?p)) (m_at (skip False ?p)) \<noteq> 0" using first(2) unfolding ready_def rd_remaining(2) by metis
  then have init: "json_init False (ws @ t) = skip False ?p" by (simp add: json_init_def Let_def)
  have "ready (skip False ?p) ([] @ t @ []) ([] @ [])" "m_want_key (skip False ?p) = False" "follow [] [] []"
    using skip by (simp_all add: follow_def)
  then obtain q where q: "yields host (skip False ?p) (events_of v) q" "ready q [] []"
    using deliversD [OF spell_delivers(1) [OF assms(1)], of "skip False ?p" "[]" "[]" "[]" "[]" host] no_spaces by auto
  have "skip False q = q" using skip_nothing [OF q(2)] by (simp add: rd_def isspace_values)
  then have "next_inner False host q = (Finish, q)"
    using q(2) at_end [OF q(2)] by (simp add: next_inner_def end_event_def ready_def)
  then show ?thesis using q(1) init by auto
qed

end
