(* ===== verification/Serialize.thy ===== *)
theory Serialize
  imports Json_Events "HOL-Library.AList"
begin

text \<open>
  The streaming serializer of \<^verbatim>\<open>arlib/serialize2.h\<close> over JSON, and what \<^verbatim>\<open>array.h\<close> and \<^verbatim>\<open>set.h\<close> do with it. A
  class with a \<^verbatim>\<open>serialize\<close> member becomes a list of its fields: a name with a writer, and a name with a
  reader. A reader changes the state of the deserializer and the object it fills in. The loops over the
  events of a document may go on for ever when it ends in a minus sign (\<open>Json_Live\<close>), so
  they are partial functions, and \<open>None\<close> is not returning.
\<close>

subsection \<open>Writing\<close>

type_synonym writes = "jsonwriter \<Rightarrow> jsonwriter"

definition write_struct :: "bool \<Rightarrow> (bytes \<times> writes) list \<Rightarrow> writes" where
  "write_struct sse fs w = map_exit (fold (\<lambda>(name, f) w. f (map_key sse name w)) fs (map_enter w))"

definition write_array :: "('a \<Rightarrow> writes) \<Rightarrow> 'a list \<Rightarrow> writes" where
  "write_array f xs w = list_exit (fold (\<lambda>f. f) (map f xs) (list_enter w))"

definition write_map :: "bool \<Rightarrow> ('a \<Rightarrow> writes) \<Rightarrow> (bytes \<times> 'a) list \<Rightarrow> writes" where
  "write_map sse f nodes = write_struct sse (map (\<lambda>(k, v). (k, f v)) nodes)"

definition jsonserialize2 :: "writes \<Rightarrow> bytes" where
  "jsonserialize2 f = w_finish (f (jsonwriter_indent 0))"

subsection \<open>The deserializer\<close>

record deser =
  parser :: jsonparser
  ev :: event
  current_name :: bytes
  has_current_name :: bool
  did_anything :: bool
  valid :: bool

type_synonym 'a reader = "deser \<times> 'a \<Rightarrow> (deser \<times> 'a) option"

definition is_enter :: "event \<Rightarrow> bool" where
  "is_enter e \<longleftrightarrow> e = Enter_map \<or> e = Enter_list"

definition is_exit :: "event \<Rightarrow> bool" where
  "is_exit e \<longleftrightarrow> e = Exit_map \<or> e = Exit_list"

partial_function (option) next_ev_raw :: "bool \<Rightarrow> deser \<Rightarrow> deser option" where
  [code]: "next_ev_raw host d =
     (let (e, p) = next_inner False host (parser d); d = d\<lparr>parser := p, ev := e\<rparr>
      in if e = Jerror then next_ev_raw host (d\<lparr>valid := False, has_current_name := False\<rparr>) else Some d)"

definition next_ev :: "bool \<Rightarrow> deser \<Rightarrow> deser option" where
  "next_ev host d =
     Option.bind (next_ev_raw host (d\<lparr>has_current_name := False, current_name := []\<rparr>)) (\<lambda>d.
       case key_of (ev d) of
         None \<Rightarrow> Some d
       | Some k \<Rightarrow> next_ev_raw host (d\<lparr>has_current_name := True, current_name := k\<rparr>))"

partial_function (option) finish_item :: "bool \<Rightarrow> int \<Rightarrow> deser \<Rightarrow> deser option" where
  [code]: "finish_item host depth d =
     (let depth = (if is_enter (ev d) then depth + 1 else depth); depth = (if is_exit (ev d) then depth - 1 else depth)
      in if depth \<le> 0 then Some d else Option.bind (next_ev host d) (finish_item host depth))"

definition deser_new :: "bool \<Rightarrow> bytes \<Rightarrow> deser option" where
  "deser_new host json =
     next_ev host \<lparr>parser = json_init False json, ev = Finish, current_name = [], has_current_name = False,
       did_anything = False, valid = True\<rparr>"

text \<open>The value is not what was expected: it is dropped.\<close>

definition refuse :: "bool \<Rightarrow> deser \<Rightarrow> deser option" where
  "refuse host d =
     Option.bind (finish_item host 0 (d\<lparr>valid := False\<rparr>)) (\<lambda>d.
       map_option (\<lambda>d. d\<lparr>did_anything := True\<rparr>) (next_ev host d))"

definition leave :: "bool \<Rightarrow> deser \<Rightarrow> (bool \<times> deser) option" where
  "leave host d = map_option (Pair False) (next_ev host (d\<lparr>did_anything := True\<rparr>))"

definition begin_map :: "bool \<Rightarrow> deser \<Rightarrow> (bool \<times> deser) option" where
  "begin_map host d =
     (if ev d \<noteq> Enter_map then map_option (Pair False) (refuse host d)
      else
        Option.bind (next_ev host d) (\<lambda>d.
          if ev d = Exit_map then leave host d else Some (True, d\<lparr>did_anything := False\<rparr>)))"

text \<open>A member nobody read is skipped.\<close>

definition skip_unread :: "bool \<Rightarrow> deser \<Rightarrow> deser option" where
  "skip_unread host d =
     (if did_anything d then Some d else Option.bind (finish_item host 0 d) (next_ev host))"

definition continue_map :: "bool \<Rightarrow> deser \<Rightarrow> (bool \<times> deser) option" where
  "continue_map host d =
     Option.bind (skip_unread host d) (\<lambda>d.
       if ev d = Exit_map then leave host d else Some (True, d\<lparr>did_anything := False\<rparr>))"

definition name_is :: "bytes \<Rightarrow> deser \<Rightarrow> bool" where
  "name_is name d \<longleftrightarrow> has_current_name d \<and> current_name d = name"

definition begin_array :: "bool \<Rightarrow> deser \<Rightarrow> (bool \<times> deser) option" where
  "begin_array host d =
     (if ev d \<noteq> Enter_list then map_option (Pair False) (refuse host d)
      else
        Option.bind (next_ev host (d\<lparr>did_anything := False\<rparr>)) (\<lambda>d.
          if ev d = Exit_list then leave host d else Some (True, d)))"

definition continue_array :: "bool \<Rightarrow> deser \<Rightarrow> (bool \<times> deser) option" where
  "continue_array host d =
     Option.bind (skip_unread host d) (\<lambda>d.
       if ev d \<noteq> Exit_list then Some (True, d\<lparr>did_anything := False\<rparr>) else leave host d)"

definition has_item :: "deser \<Rightarrow> bool" where
  "has_item d \<longleftrightarrow> \<not> is_exit (ev d)"

definition after_primitive :: "bool \<Rightarrow> deser \<Rightarrow> deser option" where
  "after_primitive host d = Option.bind (finish_item host 0 (d\<lparr>did_anything := True\<rparr>)) (next_ev host)"

definition read_bool :: "bool \<Rightarrow> bool reader" where
  "read_bool host s =
     (let (d, x) = s;
          (d, x) = (if ev d = Jtrue then (d, True) else if ev d = Jfalse then (d, False) else (d\<lparr>valid := False\<rparr>, x))
      in map_option (\<lambda>d. (d, x)) (after_primitive host d))"

definition read_str :: "bool \<Rightarrow> bytes reader" where
  "read_str host s =
     (let (d, x) = s;
          (d, x) = (case ev d of Jstr t \<Rightarrow> (d, t) | _ \<Rightarrow> (d\<lparr>valid := False\<rparr>, x))
      in map_option (\<lambda>d. (d, x)) (after_primitive host d))"

subsection \<open>Objects, arrays and maps\<close>

text \<open>The loop of \<^verbatim>\<open>SER_ENTER\<close> around a body.\<close>

partial_function (option) enter_loop :: "bool \<Rightarrow> 'a reader \<Rightarrow> 'a reader" where
  [code]: "enter_loop host body s =
     Option.bind (body s) (\<lambda>(d, x).
       Option.bind (continue_map host d) (\<lambda>(again, d). if again then enter_loop host body (d, x) else Some (d, x)))"

definition ser_enter :: "bool \<Rightarrow> 'a reader \<Rightarrow> 'a reader" where
  "ser_enter host body s =
     (let (d, x) = s
      in Option.bind (begin_map host d) (\<lambda>(enter, d). if enter then enter_loop host body (d, x) else Some (d, x)))"

text \<open>\<^verbatim>\<open>SER_NAME\<close>: an item is read as long as it is the current one.\<close>

partial_function (option) named :: "bytes \<Rightarrow> 'a reader \<Rightarrow> 'a reader" where
  [code]: "named name f s =
     (if name_is name (fst s) then Option.bind (f s) (named name f) else Some s)"

fun read_fields :: "(bytes \<times> 'a reader) list \<Rightarrow> 'a reader" where
  "read_fields [] s = Some s"
| "read_fields ((name, f) # fs) s = Option.bind (named name f s) (read_fields fs)"

definition read_struct :: "bool \<Rightarrow> (bytes \<times> 'a reader) list \<Rightarrow> 'a reader" where
  "read_struct host fs = ser_enter host (read_fields fs)"

text \<open>A field of an object: how to get it and how to put it back.\<close>

definition in_field :: "('a \<Rightarrow> 'b) \<Rightarrow> ('b \<Rightarrow> 'a \<Rightarrow> 'a) \<Rightarrow> 'b reader \<Rightarrow> 'a reader" where
  "in_field get put f s = map_option (\<lambda>(d, y). (d, put y (snd s))) (f (fst s, get (snd s)))"

text \<open>\<^verbatim>\<open>SER_ENTER_ARRAY\<close> around the loop that appends one element after the other.\<close>

partial_function (option) append_loop :: "'a \<Rightarrow> 'a reader \<Rightarrow> 'a list reader" where
  [code]: "append_loop dflt f s =
     (if has_item (fst s) then
        Option.bind (f (fst s, dflt)) (\<lambda>(d, x). append_loop dflt f (d, snd s @ [x]))
      else Some s)"

partial_function (option) array_loop :: "bool \<Rightarrow> 'a reader \<Rightarrow> 'a reader" where
  [code]: "array_loop host body s =
     Option.bind (body s) (\<lambda>(d, x).
       Option.bind (continue_array host d) (\<lambda>(again, d). if again then array_loop host body (d, x) else Some (d, x)))"

definition read_array :: "bool \<Rightarrow> 'a \<Rightarrow> 'a reader \<Rightarrow> 'a list reader" where
  "read_array host dflt f s =
     (let (d, xs) = s
      in Option.bind (begin_array host d) (\<lambda>(enter, d). if enter then array_loop host (append_loop dflt f) (d, xs) else Some (d, xs)))"

text \<open>
  A map with string keys, as the list of its nodes: \<^verbatim>\<open>get_create\<close> finds the node of the current name or makes
  one, and the member is read into it.
\<close>

definition read_member :: "'a \<Rightarrow> 'a reader \<Rightarrow> (bytes \<times> 'a) list reader" where
  "read_member dflt f s =
     (let k = current_name (fst s); old = (case map_of (snd s) k of Some v \<Rightarrow> v | None \<Rightarrow> dflt)
      in map_option (\<lambda>(d, v). (d, AList.update k v (snd s))) (f (fst s, old)))"

definition read_map :: "bool \<Rightarrow> 'a \<Rightarrow> 'a reader \<Rightarrow> (bytes \<times> 'a) list reader" where
  "read_map host dflt f = ser_enter host (read_member dflt f)"

definition jsondeserialize2 :: "bool \<Rightarrow> 'a reader \<Rightarrow> bytes \<Rightarrow> 'a \<Rightarrow> (bool \<times> 'a) option" where
  "jsondeserialize2 host f json x =
     Option.bind (deser_new host json) (\<lambda>d. map_option (\<lambda>(d, x). (valid d \<and> ev d = Finish, x)) (f (d, x)))"

subsection \<open>Reading what the writer has written\<close>

text \<open>
  The deserializer stands before the event \<open>e\<close>, which has the name \<open>nm\<close>, and the parser has the events \<open>es\<close> left.
\<close>

definition keyed :: "bytes option \<Rightarrow> event list" where
  "keyed nm = (case nm of None \<Rightarrow> [] | Some k \<Rightarrow> [Map_key k])"

definition plain :: "event \<Rightarrow> bool" where
  "plain e \<longleftrightarrow> e \<noteq> Jerror \<and> key_of e = None"

definition stands :: "bool \<Rightarrow> deser \<Rightarrow> bytes option \<Rightarrow> event \<Rightarrow> event list \<Rightarrow> jsonparser \<Rightarrow> bool" where
  "stands host d nm e es fin \<longleftrightarrow>
     has_current_name d = (nm \<noteq> None) \<and> (\<forall>k. nm = Some k \<longrightarrow> current_name d = k) \<and> ev d = e \<and> yields host (parser d) es fin"

lemma stands_did [simp]:
  "stands host (d\<lparr>did_anything := b\<rparr>) nm e es fin = stands host d nm e es fin"
  by (simp add: stands_def)

lemma raw_step:
  assumes "yields host (parser d) (e # es) fin" "e \<noteq> Jerror"
  shows "\<exists>p. next_ev_raw host d = Some (d\<lparr>parser := p, ev := e\<rparr>) \<and> yields host p es fin"
  using assms by (subst next_ev_raw.simps) (auto simp: Let_def split_beta)

lemma next_ev_step:
  assumes "yields host (parser d) (keyed nm @ e # es) fin" "plain e"
  shows "\<exists>d'. next_ev host d = Some d' \<and> stands host d' nm e es fin \<and> did_anything d' = did_anything d \<and> valid d' = valid d"
proof (cases nm)
  case None
  then have "yields host (parser (d\<lparr>has_current_name := False, current_name := []\<rparr>)) (e # es) fin" "e \<noteq> Jerror"
    using assms by (simp_all add: keyed_def plain_def)
  from raw_step [OF this] show ?thesis using assms(2) None by (auto simp: next_ev_def stands_def plain_def)
next
  case (Some k)
  then have "yields host (parser (d\<lparr>has_current_name := False, current_name := []\<rparr>)) (Map_key k # e # es) fin" "Map_key k \<noteq> Jerror"
    using assms by (simp_all add: keyed_def)
  from raw_step [OF this] obtain p where p:
    "next_ev_raw host (d\<lparr>has_current_name := False, current_name := []\<rparr>) =
       Some (d\<lparr>has_current_name := False, current_name := [], parser := p, ev := Map_key k\<rparr>)" "yields host p (e # es) fin" by auto
  let ?d = "d\<lparr>parser := p, ev := Map_key k, has_current_name := True, current_name := k\<rparr>"
  have "yields host (parser ?d) (e # es) fin" "e \<noteq> Jerror" using p(2) assms(2) by (simp_all add: plain_def)
  from raw_step [OF this] show ?thesis using p(1) Some by (auto simp: next_ev_def stands_def key_of_def)
qed

lemma after_primitive_step:
  assumes "stands host d nm e (keyed nm' @ e' # es) fin" "\<not> is_enter e" "plain e'"
  shows "\<exists>d'. after_primitive host d = Some d' \<and> stands host d' nm' e' es fin \<and> did_anything d' \<and> valid d' = valid d"
proof -
  let ?d = "d\<lparr>did_anything := True\<rparr>"
  have "finish_item host 0 ?d = Some ?d"
    using assms(1,2) by (subst finish_item.simps) (simp add: stands_def)
  moreover have "yields host (parser ?d) (keyed nm' @ e' # es) fin" using assms(1) by (simp add: stands_def)
  from next_ev_step [OF this assms(3)] show ?thesis using calculation by (auto simp: after_primitive_def)
qed

lemma leave_step:
  assumes "stands host d nm e (keyed nm' @ e' # es) fin" "plain e'"
  shows "\<exists>d'. leave host d = Some (False, d') \<and> stands host d' nm' e' es fin \<and> did_anything d' \<and> valid d' = valid d"
proof -
  have "yields host (parser (d\<lparr>did_anything := True\<rparr>)) (keyed nm' @ e' # es) fin" using assms(1) by (simp add: stands_def)
  from next_ev_step [OF this assms(2)] show ?thesis by (auto simp: leave_def)
qed

text \<open>A reader that, before the events of \<open>v\<close>, consumes them and applies \<open>g\<close> to its object.\<close>

definition reads :: "bool \<Rightarrow> 'a reader \<Rightarrow> jsonw \<Rightarrow> ('a \<Rightarrow> 'a) \<Rightarrow> bool" where
  "reads host f v g \<longleftrightarrow>
     (\<forall>d x nm nm' e' es fin. stands host d nm (hd (events_of v)) (tl (events_of v) @ keyed nm' @ e' # es) fin \<longrightarrow> plain e' \<longrightarrow>
       (\<exists>d'. f (d, x) = Some (d', g x) \<and> stands host d' nm' e' es fin \<and> did_anything d' \<and> valid d' = valid d))"

lemma readsD:
  "reads host f v g \<Longrightarrow> stands host d nm (hd (events_of v)) (tl (events_of v) @ keyed nm' @ e' # es) fin \<Longrightarrow> plain e' \<Longrightarrow>
    \<exists>d'. f (d, x) = Some (d', g x) \<and> stands host d' nm' e' es fin \<and> did_anything d' \<and> valid d' = valid d"
  unfolding reads_def by blast

lemma first_event: "events_of v = hd (events_of v) # tl (events_of v)" "plain (hd (events_of v))" "\<not> is_exit (hd (events_of v))"
  by (cases v; simp add: plain_def is_exit_def key_of_def)+

lemma reads_bool: "reads host (read_bool host) (if b then JTrue else JFalse) (\<lambda>_. b)"
  unfolding reads_def
proof (intro allI impI)
  fix d x nm nm' e' es fin
  assume s: "stands host d nm (hd (events_of (if b then JTrue else JFalse)))
      (tl (events_of (if b then JTrue else JFalse)) @ keyed nm' @ e' # es) fin" "plain e'"
  then have "stands host d nm (if b then Jtrue else Jfalse) (keyed nm' @ e' # es) fin" by (cases b) simp_all
  from after_primitive_step [OF this _ s(2)] show "\<exists>d'. read_bool host (d, x) = Some (d', b) \<and> stands host d' nm' e' es fin \<and> did_anything d' \<and> valid d' = valid d"
    using \<open>stands host d nm (if b then Jtrue else Jfalse) _ fin\<close>
    by (cases b) (auto simp: read_bool_def stands_def [of _ d] is_enter_def)
qed

lemma reads_str: "reads host (read_str host) (JStr t) (\<lambda>_. t)"
  unfolding reads_def
proof (intro allI impI)
  fix d x nm nm' e' es fin
  assume s: "stands host d nm (hd (events_of (JStr t))) (tl (events_of (JStr t)) @ keyed nm' @ e' # es) fin" "plain e'"
  then have "stands host d nm (Jstr t) (keyed nm' @ e' # es) fin" by simp
  from after_primitive_step [OF this _ s(2)] show "\<exists>d'. read_str host (d, x) = Some (d', t) \<and> stands host d' nm' e' es fin \<and> did_anything d' \<and> valid d' = valid d"
    using \<open>stands host d nm (Jstr t) _ fin\<close> by (auto simp: read_str_def stands_def [of _ d] is_enter_def)
qed

lemma reads_field:
  "reads host f v g \<Longrightarrow> (\<And>x. h x = put (g (get x)) x) \<Longrightarrow> reads host (in_field get put f) v h"
  unfolding reads_def in_field_def by fastforce

text \<open>In front of the members of a map.\<close>

definition stand_members :: "bool \<Rightarrow> deser \<Rightarrow> (bytes \<times> jsonw) list \<Rightarrow> event list \<Rightarrow> jsonparser \<Rightarrow> bool" where
  "stand_members host d m es fin =
     (case m of
        [] \<Rightarrow> stands host d None Exit_map es fin
      | kv # m \<Rightarrow> stands host d (Some (fst kv)) (hd (events_of (snd kv))) (tl (events_of (snd kv)) @ members_events m @ es) fin)"

lemma members_first:
  "\<exists>nm e es'. members_events m @ es = keyed nm @ e # es' \<and> plain e \<and> (\<forall>d. stands host d nm e es' fin = stand_members host d m es fin)"
proof (cases m)
  case Nil
  then show ?thesis
    by (intro exI [of _ None] exI [of _ Exit_map] exI [of _ es]) (simp add: stand_members_def keyed_def plain_def key_of_def)
next
  case (Cons kv m')
  then show ?thesis using first_event(1,2) [of "snd kv"]
    by (intro exI [of _ "Some (fst kv)"] exI [of _ "hd (events_of (snd kv))"] exI [of _ "tl (events_of (snd kv)) @ members_events m' @ es"])
      (simp add: stand_members_def keyed_def)
qed

lemma begin_map_step:
  assumes "stands host d nm Enter_map (members_events m @ keyed nm' @ e' # es) fin" "plain e'"
  shows "if m = [] then \<exists>d'. begin_map host d = Some (False, d') \<and> stands host d' nm' e' es fin \<and> did_anything d' \<and> valid d' = valid d
    else \<exists>d'. begin_map host d = Some (True, d') \<and> stand_members host d' m (keyed nm' @ e' # es) fin \<and> valid d' = valid d"
proof -
  obtain n e es' where split: "members_events m @ keyed nm' @ e' # es = keyed n @ e # es'" "plain e"
    "\<And>d. stands host d n e es' fin = stand_members host d m (keyed nm' @ e' # es) fin"
    using members_first [of m "keyed nm' @ e' # es" host fin] by blast
  have "yields host (parser d) (keyed n @ e # es') fin" using assms(1) split(1) by (simp add: stands_def)
  from next_ev_step [OF this split(2)] obtain d1 where d1: "next_ev host d = Some d1" "valid d1 = valid d"
    "stand_members host d1 m (keyed nm' @ e' # es) fin" using split(3) by blast
  have d: "ev d = Enter_map" using assms(1) by (simp add: stands_def)
  show ?thesis
  proof (cases m)
    case Nil
    then have s: "stands host d1 None Exit_map (keyed nm' @ e' # es) fin" using d1(3) by (simp add: stand_members_def)
    then show ?thesis using leave_step [OF s assms(2)] d d1 Nil by (auto simp: begin_map_def stands_def [of _ d1])
  next
    case (Cons kv m')
    then have "ev d1 \<noteq> Exit_map" using d1(3) first_event(3) [of "snd kv"] by (auto simp: stand_members_def stands_def is_exit_def)
    then show ?thesis using d d1 Cons by (auto simp: begin_map_def stand_members_def)
  qed
qed

lemma continue_map_step:
  assumes "stand_members host d m (keyed nm' @ e' # es) fin" "plain e'" "did_anything d"
  shows "if m = [] then \<exists>d'. continue_map host d = Some (False, d') \<and> stands host d' nm' e' es fin \<and> did_anything d' \<and> valid d' = valid d
    else \<exists>d'. continue_map host d = Some (True, d') \<and> stand_members host d' m (keyed nm' @ e' # es) fin \<and> valid d' = valid d"
proof (cases m)
  case Nil
  then have s: "stands host d None Exit_map (keyed nm' @ e' # es) fin" using assms(1) by (simp add: stand_members_def)
  then show ?thesis using leave_step [OF s assms(2)] assms(3) Nil
    by (auto simp: continue_map_def skip_unread_def stands_def [of _ d])
next
  case (Cons kv m')
  then have "ev d \<noteq> Exit_map" using assms(1) first_event(3) [of "snd kv"] by (auto simp: stand_members_def stands_def is_exit_def)
  then show ?thesis using assms Cons by (auto simp: continue_map_def skip_unread_def stand_members_def)
qed

lemma reads_member:
  assumes "reads host f v g" "stand_members host d ((k, v) # m) es fin"
  shows "\<exists>d'. f (d, x) = Some (d', g x) \<and> stand_members host d' m es fin \<and> did_anything d' \<and> valid d' = valid d"
proof -
  obtain n e es' where split: "members_events m @ es = keyed n @ e # es'" "plain e"
    "\<And>d. stands host d n e es' fin = stand_members host d m es fin"
    using members_first [of m es host fin] by blast
  have "stands host d (Some k) (hd (events_of v)) (tl (events_of v) @ keyed n @ e # es') fin"
    using assms(2) split(1) by (simp add: stand_members_def)
  from readsD [OF assms(1) this split(2)] show ?thesis using split(3) by blast
qed

text \<open>Objects.\<close>

type_synonym 'a field = "bytes \<times> 'a reader \<times> jsonw \<times> ('a \<Rightarrow> 'a)"

abbreviation field_readers :: "'a field list \<Rightarrow> (bytes \<times> 'a reader) list" where
  "field_readers qs \<equiv> map (\<lambda>q. (fst q, fst (snd q))) qs"

abbreviation field_values :: "'a field list \<Rightarrow> (bytes \<times> jsonw) list" where
  "field_values qs \<equiv> map (\<lambda>q. (fst q, fst (snd (snd q)))) qs"

lemma read_fields_step:
  assumes "\<forall>(n, f, v, g) \<in> set qs. reads host f v g" "distinct (map fst qs)" "stand_members host d (field_values qs) es fin"
  shows "\<exists>d'. read_fields (field_readers qs) (d, x) = Some (d', fold (\<lambda>q. snd (snd (snd q))) qs x) \<and> stand_members host d' [] es fin \<and>
    (qs \<noteq> [] \<longrightarrow> did_anything d') \<and> valid d' = valid d"
  using assms
proof (induction qs arbitrary: d x)
  case (Cons q qs)
  obtain n f v g where q: "q = (n, f, v, g)" by (cases q)
  have "stand_members host d ((n, v) # field_values qs) es fin" using Cons.prems(3) q by simp
  then obtain d1 where d1: "f (d, x) = Some (d1, g x)" "stand_members host d1 (field_values qs) es fin" "did_anything d1" "valid d1 = valid d"
    using reads_member [of host f v g d n] Cons.prems(1) q by fastforce
  have "name_is n d" using Cons.prems(3) q by (simp add: stand_members_def stands_def name_is_def)
  moreover have "\<not> name_is n d1" using d1(2) Cons.prems(2) q
    by (cases qs) (auto simp: stand_members_def stands_def name_is_def)
  ultimately have "named n f (d, x) = Some (d1, g x)" using d1(1) by (simp add: named.simps)
  moreover have "\<forall>(n, f, v, g) \<in> set qs. reads host f v g" "distinct (map fst qs)" using Cons.prems(1,2) by simp_all
  from Cons.IH [OF this d1(2), of "g x"] obtain d' where d': "read_fields (field_readers qs) (d1, g x) = Some (d', fold (\<lambda>q. snd (snd (snd q))) qs (g x))"
    "stand_members host d' [] es fin" "qs \<noteq> [] \<longrightarrow> did_anything d'" "valid d' = valid d1" by blast
  moreover have "did_anything d'" using d'(1,3) d1(3) by (cases qs) auto
  ultimately show ?case using q d1(4) by simp
qed simp

lemma reads_struct:
  assumes "\<forall>(n, f, v, g) \<in> set qs. reads host f v g" "distinct (map fst qs)" "qs \<noteq> []"
  shows "reads host (read_struct host (field_readers qs)) (JMap (field_values qs)) (fold (\<lambda>q. snd (snd (snd q))) qs)"
  unfolding reads_def
proof (intro allI impI)
  fix d x nm nm' e' es fin
  assume s: "stands host d nm (hd (events_of (JMap (field_values qs)))) (tl (events_of (JMap (field_values qs))) @ keyed nm' @ e' # es) fin"
    and e': "plain e'"
  then have "stands host d nm Enter_map (members_events (field_values qs) @ keyed nm' @ e' # es) fin" by simp
  from begin_map_step [OF this e'] obtain d1 where d1: "begin_map host d = Some (True, d1)"
    "stand_members host d1 (field_values qs) (keyed nm' @ e' # es) fin" "valid d1 = valid d" using assms(3) by auto
  obtain d2 where d2: "read_fields (field_readers qs) (d1, x) = Some (d2, fold (\<lambda>q. snd (snd (snd q))) qs x)"
    "stand_members host d2 [] (keyed nm' @ e' # es) fin" "did_anything d2" "valid d2 = valid d1"
    using read_fields_step [OF assms(1,2) d1(2)] assms(3) by blast
  from continue_map_step [OF d2(2) e' d2(3)] obtain d3 where d3: "continue_map host d2 = Some (False, d3)"
    "stands host d3 nm' e' es fin" "did_anything d3" "valid d3 = valid d2" by auto
  have "read_struct host (field_readers qs) (d, x) = Some (d3, fold (\<lambda>q. snd (snd (snd q))) qs x)"
    using d1(1) d2(1) d3(1) by (simp add: read_struct_def ser_enter_def enter_loop.simps)
  then show "\<exists>d'. read_struct host (field_readers qs) (d, x) = Some (d', fold (\<lambda>q. snd (snd (snd q))) qs x) \<and>
      stands host d' nm' e' es fin \<and> did_anything d' \<and> valid d' = valid d"
    using d1(3) d2(4) d3 by auto
qed

text \<open>Maps: every member is read into the node of its name.\<close>

definition merge_node :: "'a \<Rightarrow> ('a \<Rightarrow> 'a) \<Rightarrow> bytes \<Rightarrow> (bytes \<times> 'a) list \<Rightarrow> (bytes \<times> 'a) list" where
  "merge_node dflt g k l = AList.update k (g (case map_of l k of Some v \<Rightarrow> v | None \<Rightarrow> dflt)) l"

lemma reads_map:
  assumes "\<And>y. y \<in> snd ` set m \<Longrightarrow> reads host f (v y) (g y)"
  shows "reads host (read_map host dflt f) (JMap (map (\<lambda>e. (fst e, v (snd e))) m)) (fold (\<lambda>e. merge_node dflt (g (snd e)) (fst e)) m)"
  unfolding reads_def
proof (intro allI impI)
  fix d x nm nm' e' es fin
  assume s: "stands host d nm (hd (events_of (JMap (map (\<lambda>e. (fst e, v (snd e))) m)))) (tl (events_of (JMap (map (\<lambda>e. (fst e, v (snd e))) m))) @ keyed nm' @ e' # es) fin" and e': "plain e'"
  let ?tail = "keyed nm' @ e' # es"
  have loop: "\<exists>d'. enter_loop host (read_member dflt f) (d, x) = Some (d', fold (\<lambda>e. merge_node dflt (g (snd e)) (fst e)) m x) \<and>
      stands host d' nm' e' es fin \<and> did_anything d' \<and> valid d' = valid d"
    if "m \<noteq> []" "stand_members host d (map (\<lambda>e. (fst e, v (snd e))) m) ?tail fin" "\<And>y. y \<in> snd ` set m \<Longrightarrow> reads host f (v y) (g y)" for m d x
    using that
  proof (induction m arbitrary: d x)
    case (Cons kv m)
    obtain k y where kv: "kv = (k, y)" by (cases kv)
    have cur: "current_name d = k" using Cons.prems(2) kv by (simp add: stand_members_def stands_def)
    let ?old = "case map_of x k of Some v \<Rightarrow> v | None \<Rightarrow> dflt"
    obtain d1 where d1: "f (d, ?old) = Some (d1, g y ?old)" "stand_members host d1 (map (\<lambda>e. (fst e, v (snd e))) m) ?tail fin" "did_anything d1" "valid d1 = valid d"
      using reads_member [of host f "v y" "g y" d k "map (\<lambda>e. (fst e, v (snd e))) m"] Cons.prems(2,3) kv by fastforce
    have body: "read_member dflt f (d, x) = Some (d1, merge_node dflt (g y) k x)"
      using d1(1) cur by (simp add: read_member_def merge_node_def Let_def)
    show ?case
    proof (cases m)
      case Nil
      then show ?thesis using continue_map_step [OF d1(2) e' d1(3)] body kv d1(4) by (auto simp: enter_loop.simps)
    next
      case (Cons kv' m')
      then obtain d2 where d2: "continue_map host d1 = Some (True, d2)" "stand_members host d2 (map (\<lambda>e. (fst e, v (snd e))) m) ?tail fin" "valid d2 = valid d1"
        using continue_map_step [OF d1(2) e' d1(3)] by auto
      have "enter_loop host (read_member dflt f) (d, x) = enter_loop host (read_member dflt f) (d2, merge_node dflt (g y) k x)"
        using body d2(1) by (subst enter_loop.simps) simp
      then show ?thesis using Cons.IH [OF _ d2(2), of "merge_node dflt (g y) k x"] Cons.prems(3) Cons kv d1(4) d2(3) by auto
    qed
  qed simp
  have "stands host d nm Enter_map (members_events (map (\<lambda>e. (fst e, v (snd e))) m) @ ?tail) fin" using s by simp
  note enter = begin_map_step [OF this e']
  show "\<exists>d'. read_map host dflt f (d, x) = Some (d', fold (\<lambda>e. merge_node dflt (g (snd e)) (fst e)) m x) \<and>
      stands host d' nm' e' es fin \<and> did_anything d' \<and> valid d' = valid d"
  proof (cases "m = []")
    case True
    then show ?thesis using enter by (auto simp: read_map_def ser_enter_def)
  next
    case False
    then obtain d1 where d1: "begin_map host d = Some (True, d1)" "stand_members host d1 (map (\<lambda>e. (fst e, v (snd e))) m) ?tail fin" "valid d1 = valid d" using enter by auto
    then show ?thesis using loop [OF False d1(2) assms, of x] by (auto simp: read_map_def ser_enter_def)
  qed
qed

text \<open>Arrays.\<close>

definition stand_items :: "bool \<Rightarrow> deser \<Rightarrow> jsonw list \<Rightarrow> event list \<Rightarrow> jsonparser \<Rightarrow> bool" where
  "stand_items host d vs es fin =
     (case vs of
        [] \<Rightarrow> stands host d None Exit_list es fin
      | v # vs \<Rightarrow> stands host d None (hd (events_of v)) (tl (events_of v) @ items_events vs @ es) fin)"

lemma items_first:
  "\<exists>e es'. items_events vs @ es = keyed None @ e # es' \<and> plain e \<and> (\<forall>d. stands host d None e es' fin = stand_items host d vs es fin)"
proof (cases vs)
  case Nil
  then show ?thesis
    by (intro exI [of _ Exit_list] exI [of _ es]) (simp add: stand_items_def keyed_def plain_def key_of_def)
next
  case (Cons v vs')
  then show ?thesis using first_event(1,2) [of v]
    by (intro exI [of _ "hd (events_of v)"] exI [of _ "tl (events_of v) @ items_events vs' @ es"])
      (simp add: stand_items_def keyed_def)
qed

lemma append_loop_step:
  assumes "stand_items host d (map v ys) es fin" "\<And>y. y \<in> set ys \<Longrightarrow> reads host f (v y) (g y)"
  shows "\<exists>d'. append_loop dflt f (d, xs) = Some (d', xs @ map (\<lambda>y. g y dflt) ys) \<and> stand_items host d' [] es fin \<and>
    (ys \<noteq> [] \<longrightarrow> did_anything d') \<and> valid d' = valid d"
  using assms
proof (induction ys arbitrary: d xs)
  case Nil
  then have "\<not> has_item d" by (simp add: stand_items_def stands_def has_item_def is_exit_def)
  then show ?case using Nil by (simp add: append_loop.simps)
next
  case (Cons y ys)
  have has: "has_item d" using Cons.prems(1) first_event(3) [of "v y"] by (simp add: stand_items_def stands_def has_item_def)
  obtain e es' where split: "items_events (map v ys) @ es = keyed None @ e # es'" "plain e"
    "\<And>d. stands host d None e es' fin = stand_items host d (map v ys) es fin"
    using items_first [of "map v ys" es host fin] by blast
  have "stands host d None (hd (events_of (v y))) (tl (events_of (v y)) @ keyed None @ e # es') fin"
    using Cons.prems(1) split(1) by (simp add: stand_items_def)
  then obtain d1 where d1: "f (d, dflt) = Some (d1, g y dflt)" "stand_items host d1 (map v ys) es fin" "did_anything d1" "valid d1 = valid d"
    using readsD [OF Cons.prems(2) [of y] _ split(2)] split(3) by fastforce
  obtain d' where d': "append_loop dflt f (d1, xs @ [g y dflt]) = Some (d', (xs @ [g y dflt]) @ map (\<lambda>y. g y dflt) ys)"
    "stand_items host d' [] es fin" "ys \<noteq> [] \<longrightarrow> did_anything d'" "valid d' = valid d1"
    using Cons.IH [OF d1(2), of "xs @ [g y dflt]"] Cons.prems(2) by auto
  have "did_anything d'" using d'(1,3) d1(2,3) by (cases ys) (auto simp: append_loop.simps stand_items_def stands_def has_item_def is_exit_def)
  then show ?case using has d1 d' by (subst append_loop.simps) auto
qed

lemma reads_array:
  assumes "\<And>y. y \<in> set ys \<Longrightarrow> reads host f (v y) (g y)"
  shows "reads host (read_array host dflt f) (JList (map v ys)) (\<lambda>xs. xs @ map (\<lambda>y. g y dflt) ys)"
  unfolding reads_def
proof (intro allI impI)
  fix d x nm nm' e' es fin
  assume s: "stands host d nm (hd (events_of (JList (map v ys)))) (tl (events_of (JList (map v ys))) @ keyed nm' @ e' # es) fin" and e': "plain e'"
  let ?tail = "keyed nm' @ e' # es"
  have d: "ev d = Enter_list" using s by (simp add: stands_def)
  obtain e fs where split: "items_events (map v ys) @ ?tail = keyed None @ e # fs" "plain e"
    "\<And>d. stands host d None e fs fin = stand_items host d (map v ys) ?tail fin"
    using items_first [of "map v ys" ?tail host fin] by blast
  have "yields host (parser (d\<lparr>did_anything := False\<rparr>)) (keyed None @ e # fs) fin" using s split(1) by (simp add: stands_def)
  from next_ev_step [OF this split(2)] obtain d1 where d1: "next_ev host (d\<lparr>did_anything := False\<rparr>) = Some d1"
    "stand_items host d1 (map v ys) ?tail fin" "valid d1 = valid d" using split(3) by auto
  show "\<exists>d'. read_array host dflt f (d, x) = Some (d', x @ map (\<lambda>y. g y dflt) ys) \<and>
      stands host d' nm' e' es fin \<and> did_anything d' \<and> valid d' = valid d"
  proof (cases "ys = []")
    case True
    then have st: "stands host d1 None Exit_list ?tail fin" using d1(2) by (simp add: stand_items_def)
    then show ?thesis using leave_step [OF st e'] d d1 True by (auto simp: read_array_def begin_array_def stands_def [of _ d1])
  next
    case False
    have "ev d1 \<noteq> Exit_list" using d1(2) False first_event(3) [of "v (hd ys)"]
      by (cases ys) (auto simp: stand_items_def stands_def is_exit_def)
    then have enter: "begin_array host d = Some (True, d1)" using d d1(1) by (simp add: begin_array_def)
    obtain d2 where d2: "append_loop dflt f (d1, x) = Some (d2, x @ map (\<lambda>y. g y dflt) ys)" "stand_items host d2 [] ?tail fin"
      "did_anything d2" "valid d2 = valid d1"
      using append_loop_step [OF d1(2), of f g dflt x] assms False by blast
    have st: "stands host d2 None Exit_list ?tail fin" using d2(2) by (simp add: stand_items_def)
    then obtain d3 where d3: "continue_array host d2 = Some (False, d3)" "stands host d3 nm' e' es fin" "did_anything d3" "valid d3 = valid d2"
      using leave_step [OF st e'] d2(3) by (auto simp: continue_array_def skip_unread_def stands_def [of _ d2])
    show ?thesis using enter d2(1,4) d3 d1(3) by (simp add: read_array_def array_loop.simps)
  qed
qed

text \<open>A whole document.\<close>

lemma reads_document:
  assumes "emits k v w" "reads host f v g"
  shows "jsondeserialize2 host f (jsonserialize2 w) x = Some (True, g x)"
proof -
  have "w_data (jsonwriter_indent 0) = []" "\<not> m_comma (jsonwriter_indent 0)" by (simp_all add: jsonwriter_indent_def jsonwriter_new_def)
  then obtain ws t where t: "spell k v t" "spaces ws" "jsonserialize2 w = ws @ t"
    using assms(1) [unfolded emits_def, rule_format, of "jsonwriter_indent 0"] by (auto simp: jsonserialize2_def w_finish_def)
  obtain q where q: "yields host (json_init False (jsonserialize2 w)) (events_of v) q" "next_inner False host q = (Finish, q)"
    using document_events [OF t(1,2)] t(3) by metis
  let ?d = "\<lparr>parser = json_init False (jsonserialize2 w), ev = Finish, current_name = [], has_current_name = False,
       did_anything = False, valid = True\<rparr>"
  have "yields host (parser ?d) (events_of v @ [Finish]) q" using q by (auto simp: yields_append)
  then have "yields host (parser ?d) (keyed None @ hd (events_of v) # tl (events_of v) @ [Finish]) q"
    using first_event(1) [of v] by (simp add: keyed_def flip: append_Cons)
  from next_ev_step [OF this first_event(2)] obtain d1 where d1: "deser_new host (jsonserialize2 w) = Some d1"
    "stands host d1 None (hd (events_of v)) (tl (events_of v) @ [Finish]) q" "valid d1"
    by (auto simp: deser_new_def)
  have "stands host d1 None (hd (events_of v)) (tl (events_of v) @ keyed None @ Finish # []) q" "plain Finish"
    using d1(2) by (simp_all add: keyed_def plain_def key_of_def)
  from readsD [OF assms(2) this, of x] show ?thesis using d1 by (auto simp: jsondeserialize2_def stands_def)
qed

end
