(* ===== verification/Cstring.thy ===== *)
theory Cstring
  imports Strings Str_Compare
begin

text \<open>
  The members of \<^verbatim>\<open>cstring\<close> the chat client's line handling rests on (\<^verbatim>\<open>arlib/string.h\<close>,
  \<^verbatim>\<open>arlib/string.cpp\<close>): cutting with positions counted from either end, the NUL test with its
  three implementations, lower case, the first byte, and what splitting at one space yields.
  A string is the list of its bytes and is shorter than 2 GiB, so that an \<^verbatim>\<open>int32_t\<close> position
  never wraps around.
\<close>

text \<open>C string literals.\<close>

definition str :: "string \<Rightarrow> bytes" where
  "str s = map of_char s"

lemma str_simps [simp]: "str [] = []" "str (c # s) = of_char c # str s"
  by (simp_all add: str_def)

lemma str_append: "str (a @ b) = str a @ str b"
  by (simp add: str_def)

lemma length_str [simp]: "length (str s) = length s"
  by (simp add: str_def)

subsection \<open>Cutting\<close>

text \<open>
  \<^verbatim>\<open>~0\<close> is the end of the string and \<^verbatim>\<open>~1\<close> its last byte: a negative position \<open>pos\<close> stands for
  \<open>length + pos + 1\<close>. When the end lies in front of the start the constructor receives a
  length close to 2 to the 64 and calls \<^verbatim>\<open>abort\<close>; a range that ends behind the string reads
  foreign memory. Both are \<open>None\<close>.
\<close>

definition realpos :: "bytes \<Rightarrow> int \<Rightarrow> int" where
  "realpos s pos = (if 0 \<le> pos then pos else int (length s) - (- pos - 1))"

definition substr :: "int \<Rightarrow> int \<Rightarrow> bytes \<Rightarrow> bytes option" where
  "substr start stop s =
     (let start = realpos s start; stop = realpos s stop
      in if stop < start \<or> start < 0 \<or> int (length s) < stop then None
         else Some (slice (nat start) (nat (stop - start)) s))"

abbreviation to_end :: int where "to_end \<equiv> - 1"
abbreviation to_last :: int where "to_last \<equiv> - 2"

lemma substr_from: "substr (int n) to_end s = (if n \<le> length s then Some (drop n s) else None)"
  by (simp add: substr_def realpos_def slice_def Let_def)

lemma substr_tail: "substr 1 to_end s = (if s = [] then None else Some (tl s))"
  using substr_from [of 1 s] by (cases s) simp_all

lemma substr_inner: "substr 1 to_last s = (if length s < 2 then None else Some (butlast (tl s)))"
  by (auto simp: substr_def realpos_def slice_def Let_def butlast_conv_take drop_Suc nat_diff_distrib' min_def numeral_2_eq_2)

lemma substr_to: "n \<le> length s \<Longrightarrow> substr 0 (int n) s = Some (take n s)"
  by (simp add: substr_def realpos_def slice_def Let_def)

text \<open>Reading the first byte of an empty string reads the NUL behind it.\<close>

definition byte_at :: "bytes \<Rightarrow> nat \<Rightarrow> byte" where
  "byte_at s n = (if n < length s then s ! n else 0)"

lemma byte_at_simps [simp]: "byte_at [] n = 0" "byte_at (c # s) 0 = c" "byte_at (c # s) (Suc n) = byte_at s n"
  by (simp_all add: byte_at_def)

lemma startswithI: "take (length p) s = p \<Longrightarrow> startswith s p"
  by (metis length_take min.cobounded1 not_less startswith_def)

lemma startswith_append: "startswith a p \<Longrightarrow> startswith (a @ b) p"
  by (auto simp: startswith_def split: if_splits)

subsection \<open>The NUL test\<close>

text \<open>
  Sixteen bytes are compared with zero at once; bit \<open>i\<close> of the mask belongs to byte \<open>i\<close>. A
  string of at most 15 bytes lives inside the object, followed by a NUL, unused bytes
  (\<open>junk\<close>) and the number of unused bytes.
\<close>

definition zero_mask :: "bytes \<Rightarrow> u32" where
  "zero_mask chs = horner_sum of_bool 2 (map (\<lambda>c. c = 0) chs)"

fun nul_blocks :: "nat \<Rightarrow> bytes \<Rightarrow> nat \<Rightarrow> nat \<Rightarrow> bool" where
  "nul_blocks 0 s stop iter = (zero_mask (slice stop 16 s) \<noteq> 0)"
| "nul_blocks (Suc n) s stop iter =
     (if zero_mask (slice iter 16 s) \<noteq> 0 then True
      else if iter + 16 < stop then nul_blocks n s stop (iter + 16)
      else zero_mask (slice stop 16 s) \<noteq> 0)"

definition contains_nul :: "bool \<Rightarrow> bytes \<Rightarrow> bytes \<Rightarrow> bool" where
  "contains_nul sse junk s =
     (if sse then
        if length s \<le> 15 then
          let object = take 15 (s @ [0] @ junk) @ [word_of_nat (15 - length s)]
          in push_bit (15 - length s) (zero_mask object) AND 0x7FFF \<noteq> 0
        else nul_blocks (length s) s (length s - 16) 0
      else memchr s 0 \<noteq> None)"

lemma zero_mask_bit: "length chs \<le> 32 \<Longrightarrow> bit (zero_mask chs) k = (k < length chs \<and> chs ! k = 0)"
  by (auto simp: zero_mask_def bit_horner_sum_bit_word_iff)

lemma nonzero_bit: "(w :: u32) \<noteq> 0 \<longleftrightarrow> (\<exists>n<32. bit w n)"
  using bit_eq_iff [of w 0] by (auto simp: bit_imp_possible_bit)

lemma zero_mask_nonzero: "length chs \<le> 32 \<Longrightarrow> zero_mask chs \<noteq> 0 \<longleftrightarrow> 0 \<in> set chs"
  unfolding nonzero_bit by (auto simp: zero_mask_bit in_set_conv_nth intro: less_le_trans)

lemma zero_block: "zero_mask (slice i 16 s) \<noteq> 0 \<longleftrightarrow> 0 \<in> set (slice i 16 s)"
  by (rule zero_mask_nonzero) (simp add: buffer_simps)

lemma nul_blocks_iff:
  "16 \<le> length s \<Longrightarrow> length s \<le> 16 * n + iter \<Longrightarrow> nul_blocks n s (length s - 16) iter \<longleftrightarrow> 0 \<in> set (drop (min iter (length s - 16)) s)"
proof (induction n arbitrary: iter)
  case 0
  then have "min iter (length s - 16) = length s - 16" by simp
  then have "slice (length s - 16) 16 s = drop (min iter (length s - 16)) s" by (simp add: slice_def)
  then show ?case using zero_block [of "length s - 16" s] by simp
next
  case (Suc n)
  have cut: "set (drop i s) = set (slice i 16 s) \<union> set (drop (i + 16) s)" for i
    by (metis append_take_drop_id drop_drop add.commute set_append slice_def)
  have last: "slice (length s - 16) 16 s = drop (length s - 16) s" using Suc.prems(1) by (simp add: slice_def)
  have final: "zero_mask (drop (length s - 16) s) \<noteq> 0 \<longleftrightarrow> 0 \<in> set (drop (length s - 16) s)"
    using zero_block [of "length s - 16" s] unfolding last .
  have dropmono: "set (drop j s) \<subseteq> set (drop i s)" if "i \<le> j" for i j by (rule set_drop_subset_set_drop [OF that])
  consider "length s - 16 \<le> iter" | "iter < length s - 16" "length s - 16 \<le> iter + 16" | "iter + 16 < length s - 16" by linarith
  then show ?case
  proof cases
    case 1
    have sub: "set (slice iter 16 s) \<subseteq> set (drop (length s - 16) s)"
      using dropmono [OF 1] set_take_subset [of 16 "drop iter s"] unfolding slice_def by blast
    then show ?thesis using 1 last final by (auto simp: zero_block min_def)
  next
    case 2
    have "set (drop (iter + 16) s) \<subseteq> set (drop (length s - 16) s)" "set (drop (length s - 16) s) \<subseteq> set (drop iter s)"
      using dropmono 2 by simp_all
    then show ?thesis using 2 last final cut [of iter] by (auto simp: zero_block min_def)
  next
    case 3
    then show ?thesis using Suc.IH [of "iter + 16"] Suc.prems cut [of iter] by (auto simp: zero_block min_def)
  qed
qed

lemma contains_nul_iff: "contains_nul sse junk s \<longleftrightarrow> 0 \<in> set s" if "15 \<le> length junk"
proof -
  let ?object = "take 15 (s @ [0] @ junk) @ [word_of_nat (15 - length s)]"
  consider "\<not> sse" | "sse" "length s \<le> 15" | "sse" "15 < length s" by linarith
  then show ?thesis
  proof cases
    case 1
    have "memchr s 0 \<noteq> None \<longleftrightarrow> 0 \<in> set s"
      by (cases "memchr s 0") (auto simp: memchr_Some memchr_None in_set_conv_nth)
    then show ?thesis using 1 by (simp add: contains_nul_def)
  next
    case 2
    have len: "length ?object = 16" using that by simp
    have same: "?object ! i = s ! i" if "i < length s" for i using that 2 by (simp add: nth_append)
    have m: "bit (0x7FFF :: u32) n \<longleftrightarrow> n < 15" for n
    proof -
      have "(0x7FFF :: u32) = mask 15" by (simp add: mask_eq_exp_minus_1)
      then show ?thesis by (simp only: bit_mask_iff) auto
    qed
    have "n < 32 \<and> bit (push_bit (15 - length s) (zero_mask ?object) AND 0x7FFF) n \<longleftrightarrow>
        15 - length s \<le> n \<and> n < 15 \<and> bit (zero_mask ?object) (n - (15 - length s))" for n
      by (simp only: bit_and_iff bit_push_bit_iff m) auto
    then have "push_bit (15 - length s) (zero_mask ?object) AND 0x7FFF \<noteq> 0 \<longleftrightarrow>
        (\<exists>n. 15 - length s \<le> n \<and> n < 15 \<and> bit (zero_mask ?object) (n - (15 - length s)))"
      unfolding nonzero_bit by simp
    also have "\<dots> \<longleftrightarrow> (\<exists>k < length s. s ! k = 0)"
    proof safe
      fix n assume n: "15 - length s \<le> n" "n < 15" "bit (zero_mask ?object) (n - (15 - length s))"
      then have "n - (15 - length s) < length s" using 2 by linarith
      moreover have "?object ! (n - (15 - length s)) = 0" using n(3) len by (simp add: zero_mask_bit)
      ultimately show "\<exists>k < length s. s ! k = 0" using same by auto
    next
      fix k assume k: "k < length s" "s ! k = 0"
      then have "bit (zero_mask ?object) k" using len same [of k] 2 by (simp add: zero_mask_bit)
      then show "\<exists>n\<ge>15 - length s. n < 15 \<and> bit (zero_mask ?object) (n - (15 - length s))"
        using k 2 by (intro exI [of _ "k + (15 - length s)"]) (simp; linarith)
    qed
    also have "\<dots> \<longleftrightarrow> 0 \<in> set s" by (auto simp: in_set_conv_nth)
    finally show ?thesis using 2 by (simp add: contains_nul_def Let_def)
  next
    case 3
    then show ?thesis using nul_blocks_iff [of s "length s" 0] by (simp add: contains_nul_def)
  qed
qed

subsection \<open>Splitting once\<close>

text \<open>\<^verbatim>\<open>csplit<1>\<close> with a separator of one byte.\<close>

lemma occurs_single: "occurs_at s [c] i \<longleftrightarrow> i < length s \<and> s ! i = c"
  by (auto simp: occurs_at_nth)

lemma memmem_single_None: "memmem s [c] = None \<longleftrightarrow> c \<notin> set s"
  by (auto simp: memmem_None occurs_single in_set_conv_nth)

lemma contains_single: "contains s [c] \<longleftrightarrow> c \<in> set s"
  unfolding contains_def by (simp add: memmem_single_None)

lemma memmem_single:
  "memmem s [c] = (if c \<in> set s then Some (length (takeWhile (\<lambda>b. b \<noteq> c) s)) else None)"
proof (cases "c \<in> set s")
  case True
  let ?n = "length (takeWhile (\<lambda>b. b \<noteq> c) s)"
  have "?n < length s" using True by (induction s) auto
  moreover have "s ! ?n = c" using nth_length_takeWhile [OF \<open>?n < length s\<close>] by simp
  moreover have "s ! j \<noteq> c" if "j < ?n" for j
    using that by (metis (mono_tags, lifting) nth_mem set_takeWhileD takeWhile_nth)
  ultimately show ?thesis using True by (simp add: memmem_Some occurs_single)
qed (simp add: memmem_single_None)

lemma csplit_once:
  "csplit s [c] (Some 1) =
     Some (if c \<in> set s then [takeWhile (\<lambda>b. b \<noteq> c) s, tl (dropWhile (\<lambda>b. b \<noteq> c) s)] else [s])"
proof -
  have zero: "csplit_loop [c] (Some 0) d = Some [d]" for d by (subst csplit_loop.simps) simp
  have "drop (Suc (length (takeWhile (\<lambda>b. b \<noteq> c) s))) s = tl (dropWhile (\<lambda>b. b \<noteq> c) s)"
    by (metis dropWhile_eq_drop drop_Suc tl_drop)
  then show ?thesis unfolding csplit_def
    by (subst csplit_loop.simps) (simp add: memmem_single zero takeWhile_eq_take [symmetric])
qed

lemma split_less: "c \<in> set s \<Longrightarrow> length (tl (dropWhile (\<lambda>b. b \<noteq> c) s)) < length s"
  by (induction s) (auto simp: less_Suc_eq)

lemma takeWhile_no: "c \<notin> set p \<Longrightarrow> takeWhile (\<lambda>b. b \<noteq> c) (p @ c # r) = p"
  by (induction p) auto

lemma dropWhile_no: "c \<notin> set p \<Longrightarrow> dropWhile (\<lambda>b. b \<noteq> c) (p @ c # r) = c # r"
  by (induction p) auto

lemma csplit_word: "c \<notin> set p \<Longrightarrow> csplit (p @ c # r) [c] (Some 1) = Some [p, r]"
  unfolding csplit_once by (simp add: takeWhile_no dropWhile_no)

end
