(* ===== verification/Irc_Line.thy ===== *)
theory Irc_Line
  imports Cstring Utf8_Correct
begin

text \<open>
  Lines of the IRC protocol (\<^verbatim>\<open>irc.cpp\<close>, class \<^verbatim>\<open>autopilot\<close>): \<^verbatim>\<open>parseline\<close>, which takes a line apart,
  and the head of \<^verbatim>\<open>ircline\<close>, which turns whatever the server sent into UTF-8 without NUL and
  carriage return before anything else looks at it. \<open>None\<close> is a read behind the end of an array
  or a call of \<^verbatim>\<open>abort\<close>.
\<close>

abbreviation colon :: byte where "colon \<equiv> 0x3A"
abbreviation blank :: byte where "blank \<equiv> 0x20"

subsection \<open>Taking a line apart\<close>

text \<open>The loop over the parameters, and the trailing parameter after a colon.\<close>

function params_loop :: "bytes list \<Rightarrow> bytes \<Rightarrow> bytes list option" where
  "params_loop parts line =
     (if line \<noteq> [] \<and> byte_at line 0 \<noteq> colon then
        case csplit line [blank] (Some 1) of
          None \<Rightarrow> None
        | Some tmp \<Rightarrow>
            let parts = parts @ [tmp ! 0] in
            if length tmp = 1 then Some parts else params_loop parts (tmp ! 1)
      else if line \<noteq> [] then map_option (\<lambda>rest. parts @ [rest]) (substr 1 to_end line)
      else Some parts)"
  by pat_completeness auto
termination
  by (relation "measure (\<lambda>(parts, line). length line)")
    (auto simp: csplit_once [simplified] split_less [simplified] split: if_splits)

declare params_loop.simps [simp del]

text \<open>
  A prefix is split off at the first space; when there is none, \<^verbatim>\<open>tmp[1]\<close> lies behind the only
  piece.
\<close>

definition parseline :: "bytes \<Rightarrow> bytes list option" where
  "parseline line =
     (if byte_at line 0 = colon then
        case csplit line [blank] (Some 1) of
          None \<Rightarrow> None
        | Some tmp \<Rightarrow> if length tmp < 2 then None else params_loop [tmp ! 0] (tmp ! 1)
      else params_loop [[]] line)"

subsection \<open>What a line consists of\<close>

text \<open>
  A message: an optional prefix, the command and its parameters, with one space between any two of them, and an
  optional trailing parameter, which alone may contain spaces or start with a colon. This is the grammar of RFC 2812.
  In RFC 1459 several spaces may stand where one does here; an empty word, between two spaces, covers those lines.
\<close>

record message =
  msg_prefix :: "bytes option"
  msg_words :: "bytes list"
  msg_trailing :: "bytes option"

definition plain_word :: "bytes \<Rightarrow> bool" where
  "plain_word w \<longleftrightarrow> blank \<notin> set w \<and> (w = [] \<or> hd w \<noteq> colon)"

definition message_ok :: "message \<Rightarrow> bool" where
  "message_ok m \<longleftrightarrow>
     msg_words m \<noteq> [] \<and> list_all plain_word (msg_words m) \<and> (last (msg_words m) \<noteq> [] \<or> msg_trailing m \<noteq> None) \<and>
     (\<forall>p. msg_prefix m = Some p \<longrightarrow> blank \<notin> set p)"

definition trailing_text :: "bytes option \<Rightarrow> bytes list" where
  "trailing_text t = (case t of None \<Rightarrow> [] | Some s \<Rightarrow> [colon # s])"

definition message_text :: "message \<Rightarrow> bytes" where
  "message_text m =
     join_between [blank]
       ((case msg_prefix m of None \<Rightarrow> [] | Some p \<Rightarrow> [colon # p]) @ msg_words m @ trailing_text (msg_trailing m))"

definition message_parts :: "message \<Rightarrow> bytes list" where
  "message_parts m =
     (case msg_prefix m of None \<Rightarrow> [] | Some p \<Rightarrow> colon # p) # msg_words m @ (case msg_trailing m of None \<Rightarrow> [] | Some s \<Rightarrow> [s])"

lemma params_trailing: "params_loop parts (colon # s) = Some (parts @ [s])"
  by (subst params_loop.simps) (simp add: substr_tail)

lemma params_end: "params_loop parts [] = Some parts"
  by (subst params_loop.simps) simp

lemma params_last: "plain_word w \<Longrightarrow> w \<noteq> [] \<Longrightarrow> params_loop parts w = Some (parts @ [w])"
  by (subst params_loop.simps) (auto simp: csplit_once [simplified] plain_word_def neq_Nil_conv)

lemma params_word: "plain_word w \<Longrightarrow> params_loop parts (w @ blank # rest) = params_loop (parts @ [w]) rest"
proof -
  assume w: "plain_word w"
  then have "csplit (w @ blank # rest) [blank] (Some 1) = Some [w, rest]" by (intro csplit_word) (simp add: plain_word_def)
  moreover have "byte_at (w @ blank # rest) 0 \<noteq> colon" using w by (cases w) (auto simp: plain_word_def byte_at_def)
  ultimately show ?thesis by (subst params_loop.simps) (simp add: Let_def)
qed

lemma params_words:
  "ws \<noteq> [] \<Longrightarrow> list_all plain_word ws \<Longrightarrow> last ws \<noteq> [] \<or> t \<noteq> None \<Longrightarrow>
    params_loop parts (join_between [blank] (ws @ trailing_text t)) =
    Some (parts @ ws @ (case t of None \<Rightarrow> [] | Some s \<Rightarrow> [s]))"
proof (induction ws arbitrary: parts)
  case (Cons w ws)
  show ?case
  proof (cases "ws = []")
    case True
    then show ?thesis using Cons.prems
      by (cases t) (simp_all add: trailing_text_def params_last join_Cons params_word params_trailing)
  next
    case False
    then show ?thesis using Cons by (simp add: join_Cons params_word)
  qed
qed simp

lemma params_words_blank:
  "ws \<noteq> [] \<Longrightarrow> list_all plain_word ws \<Longrightarrow> params_loop parts (join_between [blank] ws @ [blank]) = Some (parts @ ws)"
proof (induction ws arbitrary: parts)
  case (Cons w ws)
  then show ?case by (cases "ws = []") (simp_all add: params_word params_end join_Cons)
qed simp

lemma parseline_parts:
  assumes m: "msg_words m \<noteq> []" "list_all plain_word (msg_words m)" "\<forall>p. msg_prefix m = Some p \<longrightarrow> blank \<notin> set p"
    and rest: "\<And>parts. params_loop parts rest = Some (parts @ qs)" and head: "byte_at rest 0 \<noteq> colon"
  shows "parseline ((case msg_prefix m of None \<Rightarrow> [] | Some p \<Rightarrow> colon # p @ [blank]) @ rest) =
     Some ((case msg_prefix m of None \<Rightarrow> [] | Some p \<Rightarrow> colon # p) # qs)"
proof (cases "msg_prefix m")
  case None
  then show ?thesis using rest head by (simp add: parseline_def)
next
  case (Some p)
  then have "blank \<notin> set (colon # p)" using m(3) by simp
  then have "csplit ((colon # p) @ blank # rest) [blank] (Some 1) = Some [colon # p, rest]" by (rule csplit_word)
  then show ?thesis using Some rest by (simp add: parseline_def)
qed

lemma message_text_words:
  assumes "msg_words m \<noteq> []"
  shows "message_text m = (case msg_prefix m of None \<Rightarrow> [] | Some p \<Rightarrow> colon # p @ [blank]) @
     join_between [blank] (msg_words m @ trailing_text (msg_trailing m))"
  using assms by (auto simp: message_text_def join_Cons split: option.split)

lemma first_word:
  assumes "msg_words m \<noteq> []" "list_all plain_word (msg_words m)" "join_between [blank] (msg_words m @ ts) @ s \<noteq> []"
    "last (msg_words m) \<noteq> [] \<or> ts \<noteq> [] \<or> (s \<noteq> [] \<and> hd s = blank)"
  shows "byte_at (join_between [blank] (msg_words m @ ts) @ s) 0 \<noteq> colon"
proof -
  obtain w ws where w: "msg_words m = w # ws" "plain_word w" using assms(1,2) by (cases "msg_words m") auto
  then show ?thesis using assms(4)
    by (cases w; cases "ws @ ts = []") (auto simp: plain_word_def join_Cons byte_at_def neq_Nil_conv)
qed

lemma parseline_message:
  assumes "message_ok m"
  shows "parseline (message_text m) = Some (message_parts m)"
    "msg_trailing m = None \<Longrightarrow> parseline (message_text m @ [blank]) = Some (message_parts m)"
proof -
  let ?rest = "join_between [blank] (msg_words m @ trailing_text (msg_trailing m))"
  have ws: "msg_words m \<noteq> []" "list_all plain_word (msg_words m)" "last (msg_words m) \<noteq> [] \<or> msg_trailing m \<noteq> None"
    "\<forall>p. msg_prefix m = Some p \<longrightarrow> blank \<notin> set p"
    using assms by (simp_all add: message_ok_def)
  have "?rest @ [] \<noteq> []" using ws(1,3) by (cases "msg_words m"; cases "tl (msg_words m)") (auto simp: join_Cons trailing_text_def split: option.splits)
  then have "byte_at ?rest 0 \<noteq> colon" using first_word [OF ws(1,2), of "trailing_text (msg_trailing m)" "[]"] ws(3) by (auto simp: trailing_text_def)
  then show "parseline (message_text m) = Some (message_parts m)"
    using parseline_parts [OF ws(1,2,4) params_words [OF ws(1-3)]] by (simp add: message_text_words [OF ws(1)] message_parts_def)
  assume none: "msg_trailing m = None"
  have "byte_at (join_between [blank] (msg_words m) @ [blank]) 0 \<noteq> colon" using first_word [OF ws(1,2), of "[]" "[blank]"] by simp
  then show "parseline (message_text m @ [blank]) = Some (message_parts m)"
    using parseline_parts [OF ws(1,2,4) params_words_blank [OF ws(1,2)]] none
    by (simp add: message_text_words [OF ws(1)] message_parts_def trailing_text_def)
qed

lemma params_step:
  "params_loop parts line =
     (if line \<noteq> [] \<and> byte_at line 0 \<noteq> colon then
        if blank \<in> set line
        then params_loop (parts @ [takeWhile (\<lambda>b. b \<noteq> blank) line]) (tl (dropWhile (\<lambda>b. b \<noteq> blank) line))
        else Some (parts @ [line])
      else if line \<noteq> [] then Some (parts @ [tl line]) else Some parts)"
  by (subst params_loop.simps) (simp add: csplit_once [simplified] substr_tail)

lemma params_extend: "\<exists>qs. params_loop parts line = Some (parts @ qs)"
proof (induction "length line" arbitrary: parts line rule: less_induct)
  case less
  show ?case
  proof (cases "line \<noteq> [] \<and> byte_at line 0 \<noteq> colon \<and> blank \<in> set line")
    case True
    then show ?thesis using less.hyps [OF split_less [of blank line], of "parts @ [takeWhile (\<lambda>b. b \<noteq> blank) line]"]
      by (subst params_step) auto
  qed (subst params_step, auto)
qed

lemma parseline_None: "parseline line = None \<longleftrightarrow> byte_at line 0 = colon \<and> blank \<notin> set line"
  using params_extend by (auto simp: parseline_def csplit_once [simplified] split: if_splits)



subsection \<open>Making a line harmless\<close>

definition replacement :: bytes where "replacement = [0xEF, 0xBF, 0xBD]"

text \<open>
  A line that is not UTF-8 is read as Latin-1, one code point per byte. \<open>junk\<close> is the
  uninitialised memory: four bytes for \<^verbatim>\<open>string::codepoint\<close>, the unused part of a short string
  for the NUL test, any number for a freshly allocated string.
\<close>

definition recode :: "bool \<Rightarrow> (nat \<Rightarrow> bytes) \<Rightarrow> bytes \<Rightarrow> bytes" where
  "recode host junk line =
     foldl (\<lambda>newline n.
       if n = 0x0D \<or> n = 0 then newline @ replacement else newline @ codepoint host (junk 4) (ucast n)) [] line"

text \<open>The replacement of NUL and carriage return in a line that is UTF-8 already.\<close>

definition scrub :: "(nat \<Rightarrow> bytes) \<Rightarrow> bytes \<Rightarrow> bytes option" where
  "scrub junk line =
     Option.bind (replace junk line [0] replacement) (\<lambda>line. replace junk line [0x0D] replacement)"

partial_function (option) clean_line :: "bool \<Rightarrow> bool \<Rightarrow> (nat \<Rightarrow> bytes) \<Rightarrow> bytes \<Rightarrow> bytes option" where
  [code]: "clean_line host sse junk line =
     (if \<not> isutf8 line then clean_line host sse junk (recode host junk line)
      else if contains_nul sse (junk 15) line \<or> contains line [0x0D] then
        Option.bind (scrub junk line) (clean_line host sse junk)
      else Some line)"

definition harmless :: "bytes \<Rightarrow> bool" where
  "harmless line \<longleftrightarrow> isutf8 line \<and> 0 \<notin> set line \<and> 0x0D \<notin> set line"

definition masked :: "byte \<Rightarrow> bytes" where
  "masked b = (if b = 0x0D \<or> b = 0 then replacement else [b])"

definition latin1 :: "byte \<Rightarrow> bytes" where
  "latin1 b = (if b = 0x0D \<or> b = 0 then replacement else utf8_encode (unat b))"

lemma utf8_text_append: "utf8_text a \<Longrightarrow> utf8_text b \<Longrightarrow> utf8_text (a @ b)"
proof (induction "length a" arbitrary: a rule: less_induct)
  case less
  show ?case
  proof (cases "a = []")
    case False
    then obtain n rest where n: "scalar_value n" "a = utf8_encode n @ rest" "utf8_text rest"
      using less.prems(1) utf8_text_cases by blast
    have "utf8_encode n \<noteq> []" using units_length [of n] by (auto simp: utf8_encode_def)
    then have "utf8_text (rest @ b)" using less.hyps [of rest] n less.prems by simp
    then show ?thesis using utf8_text_Cons [OF n(1)] n(2) by simp
  qed (use less.prems in simp)
qed

lemma replacement_text: "utf8_text replacement"
proof -
  have "isutf8 replacement" by (simp add: replacement_def) code_simp
  then show ?thesis by (simp add: isutf8_text)
qed

lemma latin1_ok: "utf8_text (latin1 b)" "0 \<notin> set (latin1 b)" "0x0D \<notin> set (latin1 b)"
proof -
  have n: "unat b < 256" using unat_byte [of b] by simp
  then have "scalar_value (unat b)" by (simp add: scalar_value_def)
  then show "utf8_text (latin1 b)"
    using utf8_text_Cons [OF _ utf8_text_Nil, of "unat b"] by (simp add: latin1_def replacement_text)
  have "\<forall>u \<in> set (utf8_units (unat b)). u < 256 \<and> u \<noteq> 0 \<and> u \<noteq> 0x0D" if "b \<noteq> 0" "b \<noteq> 0x0D"
  proof -
    have "unat b \<noteq> 0" "unat b \<noteq> 0x0D" using that by (simp_all add: word_unat_eq_iff)
    then show ?thesis using n by (auto simp: utf8_units_def)
  qed
  then have "0 \<notin> set (utf8_encode (unat b)) \<and> 0x0D \<notin> set (utf8_encode (unat b))" if "b \<noteq> 0" "b \<noteq> 0x0D"
    using that word_of_nat_bytes by (fastforce simp: utf8_encode_def)
  then show "0 \<notin> set (latin1 b)" "0x0D \<notin> set (latin1 b)"
    by (auto simp: latin1_def replacement_def)
qed

lemma concat_singletons: "(\<And>b. b \<in> set l \<Longrightarrow> f b = [b]) \<Longrightarrow> concat (map f l) = l"
  by (induction l) simp_all

lemma recode_eq:
  assumes "\<And>n. length (junk n) = n"
  shows "recode host junk line = concat (map latin1 line)"
proof -
  have "codepoint host (junk 4) (ucast n) = utf8_encode (unat n)" for n :: byte
  proof -
    have "unat n < 256" using unat_byte [of n] by simp
    then show ?thesis using codepoint_utf8 [of "junk 4" host "ucast n"] assms
      by (simp add: scalar_value_def unat_ucast_byte)
  qed
  then have step: "(if n = 0x0D \<or> n = 0 then out @ replacement else out @ codepoint host (junk 4) (ucast n)) = out @ latin1 n"
    for n out by (simp add: latin1_def)
  have "foldl (\<lambda>out n. out @ latin1 n) out line = out @ concat (map latin1 line)" for out
    by (induction line arbitrary: out) simp_all
  then show ?thesis unfolding recode_def step by simp
qed

lemma recode_harmless: "harmless (concat (map latin1 line))"
proof (induction line)
  case Nil
  then show ?case by (simp add: harmless_def)
next
  case (Cons b line)
  then show ?case using latin1_ok [of b] by (simp add: harmless_def isutf8_text utf8_text_append)
qed

lemma split_join_single:
  "\<forall>p\<in>set ps. c \<notin> set p \<Longrightarrow> ps \<noteq> [] \<Longrightarrow>
    join_between out ps = concat (map (\<lambda>b. if b = c then out else [b]) (join_between [c] ps))"
proof (induction ps)
  case (Cons p ps)
  have id: "concat (map (\<lambda>b. if b = c then out else [b]) p) = p" if "c \<notin> set p" for p
    using that by (induction p) auto
  show ?case using Cons id by (cases "ps = []") (simp_all add: join_Cons)
qed simp

lemma replace_single:
  assumes "\<And>n. length (junk n) = n"
  shows "replace junk s [c] out = Some (concat (map (\<lambda>b. if b = c then out else [b]) s))"
proof -
  obtain ps where ps: "csplit_loop [c] None s = Some ps" "split_ok [c] None s ps"
    using csplit_loop_ok [of "[c]" None s] by blast
  have "(if length [c] \<noteq> length out then replace_length [c] out s (length s) else Some (length s)) =
      Some (length (join_between out ps))"
    using replace_length_ok [OF _ ps(1), of out 0] length_join [of "[c]" out ps] ps(2)
    by (auto simp: split_ok_def)
  moreover have "replace_fill [c] out s (junk (length (join_between out ps))) 0 = Some (join_between out ps)"
    using replace_fill_ok [OF _ ps(1), of "junk (length (join_between out ps))" 0 out] assms by simp
  ultimately have "replace junk s [c] out = Some (join_between out ps)" by (simp add: replace_def)
  moreover have "\<forall>p\<in>set ps. c \<notin> set p"
  proof
    fix p assume "p \<in> set ps"
    moreover have "set ps = insert (last ps) (set (butlast ps))"
      using ps(2) by (metis append_butlast_last_id list.simps(15) rotate1.simps(2) set_rotate1 split_ok_def)
    ultimately show "c \<notin> set p" using ps(2) by (auto simp: split_ok_def memmem_single_None)
  qed
  ultimately show ?thesis using split_join_single [of ps c out] ps(2) by (simp add: split_ok_def)
qed

lemma scrub_eq:
  assumes "\<And>n. length (junk n) = n"
  shows "scrub junk line = Some (concat (map masked line))"
proof -
  have "concat (map (\<lambda>b. if b = 0x0D then replacement else [b]) (concat (map (\<lambda>b. if b = 0 then replacement else [b]) line))) =
      concat (map masked line)"
    by (induction line) (auto simp: masked_def replacement_def)
  then show ?thesis by (simp add: scrub_def replace_single [OF assms])
qed

lemma ascii_unit: "utf8_text (b # bs) \<Longrightarrow> unat b < 0x80 \<Longrightarrow> utf8_text bs"
  using utf8_text_ascii by blast

lemma masked_text: "utf8_text line \<Longrightarrow> utf8_text (concat (map masked line))"
proof (induction "length line" arbitrary: line rule: less_induct)
  case less
  show ?case
  proof (cases "line = []")
    case False
    then obtain n rest where n: "scalar_value n" "line = utf8_encode n @ rest" "utf8_text rest"
      using less.prems utf8_text_cases by blast
    have ne: "utf8_encode n \<noteq> []" using units_length [of n] by (auto simp: utf8_encode_def)
    then have rest: "utf8_text (concat (map masked rest))" using less.hyps n by simp
    have "utf8_text (concat (map masked (utf8_encode n)))"
    proof (cases "n < 0x80")
      case True
      then have one: "utf8_encode n = [word_of_nat n]" by (simp add: utf8_encode_def utf8_units_def)
      show ?thesis
      proof (cases "word_of_nat n = (0x0D :: byte) \<or> word_of_nat n = (0 :: byte)")
        case True
        then show ?thesis unfolding one by (auto simp: masked_def replacement_text)
      next
        case False
        then show ?thesis using utf8_text_Cons [OF n(1) utf8_text_Nil] unfolding one by (simp add: masked_def)
      qed
    next
      case False
      then have "\<forall>u \<in> set (utf8_units n). 0x80 \<le> u \<and> u < 256"
        using n(1) units_bytes [of n] by (auto simp: utf8_units_def scalar_value_def list_all_iff)
      then have "\<forall>b \<in> set (utf8_encode n). 0x80 \<le> unat b" by (auto simp: utf8_encode_def word_of_nat_bytes)
      then have "concat (map masked (utf8_encode n)) = utf8_encode n"
        by (intro concat_singletons) (auto simp: masked_def)
      then show ?thesis using utf8_text_Cons [OF n(1) utf8_text_Nil] by simp
    qed
    then show ?thesis using rest unfolding n(2) by (simp add: utf8_text_append)
  qed (simp add: utf8_text_Nil)
qed

lemma masked_harmless: "isutf8 line \<Longrightarrow> harmless (concat (map masked line))"
proof -
  assume "isutf8 line"
  then have "isutf8 (concat (map masked line))" using masked_text by (simp add: isutf8_text)
  then show ?thesis by (auto simp: harmless_def masked_def replacement_def split: if_splits)
qed

lemma clean_harmless:
  assumes "\<And>n. length (junk n) = n" "harmless line"
  shows "clean_line host sse junk line = Some line"
  using assms by (subst clean_line.simps) (simp add: harmless_def contains_nul_iff contains_single)

lemma clean_line_eq:
  assumes junk: "\<And>n. length (junk n) = n"
  shows "clean_line host sse junk line = Some (concat (map (if isutf8 line then masked else latin1) line))"
proof (cases "isutf8 line")
  case True
  show ?thesis
  proof (cases "0 \<in> set line \<or> 0x0D \<in> set line")
    case dirty: True
    have "clean_line host sse junk line = clean_line host sse junk (concat (map masked line))"
      using True dirty junk by (subst clean_line.simps) (simp add: contains_nul_iff contains_single scrub_eq [OF junk])
    then show ?thesis using True clean_harmless [OF junk masked_harmless [OF True]] by simp
  next
    case False
    then have "concat (map masked line) = line" by (intro concat_singletons) (auto simp: masked_def)
    then show ?thesis using True False clean_harmless [OF junk, of line host sse] by (simp add: harmless_def)
  qed
next
  case False
  then have "clean_line host sse junk line = clean_line host sse junk (recode host junk line)"
    by (subst clean_line.simps) simp
  then show ?thesis using False clean_harmless [OF junk recode_harmless] by (simp add: recode_eq [OF junk])
qed

text \<open>
  C12. Whatever bytes the server sends, the recursion at the head of \<^verbatim>\<open>ircline\<close> ends, and the line
  that is processed is valid UTF-8 without NUL and carriage return. A line that was UTF-8 keeps
  every other byte, any other line is transcoded from Latin-1.
\<close>

theorem clean_line_correct:
  assumes "\<And>n. length (junk n) = n"
  shows "\<exists>l. clean_line host sse junk line = Some l \<and> isutf8 l \<and> 0 \<notin> set l \<and> 0x0D \<notin> set l \<and>
    l = concat (map (\<lambda>b. if b = 0x0D \<or> b = 0 then [0xEF, 0xBF, 0xBD]
                         else if isutf8 line then [b] else utf8_encode (unat b)) line)"
proof -
  let ?l = "concat (map (if isutf8 line then masked else latin1) line)"
  have "harmless ?l" using masked_harmless recode_harmless by (cases "isutf8 line") simp_all
  moreover have "?l = concat (map (\<lambda>b. if b = 0x0D \<or> b = 0 then [0xEF, 0xBF, 0xBD]
      else if isutf8 line then [b] else utf8_encode (unat b)) line)"
    by (auto simp: masked_def latin1_def replacement_def intro!: arg_cong [of _ _ concat])
  ultimately show ?thesis using clean_line_eq [OF assms, of host sse line] by (simp add: harmless_def)
qed

theorem clean_line_correct_witness:
  "\<exists>l. clean_line True True (\<lambda>n. replicate n 7) [0x61, 0xE5, 0] = Some l \<and> isutf8 l \<and> l = [0x61, 0xC3, 0xA5, 0xEF, 0xBF, 0xBD]"
proof -
  have "\<not> isutf8 [0x61, 0xE5, 0]" by code_simp
  then show ?thesis
    using clean_line_correct [of "\<lambda>n. replicate n 7" True True "[0x61, 0xE5, 0]"]
    by (auto simp: utf8_encode_def utf8_units_def)
qed

end
