(* ===== verification/Irc_Tracker.thy ===== *)
theory Irc_Tracker
  imports Irc_Line "HOL-Library.AList"
begin

text \<open>
  The channel tracker of the IRC client (\<^verbatim>\<open>irc.cpp\<close>, class \<^verbatim>\<open>tracker\<close>): the state it keeps per
  channel, one definition per server command, and the calls it makes to the object that owns it,
  which are collected as a list of effects. The channels are the nodes of the hash map in
  iteration order; every effect of a line carries the time of that line, which is left out.
  \<open>None\<close> is a read behind the array of parameters or a call of \<^verbatim>\<open>abort\<close>.
\<close>

datatype importance = Imp_none | Imp_status | Imp_msg | Imp_highlight | Imp_self

record channel =
  chan_name :: bytes
  joined :: bool
  members :: "bytes list"

record tracker =
  show_motd :: bool
  join_imp :: importance
  highlights :: "bytes list"
  mynick :: bytes
  myident :: bytes
  connected :: bool
  channels :: "(bytes \<times> channel) list"

datatype effect =
  Connected
| Set_joined channel
| Channel_msg bytes importance bytes
| Channel_msg_mergeable bytes importance bytes bytes
| Temp_msg importance bytes
| Server_msg importance bytes
| User_join bytes bytes
| User_leave bytes bytes

type_synonym outcome = "tracker \<times> effect list"

subsection \<open>Channels\<close>

definition is_query :: "bytes \<Rightarrow> bool" where
  "is_query name \<longleftrightarrow> byte_at name 0 \<noteq> 0x23 \<and> byte_at name 0 \<noteq> 0x26"

definition get_chan :: "bytes \<Rightarrow> tracker \<Rightarrow> channel option" where
  "get_chan name t = map_of (channels t) name"

definition put_chan :: "bytes \<Rightarrow> channel \<Rightarrow> tracker \<Rightarrow> tracker" where
  "put_chan name c t = t\<lparr>channels := AList.update name c (channels t)\<rparr>"

definition new_channel :: channel where
  "new_channel = \<lparr>chan_name = [], joined = False, members = []\<rparr>"

definition get_channel :: "bytes \<Rightarrow> tracker \<Rightarrow> channel \<times> tracker" where
  "get_channel name t =
     (let c = (case get_chan name t of Some c \<Rightarrow> c | None \<Rightarrow> new_channel);
          c = (if chan_name c = [] then c\<lparr>chan_name := name, joined := is_query name\<rparr> else c)
      in (c, put_chan name c t))"

text \<open>
  The private members that change one channel and tell the owner. \<open>name\<close> is the key under which
  the channel is stored.
\<close>

definition channel_set_joined :: "bytes \<Rightarrow> bool \<Rightarrow> outcome \<Rightarrow> outcome" where
  "channel_set_joined name b out =
     (case get_chan name (fst out) of
        None \<Rightarrow> out
      | Some c \<Rightarrow>
          if joined c = b then out
          else let c = (if b then c else c\<lparr>members := []\<rparr>); c = c\<lparr>joined := b\<rparr>
               in (put_chan name c (fst out), snd out @ [Set_joined c]))"

definition channel_user_join :: "bytes \<Rightarrow> bytes \<Rightarrow> outcome \<Rightarrow> outcome" where
  "channel_user_join name user out =
     (case get_chan name (fst out) of
        None \<Rightarrow> out
      | Some c \<Rightarrow> (put_chan name (c\<lparr>members := members c @ [user]\<rparr>) (fst out), snd out @ [User_join (chan_name c) user]))"

definition channel_user_leave :: "bytes \<Rightarrow> bytes \<Rightarrow> outcome \<Rightarrow> outcome" where
  "channel_user_leave name user out =
     (case get_chan name (fst out) of
        None \<Rightarrow> out
      | Some c \<Rightarrow> (put_chan name (c\<lparr>members := remove1 user (members c)\<rparr>) (fst out), snd out @ [User_leave (chan_name c) user]))"

definition emit :: "effect \<Rightarrow> outcome \<Rightarrow> outcome" where
  "emit e out = (fst out, snd out @ [e])"

text \<open>
  A loop over all channels: \<^verbatim>\<open>values()\<close> visits the nodes in order, and the bodies change the
  visited channel only.
\<close>

definition each_channel :: "(bytes \<Rightarrow> channel \<Rightarrow> outcome \<Rightarrow> outcome) \<Rightarrow> outcome \<Rightarrow> outcome" where
  "each_channel f out = fold (\<lambda>(k, c). f k c) (channels (fst out)) out"

subsection \<open>Parameters\<close>

text \<open>
  The view of the parameters has \<open>length parts\<close> elements, and \<open>room\<close> is how many strings lie in the
  array behind it: the autopilot pads its array to ten with empty strings, the bouncer client
  does not.
\<close>

definition arg :: "bytes list \<Rightarrow> nat \<Rightarrow> nat \<Rightarrow> bytes option" where
  "arg parts room i = (if i < length parts then Some (parts ! i) else if i < room then Some [] else None)"

text \<open>The nick in front of the exclamation mark of the prefix, and what stands behind it.\<close>

abbreviation bang :: byte where "bang \<equiv> 0x21"

definition source_of :: "bytes \<Rightarrow> bytes option" where
  "source_of prefix =
     (if prefix \<noteq> [] then
        Option.bind (substr 1 to_end prefix) (\<lambda>s. map_option (\<lambda>ps. ps ! 0) (csplit s [bang] (Some 1)))
      else Some [])"

definition ident_of :: "bytes \<Rightarrow> bytes option" where
  "ident_of prefix =
     (if contains prefix [bang] then
        Option.bind (substr 1 to_end prefix) (\<lambda>s.
          Option.bind (csplit s [bang] (Some 1)) (\<lambda>ps. if length ps < 2 then None else Some (ps ! 1)))
      else Some [])"

subsection \<open>The commands\<close>

definition on_welcome :: "bytes \<Rightarrow> tracker \<Rightarrow> outcome" where
  "on_welcome nick t = (t\<lparr>channels := [], mynick := nick, connected := True\<rparr>, [Connected])"

definition on_join :: "bytes \<Rightarrow> bytes \<Rightarrow> bytes \<Rightarrow> tracker \<Rightarrow> outcome" where
  "on_join source ident name t =
     (let (c, t') = get_channel name t; out = (t', []);
          out = (if source = mynick t
               then emit (Channel_msg (chan_name c) (join_imp t) ([3] @ str ''9** Now talking on '' @ name)) (channel_set_joined name True out)
               else out);
          out = emit (Channel_msg_mergeable (chan_name c) (join_imp t)
                ([3] @ str ''9* '' @ [2] @ source @ [2] @ str '' ('' @ ident @ str '') has joined '' @ name)
                ([3] @ str ''9+'' @ source)) out
      in channel_user_join name source out)"

definition on_nick :: "bytes \<Rightarrow> bytes \<Rightarrow> tracker \<Rightarrow> outcome" where
  "on_nick source new t =
     (let (t', es) = each_channel (\<lambda>k c out.
            if is_query (chan_name c) then out
            else if source \<in> set (members c) then
              channel_user_join k new (channel_user_leave k source
                (emit (Channel_msg_mergeable (chan_name c) (join_imp t)
                   ([3] @ str ''7* '' @ source @ str '' is now known as '' @ new)
                   ([3] @ str ''7'' @ source @ str ''->'' @ new)) out))
            else out) (t, [])
      in (if source = mynick t' then t'\<lparr>mynick := new\<rparr> else t', es))"

definition on_part :: "bytes \<Rightarrow> bytes \<Rightarrow> bytes \<Rightarrow> bytes \<Rightarrow> tracker \<Rightarrow> outcome" where
  "on_part source ident name reason t =
     (case get_chan name t of
        None \<Rightarrow> (t, [])
      | Some c \<Rightarrow>
          let reason = (if reason \<noteq> [] then str '' ('' @ reason @ str '')'' else []);
              out = emit (Channel_msg_mergeable (chan_name c) (join_imp t)
                    ([3] @ str ''5* '' @ source @ str '' ('' @ ident @ str '') has left '' @ name @ reason)
                    ([3] @ str ''5-'' @ source)) (t, []);
              out = channel_user_leave name source out
          in if source = mynick t then channel_set_joined name False out else out)"

definition on_kick :: "bytes \<Rightarrow> bytes \<Rightarrow> bytes \<Rightarrow> bytes \<Rightarrow> tracker \<Rightarrow> outcome" where
  "on_kick source name victim reason t =
     (case get_chan name t of
        None \<Rightarrow> (t, [])
      | Some c \<Rightarrow>
          let out = emit (Channel_msg (chan_name c) Imp_status
                ([3] @ str ''4* '' @ source @ str '' has kicked '' @ victim @ str '' from '' @ name @ str '' ('' @ reason @ str '')'')) (t, []);
              out = channel_user_leave name victim out
          in if victim = mynick t then channel_set_joined name False out else out)"

definition on_quit :: "bytes \<Rightarrow> bytes \<Rightarrow> tracker \<Rightarrow> outcome" where
  "on_quit source reason t =
     each_channel (\<lambda>k c out.
       if is_query (chan_name c) then out
       else if source \<in> set (members c) then
         channel_user_leave k source
           (emit (Channel_msg_mergeable (chan_name c) (join_imp t)
              ([3] @ str ''5* '' @ source @ str '' has quit ('' @ reason @ str '')'')
              ([3] @ str ''5-'' @ source)) out)
       else out) (t, [])"

text \<open>
  The names list. The loop that drops the mode characters calls \<^verbatim>\<open>strchr\<close>, which finds the NUL
  byte too.
\<close>

definition mode_chars :: bytes where "mode_chars = str ''~&@%+''"

definition bare_name :: "bytes \<Rightarrow> bytes" where
  "bare_name user = dropWhile (\<lambda>c. c \<in> set mode_chars \<or> c = 0) user"

definition add_name :: "bytes \<Rightarrow> bytes \<Rightarrow> outcome \<Rightarrow> outcome" where
  "add_name name user out =
     (let user = bare_name user in
      if user \<noteq> [] then
        case get_chan name (fst out) of
          None \<Rightarrow> out
        | Some c \<Rightarrow> if user \<in> set (members c) then out else channel_user_join name user out
      else out)"

definition on_names :: "bytes \<Rightarrow> bytes \<Rightarrow> tracker \<Rightarrow> outcome option" where
  "on_names name users t =
     (case get_chan name t of
        None \<Rightarrow> Some (t, [])
      | Some c \<Rightarrow> map_option (\<lambda>us. fold (add_name name) us (t, [])) (csplit users [blank] None))"

subsection \<open>Messages\<close>

text \<open>\<^verbatim>\<open>strcasestr\<close> of the C library works on the text up to the first NUL.\<close>

definition cstr :: "bytes \<Rightarrow> bytes" where
  "cstr s = takeWhile (\<lambda>c. c \<noteq> 0) s"

definition strcasestr :: "bytes \<Rightarrow> bytes \<Rightarrow> nat option" where
  "strcasestr hay needle =
     find (\<lambda>i. i + length needle \<le> length hay \<and> map tolower (slice i (length needle) hay) = map tolower needle)
       [0..<Suc (length hay)]"

definition has_word :: "bytes \<Rightarrow> bytes \<Rightarrow> bool" where
  "has_word msg word =
     (let hay = cstr msg; word = cstr word in
      case strcasestr hay word of
        None \<Rightarrow> False
      | Some i \<Rightarrow> (i = 0 \<or> \<not> isalpha (hay ! (i - 1))) \<and> \<not> isalpha (byte_at hay (i + length word)))"

definition message_format :: "bool \<Rightarrow> bytes \<Rightarrow> bytes \<Rightarrow> bool \<Rightarrow> bytes option" where
  "message_format is_action source msg is_highlight =
     (let hl_start = (if is_highlight then [3] @ str ''4'' @ [2] else []);
          hl_end = (if is_highlight then [2] else [])
      in if is_action then
           map_option (\<lambda>what. [3] @ str ''6'' @ hl_start @ str ''* '' @ source @ hl_end @ str '' '' @ what) (substr 8 to_last msg)
         else Some (hl_start @ str ''<'' @ source @ str ''>'' @ hl_end @ str '' '' @ msg))"

definition do_message :: "bool \<Rightarrow> bytes \<Rightarrow> bytes \<Rightarrow> bytes \<Rightarrow> tracker \<Rightarrow> outcome option" where
  "do_message is_action source target msg t =
     (let name = (if is_query target then source else target);
          (c, t') = get_channel name t;
          is_highlight = (list_ex (has_word msg) (highlights t) \<or> has_word msg (mynick t))
      in map_option (\<lambda>text. (t', [Channel_msg (chan_name c) (if is_highlight then Imp_highlight else Imp_msg) text]))
           (message_format is_action source msg is_highlight))"

definition on_privmsg :: "bytes \<Rightarrow> bytes \<Rightarrow> bytes \<Rightarrow> tracker \<Rightarrow> outcome option" where
  "on_privmsg source target msg t =
     (if startswith msg [1] \<and> endswith msg [1] then
        Option.bind (substr 1 to_last msg) (\<lambda>body.
          Option.bind (csplit body [blank] (Some 1)) (\<lambda>ws.
            if ws ! 0 = str ''ACTION'' then do_message True source target msg t
            else Some (t, [Temp_msg Imp_status (str ''* Received a CTCP '' @ body @ str '' from '' @ source)])))
      else do_message False source target msg t)"

definition on_notice :: "bytes \<Rightarrow> bytes \<Rightarrow> bytes \<Rightarrow> tracker \<Rightarrow> outcome" where
  "on_notice source target msg t =
     (let text = str ''-'' @ source @ str ''- '' @ msg in
      if \<not> is_query target then case get_channel target t of (c, t') \<Rightarrow> (t', [Channel_msg (chan_name c) Imp_status text])
      else (t, [Temp_msg Imp_status text]))"

definition on_mode :: "bytes \<Rightarrow> bytes \<Rightarrow> bytes list \<Rightarrow> tracker \<Rightarrow> outcome" where
  "on_mode source name parts t =
     (case get_chan name t of
        None \<Rightarrow> (t, [])
      | Some c \<Rightarrow>
          let text = [3] @ str ''7* '' @ source @ str '' sets mode '' @ join_between [blank] (drop 3 parts)
          in if length parts = 5 \<and> parts ! 3 = str ''+o''
             then (t, [Channel_msg_mergeable (chan_name c) (join_imp t) text ([3] @ str ''7'' @ parts ! 4 @ parts ! 3)])
             else (t, [Channel_msg (chan_name c) (join_imp t) text]))"


subsection \<open>One line\<close>

text \<open>
  The new nick of \<^verbatim>\<open>NICK\<close> and the reason of \<^verbatim>\<open>QUIT\<close> are read only when some channel lists the user
  (or, for the nick, when it is the client's own).
\<close>

definition listed :: "bytes \<Rightarrow> tracker \<Rightarrow> bool" where
  "listed source t \<longleftrightarrow> list_ex (\<lambda>(k, c). \<not> is_query (chan_name c) \<and> source \<in> set (members c)) (channels t)"

definition ircline_command ::
  "bytes \<Rightarrow> bytes list \<Rightarrow> nat \<Rightarrow> bytes \<Rightarrow> bytes \<Rightarrow> bytes \<Rightarrow> tracker \<Rightarrow> outcome option" where
  "ircline_command line parts room source ident cmd t =
     (let a = arg parts room in
      if cmd = str ''PING'' \<or> cmd = str ''PONG'' then Some (t, [])
      else if cmd = str ''001'' then map_option (\<lambda>nick. on_welcome nick t) (a 2)
      else if cmd = str ''JOIN'' then map_option (\<lambda>name. on_join source ident name t) (a 2)
      else if cmd = str ''NICK'' then
        if listed source t \<or> source = mynick t then map_option (\<lambda>new. on_nick source new t) (a 2) else Some (t, [])
      else if cmd = str ''PART'' then
        map_option (\<lambda>name. on_part source ident name (if 4 \<le> length parts then parts ! 3 else []) t) (a 2)
      else if cmd = str ''KICK'' then
        Option.bind (a 2) (\<lambda>name.
          if get_chan name t = None then Some (t, [])
          else Option.bind (a 3) (\<lambda>victim. map_option (\<lambda>reason. on_kick source name victim reason t) (a 4)))
      else if cmd = str ''QUIT'' then
        if listed source t then map_option (\<lambda>reason. on_quit source reason t) (a 2) else Some (t, [])
      else if cmd = str ''353'' then
        Option.bind (a 4) (\<lambda>name.
          if get_chan name t = None then Some (t, []) else Option.bind (a 5) (\<lambda>users. on_names name users t))
      else if cmd = str ''366'' then Some (t, [])
      else if (cmd = str ''375'' \<or> cmd = str ''372'' \<or> cmd = str ''376'') \<and> \<not> show_motd t then Some (t, [])
      else if cmd = str ''401'' \<or> cmd = str ''404'' then
        Option.bind (a 3) (\<lambda>who. map_option (\<lambda>text. (t, [Temp_msg Imp_status (who @ str '': '' @ text)])) (a 4))
      else if cmd = str ''PRIVMSG'' then
        Option.bind (a 3) (\<lambda>msg. Option.bind (a 2) (\<lambda>target. on_privmsg source target msg t))
      else if cmd = str ''NOTICE'' then
        Option.bind (a 2) (\<lambda>target. map_option (\<lambda>msg. on_notice source target msg t) (a 3))
      else if cmd = str ''MODE'' then
        map_option (\<lambda>name.
          if \<not> is_query name then on_mode source name parts t else (t, [Server_msg Imp_status line])) (a 2)
      else Some (t, [Server_msg Imp_status line]))"

definition ircline :: "bytes \<Rightarrow> bytes list \<Rightarrow> nat \<Rightarrow> tracker \<Rightarrow> outcome option" where
  "ircline line parts room t =
     Option.bind (arg parts room 0) (\<lambda>prefix.
       Option.bind (source_of prefix) (\<lambda>source.
         Option.bind (ident_of prefix) (\<lambda>ident.
           Option.bind (arg parts room 1) (\<lambda>cmd.
             ircline_command line parts room source ident cmd
               (if source = mynick t then t\<lparr>myident := ident\<rparr> else t)))))"

subsection \<open>The other members\<close>

definition tracker_disconnected :: "tracker \<Rightarrow> outcome" where
  "tracker_disconnected t =
     (let (t', es) = each_channel (\<lambda>k c out.
            if joined c \<and> \<not> is_query (chan_name c) then
              emit (Channel_msg (chan_name c) (join_imp t) ([3] @ str ''5** Disconnected'')) (channel_set_joined k False out)
            else out) (t, [])
      in (t'\<lparr>connected := False\<rparr>, es))"

text \<open>The length left for a message, computed in \<^verbatim>\<open>size_t\<close>.\<close>

definition max_line_len :: "bytes \<Rightarrow> bool \<Rightarrow> tracker \<Rightarrow> u64" where
  "max_line_len name is_action t =
     (let meta = 1 + length (mynick t) + 1 + length (myident t) + 9 + length name + 2;
          meta = (if is_action then meta + 7 + 1 else meta)
      in 512 - of_nat meta - 2)"

definition configure :: "bool \<Rightarrow> bool \<Rightarrow> bytes list \<Rightarrow> tracker \<Rightarrow> tracker" where
  "configure show_joins motd hls t =
     t\<lparr>join_imp := (if show_joins then Imp_status else Imp_none), show_motd := motd, highlights := hls\<rparr>"

definition tracker_send :: "bytes \<Rightarrow> tracker \<Rightarrow> effect list option" where
  "tracker_send line t =
     (if istartswith line (str ''PRIVMSG '') then
        Option.bind (csplit line [blank] (Some 2)) (\<lambda>parts.
          if length parts < 2 then None
          else case get_chan (parts ! 1) t of
            None \<Rightarrow> Some []
          | Some c \<Rightarrow>
              if length parts < 3 then None
              else if startswith (parts ! 2) ([colon, 1] @ str ''ACTION '') \<and> endswith (parts ! 2) [1] then
                map_option (\<lambda>what. [Channel_msg (chan_name c) Imp_self ([3] @ str ''6* '' @ mynick t @ str '' '' @ what)])
                  (substr 9 to_last (parts ! 2))
              else map_option (\<lambda>what. [Channel_msg (chan_name c) Imp_self
                     (str ''<'' @ [3] @ str ''14'' @ mynick t @ [0x0F] @ str ''> '' @ what)]) (substr 1 to_end (parts ! 2)))
      else Some [])"

subsection \<open>Lines that end the program\<close>

lemma parseline_shape:
  assumes "parseline line = Some parts"
  shows "parts \<noteq> []" "parts ! 0 = [] \<or> (\<exists>s. parts ! 0 = colon # s)"
proof -
  have keeps: "qs \<noteq> [] \<and> qs ! 0 = ps ! 0" if "params_loop ps l = Some qs" "ps \<noteq> []" for ps l qs
    using params_extend [of ps l] that by (auto simp: nth_append)
  have "parts \<noteq> [] \<and> (parts ! 0 = [] \<or> (\<exists>s. parts ! 0 = colon # s))"
  proof (cases "byte_at line 0 = colon")
    case True
    then obtain s where s: "line = colon # s" by (cases line) auto
    then have "blank \<in> set line" using assms True by (auto simp: parseline_def csplit_once [simplified] split: if_splits)
    then show ?thesis using assms True keeps [of "[takeWhile (\<lambda>b. b \<noteq> blank) line]"] s
      by (auto simp: parseline_def csplit_once [simplified])
  next
    case False
    then show ?thesis using assms keeps [of "[[]]" line parts] by (auto simp: parseline_def)
  qed
  then show "parts \<noteq> []" "parts ! 0 = [] \<or> (\<exists>s. parts ! 0 = colon # s)" by auto
qed

definition padded :: "bytes list \<Rightarrow> nat \<Rightarrow> bytes" where
  "padded parts i = (if i < length parts then parts ! i else [])"

lemma arg_padded: "i < room \<Longrightarrow> arg parts room i = Some (padded parts i)"
  by (simp add: arg_def padded_def)

lemma source_total: "prefix = [] \<or> (\<exists>s. prefix = colon # s) \<Longrightarrow> \<exists>source. source_of prefix = Some source"
  by (auto simp: source_of_def substr_tail csplit_once [simplified])

lemma ident_total: "prefix = [] \<or> (\<exists>s. prefix = colon # s) \<Longrightarrow> \<exists>ident. ident_of prefix = Some ident"
  by (auto simp: ident_of_def substr_tail contains_single csplit_once [simplified])

lemma names_total: "\<exists>t' es. on_names name users t = Some (t', es)"
  using csplit_loop_None [of "[blank]" users] by (auto simp: on_names_def csplit_def split: option.splits)

abbreviation action_word :: bytes where "action_word \<equiv> str ''ACTION''"

lemma startswith_one: "startswith msg [c] \<longleftrightarrow> msg \<noteq> [] \<and> hd msg = c"
  by (cases msg) (auto simp: startswith_def)

lemma endswith_one: "endswith msg [c] \<longleftrightarrow> msg \<noteq> [] \<and> last msg = c"
  by (cases msg rule: rev_cases) (auto simp: endswith_def)

lemma ctcp_shape: "startswith msg [1] \<Longrightarrow> endswith msg [1] \<Longrightarrow> msg = [1] \<or> (\<exists>body. msg = 1 # body @ [1])"
  unfolding startswith_one endswith_one by (cases msg; cases "tl msg" rule: rev_cases) auto

lemma privmsg_aborts:
  "on_privmsg source target msg t = None \<longleftrightarrow> msg = [1] \<or> msg = 1 # action_word @ [1]"
proof (cases "startswith msg [1] \<and> endswith msg [1]")
  case False
  then show ?thesis by (auto simp: on_privmsg_def do_message_def message_format_def startswith_one endswith_one Let_def split: prod.splits)
next
  case True
  then consider "msg = [1]" | body where "msg = 1 # body @ [1]" using ctcp_shape by blast
  then show ?thesis
  proof cases
    case 1
    then show ?thesis using True by (simp add: on_privmsg_def substr_inner)
  next
    case 2
    let ?word = "takeWhile (\<lambda>b. b \<noteq> blank) body"
    have cut: "substr 1 to_last msg = Some body" by (simp add: 2 substr_inner)
    have word: "\<exists>ws. csplit body [blank] (Some 1) = Some ws \<and> ws ! 0 = ?word"
    proof (cases "blank \<in> set body")
      case False
      then have w: "?word = body" by (auto simp: takeWhile_eq_all_conv)
      show ?thesis unfolding csplit_once w using False by simp
    qed (simp add: csplit_once [simplified])
    have "on_privmsg source target msg t = None \<longleftrightarrow> ?word = action_word \<and> do_message True source target msg t = None"
      using True cut word by (auto simp: on_privmsg_def split: if_splits)
    also have "do_message True source target msg t = None \<longleftrightarrow> substr 8 to_last msg = None"
      by (auto simp: do_message_def message_format_def Let_def split: prod.splits)
    also have "\<dots> \<longleftrightarrow> length body < 7"
      by (auto simp: substr_def realpos_def Let_def 2)
    also have "?word = action_word \<and> length body < 7 \<longleftrightarrow> body = action_word"
    proof
      assume a: "?word = action_word \<and> length body < 7"
      then have "length ?word = 6" by simp
      moreover have body: "body = ?word @ dropWhile (\<lambda>b. b \<noteq> blank) body" by simp
      then have "length body = length ?word + length (dropWhile (\<lambda>b. b \<noteq> blank) body)" by (metis length_append)
      ultimately have "dropWhile (\<lambda>b. b \<noteq> blank) body = []" using a by simp
      then show "body = action_word" using a body by (metis append_Nil2)
    next
      assume "body = action_word"
      then show "?word = action_word \<and> length body < 7" by simp
    qed
    finally show ?thesis using 2 by auto
  qed
qed

lemma command_aborts:
  assumes "10 \<le> room"
  shows "ircline_command line parts room source ident cmd t = None \<longleftrightarrow>
    cmd = str ''PRIVMSG'' \<and> (padded parts 3 = [1] \<or> padded parts 3 = 1 # action_word @ [1])"
proof -
  have args: "arg parts room 2 = Some (padded parts 2)" "arg parts room 3 = Some (padded parts 3)"
    "arg parts room 4 = Some (padded parts 4)" "arg parts room 5 = Some (padded parts 5)"
    using assms by (simp_all add: arg_padded)
  show ?thesis
  proof (cases "cmd = str ''PRIVMSG''")
    case True
    show ?thesis unfolding ircline_command_def Let_def args True by (simp add: privmsg_aborts)
  next
    case False
    have either: "(b \<Longrightarrow> x \<noteq> None) \<Longrightarrow> (\<not> b \<Longrightarrow> y \<noteq> None) \<Longrightarrow> (if b then x else y) \<noteq> None"
      for b and x y :: "outcome option" by simp
    have "ircline_command line parts room source ident cmd t \<noteq> None"
      unfolding ircline_command_def Let_def args
      by (intro either) (use False in \<open>simp_all add: names_total del: str_simps\<close>)
    then show ?thesis using False by blast
  qed
qed

text \<open>
  C14. The client aborts on exactly two kinds of lines once the autopilot has padded the
  parameters: a private message that consists of a single control-A, and an ACTION request
  without a text.
\<close>

theorem ircline_aborts:
  assumes "parseline line = Some parts" and "10 \<le> room"
  shows "ircline line parts room t = None \<longleftrightarrow>
    (if 1 < length parts then parts ! 1 else []) = str ''PRIVMSG'' \<and>
    (if 3 < length parts then parts ! 3 else []) \<in> {[1], [1] @ str ''ACTION'' @ [1]}"
proof -
  have shape: "parts \<noteq> []" "parts ! 0 = [] \<or> (\<exists>s. parts ! 0 = colon # s)" using parseline_shape [OF assms(1)] .
  then obtain source ident where si: "source_of (padded parts 0) = Some source" "ident_of (padded parts 0) = Some ident"
    using source_total ident_total by (fastforce simp: padded_def)
  have args: "arg parts room 0 = Some (padded parts 0)" "arg parts room 1 = Some (padded parts 1)"
    using assms(2) by (simp_all add: arg_padded)
  have "ircline line parts room t = ircline_command line parts room source ident (padded parts 1)
      (if source = mynick t then t\<lparr>myident := ident\<rparr> else t)"
    unfolding ircline_def by (simp add: args [simplified] si)
  then show ?thesis using command_aborts [OF assms(2)] by (simp add: padded_def)
qed

theorem ircline_aborts_witness:
  "ircline (str '':a PRIVMSG b '' @ [1]) [str '':a'', str ''PRIVMSG'', str ''b'', [1]] 10
    \<lparr>show_motd = True, join_imp = Imp_none, highlights = [], mynick = str ''b'', myident = [], connected = True, channels = []\<rparr> = None"
proof -
  have "parseline (str '':a PRIVMSG b '' @ [1]) = Some [str '':a'', str ''PRIVMSG'', str ''b'', [1]]"
    by (simp add: parseline_def params_step csplit_once [simplified])
  then show ?thesis by (subst ircline_aborts) simp_all
qed

end
