(* ===== verification/Irc_State.thy ===== *)
theory Irc_State
  imports Serialize Irc_Tracker
begin

text \<open>
  The JSON form of the tracker's state (\<^verbatim>\<open>irc.cpp\<close>, the \<^verbatim>\<open>serialize\<close> members of \<^verbatim>\<open>tracker\<close> and its
  \<^verbatim>\<open>channel\<close>), which the bouncer sends to a client that attaches. Loading a state merges it into the
  tracker: channels that exist are kept, and member lists are appended to.
\<close>

definition write_channel :: "bool \<Rightarrow> channel \<Rightarrow> writes" where
  "write_channel sse c =
     write_struct sse
       [(str ''name'', w_str sse (chan_name c)),
        (str ''joined'', w_boolean (joined c)),
        (str ''members'', write_array (w_str sse) (members c))]"

definition read_channel :: "bool \<Rightarrow> channel reader" where
  "read_channel host =
     read_struct host
       [(str ''name'', in_field chan_name (\<lambda>v c. c\<lparr>chan_name := v\<rparr>) (read_str host)),
        (str ''joined'', in_field joined (\<lambda>v c. c\<lparr>joined := v\<rparr>) (read_bool host)),
        (str ''members'', in_field members (\<lambda>v c. c\<lparr>members := v\<rparr>) (read_array host [] (read_str host)))]"

definition write_tracker :: "bool \<Rightarrow> tracker \<Rightarrow> writes" where
  "write_tracker sse t =
     write_struct sse
       [(str ''connected'', w_boolean (connected t)),
        (str ''mynick'', w_str sse (mynick t)),
        (str ''myident'', w_str sse (myident t)),
        (str ''channels'', write_map sse (write_channel sse) (channels t))]"

definition read_tracker :: "bool \<Rightarrow> tracker reader" where
  "read_tracker host =
     read_struct host
       [(str ''connected'', in_field connected (\<lambda>v t. t\<lparr>connected := v\<rparr>) (read_bool host)),
        (str ''mynick'', in_field mynick (\<lambda>v t. t\<lparr>mynick := v\<rparr>) (read_str host)),
        (str ''myident'', in_field myident (\<lambda>v t. t\<lparr>myident := v\<rparr>) (read_str host)),
        (str ''channels'', in_field channels (\<lambda>v t. t\<lparr>channels := v\<rparr>) (read_map host new_channel (read_channel host)))]"

definition save_state :: "bool \<Rightarrow> tracker \<Rightarrow> bytes" where
  "save_state sse t = jsonserialize2 (write_tracker sse t)"

definition load_state :: "bool \<Rightarrow> bytes \<Rightarrow> tracker \<Rightarrow> tracker option" where
  "load_state host json t = map_option snd (jsondeserialize2 host (read_tracker host) json t)"

subsection \<open>The values that are written\<close>

definition bool_value :: "bool \<Rightarrow> jsonw" where
  "bool_value b = (if b then JTrue else JFalse)"

definition channel_value :: "channel \<Rightarrow> jsonw" where
  "channel_value c =
     JMap [(str ''name'', JStr (chan_name c)), (str ''joined'', bool_value (joined c)), (str ''members'', JList (map JStr (members c)))]"

definition tracker_value :: "tracker \<Rightarrow> jsonw" where
  "tracker_value t =
     JMap [(str ''connected'', bool_value (connected t)), (str ''mynick'', JStr (mynick t)), (str ''myident'', JStr (myident t)),
       (str ''channels'', JMap (map (\<lambda>(k, c). (k, channel_value c)) (channels t)))]"

lemma emits_bool: "emits d (bool_value b) (w_boolean b)"
  by (cases b) (auto intro!: emits_scalar simp: w_boolean_def bool_value_def sp_true sp_false)

lemma emits_str: "emits d (JStr s) (w_str sse s)"
  by (rule emits_scalar) (auto simp: w_str_def strwrap_eq intro: sp_str)

lemma emits_array:
  "(\<And>x. x \<in> set xs \<Longrightarrow> emits d (v x) (f x)) \<Longrightarrow> emits (Suc d) (JList (map v xs)) (write_array f xs)"
  unfolding write_array_def by (rule emits_list) (simp add: list_all2_conv_all_nth)

lemma emits_struct:
  "list_all2 (\<lambda>e f. fst e = fst f \<and> emits d (snd e) (snd f)) m fs \<Longrightarrow> distinct (map fst m) \<Longrightarrow>
    emits (Suc d) (JMap m) (write_struct sse fs)"
  unfolding write_struct_def by (rule emits_map)

lemma emits_channel: "emits (Suc (Suc d)) (channel_value c) (write_channel sse c)"
  unfolding channel_value_def write_channel_def
  by (rule emits_struct) (simp_all add: emits_str emits_bool emits_array)

lemma emits_tracker:
  assumes "distinct (map fst (channels t))"
  shows "emits (Suc (Suc (Suc (Suc d)))) (tracker_value t) (write_tracker sse t)"
proof -
  have "emits (Suc (Suc (Suc d))) (JMap (map (\<lambda>(k, c). (k, channel_value c)) (channels t)))
      (write_map sse (write_channel sse) (channels t))"
    unfolding write_map_def using assms
    by (intro emits_struct) (auto simp: list_all2_conv_all_nth split_beta emits_channel comp_def)
  then show ?thesis unfolding tracker_value_def write_tracker_def
    by (intro emits_struct) (simp_all add: emits_str emits_bool)
qed

subsection \<open>What reading them does\<close>

definition merge_channel :: "channel \<Rightarrow> channel \<Rightarrow> channel" where
  "merge_channel c old = old\<lparr>chan_name := chan_name c, joined := joined c, members := members old @ members c\<rparr>"

definition merge_state :: "tracker \<Rightarrow> tracker \<Rightarrow> tracker" where
  "merge_state s t =
     t\<lparr>connected := connected s, mynick := mynick s, myident := myident s,
       channels := fold (\<lambda>(k, c). merge_node new_channel (merge_channel c) k) (channels s) (channels t)\<rparr>"

lemma reads_bool_value: "reads host (read_bool host) (bool_value b) (\<lambda>_. b)"
  using reads_bool [of host b] by (simp add: bool_value_def)

lemma reads_channel: "reads host (read_channel host) (channel_value c) (merge_channel c)"
proof -
  have arr: "reads host (read_array host [] (read_str host)) (JList (map JStr (members c))) (\<lambda>xs. xs @ members c)"
    using reads_array [of "members c" host "read_str host" JStr "\<lambda>y _. y" "[]"] reads_str by simp
  let ?qs = "[(str ''name'', in_field chan_name (\<lambda>v c. c\<lparr>chan_name := v\<rparr>) (read_str host), JStr (chan_name c),
        \<lambda>x. x\<lparr>chan_name := chan_name c\<rparr>),
      (str ''joined'', in_field joined (\<lambda>v c. c\<lparr>joined := v\<rparr>) (read_bool host), bool_value (joined c), \<lambda>x. x\<lparr>joined := joined c\<rparr>),
      (str ''members'', in_field members (\<lambda>v c. c\<lparr>members := v\<rparr>) (read_array host [] (read_str host)), JList (map JStr (members c)),
        \<lambda>x. x\<lparr>members := members x @ members c\<rparr>)] :: channel field list"
  have fs: "\<forall>(n, f, v, g) \<in> set ?qs. reads host f v g"
    by (auto intro!: reads_field reads_str reads_bool_value arr)
  have "reads host (read_struct host (field_readers ?qs)) (JMap (field_values ?qs)) (fold (\<lambda>q. snd (snd (snd q))) ?qs)"
    by (rule reads_struct [OF fs]) simp_all
  moreover have "fold (\<lambda>q. snd (snd (snd q))) ?qs = merge_channel c" by (auto simp: merge_channel_def)
  ultimately show ?thesis by (simp add: read_channel_def channel_value_def del: str_simps)
qed

lemma reads_tracker:
  assumes "distinct (map fst (channels s))"
  shows "reads host (read_tracker host) (tracker_value s) (merge_state s)"
proof -
  let ?nodes = "map (\<lambda>(k, c). (k, channel_value c)) (channels s)"
  have chan: "reads host (read_map host new_channel (read_channel host)) (JMap ?nodes)
      (fold (\<lambda>(k, c). merge_node new_channel (merge_channel c) k) (channels s))"
    using reads_map [of "channels s" host "read_channel host" channel_value merge_channel new_channel] reads_channel
    by (simp add: case_prod_unfold)
  let ?qs = "[(str ''connected'', in_field connected (\<lambda>v t. t\<lparr>connected := v\<rparr>) (read_bool host), bool_value (connected s),
        \<lambda>t. t\<lparr>connected := connected s\<rparr>),
      (str ''mynick'', in_field mynick (\<lambda>v t. t\<lparr>mynick := v\<rparr>) (read_str host), JStr (mynick s), \<lambda>t. t\<lparr>mynick := mynick s\<rparr>),
      (str ''myident'', in_field myident (\<lambda>v t. t\<lparr>myident := v\<rparr>) (read_str host), JStr (myident s), \<lambda>t. t\<lparr>myident := myident s\<rparr>),
      (str ''channels'', in_field channels (\<lambda>v t. t\<lparr>channels := v\<rparr>) (read_map host new_channel (read_channel host)), JMap ?nodes,
        \<lambda>t. t\<lparr>channels := fold (\<lambda>(k, c). merge_node new_channel (merge_channel c) k) (channels s) (channels t)\<rparr>)] :: tracker field list"
  have fs: "\<forall>(n, f, v, g) \<in> set ?qs. reads host f v g"
    by (auto intro!: reads_field reads_str reads_bool_value chan)
  have "reads host (read_struct host (field_readers ?qs)) (JMap (field_values ?qs)) (fold (\<lambda>q. snd (snd (snd q))) ?qs)"
    by (rule reads_struct [OF fs]) simp_all
  moreover have "fold (\<lambda>q. snd (snd (snd q))) ?qs = merge_state s" by (auto simp: merge_state_def)
  ultimately show ?thesis by (simp add: read_tracker_def tracker_value_def del: str_simps)
qed

lemma load_saved:
  "distinct (map fst (channels s)) \<Longrightarrow> load_state host (save_state sse s) t = Some (merge_state s t)"
  unfolding load_state_def save_state_def
  by (simp add: reads_document [OF emits_tracker reads_tracker])

subsection \<open>The merged tracker\<close>

lemma fold_merge_nodes:
  assumes "distinct (map fst l)" "distinct (map fst acc)"
  shows "map_of (fold (\<lambda>(k, c). merge_node new_channel (merge_channel c) k) l acc) n =
      (case map_of l n of
         None \<Rightarrow> map_of acc n
       | Some c \<Rightarrow> Some (merge_channel c (case map_of acc n of Some d \<Rightarrow> d | None \<Rightarrow> new_channel)))"
    "distinct (map fst (fold (\<lambda>(k, c). merge_node new_channel (merge_channel c) k) l acc))"
proof -
  have "map_of (fold (\<lambda>(k, c). merge_node new_channel (merge_channel c) k) l acc) n =
      (case map_of l n of
         None \<Rightarrow> map_of acc n
       | Some c \<Rightarrow> Some (merge_channel c (case map_of acc n of Some d \<Rightarrow> d | None \<Rightarrow> new_channel))) \<and>
      distinct (map fst (fold (\<lambda>(k, c). merge_node new_channel (merge_channel c) k) l acc))"
    using assms
  proof (induction l arbitrary: acc)
    case (Cons kc l)
    obtain k c where kc: "kc = (k, c)" by (cases kc)
    have "map_of l k = None" using Cons.prems(1) by (simp add: kc map_of_eq_None_iff)
    then show ?case
      using Cons.IH [of "merge_node new_channel (merge_channel c) k acc"] Cons.prems
      by (auto simp: kc merge_node_def distinct_update update_conv' split: option.splits)
  qed simp
  then show "map_of (fold (\<lambda>(k, c). merge_node new_channel (merge_channel c) k) l acc) n =
      (case map_of l n of
         None \<Rightarrow> map_of acc n
       | Some c \<Rightarrow> Some (merge_channel c (case map_of acc n of Some d \<Rightarrow> d | None \<Rightarrow> new_channel)))"
    "distinct (map fst (fold (\<lambda>(k, c). merge_node new_channel (merge_channel c) k) l acc))" by simp_all
qed

lemma merge_new [simp]: "merge_channel c new_channel = c"
  by (simp add: merge_channel_def new_channel_def)

lemma update_fresh: "k \<notin> fst ` set l \<Longrightarrow> AList.update k v l = l @ [(k, v)]"
  by (induction l) auto

lemma fold_merge_fresh:
  "distinct (map fst (acc @ l)) \<Longrightarrow> fold (\<lambda>(k, c). merge_node new_channel (merge_channel c) k) l acc = acc @ l"
proof (induction l arbitrary: acc)
  case (Cons kc l)
  obtain k c where kc: "kc = (k, c)" by (cases kc)
  have "k \<notin> fst ` set acc" using Cons.prems by (auto simp: kc)
  then have "merge_node new_channel (merge_channel c) k acc = acc @ [(k, c)]"
    by (simp add: merge_node_def update_fresh map_of_eq_None_iff [THEN iffD2])
  then show ?case using Cons.IH [of "acc @ [(k, c)]"] Cons.prems by (simp add: kc)
qed simp



end
