(* ===== verification/Irc_Ui.thy ===== *)
theory Irc_Ui
  imports Irc_State
begin

text \<open>
  The user lists the IRC client shows (\<^verbatim>\<open>irc.cpp\<close>, class \<^verbatim>\<open>ui\<close>, and \<^verbatim>\<open>userview.cpp\<close>): what the effects
  of the tracker do to them. No list that does not exist is ever touched as long as the server's messages are
  consistent, and the lists stay the member lists of the tracker as long as, besides, no state is loaded into a
  tracker that still has members. The GTK calls that draw the lists are not modelled.
  A channel that is a query has no user list: adding to it dereferences a null pointer, which is
  \<open>None\<close>.
\<close>

subsection \<open>A user list\<close>

definition uv_add :: "bytes \<Rightarrow> bytes list \<Rightarrow> bytes list" where
  "uv_add user uv = (if user \<in> set uv then uv else uv @ [user])"

definition uv_remove :: "bytes \<Rightarrow> bytes list \<Rightarrow> bytes list" where
  "uv_remove user uv = (if user \<notin> set uv then uv else removeAll user uv)"

definition uv_clear :: "bytes list \<Rightarrow> bytes list" where
  "uv_clear uv = []"

type_synonym userlists = "bytes \<Rightarrow> bytes list"

definition ui_user_join :: "bytes \<Rightarrow> bytes \<Rightarrow> userlists \<Rightarrow> userlists option" where
  "ui_user_join name user ui = (if is_query name then None else Some (ui(name := uv_add user (ui name))))"

definition ui_user_leave :: "bytes \<Rightarrow> bytes \<Rightarrow> userlists \<Rightarrow> userlists option" where
  "ui_user_leave name user ui = (if is_query name then None else Some (ui(name := uv_remove user (ui name))))"

definition ui_set_joined :: "channel \<Rightarrow> userlists \<Rightarrow> userlists option" where
  "ui_set_joined c ui =
     (let name = chan_name c;
          ui = (if is_query name then ui else ui(name := uv_clear (ui name)))
      in if joined c then
           if is_query name \<and> members c \<noteq> [] then None
           else Some (ui(name := fold uv_add (members c) (ui name)))
         else Some ui)"

fun ui_effect :: "effect \<Rightarrow> userlists \<Rightarrow> userlists option" where
  "ui_effect (Set_joined c) ui = ui_set_joined c ui"
| "ui_effect (User_join name user) ui = ui_user_join name user ui"
| "ui_effect (User_leave name user) ui = ui_user_leave name user ui"
| "ui_effect _ ui = Some ui"

fun ui_effects :: "effect list \<Rightarrow> userlists \<Rightarrow> userlists option" where
  "ui_effects [] ui = Some ui"
| "ui_effects (e # es) ui = Option.bind (ui_effect e ui) (ui_effects es)"

text \<open>
  \<^verbatim>\<open>connect_status\<close> empties every list before the tracker forgets the members;
  \<^verbatim>\<open>load_state\<close> merges the state that the bouncer sent into the tracker and shows the joined channels.
\<close>

definition ui_connect_status :: "tracker \<Rightarrow> userlists \<Rightarrow> (tracker \<times> userlists) option" where
  "ui_connect_status t ui =
     (let ui = (\<lambda>name. uv_clear (ui name)); (t', es) = tracker_disconnected t
      in map_option (Pair t') (ui_effects es ui))"

definition ui_load_state :: "bool \<Rightarrow> bytes \<Rightarrow> tracker \<Rightarrow> userlists \<Rightarrow> (tracker \<times> userlists) option" where
  "ui_load_state host json t ui =
     Option.bind (load_state host json t) (\<lambda>t.
       let es = map (\<lambda>kc. Set_joined (snd kc)) (filter (\<lambda>kc. joined (snd kc) \<and> \<not> is_query (chan_name (snd kc))) (channels t))
       in map_option (Pair t) (ui_effects es ui))"

lemma ui_effects_append: "ui_effects (es @ fs) ui = Option.bind (ui_effects es ui) (ui_effects fs)"
  by (induction es arbitrary: ui) (auto split: bind_split)

lemma set_uv [simp]: "set (uv_add u uv) = insert u (set uv)" "set (uv_remove u uv) = set uv - {u}"
  by (auto simp: uv_add_def uv_remove_def)

lemma set_fold_add: "set (fold uv_add us uv) = set us \<union> set uv"
  by (induction us arbitrary: uv) auto

subsection \<open>The invariant\<close>

text \<open>
  \<open>tidy\<close> says that no state was ever merged into a tracker with members. Until then the lists mirror the tracker;
  afterwards a user can be twice in a channel, and leaving removes one of the two from the tracker
  but the only one from the screen.
\<close>

definition chan_ok :: "bool \<Rightarrow> bytes \<Rightarrow> channel \<Rightarrow> bool" where
  "chan_ok tidy name c \<longleftrightarrow>
     chan_name c = name \<and> (is_query name \<longrightarrow> members c = []) \<and>
     (tidy \<longrightarrow> distinct (members c) \<and> (\<not> joined c \<longrightarrow> members c = []))"

definition tracker_ok :: "bool \<Rightarrow> tracker \<Rightarrow> bool" where
  "tracker_ok tidy t \<longleftrightarrow> distinct (map fst (channels t)) \<and> (\<forall>name c. get_chan name t = Some c \<longrightarrow> chan_ok tidy name c)"

definition member_set :: "bytes \<Rightarrow> tracker \<Rightarrow> bytes set" where
  "member_set name t = (case get_chan name t of None \<Rightarrow> {} | Some c \<Rightarrow> set (members c))"

definition mirrors :: "bool \<Rightarrow> tracker \<Rightarrow> userlists \<Rightarrow> bool" where
  "mirrors tidy t ui \<longleftrightarrow> (tidy \<longrightarrow> (\<forall>name. set (ui name) = member_set name t))"

definition linked :: "bool \<Rightarrow> userlists \<Rightarrow> outcome \<Rightarrow> bool" where
  "linked tidy ui out \<longleftrightarrow>
     tracker_ok tidy (fst out) \<and> (\<exists>ui'. ui_effects (snd out) ui = Some ui' \<and> mirrors tidy (fst out) ui')"

lemma get_put [simp]: "get_chan n (put_chan k c t) = (if n = k then Some c else get_chan n t)"
  by (simp add: get_chan_def put_chan_def update_conv')

lemma keys_put: "distinct (map fst (channels t)) \<Longrightarrow> distinct (map fst (channels (put_chan k c t)))"
  by (simp add: put_chan_def distinct_update)

lemma tracker_ok_put: "tracker_ok tidy t \<Longrightarrow> chan_ok tidy k c \<Longrightarrow> tracker_ok tidy (put_chan k c t)"
  by (simp add: tracker_ok_def keys_put)

lemma chan_okI: "tracker_ok tidy t \<Longrightarrow> get_chan name t = Some c \<Longrightarrow> chan_ok tidy name c"
  by (simp add: tracker_ok_def)

lemma member_set_put: "member_set n (put_chan k c t) = (if n = k then set (members c) else member_set n t)"
  by (simp add: member_set_def)

text \<open>Changing one channel together with the user list of the same name.\<close>

lemma linked_put:
  assumes "linked tidy ui (t, es)" "chan_ok tidy k c"
    and "\<And>ui'. ui_effects es ui = Some ui' \<Longrightarrow> mirrors tidy t ui' \<Longrightarrow>
      \<exists>l. ui_effects fs ui' = Some (ui'(k := l)) \<and> (tidy \<longrightarrow> set l = set (members c))"
  shows "linked tidy ui (put_chan k c t, es @ fs)"
proof -
  obtain ui' where ui': "ui_effects es ui = Some ui'" "mirrors tidy t ui'" using assms(1) by (auto simp: linked_def)
  then obtain l where "ui_effects fs ui' = Some (ui'(k := l))" "tidy \<longrightarrow> set l = set (members c)" using assms(3) by blast
  then show ?thesis using ui' assms(1,2)
    by (auto simp: linked_def ui_effects_append tracker_ok_put mirrors_def member_set_put)
qed

lemma linked_emit:
  "linked tidy ui out \<Longrightarrow> (\<And>ui. ui_effect e ui = Some ui) \<Longrightarrow> linked tidy ui (emit e out)"
  by (auto simp: linked_def emit_def ui_effects_append)

lemma linked_join:
  assumes "linked tidy ui out" "get_chan name (fst out) = Some c" "\<not> is_query name" "tidy \<Longrightarrow> joined c \<and> user \<notin> set (members c)"
  shows "linked tidy ui (channel_user_join name user out)"
proof -
  obtain t es where out: "out = (t, es)" by (cases out)
  have "chan_ok tidy name c" using assms(1,2) by (auto simp: out linked_def intro: chan_okI)
  then have "chan_ok tidy name (c\<lparr>members := members c @ [user]\<rparr>)" "chan_name c = name"
    using assms(3,4) by (auto simp: chan_ok_def)
  moreover have "linked tidy ui (put_chan name (c\<lparr>members := members c @ [user]\<rparr>) t, es @ [User_join (chan_name c) user])"
    using assms(2,3) calculation
    by (intro linked_put) (use assms(1) out in \<open>auto simp: ui_user_join_def mirrors_def member_set_def intro!: exI\<close>)
  ultimately show ?thesis using assms(2) by (simp add: out channel_user_join_def)
qed

lemma linked_leave:
  assumes "linked tidy ui out" "\<not> is_query name"
  shows "linked tidy ui (channel_user_leave name user out)"
proof (cases "get_chan name (fst out)")
  case None
  then show ?thesis using assms by (simp add: channel_user_leave_def)
next
  case (Some c)
  obtain t es where out: "out = (t, es)" by (cases out)
  have ok: "chan_ok tidy name c" using assms(1) Some by (auto simp: out linked_def intro: chan_okI)
  then have "chan_ok tidy name (c\<lparr>members := remove1 user (members c)\<rparr>)" "chan_name c = name"
    "tidy \<Longrightarrow> set (remove1 user (members c)) = set (members c) - {user}"
    by (auto simp: chan_ok_def)
  moreover have "linked tidy ui (put_chan name (c\<lparr>members := remove1 user (members c)\<rparr>) t, es @ [User_leave (chan_name c) user])"
    using assms(2) Some calculation
    by (intro linked_put) (use assms(1) out in \<open>auto simp: ui_user_leave_def mirrors_def member_set_def intro!: exI\<close>)
  ultimately show ?thesis using Some by (simp add: out channel_user_leave_def)
qed

lemma linked_set_joined:
  assumes "linked tidy ui out"
  shows "linked tidy ui (channel_set_joined name b out)"
proof (cases "get_chan name (fst out)")
  case None
  then show ?thesis using assms by (simp add: channel_set_joined_def)
next
  case (Some c)
  obtain t es where out: "out = (t, es)" by (cases out)
  have ok: "chan_ok tidy name c" using assms Some by (auto simp: out linked_def intro: chan_okI)
  show ?thesis
  proof (cases "joined c = b")
    case True
    then show ?thesis using Some assms by (simp add: channel_set_joined_def)
  next
    case False
    let ?c = "(if b then c else c\<lparr>members := []\<rparr>)\<lparr>joined := b\<rparr>"
    have c: "chan_ok tidy name ?c" "\<not> b \<or> is_query name \<Longrightarrow> members ?c = []" "chan_name ?c = name" "joined ?c = b"
      using ok False by (auto simp: chan_ok_def)
    have "linked tidy ui (put_chan name ?c t, es @ [Set_joined ?c])"
    proof (rule linked_put [OF assms [unfolded out] c(1)])
      fix ui' assume "mirrors tidy t ui'"
      then have "tidy \<Longrightarrow> is_query name \<Longrightarrow> ui' name = []" using ok Some out
        by (auto simp: mirrors_def member_set_def chan_ok_def dest!: spec [of _ name])
      then show "\<exists>l. ui_effects [Set_joined ?c] ui' = Some (ui'(name := l)) \<and> (tidy \<longrightarrow> set l = set (members ?c))"
      proof (cases "is_query name")
        case True
        then show ?thesis using c(2-4) \<open>tidy \<Longrightarrow> is_query name \<Longrightarrow> ui' name = []\<close>
          by (cases b) (auto simp: ui_set_joined_def Let_def intro!: exI [of _ "ui' name"])
      next
        case False
        then show ?thesis using c(2-4)
          by (cases b) (auto simp: ui_set_joined_def uv_clear_def Let_def set_fold_add)
      qed
    qed
    then show ?thesis using Some False by (simp add: out channel_set_joined_def Let_def)
  qed
qed

lemma linked_get_channel:
  assumes "linked tidy ui (t, es)"
  shows "linked tidy ui (snd (get_channel name t), es)" "chan_ok tidy name (fst (get_channel name t))"
    "get_chan name (snd (get_channel name t)) = Some (fst (get_channel name t))"
    "member_set n (snd (get_channel name t)) = member_set n t"
proof -
  let ?c = "fst (get_channel name t)"
  have snd: "snd (get_channel name t) = put_chan name ?c t" by (simp add: get_channel_def Let_def)
  have ok: "\<And>c. get_chan name t = Some c \<Longrightarrow> chan_ok tidy name c" using assms by (auto simp: linked_def intro: chan_okI)
  have c: "chan_ok tidy name ?c" "set (members ?c) = member_set name t"
    using ok by (auto simp: get_channel_def Let_def member_set_def chan_ok_def new_channel_def is_query_def split: option.splits)
  show "chan_ok tidy name ?c" by (rule c)
  show "get_chan name (snd (get_channel name t)) = Some ?c" by (simp add: snd)
  show "member_set n (snd (get_channel name t)) = member_set n t" by (auto simp: snd member_set_put c)
  have "linked tidy ui (put_chan name ?c t, es @ [])"
    by (rule linked_put [OF assms c(1)]) (use c in \<open>auto simp: mirrors_def intro!: exI\<close>)
  then show "linked tidy ui (snd (get_channel name t), es)" by (simp add: snd)
qed

text \<open>Loops over all channels.\<close>

definition touches :: "bytes \<Rightarrow> outcome \<Rightarrow> outcome \<Rightarrow> bool" where
  "touches k out out' \<longleftrightarrow> (\<forall>n. n \<noteq> k \<longrightarrow> get_chan n (fst out') = get_chan n (fst out))"

lemma touches_simps [simp]:
  "touches k out out" "touches k out (emit e out') \<longleftrightarrow> touches k out out'"
  "touches k out out' \<Longrightarrow> touches k out (channel_user_leave k u out')"
  "touches k out out' \<Longrightarrow> touches k out (channel_user_join k u out')"
  "touches k out out' \<Longrightarrow> touches k out (channel_set_joined k b out')"
  by (auto simp: touches_def emit_def channel_user_leave_def channel_user_join_def channel_set_joined_def Let_def
      split: option.splits)

lemma linked_each:
  assumes "linked tidy ui (t, [])"
    and step: "\<And>k c out. linked tidy ui out \<Longrightarrow> get_chan k (fst out) = Some c \<Longrightarrow> get_chan k t = Some c \<Longrightarrow>
      linked tidy ui (f k c out) \<and> touches k out (f k c out)"
  shows "linked tidy ui (each_channel f (t, []))"
proof -
  have "linked tidy ui (fold (\<lambda>(k, c). f k c) l out)"
    if "linked tidy ui out" "distinct (map fst l)" "\<And>k c. (k, c) \<in> set l \<Longrightarrow> get_chan k (fst out) = Some c \<and> get_chan k t = Some c"
    for l out
    using that
  proof (induction l arbitrary: out)
    case (Cons kc l)
    obtain k c where kc: "kc = (k, c)" by (cases kc)
    have "get_chan k (fst out) = Some c" "get_chan k t = Some c" using Cons.prems(3) kc by auto
    then have one: "linked tidy ui (f k c out)" "touches k out (f k c out)" using step Cons.prems(1) by simp_all
    have "get_chan n (fst (f k c out)) = Some d \<and> get_chan n t = Some d" if nd: "(n, d) \<in> set l" for n d
    proof -
      have "n \<noteq> k" using Cons.prems(2) nd kc by force
      then show ?thesis using one(2) Cons.prems(3) [of n d] nd by (simp add: touches_def)
    qed
    then show ?case using Cons.IH [OF one(1)] Cons.prems(2) kc by simp
  qed simp
  moreover have "distinct (map fst (channels t))" using assms(1) by (simp add: linked_def tracker_ok_def)
  ultimately show ?thesis using assms(1) by (simp add: each_channel_def get_chan_def)
qed

subsection \<open>The commands\<close>

lemma linked_start: "tracker_ok tidy t \<Longrightarrow> mirrors tidy t ui \<Longrightarrow> linked tidy ui (t, [])"
  by (simp add: linked_def)

lemma linked_frame:
  "linked tidy ui (t, es) \<Longrightarrow> channels t' = channels t \<Longrightarrow> linked tidy ui (t', es)"
  by (simp add: linked_def tracker_ok_def mirrors_def member_set_def get_chan_def)

lemma linked_snoc: "linked tidy ui (t, es) \<Longrightarrow> (\<And>ui. ui_effect e ui = Some ui) \<Longrightarrow> linked tidy ui (t, es @ [e])"
  using linked_emit [of tidy ui "(t, es)" e] by (simp add: emit_def)

lemma linked_single: "linked tidy ui (t, []) \<Longrightarrow> (\<And>ui. ui_effect e ui = Some ui) \<Longrightarrow> linked tidy ui (t, [e])"
  using linked_snoc [of tidy ui t "[]" e] by simp

lemma emit_chan [simp]: "get_chan k (fst (emit e out)) = get_chan k (fst out)"
  by (simp add: emit_def)

lemma linked_welcome:
  assumes "linked tidy ui (t, [])" "\<And>name. tidy \<Longrightarrow> member_set name t = {}"
  shows "linked tidy ui (on_welcome nick t)"
  using assms by (auto simp: on_welcome_def linked_def tracker_ok_def mirrors_def member_set_def get_chan_def)

lemma linked_on_join:
  assumes "linked tidy ui (t, [])" "\<not> is_query name" "tidy \<Longrightarrow> source \<notin> member_set name t"
    and "tidy \<Longrightarrow> source = mynick t \<or> (\<exists>c. get_chan name t = Some c \<and> joined c)"
  shows "linked tidy ui (on_join source ident name t)"
proof -
  obtain c t' where g: "get_channel name t = (c, t')" by (cases "get_channel name t")
  have t'': "linked tidy ui (t', [])" "chan_ok tidy name c" "get_chan name t' = Some c" "member_set name t' = member_set name t"
    using linked_get_channel(1-3) [OF assms(1), of name] linked_get_channel(4) [OF assms(1), where n = name and name = name] g
    by simp_all
  then have t': "linked tidy ui (t', [])" "chan_ok tidy name c" "get_chan name t' = Some c" "set (members c) = member_set name t"
    by (simp_all add: member_set_def [of name t'])
  have nm: "chan_name c = name" using t'(2) by (simp add: chan_ok_def)
  define out where "out = (if source = mynick t
    then emit (Channel_msg (chan_name c) (join_imp t) ([3] @ str ''9** Now talking on '' @ name)) (channel_set_joined name True (t', []))
    else (t', []))"
  have lnk: "linked tidy ui out" using t'(1) by (simp add: out_def linked_emit linked_set_joined)
  have named: "chan_name d = name" if "get_chan name t = Some d" for d
    using that assms(1) chan_okI [of tidy t name d] by (simp add: linked_def chan_ok_def)
  have "name \<noteq> []" using assms(2) by (auto simp: is_query_def)
  then have "joined c" if "tidy" "source \<noteq> mynick t"
    using assms(4) that g named by (auto simp: get_channel_def Let_def split: if_splits)
  then have "\<exists>c'. get_chan name (fst out) = Some c' \<and> (tidy \<longrightarrow> joined c') \<and> members c' = members c"
    using t'(3) by (auto simp: out_def channel_set_joined_def Let_def)
  then obtain c' where c': "get_chan name (fst out) = Some c'" "tidy \<longrightarrow> joined c'" "members c' = members c" by blast
  define e where "e = Channel_msg_mergeable (chan_name c) (join_imp t)
                ([3] @ str ''9* '' @ [2] @ source @ [2] @ str '' ('' @ ident @ str '') has joined '' @ name)
                ([3] @ str ''9+'' @ source)"
  have "on_join source ident name t = channel_user_join name source (emit e out)"
    by (simp add: on_join_def g out_def e_def Let_def del: str_simps)
  moreover have "linked tidy ui (emit e out)" using lnk by (rule linked_emit) (simp add: e_def)
  ultimately show ?thesis
    using linked_join [of tidy ui "emit e out" name c' source] c' assms(2,3) t'(4) by simp
qed

lemma linked_on_nick:
  assumes "linked tidy ui (t, [])"
    and "\<And>name. tidy \<Longrightarrow> source \<in> member_set name t \<Longrightarrow> new = source \<or> new \<notin> member_set name t"
  shows "linked tidy ui (on_nick source new t)"
proof -
  let ?f = "\<lambda>k c out.
    if is_query (chan_name c) then out
    else if source \<in> set (members c) then
      channel_user_join k new (channel_user_leave k source
        (emit (Channel_msg_mergeable (chan_name c) (join_imp t)
           ([3] @ str ''7* '' @ source @ str '' is now known as '' @ new)
           ([3] @ str ''7'' @ source @ str ''->'' @ new)) out))
    else out"
  have "linked tidy ui (each_channel ?f (t, []))"
  proof (rule linked_each [OF assms(1)])
    fix k c out
    assume out: "linked tidy ui out" "get_chan k (fst out) = Some c" and kc: "get_chan k t = Some c"
    have ok: "chan_ok tidy k c" using assms(1) kc by (auto simp: linked_def intro: chan_okI)
    show "linked tidy ui (?f k c out) \<and> touches k out (?f k c out)"
    proof (cases "is_query (chan_name c) \<or> source \<notin> set (members c)")
      case False
      define e where "e = Channel_msg_mergeable (chan_name c) (join_imp t)
           ([3] @ str ''7* '' @ source @ str '' is now known as '' @ new)
           ([3] @ str ''7'' @ source @ str ''->'' @ new)"
      have q: "\<not> is_query k" "tidy \<Longrightarrow> joined c \<and> distinct (members c)" using ok False by (auto simp: chan_ok_def)
      have one: "linked tidy ui (channel_user_leave k source (emit e out))"
        by (intro linked_leave linked_emit out q) (simp add: e_def)
      have "source \<in> member_set k t" using kc False by (simp add: member_set_def)
      then have "new \<notin> set (remove1 source (members c))" if tidy
        using assms(2) [of k] kc q(2) that by (auto simp: member_set_def)
      then have "linked tidy ui (channel_user_join k new (channel_user_leave k source (emit e out)))"
        using out(2) q by (intro linked_join [OF one, of _ "c\<lparr>members := remove1 source (members c)\<rparr>"])
          (simp_all add: channel_user_leave_def)
      then show ?thesis using False unfolding e_def [symmetric] by simp
    qed (use out in auto)
  qed
  then show ?thesis unfolding on_nick_def by (auto split: prod.splits intro: linked_frame)
qed

lemma linked_on_part:
  assumes "linked tidy ui (t, [])" "\<not> is_query name"
  shows "linked tidy ui (on_part source ident name reason t)"
proof (cases "get_chan name t")
  case (Some c)
  then show ?thesis using assms
    by (auto simp: on_part_def Let_def simp del: str_simps intro!: linked_set_joined linked_leave linked_emit)
qed (simp add: on_part_def assms)

lemma linked_on_kick:
  assumes "linked tidy ui (t, [])" "\<not> is_query name"
  shows "linked tidy ui (on_kick source name victim reason t)"
proof (cases "get_chan name t")
  case (Some c)
  then show ?thesis using assms
    by (auto simp: on_kick_def Let_def simp del: str_simps intro!: linked_set_joined linked_leave linked_emit)
qed (simp add: on_kick_def assms)

lemma linked_on_quit:
  assumes "linked tidy ui (t, [])"
  shows "linked tidy ui (on_quit source reason t)"
  unfolding on_quit_def
proof (rule linked_each [OF assms])
  fix k c out
  assume out: "linked tidy ui out" "get_chan k (fst out) = Some c" and kc: "get_chan k t = Some c"
  have "chan_ok tidy k c" using assms kc by (auto simp: linked_def intro: chan_okI)
  then have k: "chan_name c = k" by (simp add: chan_ok_def)
  define e where "e = Channel_msg_mergeable (chan_name c) (join_imp t)
        ([3] @ str ''5* '' @ source @ str '' has quit ('' @ reason @ str '')'') ([3] @ str ''5-'' @ source)"
  have "linked tidy ui (emit e out)" by (intro linked_emit out) (simp add: e_def)
  then show "linked tidy ui (if is_query (chan_name c) then out else if source \<in> set (members c) then
        channel_user_leave k source (emit (Channel_msg_mergeable (chan_name c) (join_imp t)
          ([3] @ str ''5* '' @ source @ str '' has quit ('' @ reason @ str '')'') ([3] @ str ''5-'' @ source)) out) else out) \<and>
      touches k out (if is_query (chan_name c) then out else if source \<in> set (members c) then
        channel_user_leave k source (emit (Channel_msg_mergeable (chan_name c) (join_imp t)
          ([3] @ str ''5* '' @ source @ str '' has quit ('' @ reason @ str '')'') ([3] @ str ''5-'' @ source)) out) else out)"
    unfolding e_def [symmetric] using out k by (auto intro: linked_leave)
qed

lemma linked_names:
  assumes "linked tidy ui (t, [])" "\<not> is_query name" "\<And>c. tidy \<Longrightarrow> get_chan name t = Some c \<Longrightarrow> joined c"
    and "on_names name users t = Some out"
  shows "linked tidy ui out"
proof (cases "get_chan name t")
  case (Some c)
  have step: "linked tidy ui (add_name name u out) \<and> (\<exists>c. get_chan name (fst (add_name name u out)) = Some c \<and> (tidy \<longrightarrow> joined c))"
    if "linked tidy ui out" "\<exists>c. get_chan name (fst out) = Some c \<and> (tidy \<longrightarrow> joined c)" for u out
    using that assms(2) by (auto simp: add_name_def Let_def intro: linked_join) (auto simp: channel_user_join_def)
  have "linked tidy ui (fold (add_name name) us out) " if "linked tidy ui out" "\<exists>c. get_chan name (fst out) = Some c \<and> (tidy \<longrightarrow> joined c)" for us out
    using that by (induction us arbitrary: out) (use step in auto)
  then show ?thesis using assms Some by (auto simp: on_names_def)
qed (use assms in \<open>simp add: on_names_def\<close>)

lemma linked_message:
  assumes "linked tidy ui (t, [])" "do_message is_action source target msg t = Some out"
  shows "linked tidy ui out"
proof -
  let ?name = "if is_query target then source else target"
  obtain c t' where g: "get_channel ?name t = (c, t')" by (cases "get_channel ?name t")
  have "linked tidy ui (t', [])" using linked_get_channel(1) [OF assms(1), of ?name] by (simp only: g snd_conv)
  then show ?thesis using assms(2) by (auto simp: do_message_def g Let_def intro!: linked_single)
qed

lemma linked_privmsg:
  assumes "linked tidy ui (t, [])" "on_privmsg source target msg t = Some out"
  shows "linked tidy ui out"
  using assms
  by (auto simp: on_privmsg_def simp del: str_simps intro: linked_message linked_single split: if_splits bind_splits)

lemma linked_notice: "linked tidy ui (t, []) \<Longrightarrow> linked tidy ui (on_notice source target msg t)"
  using linked_get_channel(1) [of tidy ui t "[]" target]
  by (auto simp: on_notice_def Let_def simp del: str_simps intro!: linked_single split: prod.splits)

lemma linked_mode: "linked tidy ui (t, []) \<Longrightarrow> linked tidy ui (on_mode source name parts t)"
  by (auto simp: on_mode_def Let_def simp del: str_simps intro!: linked_single split: option.splits)

lemma linked_disconnected:
  assumes "linked tidy ui (t, [])"
  shows "linked tidy ui (tracker_disconnected t)"
proof -
  have "linked tidy ui (each_channel (\<lambda>k c out.
      if joined c \<and> \<not> is_query (chan_name c)
      then emit (Channel_msg (chan_name c) (join_imp t) ([3] @ str ''5** Disconnected'')) (channel_set_joined k False out)
      else out) (t, []))"
    by (rule linked_each [OF assms]) (auto simp del: str_simps intro!: linked_emit linked_set_joined)
  then show ?thesis unfolding tracker_disconnected_def by (auto split: prod.splits intro: linked_frame)
qed

subsection \<open>Sessions\<close>

text \<open>
  What a well-behaved server promises about a line. Users join and leave channels, not queries, and names lists
  are those of channels. As long as the tracker is tidy, a promise can also refer to what it knows: users join
  channels they are not in and that the client is in; a new nick is free; names lists are those of channels
  the client is in; a welcome comes when no channel is joined any more.
\<close>

definition promised :: "bool \<Rightarrow> bytes \<Rightarrow> bytes list \<Rightarrow> nat \<Rightarrow> bytes \<Rightarrow> tracker \<Rightarrow> bool" where
  "promised tidy source parts room cmd t \<longleftrightarrow>
     (\<forall>name. arg parts room 2 = Some name \<longrightarrow>
        (cmd = str ''JOIN'' \<longrightarrow> \<not> is_query name \<and>
           (tidy \<longrightarrow> source \<notin> member_set name t \<and> (source = mynick t \<or> (\<exists>c. get_chan name t = Some c \<and> joined c)))) \<and>
        (cmd = str ''PART'' \<or> cmd = str ''KICK'' \<longrightarrow> \<not> is_query name) \<and>
        (tidy \<and> cmd = str ''NICK'' \<longrightarrow> (\<forall>ch. source \<in> member_set ch t \<longrightarrow> name = source \<or> name \<notin> member_set ch t))) \<and>
     (cmd = str ''353'' \<longrightarrow> (\<forall>name c. arg parts room 4 = Some name \<longrightarrow> get_chan name t = Some c \<longrightarrow>
        \<not> is_query name \<and> (tidy \<longrightarrow> joined c))) \<and>
     (tidy \<and> cmd = str ''001'' \<longrightarrow> (\<forall>ch. member_set ch t = {}))"

lemma linked_command:
  assumes lnk: "linked tidy ui (t, [])" and cmd: "ircline_command line parts room source ident cmd t = Some out"
    and ok: "promised tidy source parts room cmd t"
  shows "linked tidy ui out"
proof -
  note splits = if_splits bind_splits option.splits
  have single: "linked tidy ui (t, [Server_msg i x])" "linked tidy ui (t, [Temp_msg i x])" for i x
    using linked_single [OF lnk] by simp_all
  consider "cmd = str ''001''" | "cmd = str ''JOIN''" | "cmd = str ''NICK''" | "cmd = str ''PART''" | "cmd = str ''KICK''"
    | "cmd = str ''QUIT''" | "cmd = str ''353''" | "cmd = str ''PRIVMSG''" | "cmd = str ''NOTICE''" | "cmd = str ''MODE''"
    | "cmd \<notin> {str ''001'', str ''JOIN'', str ''NICK'', str ''PART'', str ''KICK'', str ''QUIT'', str ''353'', str ''PRIVMSG'',
        str ''NOTICE'', str ''MODE''}" by blast
  then show ?thesis
  proof cases
    case 1
    obtain nick where "out = on_welcome nick t" using cmd by (auto simp: ircline_command_def 1)
    then show ?thesis using linked_welcome [OF lnk] ok by (simp add: promised_def 1)
  next
    case 2
    obtain name where "arg parts room 2 = Some name" "out = on_join source ident name t"
      using cmd by (auto simp: ircline_command_def 2)
    then show ?thesis using linked_on_join [OF lnk, of name source ident] ok by (simp add: promised_def 2)
  next
    case 3
    have "out = (t, []) \<or> (\<exists>new. arg parts room 2 = Some new \<and> out = on_nick source new t)"
      using cmd by (auto simp: ircline_command_def 3 split: if_splits)
    then show ?thesis using linked_on_nick [OF lnk, of source] ok lnk by (auto simp: promised_def 3)
  next
    case 4
    obtain name r where "arg parts room 2 = Some name" "out = on_part source ident name r t"
      using cmd by (auto simp: ircline_command_def 4)
    then show ?thesis using linked_on_part [OF lnk, of name] ok by (simp add: promised_def 4)
  next
    case 5
    have "out = (t, []) \<or> (\<exists>name v r. arg parts room 2 = Some name \<and> out = on_kick source name v r t)"
      using cmd by (auto simp: ircline_command_def Let_def 5 split: splits)
    then show ?thesis using linked_on_kick [OF lnk] ok lnk by (auto simp: promised_def 5)
  next
    case 6
    have "out = (t, []) \<or> (\<exists>r. out = on_quit source r t)"
      using cmd by (auto simp: ircline_command_def 6 split: if_splits)
    then show ?thesis using linked_on_quit [OF lnk] lnk by auto
  next
    case 7
    have "out = (t, []) \<or> (\<exists>name us. arg parts room 4 = Some name \<and> get_chan name t \<noteq> None \<and> on_names name us t = Some out)"
      using cmd by (auto simp: ircline_command_def Let_def 7 split: splits)
    then consider "out = (t, [])"
      | name us where "arg parts room 4 = Some name" "get_chan name t \<noteq> None" "on_names name us t = Some out" by blast
    then show ?thesis
    proof cases
      case (2 name us)
      then have "\<not> is_query name" "\<And>c. tidy \<Longrightarrow> get_chan name t = Some c \<Longrightarrow> joined c" using ok by (auto simp: promised_def 7)
      then show ?thesis using linked_names [OF lnk] 2(3) by blast
    qed (simp add: lnk)
  next
    case 8
    obtain target msg where "on_privmsg source target msg t = Some out"
      using cmd by (auto simp: ircline_command_def Let_def 8 split: splits)
    then show ?thesis by (rule linked_privmsg [OF lnk])
  next
    case 9
    obtain target msg where "out = on_notice source target msg t"
      using cmd by (auto simp: ircline_command_def Let_def 9 split: splits)
    then show ?thesis using linked_notice [OF lnk] by simp
  next
    case 10
    have "(\<exists>name. out = on_mode source name parts t) \<or> out = (t, [Server_msg Imp_status line])"
      using cmd by (auto simp: ircline_command_def Let_def 10 split: splits)
    then show ?thesis using linked_mode [OF lnk] single by auto
  next
    case 11
    then have "out = (t, []) \<or> (\<exists>x. out = (t, [Temp_msg Imp_status x])) \<or> out = (t, [Server_msg Imp_status line])"
      using cmd by (auto simp: ircline_command_def Let_def simp del: str_simps split: splits)
    then show ?thesis using lnk single by auto
  qed
qed

text \<open>
  The tracker and the lists together, as the lines, the status reports and the states of the bouncer drive them. A
  state comes from the tracker of the bouncer. Loading it keeps things tidy when the lists are empty, as they are
  after a status report.
\<close>

inductive session :: "bool \<Rightarrow> tracker \<Rightarrow> userlists \<Rightarrow> bool" where
  start: "channels t = [] \<Longrightarrow> session True t (\<lambda>_. [])"
| receive: "session tidy t ui \<Longrightarrow> source_of (padded parts 0) = Some source \<Longrightarrow>
    promised tidy source parts room (padded parts 1) t \<Longrightarrow>
    ircline line parts room t = Some (t', es) \<Longrightarrow> ui_effects es ui = Some ui' \<Longrightarrow> session tidy t' ui'"
| status: "session tidy t ui \<Longrightarrow> ui_connect_status t ui = Some (t', ui') \<Longrightarrow> session tidy t' ui'"
| load: "session tidy t ui \<Longrightarrow> tracker_ok True state \<Longrightarrow> ui_load_state host (save_state sse state) t ui = Some (t', ui') \<Longrightarrow>
    session (tidy \<and> (\<forall>name. ui name = [])) t' ui'"

lemma linked_ircline:
  assumes "linked tidy ui (t, [])" "source_of (padded parts 0) = Some source" "promised tidy source parts room (padded parts 1) t"
    and "ircline line parts room t = Some out"
  shows "linked tidy ui out"
proof -
  have arg: "arg parts room i = Some p \<Longrightarrow> p = padded parts i" for i p
    by (auto simp: arg_def padded_def split: if_splits)
  obtain ident where run: "ircline_command line parts room source ident (padded parts 1)
      (if source = mynick t then t\<lparr>myident := ident\<rparr> else t) = Some out"
    using assms(2,4) by (auto simp: ircline_def split: bind_splits dest!: arg)
  have "linked tidy ui (if source = mynick t then t\<lparr>myident := ident\<rparr> else t, [])"
    using assms(1) by (auto intro: linked_frame)
  moreover have "promised tidy source parts room (padded parts 1) (if source = mynick t then t\<lparr>myident := ident\<rparr> else t)"
    using assms(3) by (cases "source = mynick t") (simp_all add: promised_def member_set_def get_chan_def del: str_simps)
  ultimately show ?thesis using run linked_command by blast
qed

text \<open>Losing the connection: the lists are emptied first, and then the tracker has no member left.\<close>

lemma quiet_effects:
  "\<forall>e \<in> set es. (\<exists>c. e = Set_joined c \<and> \<not> joined c) \<or> (\<forall>ui. ui_effect e ui = Some ui) \<Longrightarrow>
    ui_effects es (\<lambda>_. []) = Some (\<lambda>_. [])"
proof (induction es)
  case (Cons e es)
  have "ui_effect e (\<lambda>_. []) = Some (\<lambda>_. [])"
    using Cons.prems by (auto simp: ui_set_joined_def uv_clear_def Let_def fun_upd_idem)
  then show ?case using Cons by simp
qed simp

lemma disconnected_quiet:
  assumes "linked tidy ui (t, [])" "tracker_disconnected t = (t', es)"
  shows "tidy \<Longrightarrow> member_set name t' = {}"
    and "\<forall>e \<in> set es. (\<exists>c. e = Set_joined c \<and> \<not> joined c) \<or> (\<forall>ui. ui_effect e ui = Some ui)"
proof -
  let ?f = "\<lambda>k c out. if joined c \<and> \<not> is_query (chan_name c)
    then emit (Channel_msg (chan_name c) (join_imp t) ([3] @ str ''5** Disconnected'')) (channel_set_joined k False out)
    else out"
  let ?quiet = "\<lambda>e. (\<exists>c. e = Set_joined c \<and> \<not> joined c) \<or> (\<forall>ui. ui_effect e ui = Some ui)"
  have run: "(\<forall>e \<in> set (snd (fold (\<lambda>(k, c). ?f k c) l out)). ?quiet e) \<and>
      get_chan n (fst (fold (\<lambda>(k, c). ?f k c) l out)) =
        (case map_of l n of None \<Rightarrow> get_chan n (fst out)
         | Some c \<Rightarrow> if joined c \<and> \<not> is_query (chan_name c) then Some (c\<lparr>members := [], joined := False\<rparr>) else Some c)"
    if "\<forall>e \<in> set (snd out). ?quiet e" "distinct (map fst l)" "\<And>k c. (k, c) \<in> set l \<Longrightarrow> get_chan k (fst out) = Some c" for l out n
    using that
  proof (induction l arbitrary: out)
    case (Cons kc l)
    obtain k c where kc: "kc = (k, c)" by (cases kc)
    have c: "get_chan k (fst out) = Some c" using Cons.prems(3) kc by auto
    have one: "get_chan m (fst (?f k c out)) = (if m = k \<and> joined c \<and> \<not> is_query (chan_name c)
        then Some (c\<lparr>members := [], joined := False\<rparr>) else get_chan m (fst out))"
      "\<forall>e \<in> set (snd (?f k c out)). ?quiet e" for m
      using c Cons.prems(1) by (auto simp: channel_set_joined_def emit_def Let_def simp del: str_simps)
    have fresh: "k \<notin> fst ` set l" using Cons.prems(2) kc by simp
    then have "get_chan m (fst (?f k c out)) = Some d" if "(m, d) \<in> set l" for m d
      using Cons.prems(3) [of m d] that one(1) [of m] by (force simp: kc)
    note IH = Cons.IH [OF one(2) _ this]
    show ?case using IH Cons.prems(2) fresh one(1) [of n] c
      by (auto simp: kc split: option.splits dest: map_of_SomeD) (force dest: map_of_SomeD)+
  qed simp
  have t': "channels t' = channels (fst (each_channel ?f (t, [])))" "es = snd (each_channel ?f (t, []))"
    using assms(2) by (auto simp: tracker_disconnected_def split: prod.splits)
  have ok: "tracker_ok tidy t" using assms(1) by (simp add: linked_def)
  then have d: "distinct (map fst (channels t))" "\<And>k c. (k, c) \<in> set (channels t) \<Longrightarrow> get_chan k t = Some c"
    by (simp_all add: tracker_ok_def get_chan_def)
  note R = run [of "(t, [])" "channels t", simplified fst_conv snd_conv, OF _ d, folded each_channel_def]
  show "\<forall>e \<in> set es. ?quiet e" using R t'(2) by (simp add: each_channel_def)
  have "get_chan name t' = (case get_chan name t of None \<Rightarrow> None
      | Some c \<Rightarrow> if joined c \<and> \<not> is_query (chan_name c) then Some (c\<lparr>members := [], joined := False\<rparr>) else Some c)"
    using R [of name] t'(1) by (simp add: each_channel_def get_chan_def split: option.splits)
  then show "tidy \<Longrightarrow> member_set name t' = {}"
    using chan_okI [OF ok, of name] by (auto simp: member_set_def chan_ok_def split: option.splits if_splits)
qed

lemma linked_status:
  assumes "linked tidy ui (t, [])"
  shows "\<exists>t'. ui_connect_status t ui = Some (t', \<lambda>_. []) \<and> linked tidy (\<lambda>_. []) (t', [])"
proof -
  obtain t' es where run: "tracker_disconnected t = (t', es)" by (cases "tracker_disconnected t")
  have "tracker_ok tidy t'" using linked_disconnected [OF assms] run by (simp add: linked_def)
  then show ?thesis using disconnected_quiet [OF assms run] quiet_effects [of es]
    by (simp add: ui_connect_status_def run uv_clear_def linked_def mirrors_def)
qed


text \<open>Taking over a state of the bouncer.\<close>

lemma merged_ok:
  assumes "tracker_ok tidy t" "tracker_ok True state" "tidy' \<Longrightarrow> tidy \<and> (\<forall>name. member_set name t = {})"
  shows "tracker_ok tidy' (merge_state state t)"
    "tidy' \<Longrightarrow> get_chan name (merge_state state t) = (case get_chan name state of None \<Rightarrow> get_chan name t | Some c \<Rightarrow> Some c)"
proof -
  have keys: "distinct (map fst (channels state))" "distinct (map fst (channels t))"
    using assms(1,2) by (simp_all add: tracker_ok_def)
  have chan: "get_chan name (merge_state state t) =
      (case get_chan name state of
         None \<Rightarrow> get_chan name t
       | Some c \<Rightarrow> Some (c\<lparr>members := (case get_chan name t of Some d \<Rightarrow> members d | None \<Rightarrow> []) @ members c\<rparr>))" for name
    using fold_merge_nodes(1) [OF keys, of name]
    by (auto simp: get_chan_def merge_state_def merge_channel_def new_channel_def split: option.splits)
  have none: "members d = []" if "tidy'" "get_chan name t = Some d" for d name
    using assms(3) [OF that(1)] that(2) by (auto simp: member_set_def dest: spec [of _ name])
  have named: "chan_ok True name c" if "get_chan name state = Some c" for name c
    using that assms(2) by (simp add: tracker_ok_def)
  have ok: "chan_ok tidy' name c" if "get_chan name (merge_state state t) = Some c" for name c
    using that chan [of name] named [of name] chan_okI [OF assms(1), of name] none [of name] assms(3)
    by (auto simp: chan_ok_def split: option.splits)
  show "tracker_ok tidy' (merge_state state t)"
    using ok fold_merge_nodes(2) [OF keys] by (simp add: tracker_ok_def) (simp add: merge_state_def)
  show "tidy' \<Longrightarrow> get_chan name (merge_state state t) = (case get_chan name state of None \<Rightarrow> get_chan name t | Some c \<Rightarrow> Some c)"
    using chan [of name] none [of name] by (auto split: option.splits)
qed

lemma map_of_filter:
  "distinct (map fst l) \<Longrightarrow> map_of (filter (\<lambda>kc. P (snd kc)) l) n = (case map_of l n of None \<Rightarrow> None | Some c \<Rightarrow> if P c then Some c else None)"
  by (induction l) (auto split: option.splits simp: map_of_eq_None_iff)

lemma show_channels:
  assumes "distinct (map fst l)" "\<forall>(k, c) \<in> set l. joined c \<and> chan_ok tidy k c \<and> \<not> is_query k"
  shows "\<exists>ui'. ui_effects (map (\<lambda>kc. Set_joined (snd kc)) l) ui = Some ui' \<and>
      (\<forall>n. set (ui' n) = (case map_of l n of None \<Rightarrow> set (ui n) | Some c \<Rightarrow> set (members c)))"
  using assms
proof (induction l arbitrary: ui)
  case (Cons kc l)
  obtain k c where kc: "kc = (k, c)" by (cases kc)
  have c: "joined c" "chan_name c = k" "\<not> is_query k" using Cons.prems(2) by (auto simp: kc chan_ok_def)
  let ?ui = "ui(k := fold uv_add (members c) [])"
  have one: "ui_effect (Set_joined c) ui = Some ?ui" using c by (simp add: ui_set_joined_def uv_clear_def Let_def)
  obtain ui' where "ui_effects (map (\<lambda>kc. Set_joined (snd kc)) l) ?ui = Some ui'"
    "\<forall>n. set (ui' n) = (case map_of l n of None \<Rightarrow> set (?ui n) | Some c \<Rightarrow> set (members c))"
    using Cons.IH [of ?ui] Cons.prems by (simp add: fun_upd_def) blast
  moreover have "map_of l k = None" using Cons.prems(1) by (simp add: kc map_of_eq_None_iff)
  ultimately show ?case using one by (auto simp: kc set_fold_add split: option.splits)
qed simp

lemma linked_load:
  assumes "linked tidy ui (t, [])" "tracker_ok True state"
  shows "\<exists>t' ui'. ui_load_state host (save_state sse state) t ui = Some (t', ui') \<and>
    linked (tidy \<and> (\<forall>name. ui name = [])) ui' (t', [])"
proof -
  define tidy' where "tidy' \<longleftrightarrow> tidy \<and> (\<forall>name. ui name = [])"
  let ?t = "merge_state state t"
  have keys: "distinct (map fst (channels state))" and t: "tracker_ok tidy t"
    using assms by (simp_all add: tracker_ok_def linked_def)
  have empty: "tidy \<and> (\<forall>name. member_set name t = {})" if tidy'
    using that assms(1) by (auto simp: tidy'_def linked_def mirrors_def)
  have ok: "tracker_ok tidy' ?t" using merged_ok(1) [OF t assms(2) empty] .
  then have d: "distinct (map fst (channels ?t))" and named: "\<And>k c. (k, c) \<in> set (channels ?t) \<Longrightarrow> chan_ok tidy' k c"
    by (auto simp: tracker_ok_def get_chan_def)
  let ?l = "filter (\<lambda>kc. joined (snd kc) \<and> \<not> is_query (chan_name (snd kc))) (channels ?t)"
  have "distinct (map fst ?l)" using d by (simp add: distinct_map_filter)
  moreover have "\<forall>(k, c) \<in> set ?l. joined c \<and> chan_ok tidy' k c \<and> \<not> is_query k"
    using named by (auto simp: chan_ok_def)
  ultimately obtain ui' where ui': "ui_effects (map (\<lambda>kc. Set_joined (snd kc)) ?l) ui = Some ui'"
    "\<And>n. set (ui' n) = (case map_of ?l n of None \<Rightarrow> set (ui n) | Some c \<Rightarrow> set (members c))"
    using show_channels [of ?l tidy' ui] by auto
  have "set (ui' name) = member_set name ?t" if tidy' for name
  proof -
    have "ui name = []" using that by (simp add: tidy'_def)
    then show ?thesis
      using that ui'(2) [of name] map_of_filter [OF d, of "\<lambda>c. joined c \<and> \<not> is_query (chan_name c)" name] chan_okI [OF ok, of name]
      by (auto simp: member_set_def get_chan_def chan_ok_def split: option.splits if_splits)
  qed
  then have "linked tidy' ui' (?t, [])" using ok by (simp add: linked_def mirrors_def)
  then show ?thesis using ui'(1) load_saved [OF keys] unfolding tidy'_def by (simp add: ui_load_state_def)
qed

lemma session_linked: "session tidy t ui \<Longrightarrow> linked tidy ui (t, [])"
proof (induction rule: session.induct)
  case (start t)
  then show ?case by (simp add: linked_def tracker_ok_def get_chan_def mirrors_def member_set_def)
next
  case (receive tidy t ui parts source room line t' es ui')
  then have "linked tidy ui (t', es)" using linked_ircline by blast
  then show ?case using receive.hyps by (auto simp: linked_def)
next
  case (status tidy t ui t' ui')
  obtain t'' where "ui_connect_status t ui = Some (t'', \<lambda>_. [])" "linked tidy (\<lambda>_. []) (t'', [])"
    using linked_status [OF status.IH] by blast
  then show ?case using status.hyps(2) by simp
next
  case (load tidy t ui state host sse t' ui')
  obtain t'' ui'' where "ui_load_state host (save_state sse state) t ui = Some (t'', ui'')"
    "linked (tidy \<and> (\<forall>name. ui name = [])) ui'' (t'', [])"
    using linked_load [OF load.IH load.hyps(2)] by blast
  then show ?case using load.hyps(3) by simp
qed



text \<open>
  A client whose connection to the bouncer is replaced (\<^verbatim>\<open>time_ping\<close> and \<^verbatim>\<open>restart_server\<close>, which report no change of
  status) loads a state that it knows already. Every member is then listed twice, and one who leaves is gone from the screen
  and still in the tracker.
\<close>

lemma reload_unmirrored:
  assumes "tracker_ok True t" "get_chan name t = Some c" "\<not> is_query name" "user \<in> set (members c)"
  shows "\<exists>t' ui' t'' ui''. ui_load_state host (save_state sse t) t ui = Some (t', ui') \<and>
    get_chan name t' = Some (c\<lparr>members := members c @ members c\<rparr>) \<and>
    channel_user_leave name user (t', []) = (t'', [User_leave name user]) \<and>
    ui_effects [User_leave name user] ui' = Some ui'' \<and> user \<in> member_set name t'' \<and> user \<notin> set (ui'' name)"
proof -
  have keys: "distinct (map fst (channels t))" using assms(1) by (simp add: tracker_ok_def)
  have "chan_name c = name" using chan_okI [OF assms(1,2)] by (simp add: chan_ok_def)
  have "linked False ui (t, [])" using assms(1) by (auto simp: linked_def tracker_ok_def chan_ok_def mirrors_def)
  then obtain t' ui' where load: "ui_load_state host (save_state sse t) t ui = Some (t', ui')"
    using linked_load [OF _ assms(1)] by blast
  then have "t' = merge_state t t" by (auto simp: ui_load_state_def load_saved [OF keys])
  then have c': "get_chan name t' = Some (c\<lparr>members := members c @ members c\<rparr>)"
    using fold_merge_nodes(1) [OF keys keys, of name] assms(2) by (simp add: get_chan_def merge_state_def merge_channel_def)
  have "user \<in> set (remove1 user (members c @ members c))" using assms(4) by (simp add: remove1_append)
  then show ?thesis
    using load c' assms(3) \<open>chan_name c = name\<close>
    by (auto simp: channel_user_leave_def ui_user_leave_def member_set_def)
qed

end
