(* ===== verification/Irc_Format.thy ===== *)
theory Irc_Format
  imports Irc_Line
begin

text \<open>
  The formatting codes of IRC (\<^verbatim>\<open>parse_irc\<close> in \<^verbatim>\<open>irc.cpp\<close>): a line becomes a list of spans with one
  format each, links are recognised, the codes disappear. The spans are those of \<^verbatim>\<open>textview.h\<close>
  without images, which this parser never makes.
\<close>

record text_span =
  span_text :: bytes
  bold :: bool
  underline :: bool
  italics :: bool
  strike :: bool
  monospace :: bool
  hidden :: bool
  hyperlink :: bool
  i_link :: bool
  fgcol :: u32
  bgcol :: u32

definition fmt_diff :: "text_span \<Rightarrow> text_span \<Rightarrow> nat" where
  "fmt_diff a b =
     of_bool (bold a \<noteq> bold b) + of_bool (underline a \<noteq> underline b) + of_bool (italics a \<noteq> italics b) +
     of_bool (strike a \<noteq> strike b) + of_bool (monospace a \<noteq> monospace b) + of_bool (hyperlink a \<noteq> hyperlink b) +
     of_bool (i_link a \<noteq> i_link b) + of_bool (fgcol a \<noteq> fgcol b) + of_bool (bgcol a \<noteq> bgcol b)"

definition fmt_eq :: "text_span \<Rightarrow> text_span \<Rightarrow> bool" where
  "fmt_eq a b \<longleftrightarrow> fmt_diff a b = 0"

definition colors :: "u32 list" where
  "colors =
     [0xcccccc, 0x000000, 0x3535b3, 0x2a8c2a,
      0xd02a2a, 0x6f2828, 0x80267f, 0xdc721d,
      0xd9a641, 0x3dcc3d, 0x195555, 0x27d6c0,
      0x4545e6, 0xda31da, 0x6c6c6c, 0xafafaf]"

text \<open>The lambda \<^verbatim>\<open>finish\<close>: the pending span goes to the output or into its last span.\<close>

definition finish :: "text_span list \<times> text_span \<Rightarrow> text_span list \<times> text_span" where
  "finish st =
     (let (out, next) = st in
      if span_text next = [] then (out, next)
      else if out \<noteq> [] \<and> fmt_eq (last out) next
      then (butlast out @ [(last out)\<lparr>span_text := span_text (last out) @ span_text next\<rparr>], next\<lparr>span_text := []\<rparr>)
      else (out @ [next], next\<lparr>span_text := []\<rparr>))"

subsection \<open>Links\<close>

fun trim_parens :: "bytes \<Rightarrow> nat \<Rightarrow> nat \<Rightarrow> nat" where
  "trim_parens s 0 e = e"
| "trim_parens s (Suc k) e = (if byte_at s (e - 1) = 0x29 then trim_parens s k (e - 1) else e)"

definition trim_link :: "bytes \<Rightarrow> nat \<Rightarrow> int \<Rightarrow> nat" where
  "trim_link s e n_paren =
     (let e = (if byte_at s (e - 1) \<in> set [0x2E, 0x2C, 0x3A, 0x3B, 0x22, 0x27] then e - 1 else e);
          e = (if byte_at s (e - 1) = 0x3E then e - 1 else e)
      in trim_parens s (nat (- n_paren)) e)"

text \<open>The position of the colon behind \<^verbatim>\<open>http\<close> or \<^verbatim>\<open>https\<close>.\<close>

definition scheme_end :: "bytes \<Rightarrow> nat \<Rightarrow> nat" where
  "scheme_end s n = (let e = n + 4 in if byte_at s e = 0x73 then e + 1 else e)"

definition link_end :: "bytes \<Rightarrow> nat \<Rightarrow> nat option" where
  "link_end s n =
     (if n + 8 < length s \<and> s ! n = 0x68 \<and> s ! (n + 1) = 0x74 \<and> s ! (n + 2) = 0x74 \<and> s ! (n + 3) = 0x70 then
        if n \<noteq> 0 \<and> isalpha (s ! (n - 1)) then None
        else
          let e = scheme_end s n in
          if byte_at s e \<noteq> 0x3A \<or> byte_at s (e + 1) \<noteq> 0x2F \<or> byte_at s (e + 2) \<noteq> 0x2F then None
          else
            let body = takeWhile (\<lambda>c. 32 < c) (drop (e + 3) s);
                n_paren = int (count_list body 0x28) - int (count_list body 0x29)
            in if length body < 3 then None else Some (trim_link s (e + 3 + length body) n_paren)
      else None)"

subsection \<open>The loop\<close>

text \<open>One or two digits of a colour, and the position behind them.\<close>

definition color_at :: "bytes \<Rightarrow> nat \<Rightarrow> u32 \<times> nat" where
  "color_at s n =
     (let col = unat (byte_at s n) - 0x30
      in if isdigit (byte_at s (n + 1)) then (colors ! ((col * 10 + (unat (byte_at s (n + 1)) - 0x30)) mod 16), n + 2)
         else (colors ! (col mod 16), n + 1))"

text \<open>The bytes behind a control-C; the background colour is stored in the foreground.\<close>

definition color_code :: "text_span \<Rightarrow> bytes \<Rightarrow> nat \<Rightarrow> text_span \<Rightarrow> nat \<times> text_span" where
  "color_code fmt s n next =
     (if isdigit (byte_at s n) then
        let (col, n) = color_at s n; next = next\<lparr>fgcol := col\<rparr>
        in if byte_at s n = 0x2C \<and> isdigit (byte_at s (n + 1)) then
             let (col, n) = color_at s (n + 1) in (n, next\<lparr>fgcol := col\<rparr>)
           else (n, next)
      else (n, next\<lparr>fgcol := fgcol fmt, bgcol := bgcol fmt\<rparr>))"

definition plain_byte :: "byte \<Rightarrow> bool" where
  "plain_byte c \<longleftrightarrow> 32 \<le> c \<or> c = 9 \<or> c = 13 \<or> c = 10"

text \<open>Everything behind the reading of a byte \<open>ch\<close> that is not part of a link; \<open>n\<close> is behind it.\<close>

definition code_byte :: "text_span \<Rightarrow> bytes \<Rightarrow> byte \<Rightarrow> nat \<Rightarrow> text_span list \<times> text_span \<Rightarrow> nat \<times> text_span list \<times> text_span" where
  "code_byte fmt s ch n st =
     (if plain_byte ch then (n, fst st, (snd st)\<lparr>span_text := span_text (snd st) @ [ch]\<rparr>)
      else
        let (out, next) = finish st in
        if ch = 0x02 then (n, out, next\<lparr>bold := \<not> bold next\<rparr>)
        else if ch = 0x11 then (n, out, next\<lparr>monospace := \<not> monospace next\<rparr>)
        else if ch = 0x1D then (n, out, next\<lparr>italics := \<not> italics next\<rparr>)
        else if ch = 0x1E then (n, out, next\<lparr>strike := \<not> strike next\<rparr>)
        else if ch = 0x1F then (n, out, next\<lparr>underline := \<not> underline next\<rparr>)
        else if ch = 0x0F then (n, out, fmt)
        else if ch = 0x03 then let (n, next) = color_code fmt s n next in (n, out, next)
        else (n, out, next\<lparr>span_text := span_text next @ [ch]\<rparr>))"

lemma color_code_advances: "n \<le> fst (color_code fmt s n next)"
  by (auto simp: color_code_def color_at_def Let_def)

lemma code_byte_advances: "n \<le> fst (code_byte fmt s ch n st)"
proof -
  have "n \<le> n'" if "color_code fmt s n nx = (n', nx')" for n' nx nx'
    using color_code_advances [of n fmt s nx] that by simp
  then show ?thesis by (auto simp: code_byte_def Let_def split: prod.splits)
qed

lemma trim_parens_le: "trim_parens s k e \<le> e"
  by (induction s k e rule: trim_parens.induct) auto

lemma trim_parens_ge: "byte_at s (m - 1) \<noteq> 0x29 \<Longrightarrow> 0 < m \<Longrightarrow> m \<le> e \<Longrightarrow> m \<le> trim_parens s k e"
proof (induction s k e rule: trim_parens.induct)
  case (2 s k e)
  show ?case
  proof (cases "byte_at s (e - 1) = 0x29")
    case True
    then have "m \<noteq> e" using "2.prems" by auto
    then show ?thesis using 2 True by simp
  qed (use "2.prems" in simp)
qed simp

text \<open>A link starts with its scheme, and the scanned and trimmed text contains no byte up to a blank.\<close>

definition link_text :: "bytes \<Rightarrow> bool" where
  "link_text l \<longleftrightarrow> (startswith l (str ''http://'') \<or> startswith l (str ''https://'')) \<and> (\<forall>c \<in> set l. 32 < c)"

lemma link_end_shape:
  assumes "link_end s n = Some e"
  shows "n < e" "e \<le> length s" "link_text (slice n (e - n) s)"
proof -
  define m where "m = scheme_end s n"
  define body where "body = takeWhile (\<lambda>c. 32 < c) (drop (m + 3) s)"
  define e0 where "e0 = m + 3 + length body"
  have head: "n + 8 < length s" "s ! n = 0x68" "s ! (n + 1) = 0x74" "s ! (n + 2) = 0x74" "s ! (n + 3) = 0x70"
    and sep: "byte_at s m = 0x3A" "byte_at s (m + 1) = 0x2F" "byte_at s (m + 2) = 0x2F" and len: "3 \<le> length body"
    and e: "e = trim_link s e0 (int (count_list body 0x28) - int (count_list body 0x29))"
    using assms unfolding link_end_def Let_def m_def [symmetric] body_def [symmetric] e0_def [symmetric]
    by (auto split: if_splits)
  have bl: "length body \<le> length s - (m + 3)" unfolding body_def by (metis length_drop length_takeWhile_le)
  have e0: "m + 6 \<le> e0" "e0 \<le> length s" using len bl by (auto simp: e0_def)
  obtain e1 where e1: "e = trim_parens s (nat (- (int (count_list body 0x28) - int (count_list body 0x29)))) e1" "m + 4 \<le> e1" "e1 \<le> e0"
    using e e0(1) unfolding trim_link_def Let_def by (auto split: if_splits)
  have bounds: "m + 3 \<le> e" "e \<le> e0"
    using trim_parens_ge [of s "m + 3" e1] trim_parens_le [of s _ e1] sep e1 by (auto intro: le_trans)
  have m: "n + 4 \<le> m" by (simp add: m_def scheme_end_def Let_def)
  show "n < e" "e \<le> length s" using bounds m e0 by simp_all
  have at: "s ! i = byte_at s i" if "i < length s" for i using that by (simp add: byte_at_def)
  have nth: "slice n (e - n) s ! i = s ! (n + i)" if "n + i < e" for i
    using that bounds e0 by (simp add: nth_slice)
  have ls: "length (slice n (e - n) s) = e - n" using bounds e0 by (simp add: length_slice)
  have mid: "m + 2 < length s" using e0 by simp
  have scheme: "startswith (slice n (e - n) s) (str ''http://'') \<or> startswith (slice n (e - n) s) (str ''https://'')"
  proof (cases "byte_at s (n + 4) = 0x73")
    case True
    then have mm: "m = n + 5" "m + 1 = n + 6" "m + 2 = n + 7" by (simp_all add: m_def scheme_end_def)
    have chars: "s ! n = 0x68" "s ! (n + 1) = 0x74" "s ! (n + 2) = 0x74" "s ! (n + 3) = 0x70" "s ! (n + 4) = 0x73"
      "s ! (n + 5) = 0x3A" "s ! (n + 6) = 0x2F" "s ! (n + 7) = 0x2F"
      using head(2-5) True sep(1) [unfolded mm(1)] sep(2) [unfolded mm(2)] sep(3) [unfolded mm(3)] mid [unfolded mm(3)]
      by (simp_all add: at)
    have "take 8 (slice n (e - n) s) = str ''https://''"
    proof (rule nth_equalityI)
      fix i assume "i < length (take 8 (slice n (e - n) s))"
      then have i: "i < 8" "i < e - n" using ls by simp_all
      then have "i \<in> {0,1,2,3,4,5,6,7}" by auto
      then show "take 8 (slice n (e - n) s) ! i = str ''https://'' ! i"
        using i nth [of i] chars by (elim insertE emptyE) simp_all
    qed (use ls bounds mm in simp)
    moreover have "length (str ''https://'') = 8" by simp
    ultimately show ?thesis by (intro disjI2 startswithI) (simp only:)
  next
    case False
    then have mm: "m = n + 4" "m + 1 = n + 5" "m + 2 = n + 6" by (simp_all add: m_def scheme_end_def)
    have chars: "s ! n = 0x68" "s ! (n + 1) = 0x74" "s ! (n + 2) = 0x74" "s ! (n + 3) = 0x70"
      "s ! (n + 4) = 0x3A" "s ! (n + 5) = 0x2F" "s ! (n + 6) = 0x2F"
      using head(2-5) sep(1) [unfolded mm(1)] sep(2) [unfolded mm(2)] sep(3) [unfolded mm(3)] mid [unfolded mm(3)]
      by (simp_all add: at)
    have "take 7 (slice n (e - n) s) = str ''http://''"
    proof (rule nth_equalityI)
      fix i assume "i < length (take 7 (slice n (e - n) s))"
      then have i: "i < 7" "i < e - n" using ls by simp_all
      then have "i \<in> {0,1,2,3,4,5,6}" by auto
      then show "take 7 (slice n (e - n) s) ! i = str ''http://'' ! i"
        using i nth [of i] chars by (elim insertE emptyE) simp_all
    qed (use ls bounds mm in simp)
    moreover have "length (str ''http://'') = 7" by simp
    ultimately show ?thesis by (intro disjI1 startswithI) (simp only:)
  qed
  have "32 < s ! i" if "n \<le> i" "i < e" for i
  proof (cases "i < m + 3")
    case True
    then have "i \<in> {n, n + 1, n + 2, n + 3, n + 4, m, m + 1, m + 2}" using that(1) by (auto simp: m_def scheme_end_def Let_def split: if_splits)
    then show ?thesis using head sep mid by (auto simp: at m_def scheme_end_def Let_def split: if_splits)
  next
    case False
    then have k: "i - (m + 3) < length body" using that bounds by (auto simp: e0_def)
    have "body ! (i - (m + 3)) = drop (m + 3) s ! (i - (m + 3))" using k unfolding body_def by (rule takeWhile_nth)
    then have "body ! (i - (m + 3)) = s ! i" using False that bounds e0 by simp
    moreover have "32 < body ! (i - (m + 3))" using nth_mem [OF k] unfolding body_def by (blast dest: set_takeWhileD)
    ultimately show ?thesis by simp
  qed
  then have "\<forall>c \<in> set (slice n (e - n) s). 32 < c"
    using nth ls by (auto simp: in_set_conv_nth)
  then show "link_text (slice n (e - n) s)" using scheme by (simp add: link_text_def)
qed

function parse_loop ::
  "text_span \<Rightarrow> bytes \<Rightarrow> nat \<Rightarrow> text_span list \<times> text_span \<Rightarrow> text_span list \<times> text_span" where
  "parse_loop fmt s n st =
     (if n < length s then
        case link_end s n of
          Some e \<Rightarrow>
            let (out, next) = finish st;
                (out, next) = finish (out, next\<lparr>span_text := slice n (e - n) s, hyperlink := True\<rparr>)
            in parse_loop fmt s e (out, next\<lparr>hyperlink := False\<rparr>)
        | None \<Rightarrow>
            case code_byte fmt s (s ! n) (n + 1) st of (n', st') \<Rightarrow> parse_loop fmt s n' st'
      else st)"
  by pat_completeness auto
termination
proof (relation "measure (\<lambda>(fmt, s, n, st). length s - n)", goal_cases)
  case 1
  then show ?case by simp
next
  case (2 fmt s n st)
  then show ?case using code_byte_advances [of "n + 1" fmt s "s ! n" st] by (auto simp: split_beta)
next
  case (3 fmt s n st e)
  then show ?case using link_end_shape(1) [of s n e] by auto
qed

definition parse_irc :: "text_span list \<Rightarrow> text_span \<Rightarrow> bytes \<Rightarrow> text_span list" where
  "parse_irc out fmt s = fst (finish (parse_loop fmt s 0 (out, fmt)))"

declare parse_loop.simps [simp del]

subsection \<open>What remains of a line\<close>

text \<open>How many bytes behind a control-C belong to it.\<close>

definition color_len :: "bytes \<Rightarrow> nat" where
  "color_len cs =
     (let digits = (\<lambda>i. if isdigit (byte_at cs i) then (if isdigit (byte_at cs (i + 1)) then 2 else 1) else 0 :: nat);
          k = digits 0
      in if k \<noteq> 0 \<and> byte_at cs k = 0x2C \<and> digits (k + 1) \<noteq> 0 then k + 1 + digits (k + 1) else k)"

function visible :: "bytes \<Rightarrow> bytes" where
  "visible [] = []"
| "visible (c # cs) =
     (if plain_byte c then c # visible cs
      else if c \<in> {0x02, 0x11, 0x1D, 0x1E, 0x1F, 0x0F} then visible cs
      else if c = 0x03 then visible (drop (color_len cs) cs)
      else c # visible cs)"
  by pat_completeness auto
termination by (relation "measure length") auto

lemma visible_block: "(\<And>c. c \<in> set a \<Longrightarrow> plain_byte c) \<Longrightarrow> visible (a @ b) = a @ visible b"
  by (induction a) auto

lemma byte_at_drop: "byte_at (drop n s) i = byte_at s (n + i)"
  by (cases "n + i < length s") (auto simp: byte_at_def)

lemma color_at_len: "snd (color_at s n) = n + (if isdigit (byte_at s (n + 1)) then 2 else 1)"
  by (simp add: color_at_def Let_def)

lemma color_code_len: "fst (color_code fmt s n nx) = n + color_len (drop n s)"
  unfolding color_code_def color_len_def byte_at_drop Let_def split_beta
  by (simp add: color_at_len numeral_eq_Suc)

lemma color_code_text: "span_text (snd (color_code fmt s n nx)) = span_text nx" "hyperlink (snd (color_code fmt s n nx)) = hyperlink nx"
  unfolding color_code_def Let_def split_beta by simp_all

definition spans_text :: "text_span list \<times> text_span \<Rightarrow> bytes" where
  "spans_text st = concat (map span_text (fst st)) @ span_text (snd st)"

lemma finish_text: "spans_text (finish st) = spans_text st" "span_text (snd (finish st)) = []"
  "hyperlink (snd (finish st)) = hyperlink (snd st)"
proof -
  obtain out nx where st: "st = (out, nx)" by (cases st)
  show "spans_text (finish st) = spans_text st" "span_text (snd (finish st)) = []"
    "hyperlink (snd (finish st)) = hyperlink (snd st)"
    by (cases out rule: rev_cases; simp add: st finish_def spans_text_def)+
qed

subsection \<open>What the text view demands\<close>

definition span_shape :: "text_span \<Rightarrow> bool" where
  "span_shape x \<longleftrightarrow> span_text x \<noteq> [] \<and> (hyperlink x \<longrightarrow> link_text (span_text x))"

definition separated :: "text_span list \<Rightarrow> bool" where
  "separated out \<longleftrightarrow> (\<forall>i. Suc i < length out \<longrightarrow> \<not> fmt_eq (out ! i) (out ! Suc i))"

definition spans_shape :: "text_span list \<Rightarrow> bool" where
  "spans_shape out \<longleftrightarrow> list_all span_shape out \<and> separated out"

lemma separated_snoc: "separated (out @ [x]) \<longleftrightarrow> separated out \<and> (out \<noteq> [] \<longrightarrow> \<not> fmt_eq (last out) x)"
proof -
  have "\<not> fmt_eq (last out) x \<longleftrightarrow> \<not> fmt_eq (out ! (length out - 1)) x" if "out \<noteq> []" using that by (simp add: last_conv_nth)
  then show ?thesis
    by (cases out rule: rev_cases) (auto simp: separated_def nth_append less_Suc_eq split: if_splits)
qed

lemma fmt_eq_text [simp]: "fmt_eq a (b\<lparr>span_text := l\<rparr>) = fmt_eq a b" "fmt_eq (a\<lparr>span_text := l\<rparr>) b = fmt_eq a b"
  by (simp_all add: fmt_eq_def fmt_diff_def)

lemma fmt_eq_hyperlink: "fmt_eq a b \<Longrightarrow> hyperlink a = hyperlink b"
  by (auto simp: fmt_eq_def fmt_diff_def)

lemma link_text_append: "link_text a \<Longrightarrow> (\<forall>c \<in> set b. 32 < c) \<Longrightarrow> link_text (a @ b)"
  unfolding link_text_def by (auto intro: startswith_append)

lemma finish_ok:
  assumes "spans_shape out" "span_text nx \<noteq> [] \<Longrightarrow> span_shape nx"
  shows "spans_shape (fst (finish (out, nx)))"
proof (cases "span_text nx = []")
  case False
  note nx = assms(2) [OF False]
  show ?thesis
  proof (cases "out \<noteq> [] \<and> fmt_eq (last out) nx")
    case True
    then obtain us l where out: "out = us @ [l]" by (metis append_butlast_last_id)
    then have l: "span_shape l" "fmt_eq l nx" using assms(1) True by (simp_all add: spans_shape_def)
    then have "span_shape (l\<lparr>span_text := span_text l @ span_text nx\<rparr>)"
      using nx fmt_eq_hyperlink [OF l(2)] by (auto simp: span_shape_def intro!: link_text_append) (auto simp: link_text_def)
    then show ?thesis using assms(1) True False by (simp add: out finish_def spans_shape_def separated_snoc)
  next
    case False
    then show ?thesis using assms(1) \<open>span_text nx \<noteq> []\<close> nx by (auto simp: finish_def spans_shape_def separated_snoc)
  qed
qed (simp add: finish_def assms)

lemma plain_above: "32 < c \<Longrightarrow> plain_byte c"
  by (simp add: plain_byte_def less_imp_le)

lemma code_byte_correct:
  assumes fmt: "span_text fmt = []" "\<not> hyperlink fmt" and st: "spans_shape (fst st)" "\<not> hyperlink (snd st)" and n: "n < length s"
    and run: "code_byte fmt s (s ! n) (n + 1) st = (n', st')"
  shows "spans_shape (fst st')" "\<not> hyperlink (snd st')"
    "spans_text st' @ visible (drop n' s) = spans_text st @ visible (drop n s)"
proof -
  obtain out nx where f: "finish st = (out, nx)" by (cases "finish st")
  have ok: "spans_shape out" using finish_ok [of "fst st" "snd st"] st f by (auto simp: span_shape_def)
  have f': "spans_text st = concat (map span_text out)" "span_text nx = []" "\<not> hyperlink nx"
    using finish_text [of st] f st by (simp_all add: spans_text_def)
  have d: "drop n s = s ! n # drop (n + 1) s" using n by (simp add: Cons_nth_drop_Suc)
  obtain m cc where cc: "color_code fmt s (n + 1) nx = (m, cc)" by (cases "color_code fmt s (n + 1) nx")
  have m: "m = n + 1 + color_len (drop (n + 1) s)" "span_text cc = []" "\<not> hyperlink cc"
    using color_code_len [of fmt s "n + 1" nx] color_code_text [of fmt s "n + 1" nx] cc f' by simp_all
  show "spans_shape (fst st')" "\<not> hyperlink (snd st')"
    using run ok st fmt f' m by (auto simp: code_byte_def f cc [simplified] Let_def split: if_splits)
  have dm: "drop m s = drop (color_len (drop (n + 1) s)) (drop (n + 1) s)" by (simp add: m add.commute)
  show "spans_text st' @ visible (drop n' s) = spans_text st @ visible (drop n s)"
    using run fmt f' m dm unfolding d
    by (auto simp: code_byte_def f cc [simplified] Let_def spans_text_def split: if_splits)
qed

lemma parse_loop_correct:
  assumes "span_text fmt = []" "\<not> hyperlink fmt" "spans_shape (fst st)" "\<not> hyperlink (snd st)"
  shows "spans_shape (fst (parse_loop fmt s n st)) \<and> \<not> hyperlink (snd (parse_loop fmt s n st)) \<and>
    spans_text (parse_loop fmt s n st) = spans_text st @ visible (drop n s)"
  using assms(3,4)
proof (induction "length s - n" arbitrary: n st rule: less_induct)
  case less
  show ?case
  proof (cases "n < length s")
    case True
    show ?thesis
    proof (cases "link_end s n")
      case None
      obtain n' st' where run: "code_byte fmt s (s ! n) (n + 1) st = (n', st')"
        by (cases "code_byte fmt s (s ! n) (n + 1) st")
      have "n < n'" using code_byte_advances [of "n + 1" fmt s "s ! n" st] run by simp
      then have IH: "spans_shape (fst (parse_loop fmt s n' st')) \<and> \<not> hyperlink (snd (parse_loop fmt s n' st')) \<and>
          spans_text (parse_loop fmt s n' st') = spans_text st' @ visible (drop n' s)"
        using less.hyps [of n' st'] code_byte_correct(1,2) [OF assms(1,2) less.prems True run] True by simp
      have "parse_loop fmt s n st = parse_loop fmt s n' st'"
        using True None run by (subst parse_loop.simps) simp
      then show ?thesis using IH code_byte_correct(3) [OF assms(1,2) less.prems True run] by simp
    next
      case (Some e)
      note link = link_end_shape [OF Some]
      let ?l = "slice n (e - n) s"
      obtain out nx where f: "finish st = (out, nx)" by (cases "finish st")
      have f': "spans_text st = concat (map span_text out)" "span_text nx = []" "spans_shape out" "\<not> hyperlink nx"
        using finish_text [of st] f finish_ok [of "fst st" "snd st"] less.prems by (auto simp: spans_text_def span_shape_def)
      obtain out2 nx2 where g: "finish (out, nx\<lparr>span_text := ?l, hyperlink := True\<rparr>) = (out2, nx2)" by fastforce
      have "?l \<noteq> []" using link by (simp add: link_text_def startswith_def) auto
      then have "span_shape (nx\<lparr>span_text := ?l, hyperlink := True\<rparr>)" using link(3) by (simp add: span_shape_def)
      then have g': "spans_shape out2" "span_text nx2 = []" "concat (map span_text out2) = concat (map span_text out) @ ?l"
        using finish_ok [OF f'(3), of "nx\<lparr>span_text := ?l, hyperlink := True\<rparr>"]
          finish_text [of "(out, nx\<lparr>span_text := ?l, hyperlink := True\<rparr>)"] g by (simp_all add: spans_text_def)
      let ?st = "(out2, nx2\<lparr>hyperlink := False\<rparr>)"
      have "parse_loop fmt s n st = parse_loop fmt s e ?st"
        using True Some f g by (subst parse_loop.simps) simp
      moreover have "spans_shape (fst (parse_loop fmt s e ?st)) \<and> \<not> hyperlink (snd (parse_loop fmt s e ?st)) \<and>
          spans_text (parse_loop fmt s e ?st) = spans_text ?st @ visible (drop e s)"
        using less.hyps [of e ?st] True link(1) g'(1) by simp
      moreover have "drop n s = ?l @ drop e s" using link(1) by (simp add: slice_def) (metis append_take_drop_id drop_drop le_add_diff_inverse2 less_imp_le)
      moreover have "visible (?l @ drop e s) = ?l @ visible (drop e s)"
        using link(3) by (intro visible_block plain_above) (auto simp: link_text_def)
      ultimately show ?thesis using g' f'(1) by (simp add: spans_text_def)
    qed
  next
    case False
    then show ?thesis using less.prems by (subst (1 2 3) parse_loop.simps) simp
  qed
qed

subsection \<open>Every span is text\<close>

text \<open>
  A line that is valid UTF-8 is only ever cut in front of an ASCII byte: the codes, the digits of a colour and what
  surrounds a link. So the pending span and the rest of the line stay valid together and apart.
\<close>

lemma utf8_text_split: "utf8_text (a @ b) \<Longrightarrow> b = [] \<or> \<not> is_continuation (hd b) \<Longrightarrow> utf8_text a \<and> utf8_text b"
proof (induction "length a" arbitrary: a rule: less_induct)
  case less
  show ?case
  proof (cases "a = []")
    case False
    then obtain n rest where n: "scalar_value n" "a @ b = utf8_encode n @ rest" "utf8_text rest"
      using less.prems(1) utf8_text_cases by blast
    obtain h ks where ks: "utf8_encode n = h # ks" "list_all is_continuation ks" using n(1) by (rule encode_shape)
    obtain a' where a: "a = h # a'" "a' @ b = ks @ rest" using False n(2) ks(1) by (cases a) auto
    then consider us where "a' = ks @ us" "us @ b = rest" | us where "a' @ us = ks" "b = us @ rest"
      by (auto simp: append_eq_append_conv2)
    then show ?thesis
    proof cases
      case 1
      then have "utf8_text us \<and> utf8_text b" using less.hyps [of us] a n(3) less.prems(2) by simp
      then show ?thesis using utf8_text_Cons [OF n(1)] ks(1) a(1) 1(1) by simp
    next
      case 2
      then have "us = []" using less.prems(2) ks(2) by (cases us) auto
      then show ?thesis using 2 utf8_text_Cons [OF n(1) utf8_text_Nil] n(3) ks(1) a(1) by simp
    qed
  qed (use less.prems utf8_text_Nil in simp)
qed

definition span_ok :: "text_span \<Rightarrow> bool" where
  "span_ok x \<longleftrightarrow> span_shape x \<and> isutf8 (span_text x) \<and> 0 \<notin> set (span_text x) \<and> 0x0D \<notin> set (span_text x)"

definition spans_ok :: "text_span list \<Rightarrow> bool" where
  "spans_ok out \<longleftrightarrow> list_all span_ok out \<and> separated out"

lemma ascii_start: "c < 0x80 \<Longrightarrow> \<not> is_continuation c"
proof -
  have "list_all (\<lambda>c. c < 0x80 \<longrightarrow> \<not> is_continuation c) (map word_of_nat [0..<256])" by code_simp
  then have "c < 0x80 \<longrightarrow> \<not> is_continuation c" for c by (rule bytes_between [OF _ le0 unat_byte])
  then show "c < 0x80 \<Longrightarrow> ?thesis" by simp
qed

lemma harmless_split:
  "harmless (a @ b) \<Longrightarrow> b = [] \<or> hd b < 0x80 \<Longrightarrow> harmless a \<and> harmless b"
  using utf8_text_split [of a b] ascii_start [of "hd b"] by (auto simp: harmless_def isutf8_text)

lemma harmless_append: "harmless a \<Longrightarrow> harmless b \<Longrightarrow> harmless (a @ b)"
  by (auto simp: harmless_def isutf8_text utf8_text_append)

lemma harmless_ascii: "\<forall>c \<in> set a. c < 0x80 \<Longrightarrow> harmless (a @ b) \<Longrightarrow> harmless b"
proof (induction a)
  case (Cons c a)
  then show ?case using utf8_text_ascii [of c "a @ b"] by (auto simp: harmless_def isutf8_text word_less_nat_alt)
qed simp

lemma color_len_ascii: "\<forall>c \<in> set (take (color_len cs) cs). c < 0x80"
proof -
  have digit: "isdigit c \<Longrightarrow> c < 0x80" for c by (simp add: isdigit_def word_less_nat_alt word_le_nat_alt)
  have "byte_at cs i < 0x80" if "i < color_len cs" for i
  proof -
    have "(0x2C :: byte) < 0x80" by simp
    then show ?thesis
      using that by (auto simp: color_len_def Let_def less_Suc_eq numeral_2_eq_2 intro: digit split: if_splits)
  qed
  then show ?thesis by (fastforce simp: in_set_conv_nth byte_at_def)
qed

lemma link_end_ascii: "link_end s n = Some e \<Longrightarrow> e < length s \<Longrightarrow> s ! e < 0x80"
proof -
  assume e: "link_end s n = Some e" "e < length s"
  define m where "m = scheme_end s n"
  define body where "body = takeWhile (\<lambda>c. 32 < c) (drop (m + 3) s)"
  define e0 where "e0 = m + 3 + length body"
  have "e = trim_link s e0 (int (count_list body 0x28) - int (count_list body 0x29))"
    using e unfolding link_end_def Let_def m_def [symmetric] body_def [symmetric] e0_def [symmetric]
    by (auto split: if_splits)
  moreover have "byte_at s e0 \<le> 32"
  proof (cases "e0 < length s")
    case True
    then have k: "length body < length (drop (m + 3) s)" by (simp add: e0_def)
    then have "\<not> 32 < drop (m + 3) s ! length body" unfolding body_def by (rule nth_length_takeWhile)
    then show ?thesis using True by (simp add: byte_at_def e0_def not_less)
  qed (simp add: byte_at_def)
  moreover have parens: "byte_at s x < 0x80 \<Longrightarrow> byte_at s (trim_parens s k x) < 0x80" for k x
  proof (induction s k x rule: trim_parens.induct)
    case (2 s k e)
    show ?case
    proof (cases "byte_at s (e - 1) = 0x29")
      case True
      then have "byte_at s (e - 1) < 0x80" by simp
      then show ?thesis using 2 True by simp
    qed (use 2 in simp)
  qed simp
  moreover have small: "c \<le> 32 \<Longrightarrow> c < 0x80" for c :: byte by (simp add: word_less_nat_alt word_le_nat_alt)
  ultimately have "byte_at s e < 0x80"
  proof -
    assume e: "e = trim_link s e0 (int (count_list body 0x28) - int (count_list body 0x29))" and "byte_at s e0 \<le> 32"
    define e1 where "e1 = (if byte_at s (e0 - 1) \<in> set [0x2E, 0x2C, 0x3A, 0x3B, 0x22, 0x27] then e0 - 1 else e0)"
    have "byte_at s e1 < 0x80" using small [OF \<open>byte_at s e0 \<le> 32\<close>] by (auto simp: e1_def)
    then have "byte_at s (if byte_at s (e1 - 1) = 0x3E then e1 - 1 else e1) < 0x80" by simp
    then show ?thesis unfolding e trim_link_def Let_def e1_def [symmetric] by (rule parens)
  qed
  then show ?thesis using e(2) by (simp add: byte_at_def)
qed

lemma link_head: "link_end s n = Some e \<Longrightarrow> s ! n < 0x80"
proof -
  assume "link_end s n = Some e"
  then have "s ! n = 0x68" by (simp add: link_end_def split: if_splits)
  then show ?thesis by simp
qed

text \<open>Spans that are text so far, and a pending span that is text together with the rest of the line.\<close>

definition texts :: "bytes \<Rightarrow> text_span list \<times> text_span \<Rightarrow> bool" where
  "texts rest st \<longleftrightarrow> (\<forall>x \<in> set (fst st). harmless (span_text x)) \<and> harmless (span_text (snd st) @ rest)"

lemma finish_texts:
  assumes "texts rest st" "rest = [] \<or> hd rest < 0x80"
  shows "texts rest (finish st)" "harmless rest"
proof -
  obtain out nx where st: "st = (out, nx)" by (cases st)
  have "harmless (span_text nx)" "harmless rest" "\<forall>x \<in> set out. harmless (span_text x)"
    using assms harmless_split [of "span_text nx" rest] by (auto simp: texts_def st)
  then show "texts rest (finish st)" "harmless rest"
    by (cases out rule: rev_cases; auto simp: st finish_def texts_def harmless_append)+
qed

lemma texts_update: "texts rest (out, nx) \<Longrightarrow> span_text nx' = span_text nx \<Longrightarrow> texts rest (out, nx')"
  by (simp add: texts_def)

lemma code_ascii: "\<not> plain_byte c \<Longrightarrow> c < 0x80"
proof -
  have "list_all (\<lambda>c. \<not> plain_byte c \<longrightarrow> c < 0x80) (map word_of_nat [0..<256])" by code_simp
  then have "\<not> plain_byte c \<longrightarrow> c < 0x80" for c by (rule bytes_between [OF _ le0 unat_byte])
  then show "\<not> plain_byte c \<Longrightarrow> ?thesis" by simp
qed

lemma code_byte_texts:
  assumes fmt: "span_text fmt = []" and st: "texts (drop n s) st" and n: "n < length s"
    and run: "code_byte fmt s (s ! n) (n + 1) st = (n', st')"
  shows "texts (drop n' s) st'"
proof (cases "plain_byte (s ! n)")
  case True
  then show ?thesis using run st n by (auto simp: code_byte_def texts_def simp flip: Cons_nth_drop_Suc)
next
  case False
  have d: "drop n s = s ! n # drop (n + 1) s" using n by (simp add: Cons_nth_drop_Suc)
  have "hd (drop n s) < 0x80" using code_ascii [OF False] d by simp
  note fin = finish_texts [OF st disjI2 [OF this]]
  obtain out nx where f: "finish st = (out, nx)" by (cases "finish st")
  have f': "span_text nx = []" "\<forall>x \<in> set out. harmless (span_text x)"
    using finish_text [of st] fin(1) f by (simp_all add: texts_def)
  have rest: "harmless (drop (n + 1) s)" using harmless_ascii [of "[s ! n]"] code_ascii [OF False] fin(2) d by simp
  obtain m cc where cc: "color_code fmt s (n + 1) nx = (m, cc)" by (cases "color_code fmt s (n + 1) nx")
  have m: "drop m s = drop (color_len (drop (n + 1) s)) (drop (n + 1) s)" "span_text cc = []"
    using color_code_len [of fmt s "n + 1" nx] color_code_text [of fmt s "n + 1" nx] cc f' by (simp_all add: add.commute)
  have color: "harmless (drop m s)"
    using harmless_ascii [OF color_len_ascii, of "drop (n + 1) s" "drop m s"] rest by (simp add: m(1) del: drop_drop)
  show ?thesis
    using run False fmt f' m(2) rest color fin(2) d
    by (auto simp: code_byte_def f cc [simplified] texts_def Let_def split: if_splits)
qed

lemma parse_loop_texts:
  assumes "span_text fmt = []" "texts (drop n s) st"
  shows "texts [] (parse_loop fmt s n st)"
  using assms(2)
proof (induction "length s - n" arbitrary: n st rule: less_induct)
  case less
  show ?case
  proof (cases "n < length s")
    case True
    show ?thesis
    proof (cases "link_end s n")
      case None
      obtain n' st' where run: "code_byte fmt s (s ! n) (n + 1) st = (n', st')"
        by (cases "code_byte fmt s (s ! n) (n + 1) st")
      have "n < n'" using code_byte_advances [of "n + 1" fmt s "s ! n" st] run by simp
      moreover have "parse_loop fmt s n st = parse_loop fmt s n' st'"
        using True None run by (subst parse_loop.simps) simp
      ultimately show ?thesis
        using less.hyps [of n' st'] code_byte_texts [OF assms(1) less.prems True run] True by simp
    next
      case (Some e)
      note link = link_end_shape [OF Some]
      let ?l = "slice n (e - n) s"
      have d: "drop n s = ?l @ drop e s"
        using link(1) by (simp add: slice_def) (metis append_take_drop_id drop_drop le_add_diff_inverse2 less_imp_le)
      have h: "hd (drop n s) < 0x80"
        using link_head [OF Some] True by (simp add: hd_drop_conv_nth)
      obtain out nx where f: "finish st = (out, nx)" by (cases "finish st")
      have "drop e s = [] \<or> hd (drop e s) < 0x80"
        using link_end_ascii [OF Some] by (cases "e < length s") (simp_all add: hd_drop_conv_nth)
      note cut = finish_texts [where rest = "drop e s", OF _ this]
      let ?nx = "nx\<lparr>span_text := ?l, hyperlink := True\<rparr>"
      have "texts (drop e s) (out, ?nx)"
        using finish_texts [OF less.prems disjI2 [OF h]] f d by (simp add: texts_def)
      then have "texts (drop e s) (finish (out, ?nx))" by (rule cut(1))
      moreover obtain out2 nx2 where g: "finish (out, ?nx) = (out2, nx2)" by fastforce
      ultimately have "texts (drop e s) (out2, nx2\<lparr>hyperlink := False\<rparr>)" by (simp add: texts_def)
      moreover have "parse_loop fmt s n st = parse_loop fmt s e (out2, nx2\<lparr>hyperlink := False\<rparr>)"
        using True Some f g by (subst parse_loop.simps) simp
      ultimately show ?thesis using less.hyps [of e "(out2, nx2\<lparr>hyperlink := False\<rparr>)"] True link(1) by simp
    qed
  next
    case False
    then show ?thesis using less.prems by (subst parse_loop.simps) (simp add: texts_def)
  qed
qed

lemma spans_ok_iff: "spans_ok out \<longleftrightarrow> spans_shape out \<and> (\<forall>x \<in> set out. harmless (span_text x))"
  by (auto simp: spans_ok_def spans_shape_def span_ok_def harmless_def list_all_iff)

text \<open>
  C7. \<^verbatim>\<open>parse_irc\<close> keeps exactly the visible text of a line, whatever bytes and codes it contains and wherever it
  ends, and never makes empty spans, neighbours of the same format, or link spans that do not start with http or https
  or that contain blanks or control bytes. For the lines that \<^verbatim>\<open>ircline\<close> lets through (valid UTF-8 without NUL and
  carriage return) the result is all that the text view demands: every span is valid UTF-8 without NUL and carriage return too.
\<close>

theorem parse_irc_correct:
  assumes "span_text fmt = []" "\<not> hyperlink fmt" "spans_shape out"
  shows "concat (map span_text (parse_irc out fmt s)) = concat (map span_text out) @ visible s \<and>
    spans_shape (parse_irc out fmt s) \<and>
    (isutf8 s \<and> 0 \<notin> set s \<and> 0x0D \<notin> set s \<and> spans_ok out \<longrightarrow> spans_ok (parse_irc out fmt s))"
proof -
  let ?st = "parse_loop fmt s 0 (out, fmt)"
  have run: "spans_shape (fst ?st)" "\<not> hyperlink (snd ?st)" "spans_text ?st = concat (map span_text out) @ visible s"
    using parse_loop_correct [OF assms(1,2), of "(out, fmt)" s 0] assms by (simp_all add: spans_text_def)
  have "spans_text (finish ?st) = spans_text ?st" "span_text (snd (finish ?st)) = []" by (rule finish_text)+
  then have "concat (map span_text (parse_irc out fmt s)) = spans_text ?st" by (simp add: parse_irc_def spans_text_def)
  moreover have shape: "spans_shape (parse_irc out fmt s)"
    using finish_ok [OF run(1), of "snd ?st"] run(2) by (simp add: parse_irc_def span_shape_def)
  moreover have "spans_ok (parse_irc out fmt s)" if "harmless s" "spans_ok out"
  proof -
    have "texts (drop 0 s) (out, fmt)" using that assms(1) by (simp add: texts_def spans_ok_iff)
    then have "texts [] (finish ?st)" using finish_texts(1) [OF parse_loop_texts [OF assms(1)]] by blast
    then show ?thesis using shape by (simp add: spans_ok_iff texts_def parse_irc_def)
  qed
  ultimately show ?thesis using run(3) by (simp add: harmless_def)
qed

definition plain_span :: text_span where
  "plain_span = \<lparr>span_text = [], bold = False, underline = False, italics = False, strike = False, monospace = False,
     hidden = False, hyperlink = False, i_link = False, fgcol = - 1, bgcol = - 1\<rparr>"

theorem parse_irc_correct_witness:
  "concat (map span_text (parse_irc [] plain_span ([3] @ str ''4,1hi '' @ [2] @ str ''http://a.org/.''))) = str ''hi http://a.org/.'' \<and>
    spans_ok (parse_irc [] plain_span ([3] @ str ''4,1hi '' @ [2] @ str ''http://a.org/.''))"
proof -
  let ?s = "[3] @ str ''4,1hi '' @ [2] @ str ''http://a.org/.''"
  have "visible ?s = str ''hi http://a.org/.''" by code_simp
  moreover have "isutf8 ?s \<and> 0 \<notin> set ?s \<and> 0x0D \<notin> set ?s" by code_simp
  moreover have "spans_shape []" "spans_ok []" by (simp_all add: spans_shape_def spans_ok_def separated_def)
  ultimately show ?thesis using parse_irc_correct [of plain_span "[]" ?s] by (simp add: plain_span_def del: str_simps)
qed

text \<open>A background colour ends up in the foreground: white on black text becomes black.\<close>

lemma background_lost:
  "map (\<lambda>x. (span_text x, fgcol x, bgcol x)) (parse_irc [] plain_span ([3] @ str ''0,1x'')) = [(str ''x'', 0x000000, - 1)]"
  unfolding plain_span_def by code_simp

end
