(* ===== verification/Irc_Pilot.thy ===== *)
theory Irc_Pilot
  imports Irc_Tracker Stringconv Base64 Bytepipe
begin

text \<open>
  The autopilot of the IRC client (\<^verbatim>\<open>irc.cpp\<close>, class \<^verbatim>\<open>autopilot\<close>): it connects, registers, answers
  the server and detects lost connections. What the runloop delivers are events: the timer, the
  result of opening a socket, a line or the end of the connection, a line the user sends. The coroutine
  \<^verbatim>\<open>main_recv\<close> is idle (or running), waits for the socket or waits for a line. Whether a send succeeds is up to
  \<open>fates\<close>, which every event sets: the next send to an open socket takes its head, and succeeds when
  nothing is left. A socket can be created, and lines can arrive, without a return to the runloop; that is the list
  \<open>now_too\<close> of \<open>connect_real\<close>. A waiter that is busy when it gets a new timer is cancelled first, as in builds without
  \<^verbatim>\<open>ARLIB_OPT\<close>. The raw log file is not modelled.
\<close>

datatype waiting = Idle | Connecting | Receiving

record pilot =
  autojoins :: "(bytes \<times> bytes) list"
  addresses :: "bytes list"
  addressid :: nat
  nicks :: "bytes list"
  nickid :: nat
  reset_nick_before :: int
  ident :: bytes
  realname :: bytes
  sasl :: "bytes list"
  onconnect :: "bytes list"
  cur_addr :: bytes
  sock_open :: bool
  main :: waiting
  ping_sent :: bool
  online :: bool
  timer :: "nat option"
  fates :: "bool list"

datatype pilot_out = Send bytes | Status bytes | To_parent bytes "bytes list"

type_synonym run = "pilot \<times> pilot_out list"

definition put :: "pilot_out list \<Rightarrow> run \<Rightarrow> run" where
  "put os r = (fst r, snd r @ os)"

definition delay_reconnect :: nat where "delay_reconnect = 30000"
definition delay_ping :: nat where "delay_ping = 90000"

subsection \<open>The socket\<close>

text \<open>
  \<^verbatim>\<open>socket_failed\<close>. When the coroutine waits for a line it is woken up at once: it sees an empty one, reports that
  and schedules a reconnection before the caller goes on.
\<close>

definition conn_broken :: "run \<Rightarrow> run" where
  "conn_broken r =
     ((fst r)\<lparr>sock_open := False, online := False, main := Idle, timer := Some delay_reconnect\<rparr>,
      snd r @ [Status (str ''** Connection broken'')])"

definition socket_failed :: "run \<Rightarrow> run" where
  "socket_failed r =
     (let r' = ((fst r)\<lparr>sock_open := False\<rparr>, snd r)
      in if main (fst r) = Receiving then conn_broken r' else r')"

definition send_line :: "bytes \<Rightarrow> run \<Rightarrow> run" where
  "send_line line r =
     (if \<not> sock_open (fst r) then r
      else case fates (fst r) of
             [] \<Rightarrow> put [Send line] r
           | ok # fs \<Rightarrow>
               let r = ((fst r)\<lparr>fates := fs\<rparr>, snd r)
               in if ok then put [Send line] r else socket_failed r)"

subsection \<open>Connecting\<close>

definition disconnected_inner :: "run \<Rightarrow> run" where
  "disconnected_inner r = (let (p, os) = socket_failed r in (p\<lparr>online := False\<rparr>, os))"

definition pilot_connect :: "nat \<Rightarrow> run \<Rightarrow> run" where
  "pilot_connect delay r = (let (p, os) = disconnected_inner r in (p\<lparr>timer := Some delay\<rparr>, os))"

definition disconnected :: "bytes \<Rightarrow> run \<Rightarrow> run" where
  "disconnected reason r = pilot_connect delay_reconnect (put [Status reason] (disconnected_inner r))"

text \<open>What the coroutine does on a broken connection is the general \<^verbatim>\<open>disconnected\<close>.\<close>

lemma conn_broken_eq: "main (fst r) = Idle \<Longrightarrow> conn_broken r = disconnected (str ''** Connection broken'') r"
  by (simp add: conn_broken_def disconnected_def pilot_connect_def disconnected_inner_def socket_failed_def put_def Let_def)

text \<open>The loop head of \<^verbatim>\<open>main_recv\<close>: on a socket that broke while the coroutine ran, the wait for a line is over at once.\<close>

definition await_line :: "run \<Rightarrow> run" where
  "await_line r =
     (if sock_open (fst r) then ((fst r)\<lparr>main := Receiving\<rparr>, snd r)
      else disconnected (str ''** Connection broken'') r)"

text \<open>\<^verbatim>\<open>main_recv\<close> from the socket to the first line; \<open>main\<close> is \<open>Idle\<close> while it runs.\<close>

definition send_sasl :: "bool \<Rightarrow> run \<Rightarrow> run" where
  "send_sasl host r =
     (let sasl = sasl (fst r) in
      if length sasl = 2 then
        fold send_line
          [str ''CAP REQ :sasl'', str ''AUTHENTICATE PLAIN'',
           str ''AUTHENTICATE '' @ base64_enc host (sasl ! 0 @ [0] @ sasl ! 0 @ [0] @ sasl ! 1), str ''CAP END''] r
      else r)"

definition socket_created :: "bool \<Rightarrow> bool \<Rightarrow> run \<Rightarrow> run option" where
  "socket_created host ok r =
     (let (p, os) = r in
      if \<not> ok then Some (disconnected (str ''** Couldn''@[39]@str ''t connect'') r)
      else
        let (p, os) = send_sasl host (p\<lparr>sock_open := True, ping_sent := False\<rparr>, os @ [Status (str ''** Connected to '' @ cur_addr p)])
        in if nicks p = [] then None
           else
             let (p, os) = send_line (str ''NICK '' @ nicks p ! 0) (p\<lparr>nickid := 1\<rparr>, os);
                 (p, os) = send_line (str ''USER '' @ ident p @ str '' a a :'' @ realname p) (p, os)
             in Some (await_line (p\<lparr>reset_nick_before := 0\<rparr>, os)))"

subsection \<open>Lines\<close>

text \<open>The lists of channels to join, those with a key first.\<close>

abbreviation comma_byte :: byte where "comma_byte \<equiv> 0x2C"

definition join_lists :: "(bytes \<times> bytes) list \<Rightarrow> bytes \<times> bytes \<times> bytes" where
  "join_lists js =
     foldl (\<lambda>(channels, passchannels, passwords) (name, pass).
       if pass \<noteq> [] then (channels, passchannels @ [comma_byte] @ name, passwords @ pass @ [comma_byte])
       else (channels @ [comma_byte] @ name, passchannels, passwords)) ([], [], [blank]) js"

definition join_line :: "(bytes \<times> bytes) list \<Rightarrow> bytes option option" where
  "join_line js =
     (let (channels, passchannels, passwords) = join_lists js in
      if channels \<noteq> [] \<or> passchannels \<noteq> [] then
        Option.bind (substr 1 to_end (passchannels @ channels)) (\<lambda>chans.
          map_option (\<lambda>pws. Some (str ''JOIN '' @ chans @ pws)) (substr 0 to_last passwords))
      else Some None)"

text \<open>A nick given up because it was in use is asked for again after its holder has quit or ten minutes later.\<close>

definition reclaim_nick :: "int \<Rightarrow> bytes list \<Rightarrow> run \<Rightarrow> run option" where
  "reclaim_nick now parts r =
     (let p = fst r in
      if reset_nick_before p \<noteq> 0 then
        Option.bind
          (if padded parts 1 = str ''QUIT'' then
             Option.bind (substr 1 to_end (padded parts 0)) (\<lambda>s.
               Option.bind (csplit s [bang] (Some 1)) (\<lambda>ps.
                 if nicks p = [] then None else Some (map tolower (ps ! 0) = map tolower (nicks p ! 0))))
           else Some False)
          (\<lambda>quit. if quit \<or> reset_nick_before p < now then
             if nicks p = [] then None
             else let (p, os) = send_line (str ''NICK '' @ nicks p ! 0) r in Some (p\<lparr>reset_nick_before := 0\<rparr>, os)
           else Some r)
      else Some r)"

definition on_registered :: "run \<Rightarrow> run option" where
  "on_registered r =
     (let (p, os) = r; r = fold send_line (onconnect p) (p\<lparr>online := True, addressid := 0, nickid := 0\<rparr>, os)
      in map_option (\<lambda>l. case l of None \<Rightarrow> r | Some l \<Rightarrow> send_line l r) (join_line (autojoins p)))"

definition on_nick_used :: "int \<Rightarrow> u32 \<Rightarrow> run \<Rightarrow> run option" where
  "on_nick_used now rnd r =
     (let (p, os) = r;
          sent = (if nickid p = length (nicks p) then
                    if nicks p = [] then None
                    else Some (send_line (str ''NICK '' @ nicks p ! 0 @ tostring_ptr_unsigned 4 (ucast rnd)) r)
                  else if nickid p < length (nicks p) then
                    Some (send_line (str ''NICK '' @ nicks p ! nickid p) (p\<lparr>nickid := nickid p + 1\<rparr>, os))
                  else None)
      in map_option (\<lambda>(p, os). (p\<lparr>reset_nick_before := now + 600\<rparr>, os)) sent)"

text \<open>
  Requests wrapped in control-A. The branch returns after them all, \<^verbatim>\<open>ACTION\<close> included, so none
  of them reaches the parent.
\<close>

definition version_reply :: bytes where
  "version_reply =
     [1] @ str ''VERSION UK'' @ [0xD0, 0xAF] @ str ''AINIAN TR'' @ [0xD0, 0x94] @ str ''CTOR'' @
     str '' https://github.com/Alcaro/russian-malware'' @ [1]"

definition on_ctcp :: "bytes list \<Rightarrow> run \<Rightarrow> run option" where
  "on_ctcp parts r =
     Option.bind (substr 1 to_end (padded parts 0)) (\<lambda>s.
       Option.bind (csplit s [bang] (Some 1)) (\<lambda>ss.
         Option.bind (substr 1 to_last (padded parts 3)) (\<lambda>body.
           Option.bind (csplit body [blank] (Some 1)) (\<lambda>ws.
             let source = ss ! 0; word = ws ! 0; notice = (\<lambda>text. send_line (str ''NOTICE '' @ source @ str '' :'' @ text)) in
             if word = str ''ACTION'' then Some r
             else if word = str ''VERSION'' then Some (notice version_reply r)
             else if word = str ''PING'' then Some (notice ([1] @ body @ [1]) r)
             else Some (notice ([1] @ str ''ERRMSG Unknown CTCP command.'' @ [1]) r)))))"

definition pilot_command :: "int \<Rightarrow> u32 \<Rightarrow> bytes \<Rightarrow> bytes list \<Rightarrow> run \<Rightarrow> run option" where
  "pilot_command now rnd line parts r =
     (let cmd = padded parts 1; parent = put [To_parent line parts] in
      if cmd = str ''PING'' then Some (parent (send_line (str ''PONG :'' @ padded parts 2) r))
      else if cmd = str ''PONG'' then Some (parent ((fst r)\<lparr>ping_sent := False\<rparr>, snd r))
      else if cmd = str ''001'' \<and> \<not> online (fst r) then map_option parent (on_registered r)
      else if cmd = str ''433'' \<and> \<not> online (fst r) then map_option parent (on_nick_used now rnd r)
      else if cmd = str ''PRIVMSG'' \<and> startswith (padded parts 3) [1] \<and> endswith (padded parts 3) [1]
      then on_ctcp parts r
      else Some (parent r))"

definition pilot_ircline :: "bool \<Rightarrow> bool \<Rightarrow> (nat \<Rightarrow> bytes) \<Rightarrow> int \<Rightarrow> u32 \<Rightarrow> bytes \<Rightarrow> run \<Rightarrow> run option" where
  "pilot_ircline host sse junk now rnd line r =
     Option.bind (clean_line host sse junk line) (\<lambda>line.
       Option.bind (parseline line) (\<lambda>parts.
         Option.bind (reclaim_nick now parts r) (pilot_command now rnd line parts)))"

subsection \<open>Events\<close>

text \<open>
  What the coroutine waits for. \<open>Received\<close> carries the time and a random number besides the line, which
  is empty when the connection is gone or 8704 bytes came without a line break.
\<close>

datatype happening = Timer | Created bool | Received int u32 bytes | User_send bytes

definition coroutine :: "bool \<Rightarrow> bool \<Rightarrow> (nat \<Rightarrow> bytes) \<Rightarrow> happening \<Rightarrow> run \<Rightarrow> run option" where
  "coroutine host sse junk e r =
     (let running = ((fst r)\<lparr>main := Idle\<rparr>, snd r) in
      case e of
        Created ok \<Rightarrow> if main (fst r) = Connecting then socket_created host ok running else None
      | Received now rnd line \<Rightarrow>
          if main (fst r) = Receiving then
            if line = [] then Some (disconnected (str ''** Connection broken'') running)
            else map_option await_line (pilot_ircline host sse junk now rnd (trim_line line) running)
          else None
      | _ \<Rightarrow> None)"

fun coroutine_run :: "bool \<Rightarrow> bool \<Rightarrow> (nat \<Rightarrow> bytes) \<Rightarrow> happening list \<Rightarrow> run \<Rightarrow> run option" where
  "coroutine_run host sse junk [] r = Some r"
| "coroutine_run host sse junk (e # es) r = Option.bind (coroutine host sse junk e r) (coroutine_run host sse junk es)"

text \<open>
  \<^verbatim>\<open>connect_real\<close>: a coroutine that still waits for a socket is given up; the new one runs up to
  the socket and on through what happens at once; then the timer is set, whatever timer that has set before.
\<close>

definition connect_real :: "bool \<Rightarrow> bool \<Rightarrow> (nat \<Rightarrow> bytes) \<Rightarrow> happening list \<Rightarrow> run \<Rightarrow> run option" where
  "connect_real host sse junk now_too r =
     (let (p, os) = r in
      if addressid p < length (addresses p) then
        let addr = addresses p ! addressid p;
            p = p\<lparr>cur_addr := addr, addressid := (addressid p + 1) mod length (addresses p), main := Connecting\<rparr>
        in map_option (\<lambda>(p, os). (p\<lparr>timer := Some delay_ping\<rparr>, os))
             (coroutine_run host sse junk now_too (p, os @ [Status (str ''** Connecting to '' @ addr)]))
      else None)"

text \<open>
  The timer. When the ping cannot be sent, the coroutine is woken up inside \<^verbatim>\<open>send\<close> and sets the timer, which is then set again.
\<close>

definition pingtime_cb :: "bool \<Rightarrow> bool \<Rightarrow> (nat \<Rightarrow> bytes) \<Rightarrow> happening list \<Rightarrow> run \<Rightarrow> run option" where
  "pingtime_cb host sse junk now_too r =
     (let (p, os) = r; p = p\<lparr>timer := None\<rparr> in
      if \<not> sock_open p then connect_real host sse junk now_too (p, os)
      else if ping_sent p then Some (pilot_connect 0 (put [Status (str ''** Connection timed out'')] (p, os)))
      else if \<not> online p then Some (disconnected (str ''** Connection timed out'') (p, os))
      else
        let (p, os) = send_line (str ''PING :1'') (p\<lparr>ping_sent := True\<rparr>, os)
        in Some (p\<lparr>timer := Some delay_ping\<rparr>, os))"

text \<open>An event comes with the fates of the sends it leads to, and with what happens at once to a new connection.\<close>

type_synonym pilot_input = "happening \<times> bool list \<times> happening list"

definition pilot_event :: "bool \<Rightarrow> bool \<Rightarrow> (nat \<Rightarrow> bytes) \<Rightarrow> pilot_input \<Rightarrow> pilot \<Rightarrow> run option" where
  "pilot_event host sse junk inp p =
     (let (e, fs, now_too) = inp; r = (p\<lparr>fates := fs\<rparr>, []) in
      case e of
        Timer \<Rightarrow> if timer p \<noteq> None then pingtime_cb host sse junk now_too r else None
      | User_send line \<Rightarrow> Some (send_line line r)
      | _ \<Rightarrow> coroutine host sse junk e r)"

definition activate :: "bool \<Rightarrow> bool \<Rightarrow> (nat \<Rightarrow> bytes) \<Rightarrow> bool list \<Rightarrow> happening list \<Rightarrow> pilot \<Rightarrow> run option" where
  "activate host sse junk fs now_too p = connect_real host sse junk now_too (p\<lparr>fates := fs\<rparr>, [])"

definition deactivate :: "pilot \<Rightarrow> pilot" where
  "deactivate p = p\<lparr>timer := None, main := Idle, sock_open := False\<rparr>"

subsection \<open>The line that joins the channels\<close>

definition keyed :: "(bytes \<times> bytes) list \<Rightarrow> (bytes \<times> bytes) list" where
  "keyed js = filter (\<lambda>(name, pass). pass \<noteq> []) js"

definition unkeyed :: "(bytes \<times> bytes) list \<Rightarrow> (bytes \<times> bytes) list" where
  "unkeyed js = filter (\<lambda>(name, pass). pass = []) js"

lemma concat_comma: "xs \<noteq> [] \<Longrightarrow> concat (map (\<lambda>x. comma_byte # x) xs) = comma_byte # join_between [comma_byte] xs"
proof (induction xs)
  case (Cons x xs)
  then show ?case by (cases "xs = []") (simp_all add: join_Cons)
qed simp

lemma concat_comma_end: "xs \<noteq> [] \<Longrightarrow> concat (map (\<lambda>x. x @ [comma_byte]) xs) = join_between [comma_byte] xs @ [comma_byte]"
proof (induction xs)
  case (Cons x xs)
  then show ?case by (cases "xs = []") (simp_all add: join_Cons)
qed simp

lemma join_lists_eq:
  "join_lists js = (concat (map (\<lambda>(n, p). comma_byte # n) (unkeyed js)), concat (map (\<lambda>(n, p). comma_byte # n) (keyed js)),
     blank # concat (map (\<lambda>(n, p). p @ [comma_byte]) (keyed js)))"
proof -
  have "foldl (\<lambda>(channels, passchannels, passwords) (name, pass).
       if pass \<noteq> [] then (channels, passchannels @ [comma_byte] @ name, passwords @ pass @ [comma_byte])
       else (channels @ [comma_byte] @ name, passchannels, passwords)) (a, b, c) js =
     (a @ concat (map (\<lambda>(n, p). comma_byte # n) (unkeyed js)), b @ concat (map (\<lambda>(n, p). comma_byte # n) (keyed js)),
       c @ concat (map (\<lambda>(n, p). p @ [comma_byte]) (keyed js)))" for a b c
    by (induction js arbitrary: a b c) (auto simp: keyed_def unkeyed_def)
  then show ?thesis by (simp add: join_lists_def)
qed

lemma substr_all_but_last: "s \<noteq> [] \<Longrightarrow> substr 0 to_last s = Some (butlast s)"
  by (cases s) (auto simp: substr_def realpos_def slice_def butlast_conv_take Let_def)

lemma join_line_eq:
  "join_line js =
     Some (if js = [] then None
       else Some (str ''JOIN '' @ join_between [comma_byte] (map fst (keyed js @ unkeyed js)) @
         (if keyed js = [] then [] else blank # join_between [comma_byte] (map snd (keyed js)))))"
proof (cases "js = []")
  case True
  then show ?thesis by (simp add: join_line_def join_lists_def)
next
  case False
  then have ne: "keyed js @ unkeyed js \<noteq> []" by (cases js) (auto simp: keyed_def unkeyed_def)
  have fstm: "map (\<lambda>(n, p). comma_byte # n) l = map (\<lambda>x. comma_byte # x) (map fst l)"
    and sndm: "map (\<lambda>(n, p). p @ [comma_byte]) l = map (\<lambda>x. x @ [comma_byte]) (map snd l)" for l :: "(bytes \<times> bytes) list"
    by (auto simp: case_prod_unfold)
  have "concat (map (\<lambda>(n, p). comma_byte # n) (keyed js)) @ concat (map (\<lambda>(n, p). comma_byte # n) (unkeyed js)) =
      comma_byte # join_between [comma_byte] (map fst (keyed js @ unkeyed js))"
    using concat_comma [of "map fst (keyed js @ unkeyed js)"] ne unfolding fstm by simp
  moreover have "substr 0 to_last (blank # concat (map (\<lambda>(n, p). p @ [comma_byte]) (keyed js))) =
      Some (if keyed js = [] then [] else blank # join_between [comma_byte] (map snd (keyed js)))"
    using concat_comma_end [of "map snd (keyed js)"] unfolding sndm by (cases "keyed js = []") (simp_all add: substr_all_but_last)
  moreover have "concat (map (\<lambda>(n, p). comma_byte # n) (unkeyed js)) \<noteq> [] \<or> concat (map (\<lambda>(n, p). comma_byte # n) (keyed js)) \<noteq> []"
    using calculation(1) by fastforce
  ultimately show ?thesis using False
    by (simp add: join_line_def join_lists_eq substr_tail del: str_simps)
qed

subsection \<open>While the coroutine runs\<close>

definition configured :: "pilot \<Rightarrow> bool" where
  "configured p \<longleftrightarrow> addresses p \<noteq> [] \<and> nicks p \<noteq> []"

definition sane :: "pilot \<Rightarrow> bool" where
  "sane p \<longleftrightarrow> configured p \<and> addressid p < length (addresses p) \<and> nickid p \<le> length (nicks p)"

text \<open>What running code preserves: nothing it has said is unsaid, and nobody else is woken up.\<close>

definition goes :: "run \<Rightarrow> run \<Rightarrow> bool" where
  "goes r r' \<longleftrightarrow>
     set (snd r) \<subseteq> set (snd r') \<and> addresses (fst r') = addresses (fst r) \<and> nicks (fst r') = nicks (fst r) \<and>
     main (fst r') = main (fst r) \<and> timer (fst r') = timer (fst r) \<and> (sane (fst r) \<longrightarrow> sane (fst r'))"

lemma goes_refl [simp]: "goes r r"
  by (simp add: goes_def)

lemma goes_trans [trans]: "goes r s \<Longrightarrow> goes s t \<Longrightarrow> goes r t"
  by (auto simp: goes_def)

lemma goes_put: "goes r (put os r)"
  by (auto simp: goes_def put_def)

lemma goes_idle: "goes r r' \<Longrightarrow> main (fst r) = Idle \<Longrightarrow> main (fst r') = Idle"
  by (simp add: goes_def)

lemma goes_send: "main (fst r) = Idle \<Longrightarrow> goes r (send_line l r)"
  by (auto simp: send_line_def goes_def put_def socket_failed_def sane_def configured_def Let_def split: list.splits)

lemma goes_sends: "main (fst r) = Idle \<Longrightarrow> goes r (fold send_line ls r)"
proof (induction ls arbitrary: r)
  case (Cons l ls)
  have "goes r (send_line l r)" using Cons.prems by (rule goes_send)
  moreover have "goes (send_line l r) (fold send_line ls (send_line l r))"
    using Cons.IH goes_idle [OF calculation Cons.prems] .
  ultimately show ?case using goes_trans by simp
qed simp

lemma goes_sasl: "main (fst r) = Idle \<Longrightarrow> goes r (send_sasl host r)"
  unfolding send_sasl_def Let_def by (rule if_split [THEN iffD2]) (simp only: goes_sends goes_refl simp_thms)

lemma goes_update:
  "goes r (p, os) \<Longrightarrow> sane p \<longrightarrow> sane p' \<Longrightarrow> addresses p' = addresses p \<Longrightarrow> nicks p' = nicks p \<Longrightarrow> main p' = main p \<Longrightarrow>
    timer p' = timer p \<Longrightarrow> goes r (p', os)"
  by (auto simp: goes_def)

lemma goes_reclaim: "reclaim_nick now parts r = Some r' \<Longrightarrow> main (fst r) = Idle \<Longrightarrow> goes r r'"
proof -
  assume run: "reclaim_nick now parts r = Some r'" and idle: "main (fst r) = Idle"
  have "r' = r \<or> (\<exists>p os. send_line (str ''NICK '' @ nicks (fst r) ! 0) r = (p, os) \<and> r' = (p\<lparr>reset_nick_before := 0\<rparr>, os))"
    using run unfolding reclaim_nick_def Let_def by (auto simp del: str_simps split: if_splits bind_splits prod.splits)
  then show ?thesis
    using goes_send [OF idle, of "str ''NICK '' @ nicks (fst r) ! 0"]
    by (auto simp del: str_simps simp: sane_def configured_def elim!: goes_update)
qed

lemma goes_registered: "on_registered r = Some r' \<Longrightarrow> main (fst r) = Idle \<Longrightarrow> goes r r'"
proof -
  assume run: "on_registered r = Some r'" and idle: "main (fst r) = Idle"
  obtain p os where r: "r = (p, os)" by (cases r)
  define r1 where "r1 = (p\<lparr>online := True, addressid := 0, nickid := 0\<rparr>, os)"
  have "goes r r1" by (auto simp: r r1_def goes_def sane_def configured_def)
  moreover have i1: "main (fst r1) = Idle" using idle by (simp add: r r1_def)
  have g2: "goes r1 (fold send_line (onconnect p) r1)" by (rule goes_sends [OF i1])
  have "r' = fold send_line (onconnect p) r1 \<or> (\<exists>l. r' = send_line l (fold send_line (onconnect p) r1))"
    using run unfolding r1_def by (auto simp: on_registered_def r Let_def split: option.splits)
  then have "goes (fold send_line (onconnect p) r1) r'" using goes_send [OF goes_idle [OF g2 i1]] by auto
  ultimately show ?thesis using g2 goes_trans by blast
qed

lemma goes_nick_used: "on_nick_used now rnd r = Some r' \<Longrightarrow> main (fst r) = Idle \<Longrightarrow> goes r r'"
proof -
  assume run: "on_nick_used now rnd r = Some r'" and idle: "main (fst r) = Idle"
  obtain p os where r: "r = (p, os)" by (cases r)
  obtain l r1 where r1: "goes r r1" "main (fst r1) = Idle" "r' = (\<lambda>(p, os). (p\<lparr>reset_nick_before := now + 600\<rparr>, os)) (send_line l r1)"
  proof (cases "nickid p = length (nicks p)")
    case True
    then have "r' = (\<lambda>(p, os). (p\<lparr>reset_nick_before := now + 600\<rparr>, os))
        (send_line (str ''NICK '' @ nicks p ! 0 @ tostring_ptr_unsigned 4 (ucast rnd)) r)"
      using run by (auto simp: on_nick_used_def r Let_def simp del: str_simps split: if_splits)
    then show ?thesis using that [of r] idle by simp
  next
    case False
    have "goes r (p\<lparr>nickid := nickid p + 1\<rparr>, os)" if "nickid p < length (nicks p)"
      using that by (auto simp: r goes_def sane_def configured_def)
    moreover have "nickid p < length (nicks p)" "r' = (\<lambda>(p, os). (p\<lparr>reset_nick_before := now + 600\<rparr>, os))
        (send_line (str ''NICK '' @ nicks p ! nickid p) (p\<lparr>nickid := nickid p + 1\<rparr>, os))"
      using False run by (auto simp: on_nick_used_def r Let_def simp del: str_simps split: if_splits)
    ultimately show ?thesis using that [of "(p\<lparr>nickid := nickid p + 1\<rparr>, os)"] idle by (simp add: r)
  qed
  obtain p2 os2 where p2: "send_line l r1 = (p2, os2)" by (cases "send_line l r1")
  have "goes r1 (p2, os2)" using goes_send [OF r1(2), of l] p2 by simp
  then have "goes r1 (p2\<lparr>reset_nick_before := now + 600\<rparr>, os2)" by (rule goes_update) (simp_all add: sane_def configured_def)
  then show ?thesis using r1(1) goes_trans by (auto simp: r1(3) p2)
qed

lemma goes_ctcp: "on_ctcp parts r = Some r' \<Longrightarrow> main (fst r) = Idle \<Longrightarrow> goes r r'"
proof -
  assume "on_ctcp parts r = Some r'" and idle: "main (fst r) = Idle"
  then have "r' = r \<or> (\<exists>l. r' = send_line l r)"
    by (auto simp: on_ctcp_def Let_def simp del: str_simps split: bind_splits if_splits)
  then show ?thesis using goes_send [OF idle] by auto
qed

lemma goes_command: "pilot_command now rnd line parts r = Some r' \<Longrightarrow> main (fst r) = Idle \<Longrightarrow> goes r r'"
proof -
  assume run: "pilot_command now rnd line parts r = Some r'" and idle: "main (fst r) = Idle"
  let ?parent = "put [To_parent line parts]" and ?cmd = "padded parts 1"
  show ?thesis
  proof (cases "?cmd = str ''PING''")
    case True
    then have "r' = ?parent (send_line (str ''PONG :'' @ padded parts 2) r)" using run by (simp add: pilot_command_def del: str_simps)
    then show ?thesis using goes_trans [OF goes_send [OF idle] goes_put] by simp
  next
    case ping: False
    show ?thesis
    proof (cases "?cmd = str ''PONG''")
      case True
      then have "r' = ?parent ((fst r)\<lparr>ping_sent := False\<rparr>, snd r)" using run by (simp add: pilot_command_def)
      moreover have "goes r ((fst r)\<lparr>ping_sent := False\<rparr>, snd r)" by (simp add: goes_def sane_def configured_def)
      ultimately show ?thesis using goes_trans [OF _ goes_put] by blast
    next
      case pong: False
      show ?thesis
      proof (cases "(?cmd = str ''001'' \<or> ?cmd = str ''433'') \<and> \<not> online (fst r)")
        case True
        then have "map_option ?parent (on_registered r) = Some r' \<or> map_option ?parent (on_nick_used now rnd r) = Some r'"
          using run by (auto simp: pilot_command_def simp del: map_option_eq_Some)
        then obtain r1 where "on_registered r = Some r1 \<or> on_nick_used now rnd r = Some r1" "r' = ?parent r1"
          unfolding map_option_eq_Some by blast
        then show ?thesis using goes_trans [OF _ goes_put] goes_registered [OF _ idle] goes_nick_used [OF _ idle] by blast
      next
        case False
        then have "on_ctcp parts r = Some r' \<or> r' = ?parent r"
          using run ping pong unfolding pilot_command_def Let_def by (auto simp del: str_simps split: if_split_asm)
        then show ?thesis using goes_ctcp [OF _ idle] goes_put by blast
      qed
    qed
  qed
qed

lemma goes_ircline: "pilot_ircline host sse junk now rnd line r = Some r' \<Longrightarrow> main (fst r) = Idle \<Longrightarrow> goes r r'"
  unfolding pilot_ircline_def
  by (auto split: bind_splits dest!: goes_reclaim goes_command intro: goes_trans goes_idle)

subsection \<open>Between events\<close>

definition settled :: "pilot \<Rightarrow> bool" where
  "settled p \<longleftrightarrow> sane p \<and> (sock_open p \<longleftrightarrow> main p = Receiving) \<and> (online p \<longrightarrow> sock_open p)"

definition timed :: "pilot \<Rightarrow> bool" where
  "timed p \<longleftrightarrow> (\<exists>t. timer p = Some t \<and> t \<le> delay_ping)"

text \<open>The coroutine went on until it waits again or has ended.\<close>

definition rests :: "run \<Rightarrow> run \<Rightarrow> bool" where
  "rests r r' \<longleftrightarrow>
     set (snd r) \<subseteq> set (snd r') \<and> addresses (fst r') = addresses (fst r) \<and> (sane (fst r) \<longrightarrow> settled (fst r')) \<and>
     (timed (fst r) \<longrightarrow> timed (fst r'))"

lemma rests_after: "goes r s \<Longrightarrow> rests s t \<Longrightarrow> rests r t"
  by (auto simp: goes_def rests_def timed_def)

lemma delays: "delay_reconnect \<le> delay_ping"
  by (simp add: delay_reconnect_def delay_ping_def)

lemma rests_disconnected:
  "rests r (disconnected reason r)" "d \<le> delay_ping \<Longrightarrow> rests r (pilot_connect d r)"
  "\<not> sock_open (fst (disconnected reason r))" "\<not> sock_open (fst (pilot_connect d r))"
  "addressid (fst (disconnected reason r)) = addressid (fst r)" "addressid (fst (pilot_connect d r)) = addressid (fst r)"
  using delays
  by (auto simp: rests_def disconnected_def pilot_connect_def disconnected_inner_def socket_failed_def conn_broken_def put_def
      settled_def sane_def configured_def timed_def Let_def)

lemma rests_await: "main (fst r) = Idle \<Longrightarrow> rests r (await_line r)"
  using rests_disconnected(1) by (auto simp: await_line_def) (auto simp: rests_def settled_def sane_def configured_def timed_def)

lemma rests_created: "socket_created host ok r = Some r' \<Longrightarrow> main (fst r) = Idle \<Longrightarrow> rests r r'"
proof (cases ok)
  case False
  assume "socket_created host ok r = Some r'"
  then have "r' = disconnected (str ''** Couldn''@[39]@str ''t connect'') r"
    using False by (simp add: socket_created_def case_prod_unfold del: str_simps)
  then show ?thesis using rests_disconnected(1) by (simp del: str_simps)
next
  case True
  assume run: "socket_created host ok r = Some r'" and idle: "main (fst r) = Idle"
  let ?r0 = "((fst r)\<lparr>sock_open := True, ping_sent := False\<rparr>, snd r @ [Status (str ''** Connected to '' @ cur_addr (fst r))])"
  obtain p1 os1 where s1: "send_sasl host ?r0 = (p1, os1)" by (cases "send_sasl host ?r0")
  have g0: "goes r ?r0" by (auto simp: goes_def sane_def configured_def)
  have g1: "goes ?r0 (p1, os1)" using goes_sasl [of ?r0 host] idle s1 by simp
  have n: "nicks p1 \<noteq> []" using run True s1 by (auto simp: socket_created_def simp del: str_simps split: prod.splits if_splits)
  have g2: "goes (p1, os1) (p1\<lparr>nickid := 1\<rparr>, os1)" using n by (auto simp: goes_def sane_def configured_def Suc_le_eq)
  have i2: "main (fst (p1\<lparr>nickid := 1\<rparr>, os1)) = Idle" using goes_idle [OF goes_trans [OF g0 goes_trans [OF g1 g2]] idle] .
  obtain p3 os3 where s3: "send_line (str ''NICK '' @ nicks p1 ! 0) (p1\<lparr>nickid := 1\<rparr>, os1) = (p3, os3)" by fastforce
  have g3: "goes (p1\<lparr>nickid := 1\<rparr>, os1) (p3, os3)" using goes_send [OF i2, of "str ''NICK '' @ nicks p1 ! 0"] s3 by simp
  obtain p4 os4 where s4: "send_line (str ''USER '' @ ident p3 @ str '' a a :'' @ realname p3) (p3, os3) = (p4, os4)" by fastforce
  have g4: "goes (p3, os3) (p4, os4)"
    using goes_send [OF goes_idle [OF g3 i2], of "str ''USER '' @ ident p3 @ str '' a a :'' @ realname p3"] s4 by simp
  have "goes (p3, os3) (p4\<lparr>reset_nick_before := 0\<rparr>, os4)" by (rule goes_update [OF g4]) (simp_all add: sane_def configured_def)
  then have all: "goes r (p4\<lparr>reset_nick_before := 0\<rparr>, os4)" using g0 g1 g2 g3 goes_trans by blast
  have "r' = await_line (p4\<lparr>reset_nick_before := 0\<rparr>, os4)"
    using run True s1 n s3 s4 by (simp add: socket_created_def case_prod_unfold Let_def del: str_simps)
  then show ?thesis using rests_after [OF all rests_await [OF goes_idle [OF all idle]]] by simp
qed

lemma rests_coroutine: "coroutine host sse junk e r = Some r' \<Longrightarrow> rests r r'"
proof -
  let ?r = "((fst r)\<lparr>main := Idle\<rparr>, snd r)"
  assume run: "coroutine host sse junk e r = Some r'"
  have "rests ?r r'"
  proof (cases e)
    case (Created ok)
    then show ?thesis using run rests_created [of host ok ?r r'] by (simp add: coroutine_def split: if_splits)
  next
    case (Received now rnd line)
    show ?thesis
    proof (cases "line = []")
      case True
      then have "r' = disconnected (str ''** Connection broken'') ?r"
        using run by (simp add: coroutine_def Received Let_def del: str_simps split: if_splits)
      then show ?thesis using rests_disconnected(1) by (simp del: str_simps)
    next
      case False
      then obtain r1 where r1: "pilot_ircline host sse junk now rnd (trim_line line) ?r = Some r1" "r' = await_line r1"
        using run by (auto simp: coroutine_def Received Let_def split: if_splits)
      have g: "goes ?r r1" using goes_ircline [OF r1(1)] by simp
      then show ?thesis using rests_after [OF g rests_await [OF goes_idle [OF g]]] r1(2) by simp
    qed
  qed (use run in \<open>simp_all add: coroutine_def\<close>)
  then show ?thesis by (auto simp: rests_def sane_def configured_def timed_def)
qed

lemma rests_coroutine_run:
  "coroutine_run host sse junk es r = Some r' \<Longrightarrow> settled (fst r) \<Longrightarrow>
    settled (fst r') \<and> set (snd r) \<subseteq> set (snd r') \<and> addresses (fst r') = addresses (fst r)"
proof (induction es arbitrary: r)
  case (Cons e es)
  then obtain r1 where r1: "coroutine host sse junk e r = Some r1" "coroutine_run host sse junk es r1 = Some r'"
    by (auto split: bind_splits)
  have "rests r r1" by (rule rests_coroutine [OF r1(1)])
  then show ?case using Cons.IH [OF r1(2)] Cons.prems(2) by (auto simp: rests_def settled_def)
qed simp

lemma connect_real_ok:
  assumes "sane p" "\<not> sock_open p" "\<not> online p" "connect_real host sse junk now_too (p, os) = Some (p', os')"
  shows "settled p' \<and> timed p' \<and> addresses p' = addresses p \<and> set os \<subseteq> set os' \<and>
    Status (str ''** Connecting to '' @ addresses p ! addressid p) \<in> set os'"
proof -
  let ?p = "p\<lparr>cur_addr := addresses p ! addressid p, addressid := (addressid p + 1) mod length (addresses p), main := Connecting\<rparr>"
  let ?os = "os @ [Status (str ''** Connecting to '' @ addresses p ! addressid p)]"
  have "addressid p < length (addresses p)" using assms(1) by (simp add: sane_def)
  then obtain p1 os1 where run: "coroutine_run host sse junk now_too (?p, ?os) = Some (p1, os1)"
    "p' = p1\<lparr>timer := Some delay_ping\<rparr>" "os' = os1"
    using assms(4) by (auto simp: connect_real_def Let_def simp del: str_simps)
  have "settled ?p" using assms(1-3) by (auto simp: settled_def sane_def configured_def)
  then have "settled p1" "set ?os \<subseteq> set os1" "addresses p1 = addresses p" using rests_coroutine_run [OF run(1)] by simp_all
  then show ?thesis using run(2,3) by (auto simp: settled_def sane_def configured_def timed_def)
qed

lemma connect_real_total: "sane p \<Longrightarrow> \<exists>r. connect_real host sse junk [] (p, os) = Some r"
  by (simp add: connect_real_def sane_def Let_def)

subsection \<open>The state machine\<close>

definition pilot_ok :: "pilot \<Rightarrow> bool" where
  "pilot_ok p \<longleftrightarrow> settled p \<and> timed p"

inductive pilot_reachable :: "bool \<Rightarrow> bool \<Rightarrow> (nat \<Rightarrow> bytes) \<Rightarrow> pilot \<Rightarrow> bool" for host sse junk where
  activated: "configured p \<Longrightarrow> addressid p = 0 \<Longrightarrow> nickid p = 0 \<Longrightarrow> \<not> sock_open p \<Longrightarrow> \<not> online p \<Longrightarrow>
    activate host sse junk fs now_too p = Some (p', os) \<Longrightarrow> pilot_reachable host sse junk p'"
| step: "pilot_reachable host sse junk p \<Longrightarrow> pilot_event host sse junk inp p = Some (p', os) \<Longrightarrow> pilot_reachable host sse junk p'"

lemma rests_user_send: "settled (fst r) \<Longrightarrow> rests r (send_line l r)"
proof (cases "main (fst r) = Receiving")
  case True
  assume "settled (fst r)"
  then show ?thesis using delays
    by (auto simp: rests_def send_line_def put_def socket_failed_def conn_broken_def settled_def sane_def configured_def timed_def Let_def
        simp del: str_simps split: list.splits)
next
  case False
  assume "settled (fst r)"
  then have "\<not> sock_open (fst r)" using False by (simp add: settled_def)
  then show ?thesis using \<open>settled (fst r)\<close> by (simp add: send_line_def rests_def)
qed

text \<open>How many more times the timer has to fire before the next attempt to connect.\<close>

definition timers_left :: "pilot \<Rightarrow> nat" where
  "timers_left p = (if \<not> sock_open p then 1 else if ping_sent p \<or> \<not> online p then 2 else 3)"

lemma timer_step:
  assumes ok: "pilot_ok p" and run: "pilot_event host sse junk (Timer, fs, now_too) p = Some (p', os)"
  shows "pilot_ok p' \<and> addresses p' = addresses p \<and>
    (if timers_left p = 1 then Status (str ''** Connecting to '' @ addresses p ! addressid p) \<in> set os
     else timers_left p' < timers_left p \<and> addressid p' = addressid p)"
proof -
  let ?p = "p\<lparr>fates := fs, timer := None\<rparr>"
  obtain t where t: "timer p = Some t" using ok by (auto simp: pilot_ok_def timed_def)
  have p: "sane ?p" "sock_open p = (main p = Receiving)" "online p \<longrightarrow> sock_open p"
    using ok by (auto simp: pilot_ok_def settled_def sane_def configured_def)
  consider (closed) "\<not> sock_open p" | (silent) "sock_open p" "ping_sent p" | (slow) "sock_open p" "\<not> ping_sent p" "\<not> online p"
    | (alive) "sock_open p" "\<not> ping_sent p" "online p" by blast
  then show ?thesis
  proof cases
    case closed
    then have "connect_real host sse junk now_too (?p, []) = Some (p', os)"
      using run t by (simp add: pilot_event_def pingtime_cb_def Let_def)
    then show ?thesis using connect_real_ok [OF p(1)] closed p(3) by (simp add: pilot_ok_def timers_left_def del: str_simps)
  next
    case silent
    let ?r = "put [Status (str ''** Connection timed out'')] (?p, [])"
    have r: "(p', os) = pilot_connect 0 ?r" using silent run t by (simp add: pilot_event_def pingtime_cb_def Let_def del: str_simps)
    have "timed p'" using r by (auto simp: pilot_connect_def timed_def split: prod.splits)
    then show ?thesis
      using rests_disconnected(2,4,6) [where d = 0 and r = ?r] p(1) silent unfolding r [symmetric]
      by (simp add: pilot_ok_def rests_def put_def timers_left_def del: str_simps)
  next
    case slow
    let ?r = "(?p, []) :: run"
    have r: "(p', os) = disconnected (str ''** Connection timed out'') ?r"
      using slow run t by (simp add: pilot_event_def pingtime_cb_def Let_def del: str_simps)
    have "timed p'" using r delays by (auto simp: disconnected_def pilot_connect_def timed_def simp del: str_simps split: prod.splits)
    then show ?thesis
      using rests_disconnected(1,3,5) [where r = ?r and reason = "str ''** Connection timed out''"] p(1) slow unfolding r [symmetric]
      by (simp add: pilot_ok_def rests_def timers_left_def del: str_simps)
  next
    case alive
    let ?r = "(?p\<lparr>ping_sent := True\<rparr>, []) :: run"
    obtain p1 os1 where s: "send_line (str ''PING :1'') ?r = (p1, os1)" by (cases "send_line (str ''PING :1'') ?r")
    have p': "p' = p1\<lparr>timer := Some delay_ping\<rparr>"
      using alive run t s by (simp add: pilot_event_def pingtime_cb_def Let_def del: str_simps)
    have "settled ?p" "settled (fst ?r)" using ok by (auto simp: pilot_ok_def settled_def sane_def configured_def)
    have "rests ?r (p1, os1)" using rests_user_send [OF \<open>settled (fst ?r)\<close>] s by metis
    then have "settled p1" "addresses p1 = addresses p" using \<open>settled (fst ?r)\<close> by (auto simp: rests_def settled_def)
    moreover have "addressid p1 = addressid p" "sock_open p1 \<longrightarrow> ping_sent p1"
      using s by (auto simp: send_line_def put_def socket_failed_def conn_broken_def Let_def simp del: str_simps split: list.splits if_splits)
    ultimately show ?thesis
      using alive unfolding p' by (auto simp: pilot_ok_def settled_def sane_def configured_def timed_def timers_left_def)
  qed
qed

lemma timer_total:
  assumes "pilot_ok p"
  shows "\<exists>r. pilot_event host sse junk (Timer, fs, []) p = Some r"
proof -
  obtain t where t: "timer p = Some t" using assms by (auto simp: pilot_ok_def timed_def)
  have "sane (p\<lparr>fates := fs, timer := None\<rparr>)" using assms by (simp add: pilot_ok_def settled_def sane_def configured_def)
  then show ?thesis
    using connect_real_total [of "p\<lparr>fates := fs, timer := None\<rparr>" host sse junk "[]"] t
    by (auto simp: pilot_event_def pingtime_cb_def Let_def split: prod.split)
qed

lemma pilot_event_ok:
  assumes ok: "pilot_ok p" and run: "pilot_event host sse junk inp p = Some (p', os)"
  shows "pilot_ok p'"
proof -
  obtain e fs now_too where inp: "inp = (e, fs, now_too)" by (cases inp)
  have c: "settled (p\<lparr>fates := fs\<rparr>)" "sane (p\<lparr>fates := fs\<rparr>)" "timed (p\<lparr>fates := fs\<rparr>)"
    using ok by (auto simp: pilot_ok_def settled_def sane_def configured_def timed_def)
  have "coroutine host sse junk e (p\<lparr>fates := fs\<rparr>, []) = Some (p', os) \<Longrightarrow> ?thesis"
    using rests_coroutine c by (fastforce simp: rests_def pilot_ok_def)
  moreover have "Some (send_line l (p\<lparr>fates := fs\<rparr>, [])) = Some (p', os) \<Longrightarrow> ?thesis" for l
    using rests_user_send [where r = "(p\<lparr>fates := fs\<rparr>, [])" and l = l] c by (auto simp: rests_def pilot_ok_def)
  ultimately show ?thesis using timer_step [OF ok] run by (cases e) (auto simp: pilot_event_def inp)
qed

lemma reachable_ok: "pilot_reachable host sse junk p \<Longrightarrow> pilot_ok p"
proof (induction rule: pilot_reachable.induct)
  case (activated p fs now_too p' os)
  let ?p = "p\<lparr>fates := fs\<rparr>"
  have "sane ?p" "\<not> sock_open ?p" "\<not> online ?p" using activated by (simp_all add: sane_def configured_def)
  then show ?case using connect_real_ok [of ?p] activated(6) unfolding activate_def pilot_ok_def by blast
next
  case (step p inp p' os)
  then show ?case using pilot_event_ok by blast
qed

fun pilot_run :: "bool \<Rightarrow> bool \<Rightarrow> (nat \<Rightarrow> bytes) \<Rightarrow> pilot_input list \<Rightarrow> run \<Rightarrow> run option" where
  "pilot_run host sse junk [] r = Some r"
| "pilot_run host sse junk (e # es) r =
     Option.bind (pilot_event host sse junk e (fst r)) (\<lambda>(p, os). pilot_run host sse junk es (p, snd r @ os))"

lemma pilot_run_grows: "pilot_run host sse junk es r = Some r' \<Longrightarrow> set (snd r) \<subseteq> set (snd r')"
  by (induction es arbitrary: r) (fastforce split: bind_splits)+

lemma timers_connect:
  assumes "pilot_ok p" "timers_left p \<le> length es" "\<forall>e \<in> set es. fst e = Timer"
    and "pilot_run host sse junk es (p, os) = Some (p', os')"
  shows "Status (str ''** Connecting to '' @ addresses p ! addressid p) \<in> set os'"
  using assms
proof (induction es arbitrary: p os)
  case Nil
  then show ?case by (simp add: timers_left_def split: if_splits)
next
  case (Cons e es)
  obtain fs now_too where e: "e = (Timer, fs, now_too)" using Cons.prems(3) by (cases e) auto
  obtain p1 os1 where one: "pilot_event host sse junk (Timer, fs, now_too) p = Some (p1, os1)"
    and run: "pilot_run host sse junk es (p1, os @ os1) = Some (p', os')"
    using Cons.prems(4) by (auto simp: e split: bind_splits)
  note st = timer_step [OF Cons.prems(1) one]
  show ?case
  proof (cases "timers_left p = 1")
    case True
    then have "Status (str ''** Connecting to '' @ addresses p ! addressid p) \<in> set os1" using st by (simp only: if_True)
    then show ?thesis using pilot_run_grows [OF run] by (auto simp del: str_simps)
  next
    case False
    then have "timers_left p1 < timers_left p" "addressid p1 = addressid p" using st by (simp_all only: if_False)
    then show ?thesis using Cons.IH [of p1 "os @ os1", OF _ _ _ run] st Cons.prems(2,3) by (simp del: str_simps)
  qed
qed

lemma timers_total: "pilot_ok p \<Longrightarrow> \<exists>r. pilot_run host sse junk (map (\<lambda>fs. (Timer, fs, [])) fss) (p, os) = Some r"
proof (induction fss arbitrary: p os)
  case (Cons fs fss)
  obtain p1 os1 where one: "pilot_event host sse junk (Timer, fs, []) p = Some (p1, os1)"
    using timer_total [OF Cons.prems] by fastforce
  then show ?case using Cons.IH [of p1 "os @ os1"] timer_step [OF Cons.prems one] by simp
qed simp


definition sample_pilot :: pilot where
  "sample_pilot =
     \<lparr>autojoins = [(str ''#a'', []), (str ''#b'', str ''k'')], addresses = [str ''a.org'', str ''b.org''], addressid = 0, nicks = [str ''me''],
       nickid = 0, reset_nick_before = 0, ident = str ''i'', realname = str ''r'', sasl = [], onconnect = [], cur_addr = [],
       sock_open = False, main = Idle, ping_sent = False, online = False, timer = None, fates = []\<rparr>"


end
