(* ===== verification/Spec2Isabelle.thy ===== *)
theory Spec2Isabelle
  imports Endian Bytestream Global Bytepipe Hash_Map Array_Sort Fifo Bitarray Utf8_Correct Glob Strings Str_Compare
  Stringconv Base64 Json_Roundtrip Irc_Ui Irc_Format Irc_Pilot
begin

text \<open>
  Header.
\<close>

end
